(* ===== verification/Prelude.thy ===== *)
theory Prelude
  imports Main "HOL-Library.Word"
begin

text \<open>
  Shared vocabulary of the PolyORB development: octets, the results of Ada and C code that can
  fail, and the generic lemmas on lists, characters and words that the component theories use.

  An Ada subprogram that can raise returns \<open>ada_error + 'a\<close>; \<open>Inl\<close> carries the exception.
  The sum is threaded with \<open>on_ok\<close>, which stops at the first exception as the language does.
\<close>

named_theorems result_simps \<open>case analysis on results of fallible code\<close>

type_synonym byte = "8 word"

text \<open>The exceptions that the modelled Ada code raises, or that the language raises for it.\<close>

datatype ada_error = Constraint_Error | Program_Error | Assert_Failure | Erroneous_Access | End_Error

type_synonym 'a result = "ada_error + 'a"

fun on_ok :: "'e + 'a \<Rightarrow> ('a \<Rightarrow> 'e + 'b) \<Rightarrow> 'e + 'b" where
  "on_ok (Inl e) f = Inl e"
| "on_ok (Inr x) f = f x"

lemma on_ok_eq_Inr [result_simps]: "on_ok r f = Inr y \<longleftrightarrow> (\<exists>x. r = Inr x \<and> f x = Inr y)"
  by (cases r) auto

lemma on_ok_eq_Inl [result_simps]: "on_ok r f = Inl e \<longleftrightarrow> r = Inl e \<or> (\<exists>x. r = Inr x \<and> f x = Inl e)"
  by (cases r) auto

lemma on_ok_assoc: "on_ok (on_ok r f) g = on_ok r (\<lambda>x. on_ok (f x) g)"
  by (cases r) auto

lemma on_ok_cong [fundef_cong]:
  "r = r' \<Longrightarrow> (\<And>x. r' = Inr x \<Longrightarrow> f x = g x) \<Longrightarrow> on_ok r f = on_ok r' g"
  by (cases r) auto

text \<open>A run-time check: \<open>pragma Assert\<close> or a range check.\<close>

definition check :: "'e \<Rightarrow> bool \<Rightarrow> 'e + unit" where
  "check e b = (if b then Inr () else Inl e)"

lemma check_simps [simp]: "check e True = Inr ()" "check e False = Inl e"
  by (simp_all add: check_def)

lemma check_eq_Inr [result_simps]: "check e b = Inr u \<longleftrightarrow> b"
  by (simp add: check_def)

lemma check_eq_Inl [result_simps]: "check e b = Inl e' \<longleftrightarrow> \<not> b \<and> e' = e"
  by (auto simp: check_def)

section \<open>Ada's predefined integer types\<close>

definition Integer_First :: int where "Integer_First = - (2 ^ 31)"
definition Integer_Last :: int where "Integer_Last = 2 ^ 31 - 1"

definition to_Integer :: "int \<Rightarrow> int result" where
  "to_Integer n = (if Integer_First \<le> n \<and> n \<le> Integer_Last then Inr n else Inl Constraint_Error)"

definition to_Natural :: "int \<Rightarrow> int result" where
  "to_Natural n = (if 0 \<le> n \<and> n \<le> Integer_Last then Inr n else Inl Constraint_Error)"

lemma to_Natural_Inr [result_simps]: "to_Natural n = Inr m \<longleftrightarrow> m = n \<and> 0 \<le> n \<and> n \<le> Integer_Last"
  by (auto simp: to_Natural_def)

section \<open>Lists and words\<close>

lemma unat_byte_less [simp]: "unat (b :: byte) < 256"
  using unsigned_less [of b] by simp

lemma of_char_byte_less [simp]: "(of_char c :: nat) < 256"
  by simp

lemma take_drop_append_exact:
  "length xs = n \<Longrightarrow> take m (drop n (xs @ ys)) = take m ys"
  by simp

lemma map_update_unchanged: "g (f (xs ! k)) = g (xs ! k) \<Longrightarrow> map g (xs[k := f (xs ! k)]) = map g xs"
  by (cases "k < length xs") (simp_all add: map_update list_update_same_conv list_update_beyond)

lemma uint_neq_minus_1 [simp]: "uint w \<noteq> -1"
  by (metis neg_0_le_iff_le not_one_le_zero uint_ge_0)

end
