(* ===== verification/Iovec_Pools.thy ===== *)
theory Iovec_Pools
  imports Prelude
begin

text \<open>
  The storage of marshalling buffers: chunks of memory
  (\<open>src/src/polyorb-opaque-chunk_pools.adb\<close>) and the sequence of memory areas that holds the contents
  of a buffer (package \<open>Iovec_Pools\<close> of \<open>src/src/polyorb-buffers.adb\<close>).

  Memory is a sequence of zones of octets; an address is an offset within a zone. Reading or writing
  outside a zone is erroneous, and so is what the code does there: the model makes it an error. The
  octets of a zone that has just been allocated are unknown; they all have the value \<open>garbage\<close> of
  the memory.
\<close>

section \<open>Memory\<close>

datatype Opaque_Pointer = Null_Address | At nat int

record memory =
  zones :: "byte list list"
  garbage :: byte

fun address_plus :: "Opaque_Pointer \<Rightarrow> int \<Rightarrow> Opaque_Pointer" where
  "address_plus Null_Address n = Null_Address"
| "address_plus (At z i) n = At z (i + n)"

definition Is_Null :: "Opaque_Pointer \<Rightarrow> bool" where
  "Is_Null p \<longleftrightarrow> p = Null_Address"

definition in_zone :: "memory \<Rightarrow> nat \<Rightarrow> int \<Rightarrow> int \<Rightarrow> bool" where
  "in_zone M z i n \<longleftrightarrow> z < length (zones M) \<and> 0 \<le> i \<and> 0 \<le> n \<and> i + n \<le> int (length (zones M ! z))"

text \<open>An array overlaid on an address, read and assigned.\<close>

fun peek_mem :: "memory \<Rightarrow> Opaque_Pointer \<Rightarrow> int \<Rightarrow> byte list result" where
  "peek_mem M Null_Address n = Inl Erroneous_Access"
| "peek_mem M (At z i) n =
     (if in_zone M z i n then Inr (take (nat n) (drop (nat i) (zones M ! z))) else Inl Erroneous_Access)"

definition overwrite :: "byte list \<Rightarrow> nat \<Rightarrow> byte list \<Rightarrow> byte list" where
  "overwrite zn i bs = take i zn @ bs @ drop (i + length bs) zn"

fun poke_mem :: "memory \<Rightarrow> Opaque_Pointer \<Rightarrow> byte list \<Rightarrow> memory result" where
  "poke_mem M Null_Address bs = Inl Erroneous_Access"
| "poke_mem M (At z i) bs =
     (if in_zone M z i (int (length bs)) then Inr (M\<lparr>zones := (zones M)[z := overwrite (zones M ! z) (nat i) bs]\<rparr>)
      else Inl Erroneous_Access)"

definition new_zone :: "memory \<Rightarrow> int \<Rightarrow> nat \<times> memory" where
  "new_zone M n = (length (zones M), M\<lparr>zones := zones M @ [replicate (nat n) (garbage M)]\<rparr>)"

section \<open>Chunk pools\<close>

text \<open>The index of a chunk in \<open>chunks\<close> is the access value; index 0 is \<open>Prealloc\<close>.\<close>

record Chunk =
  Chunk_Zone :: nat
  Chunk_Size :: int
  Last_Used :: int

record Pool_Type =
  chunks :: "Chunk list"
  Prealloc_Used :: bool
  Dynamic_Chunks :: "nat list"

definition Default_Chunk_Size :: int where
  "Default_Chunk_Size = 512"

definition Allocate :: "memory \<Rightarrow> Pool_Type \<Rightarrow> int \<Rightarrow> nat \<times> memory \<times> Pool_Type" where
  "Allocate M Pool n =
     (let Allocation_Size = (if n \<le> Default_Chunk_Size then Default_Chunk_Size else n) in
      if Allocation_Size = Default_Chunk_Size \<and> \<not> Prealloc_Used Pool
      then (0, M, Pool\<lparr>Prealloc_Used := True\<rparr>)
      else let (z, M) = new_zone M Allocation_Size; c = length (chunks Pool) in
        (c, M, Pool\<lparr>chunks := chunks Pool @ [\<lparr>Chunk_Zone = z, Chunk_Size = Allocation_Size, Last_Used = 0\<rparr>],
                    Dynamic_Chunks := Dynamic_Chunks Pool @ [c]\<rparr>))"

definition Chunk_Storage :: "Pool_Type \<Rightarrow> nat \<Rightarrow> Opaque_Pointer" where
  "Chunk_Storage Pool c = At (Chunk_Zone (chunks Pool ! c)) 0"

definition Release_Chunks :: "Pool_Type \<Rightarrow> Pool_Type" where
  "Release_Chunks Pool = Pool\<lparr>Dynamic_Chunks := [], Prealloc_Used := False\<rparr>"

section \<open>Iovec pools\<close>

record Iovec =
  Iov_Base :: Opaque_Pointer
  Iov_Len :: int

definition no_iovec :: Iovec where
  "no_iovec = \<lparr>Iov_Base = Null_Address, Iov_Len = 0\<rparr>"

record Iovec_Pool_Type =
  Prealloc_Array :: "Iovec list"
  Dynamic_Array :: "Iovec list option"
  Pool_Length :: nat
  Pool_Last :: nat
  Last_Chunk :: "nat option"
  Last_Extract_Iovec :: nat
  Last_Extract_Iovec_Offset :: int

definition Prealloc_Size :: nat where
  "Prealloc_Size = 8"

definition New_Iovec_Pool :: Iovec_Pool_Type where
  "New_Iovec_Pool = \<lparr>Prealloc_Array = replicate Prealloc_Size no_iovec, Dynamic_Array = None, Pool_Length = Prealloc_Size,
     Pool_Last = 0, Last_Chunk = None, Last_Extract_Iovec = 1, Last_Extract_Iovec_Offset = 0\<rparr>"

definition Is_Dynamic :: "Iovec_Pool_Type \<Rightarrow> bool" where
  "Is_Dynamic P \<longleftrightarrow> Dynamic_Array P \<noteq> None"

text \<open>The array at \<open>Iovecs_Address\<close>; \<open>Vecs (1 .. Last)\<close> and an assignment to one of its components.\<close>

definition Iovecs :: "Iovec_Pool_Type \<Rightarrow> Iovec list" where
  "Iovecs P = (case Dynamic_Array P of Some a \<Rightarrow> a | None \<Rightarrow> Prealloc_Array P)"

definition Vecs :: "Iovec_Pool_Type \<Rightarrow> Iovec list" where
  "Vecs P = take (Pool_Last P) (Iovecs P)"

definition set_iovec :: "Iovec_Pool_Type \<Rightarrow> nat \<Rightarrow> Iovec \<Rightarrow> Iovec_Pool_Type" where
  "set_iovec P i v = (case Dynamic_Array P of
       Some a \<Rightarrow> P\<lparr>Dynamic_Array := Some (a[i - 1 := v])\<rparr>
     | None \<Rightarrow> P\<lparr>Prealloc_Array := (Prealloc_Array P)[i - 1 := v]\<rparr>)"

definition Extend :: "Iovec_Pool_Type \<Rightarrow> nat \<Rightarrow> nat \<Rightarrow> Iovec_Pool_Type result" where
  "Extend P Require Alloc =
     on_ok (check Assert_Failure (Require \<le> Alloc)) (\<lambda>_.
     if Require > Pool_Length P
     then on_ok (check Constraint_Error (Pool_Last P = Pool_Length P)) (\<lambda>_.
          Inr (P\<lparr>Dynamic_Array := Some (Iovecs P @ replicate (Alloc - Pool_Last P) no_iovec), Pool_Length := Alloc\<rparr>))
     else Inr P)"

definition Append :: "Iovec_Pool_Type \<Rightarrow> Iovec \<Rightarrow> nat option \<Rightarrow> Iovec_Pool_Type result" where
  "Append P An_Iovec A_Chunk =
     (let New_Last = Pool_Last P + 1 in
      on_ok (Extend P New_Last (2 * Pool_Length P)) (\<lambda>P.
      let P = P\<lparr>Pool_Last := New_Last, Last_Chunk := A_Chunk\<rparr> in
      Inr (set_iovec P New_Last An_Iovec)))"

text \<open>\<open>Dump\<close> copies the areas one after the other.\<close>

fun Dump_loop :: "memory \<Rightarrow> Iovec list \<Rightarrow> Opaque_Pointer \<Rightarrow> memory result" where
  "Dump_loop M [] Into = Inr M"
| "Dump_loop M (v # vs) Into =
     on_ok (peek_mem M (Iov_Base v) (Iov_Len v)) (\<lambda>S.
     on_ok (poke_mem M Into S) (\<lambda>M. Dump_loop M vs (address_plus Into (Iov_Len v))))"

definition Dump :: "memory \<Rightarrow> Iovec_Pool_Type \<Rightarrow> Opaque_Pointer \<Rightarrow> memory result" where
  "Dump M P Into = Dump_loop M (Vecs P) Into"

text \<open>The loop of \<open>Extract_Data\<close> over the areas from \<open>Last_Index\<close> on.\<close>

fun skip_loop :: "Iovec list \<Rightarrow> nat \<Rightarrow> int \<Rightarrow> int \<Rightarrow> nat \<times> int \<times> int" where
  "skip_loop [] Last_Index Offset_Remainder Last_Offset = (Last_Index, Offset_Remainder, Last_Offset)"
| "skip_loop (v # vs) Last_Index Offset_Remainder Last_Offset =
     (if Offset_Remainder \<ge> Iov_Len v
      then skip_loop vs (Last_Index + 1) (Offset_Remainder - Iov_Len v) (Last_Offset + Iov_Len v)
      else (Last_Index, Offset_Remainder, Last_Offset))"

definition Extract_Data :: "Iovec_Pool_Type \<Rightarrow> int \<Rightarrow> int \<Rightarrow> Opaque_Pointer \<times> int \<times> Iovec_Pool_Type" where
  "Extract_Data P Offset n =
     (let (i, r, b) = (if Offset < Last_Extract_Iovec_Offset P then (1, Offset, 0)
                       else (Last_Extract_Iovec P, Offset - Last_Extract_Iovec_Offset P, Last_Extract_Iovec_Offset P));
          (i, r, b) = skip_loop (drop (i - 1) (Vecs P)) i r b;
          P = P\<lparr>Last_Extract_Iovec := i, Last_Extract_Iovec_Offset := b\<rparr>
      in if i > Pool_Last P then (Null_Address, 0, P)
         else let v = Vecs P ! (i - 1);
                  n = (if n > 1 \<and> n > Iov_Len v - r then Iov_Len v - r else n)
              in (address_plus (Iov_Base v) r, n, P))"

text \<open>\<open>Grow_Shrink\<close>: the address of the added space, or null.\<close>

definition Grow_Shrink :: "Pool_Type \<Rightarrow> Iovec_Pool_Type \<Rightarrow> int \<Rightarrow> Opaque_Pointer \<times> Pool_Type \<times> Iovec_Pool_Type" where
  "Grow_Shrink S P n =
     (if Pool_Last P = 0 then (Null_Address, S, P)
      else let arr = (if Pool_Last P \<le> Prealloc_Size then Prealloc_Array P else the (Dynamic_Array P));
               v = arr ! (Pool_Last P - 1)
           in case Last_Chunk P of
             None \<Rightarrow> (Null_Address, S, P)
           | Some c \<Rightarrow>
             let used = Last_Used (chunks S ! c) in
             if n > 0 \<and> used + n \<le> Chunk_Size (chunks S ! c) \<or> n < 0 \<and> used + n \<ge> 0 \<and> Iov_Len v + n \<ge> 0
             then let v' = v\<lparr>Iov_Len := Iov_Len v + n\<rparr>;
                      arr' = arr[Pool_Last P - 1 := v']
                  in (address_plus (Iov_Base v) (Iov_Len v),
                      S\<lparr>chunks := (chunks S)[c := (chunks S ! c)\<lparr>Last_Used := used + n\<rparr>]\<rparr>,
                      if Pool_Last P \<le> Prealloc_Size then P\<lparr>Prealloc_Array := arr'\<rparr> else P\<lparr>Dynamic_Array := Some arr'\<rparr>)
             else (Null_Address, S, P))"

fun Peek_loop :: "memory \<Rightarrow> Iovec list \<Rightarrow> int \<Rightarrow> int \<Rightarrow> byte result" where
  "Peek_loop M [] Offset Current_Offset = Inl Constraint_Error"
| "Peek_loop M (v # vs) Offset Current_Offset =
     (if Offset < Iov_Len v + Current_Offset
      then on_ok (peek_mem M (Iov_Base v) (Iov_Len v)) (\<lambda>S.
           if 0 \<le> Offset - Current_Offset then Inr (S ! nat (Offset - Current_Offset)) else Inl Constraint_Error)
      else Peek_loop M vs Offset (Current_Offset + Iov_Len v))"

definition Peek :: "memory \<Rightarrow> Iovec_Pool_Type \<Rightarrow> int \<Rightarrow> byte result" where
  "Peek M P Offset = Peek_loop M (Vecs P) Offset 0"

definition Prepend_Pool :: "Iovec_Pool_Type \<Rightarrow> Iovec_Pool_Type \<Rightarrow> Iovec_Pool_Type result" where
  "Prepend_Pool Prefix P =
     (let New_Last = Pool_Last P + Pool_Last Prefix in
      on_ok (Extend P New_Last (New_Last + 1)) (\<lambda>P.
      on_ok (check Constraint_Error (Pool_Length Prefix + Pool_Last P = New_Last)) (\<lambda>_.
      let arr = Iovecs Prefix @ Vecs P @ drop New_Last (Iovecs P) in
      Inr ((case Dynamic_Array P of Some a \<Rightarrow> P\<lparr>Dynamic_Array := Some arr\<rparr> | None \<Rightarrow> P\<lparr>Prealloc_Array := arr\<rparr>)
           \<lparr>Pool_Last := New_Last\<rparr>))))"

definition Release :: "Iovec_Pool_Type \<Rightarrow> Iovec_Pool_Type" where
  "Release P = P\<lparr>Dynamic_Array := None, Pool_Last := 0, Pool_Length := length (Prealloc_Array P),
     Last_Extract_Iovec := 1, Last_Extract_Iovec_Offset := 0\<rparr>"

section \<open>Contents\<close>

definition readable :: "memory \<Rightarrow> Iovec \<Rightarrow> bool" where
  "readable M v \<longleftrightarrow> (case Iov_Base v of At z i \<Rightarrow> in_zone M z i (Iov_Len v) | Null_Address \<Rightarrow> False)"

definition iov_bytes :: "memory \<Rightarrow> Iovec \<Rightarrow> byte list" where
  "iov_bytes M v = (case Iov_Base v of
     At z i \<Rightarrow> take (nat (Iov_Len v)) (drop (nat i) (zones M ! z)) | Null_Address \<Rightarrow> [])"

definition iov_zone :: "Iovec \<Rightarrow> nat option" where
  "iov_zone v = (case Iov_Base v of At z i \<Rightarrow> Some z | Null_Address \<Rightarrow> None)"

definition contents :: "memory \<Rightarrow> Iovec list \<Rightarrow> byte list" where
  "contents M vs = concat (map (iov_bytes M) vs)"

lemma contents_simps [simp]:
  "contents M [] = []" "contents M (v # vs) = iov_bytes M v @ contents M vs"
  "contents M (vs @ ws) = contents M vs @ contents M ws"
  by (simp_all add: contents_def)

lemma readable_peek: "readable M v \<Longrightarrow> peek_mem M (Iov_Base v) (Iov_Len v) = Inr (iov_bytes M v)"
  by (cases "Iov_Base v") (auto simp: readable_def iov_bytes_def)

lemma length_iov_bytes: "readable M v \<Longrightarrow> length (iov_bytes M v) = nat (Iov_Len v)"
  by (cases "Iov_Base v") (auto simp: readable_def iov_bytes_def in_zone_def)

lemma readable_len: "readable M v \<Longrightarrow> 0 \<le> Iov_Len v"
  by (cases "Iov_Base v") (auto simp: readable_def in_zone_def)

lemma int_length_iov_bytes: "readable M v \<Longrightarrow> int (length (iov_bytes M v)) = Iov_Len v"
  by (simp add: length_iov_bytes readable_len)

lemma readable_zone: "readable M v \<Longrightarrow> \<exists>z. iov_zone v = Some z \<and> z < length (zones M)"
  by (cases "Iov_Base v") (auto simp: readable_def iov_zone_def in_zone_def)

text \<open>Zones that an area does not use may change, and new ones may come.\<close>

lemma area_cong:
  assumes "readable M v" "iov_zone v = Some z" "z < length (zones M')" "zones M' ! z = zones M ! z"
  shows "readable M' v" "iov_bytes M' v = iov_bytes M v"
  using assms by (cases "Iov_Base v"; auto simp: readable_def iov_zone_def in_zone_def iov_bytes_def)+

lemma contents_cong:
  assumes "\<And>v. v \<in> set vs \<Longrightarrow> readable M v"
    "\<And>v z. v \<in> set vs \<Longrightarrow> iov_zone v = Some z \<Longrightarrow> z < length (zones M') \<and> zones M' ! z = zones M ! z"
  shows "(\<forall>v\<in>set vs. readable M' v) \<and> contents M' vs = contents M vs"
  using assms
proof (induction vs)
  case (Cons v vs)
  obtain z where "iov_zone v = Some z" using readable_zone Cons.prems(1) by force
  then have "readable M' v" "iov_bytes M' v = iov_bytes M v"
    using area_cong [of M v z M'] Cons.prems by auto
  with Cons show ?case by auto
qed simp

section \<open>Arrays of areas\<close>

definition pool_inv :: "Iovec_Pool_Type \<Rightarrow> bool" where
  "pool_inv P \<longleftrightarrow> length (Prealloc_Array P) = Prealloc_Size \<and> Pool_Last P \<le> Pool_Length P \<and>
     (case Dynamic_Array P of None \<Rightarrow> Pool_Length P = Prealloc_Size
      | Some a \<Rightarrow> Pool_Length P = length a \<and> Prealloc_Size < Pool_Last P)"

lemma pool_inv_New [simp]: "pool_inv New_Iovec_Pool" "Vecs New_Iovec_Pool = []"
  by (simp_all add: pool_inv_def New_Iovec_Pool_def Vecs_def)

lemma length_Iovecs: "pool_inv P \<Longrightarrow> length (Iovecs P) = Pool_Length P"
  by (auto simp: pool_inv_def Iovecs_def split: option.splits)

lemma length_Vecs [simp]: "pool_inv P \<Longrightarrow> length (Vecs P) = Pool_Last P"
  using length_Iovecs by (fastforce simp: Vecs_def pool_inv_def)

lemma cache_upd [simp]:
  "Vecs (P\<lparr>Last_Extract_Iovec := x, Last_Extract_Iovec_Offset := y\<rparr>) = Vecs P"
  "pool_inv (P\<lparr>Last_Extract_Iovec := x, Last_Extract_Iovec_Offset := y\<rparr>) = pool_inv P"
  "Pool_Last (P\<lparr>Last_Extract_Iovec := x, Last_Extract_Iovec_Offset := y\<rparr>) = Pool_Last P"
  by (simp_all add: Vecs_def Iovecs_def pool_inv_def split: option.splits)

lemma Extend_Vecs:
  assumes "pool_inv P"
  obtains P' where "Extend P (Pool_Last P + 1) (2 * Pool_Length P) = Inr P'" "Vecs P' = Vecs P"
    "Pool_Last P' = Pool_Last P" "Pool_Last P < length (Iovecs P')" "Pool_Length P' = length (Iovecs P')"
    "Prealloc_Array P' = Prealloc_Array P" "Dynamic_Array P' = None \<or> Prealloc_Size \<le> Pool_Last P"
    "Dynamic_Array P' \<noteq> None \<or> Pool_Length P' = Prealloc_Size"
    "Last_Extract_Iovec P' = Last_Extract_Iovec P" "Last_Extract_Iovec_Offset P' = Last_Extract_Iovec_Offset P"
proof (cases "Pool_Last P < Pool_Length P")
  case True
  have "Extend P (Pool_Last P + 1) (2 * Pool_Length P) = Inr P" using True by (simp add: Extend_def)
  then show ?thesis
    by (rule that) (use True assms length_Iovecs [OF assms] in \<open>auto simp: pool_inv_def split: option.splits\<close>)
next
  case False
  let ?P = "P\<lparr>Dynamic_Array := Some (Iovecs P @ replicate (2 * Pool_Length P - Pool_Last P) no_iovec), Pool_Length := 2 * Pool_Length P\<rparr>"
  have len: "Pool_Last P = Pool_Length P" "Prealloc_Size \<le> Pool_Last P" "0 < Pool_Last P" "length (Iovecs P) = Pool_Last P"
    using False assms length_Iovecs [OF assms] by (auto simp: pool_inv_def Prealloc_Size_def split: option.splits)
  have "Extend P (Pool_Last P + 1) (2 * Pool_Length P) = Inr ?P" using len by (simp add: Extend_def)
  then show ?thesis using len by (intro that [of ?P]) (simp_all add: Vecs_def Iovecs_def)
qed

lemma Append_Vecs:
  assumes "pool_inv P"
  obtains P' where "Append P v c = Inr P'" "pool_inv P'" "Vecs P' = Vecs P @ [v]" "Pool_Last P' = Pool_Last P + 1"
    "Last_Chunk P' = c" "Last_Extract_Iovec P' = Last_Extract_Iovec P" "Last_Extract_Iovec_Offset P' = Last_Extract_Iovec_Offset P"
proof -
  obtain P1 where P1: "Extend P (Pool_Last P + 1) (2 * Pool_Length P) = Inr P1" "Vecs P1 = Vecs P"
    "Pool_Last P1 = Pool_Last P" "Pool_Last P < length (Iovecs P1)" "Pool_Length P1 = length (Iovecs P1)"
    "Prealloc_Array P1 = Prealloc_Array P" "Dynamic_Array P1 = None \<or> Prealloc_Size \<le> Pool_Last P"
    "Dynamic_Array P1 \<noteq> None \<or> Pool_Length P1 = Prealloc_Size"
    "Last_Extract_Iovec P1 = Last_Extract_Iovec P" "Last_Extract_Iovec_Offset P1 = Last_Extract_Iovec_Offset P"
    by (rule Extend_Vecs [OF assms]) (rule that)
  let ?P = "set_iovec (P1\<lparr>Pool_Last := Pool_Last P + 1, Last_Chunk := c\<rparr>) (Pool_Last P + 1) v"
  have "Iovecs ?P = (Iovecs P1)[Pool_Last P := v]" by (simp add: set_iovec_def Iovecs_def split: option.splits)
  then have "Vecs ?P = Vecs P @ [v]"
    using P1(2,3,4) by (simp add: Vecs_def set_iovec_def take_Suc_conv_app_nth split: option.splits)
  moreover have "pool_inv ?P" using assms P1(4-8)
    by (cases "Dynamic_Array P1") (auto simp: pool_inv_def set_iovec_def Iovecs_def)
  moreover have "Append P v c = Inr ?P" using P1(1) by (simp add: Append_def)
  ultimately show ?thesis using P1 by (intro that [of ?P]) (simp_all add: set_iovec_def split: option.splits)
qed

section \<open>Reading\<close>

lemma length_overwrite [simp]: "i + length bs \<le> length zn \<Longrightarrow> length (overwrite zn i bs) = length zn"
  by (simp add: overwrite_def)

lemma overwrite_Nil [simp]: "overwrite zn i [] = zn"
  by (simp add: overwrite_def)

lemma overwrite_append:
  "i + length (as @ bs) \<le> length zn \<Longrightarrow> overwrite (overwrite zn i as) (i + length as) bs = overwrite zn i (as @ bs)"
  by (simp add: overwrite_def ac_simps)

lemma in_zone_poke [simp]:
  "in_zone M z i (int (length bs)) \<Longrightarrow>
   in_zone (M\<lparr>zones := (zones M)[z := overwrite (zones M ! z) (nat i) bs]\<rparr>) y j n = in_zone M y j n"
  by (auto simp: in_zone_def nth_list_update)

lemma Dump_loop_correct:
  assumes "\<And>v. v \<in> set vs \<Longrightarrow> readable M v \<and> iov_zone v \<noteq> Some z" "in_zone M z i (int (length (contents M vs)))"
  shows "\<exists>M'. Dump_loop M vs (At z i) = Inr M' \<and> garbage M' = garbage M \<and>
    zones M' = (zones M)[z := overwrite (zones M ! z) (nat i) (contents M vs)]"
  using assms
proof (induction vs arbitrary: M i)
  case (Cons v vs)
  let ?b = "iov_bytes M v"
  let ?M = "M\<lparr>zones := (zones M)[z := overwrite (zones M ! z) (nat i) ?b]\<rparr>"
  have r: "readable M v" "int (length ?b) = Iov_Len v" using Cons.prems(1) int_length_iov_bytes by auto
  have z: "in_zone M z i (int (length ?b))" "nat i + length ?b + length (contents M vs) \<le> length (zones M ! z)" "0 \<le> i" "z < length (zones M)"
    using Cons.prems(2) by (auto simp: in_zone_def)
  have same: "(\<forall>v\<in>set vs. readable ?M v) \<and> contents ?M vs = contents M vs"
    using Cons.prems(1) readable_zone by (intro contents_cong) (auto simp: nth_list_update dest: readable_zone, force+)
  have "\<exists>M'. Dump_loop ?M vs (At z (i + Iov_Len v)) = Inr M' \<and> garbage M' = garbage ?M \<and>
      zones M' = (zones ?M)[z := overwrite (zones ?M ! z) (nat (i + Iov_Len v)) (contents ?M vs)]"
    using same Cons.prems r z by (intro Cons.IH) (auto simp: in_zone_def)
  moreover have "nat (i + Iov_Len v) = nat i + length ?b" using r z(3) by (simp add: nat_add_distrib flip: r(2))
  ultimately show ?case
    using same z readable_peek [OF r(1)] by (auto simp: overwrite_append)
qed simp

definition total_len :: "Iovec list \<Rightarrow> int" where
  "total_len vs = (\<Sum>v\<leftarrow>vs. Iov_Len v)"

lemma total_len_simps [simp]:
  "total_len [] = 0" "total_len (v # vs) = Iov_Len v + total_len vs" "total_len (vs @ ws) = total_len vs + total_len ws"
  by (simp_all add: total_len_def)

lemma total_len_contents: "(\<And>v. v \<in> set vs \<Longrightarrow> readable M v) \<Longrightarrow> total_len vs = int (length (contents M vs))"
  by (induction vs) (auto simp: int_length_iov_bytes)

lemma skip_loop_correct:
  assumes "\<And>v. v \<in> set vs \<Longrightarrow> 0 \<le> Iov_Len v" "0 \<le> r"
  shows "\<exists>k. k \<le> length vs \<and> skip_loop vs i r b = (i + k, r - total_len (take k vs), b + total_len (take k vs)) \<and>
    total_len (take k vs) \<le> r \<and> (k < length vs \<longrightarrow> r - total_len (take k vs) < Iov_Len (vs ! k))"
  using assms
proof (induction vs arbitrary: i r b)
  case (Cons v vs)
  show ?case
  proof (cases "r \<ge> Iov_Len v")
    case True
    then obtain k where "k \<le> length vs"
      "skip_loop vs (i + 1) (r - Iov_Len v) (b + Iov_Len v) =
       (i + 1 + k, r - Iov_Len v - total_len (take k vs), b + Iov_Len v + total_len (take k vs))"
      "total_len (take k vs) \<le> r - Iov_Len v" "k < length vs \<longrightarrow> r - Iov_Len v - total_len (take k vs) < Iov_Len (vs ! k)"
      using Cons.IH [of "r - Iov_Len v" "i + 1" "b + Iov_Len v"] Cons.prems by auto
    with True show ?thesis by (intro exI [of _ "Suc k"]) auto
  qed (use Cons.prems in \<open>auto intro!: exI [of _ 0]\<close>)
qed auto

text \<open>The cached area and its offset.\<close>

definition cache_inv :: "Iovec_Pool_Type \<Rightarrow> bool" where
  "cache_inv P \<longleftrightarrow> 1 \<le> Last_Extract_Iovec P \<and> Last_Extract_Iovec P \<le> Pool_Last P + 1 \<and>
     Last_Extract_Iovec_Offset P = total_len (take (Last_Extract_Iovec P - 1) (Vecs P))"

text \<open>The result of an extraction that ends at the area of index \<open>k\<close>, counted from 0.\<close>

definition extraction :: "Iovec_Pool_Type \<Rightarrow> int \<Rightarrow> int \<Rightarrow> nat \<Rightarrow> Opaque_Pointer \<times> int \<times> Iovec_Pool_Type" where
  "extraction P Offset n k =
     (let b = total_len (take k (Vecs P)); v = Vecs P ! k;
          P' = P\<lparr>Last_Extract_Iovec := k + 1, Last_Extract_Iovec_Offset := b\<rparr>
      in if k = Pool_Last P then (Null_Address, 0, P')
         else (address_plus (Iov_Base v) (Offset - b),
               if n > 1 \<and> n > Iov_Len v - (Offset - b) then Iov_Len v - (Offset - b) else n, P'))"

lemma Extract_Data_shape:
  assumes "pool_inv P" "cache_inv P" "\<And>v. v \<in> set (Vecs P) \<Longrightarrow> 0 \<le> Iov_Len v" "0 \<le> Offset"
  shows "\<exists>k \<le> Pool_Last P. total_len (take k (Vecs P)) \<le> Offset \<and>
    (k < Pool_Last P \<longrightarrow> Offset - total_len (take k (Vecs P)) < Iov_Len (Vecs P ! k)) \<and> Extract_Data P Offset n = extraction P Offset n k"
proof -
  let ?V = "Vecs P"
  define i where "i = (if Offset < Last_Extract_Iovec_Offset P then 1 else Last_Extract_Iovec P)"
  define b where "b = (if Offset < Last_Extract_Iovec_Offset P then 0 else Last_Extract_Iovec_Offset P)"
  have ib: "1 \<le> i" "i \<le> Pool_Last P + 1" "b = total_len (take (i - 1) ?V)" "b \<le> Offset"
    using assms(2,4) by (auto simp: i_def b_def cache_inv_def)
  obtain k where k: "k \<le> length (drop (i - 1) ?V)"
    "skip_loop (drop (i - 1) ?V) i (Offset - b) b =
      (i + k, Offset - b - total_len (take k (drop (i - 1) ?V)), b + total_len (take k (drop (i - 1) ?V)))"
    "total_len (take k (drop (i - 1) ?V)) \<le> Offset - b"
    "k < length (drop (i - 1) ?V) \<longrightarrow> Offset - b - total_len (take k (drop (i - 1) ?V)) < Iov_Len (drop (i - 1) ?V ! k)"
    using skip_loop_correct [of "drop (i - 1) ?V" "Offset - b" i b] assms(3) ib(4)
    by (meson diff_ge_0_iff_ge in_set_dropD)
  let ?j = "i - 1 + k"
  have t: "total_len (take ?j ?V) = b + total_len (take k (drop (i - 1) ?V))"
    using ib(3) by (simp add: take_add)
  have sel: "(if Offset < Last_Extract_Iovec_Offset P then (1, Offset, 0)
      else (Last_Extract_Iovec P, Offset - Last_Extract_Iovec_Offset P, Last_Extract_Iovec_Offset P)) = (i, Offset - b, b)"
    by (simp add: i_def b_def)
  have j: "?j \<le> Pool_Last P" "i + k = ?j + 1" using k(1) ib(1,2) assms(1) by auto
  have skip: "skip_loop (drop (i - 1) ?V) i (Offset - b) b = (?j + 1, Offset - total_len (take ?j ?V), total_len (take ?j ?V))"
    by (simp only: k(2) t j(2) diff_diff_eq)
  have "(?j + 1 > Pool_Last P) = (?j = Pool_Last P)" using j(1) by auto
  then have "Extract_Data P Offset n = extraction P Offset n ?j"
    unfolding Extract_Data_def sel Let_def prod.case skip extraction_def by (simp only: cache_upd add_diff_cancel_right')
  moreover have "?j < Pool_Last P \<longrightarrow> Offset - total_len (take ?j ?V) < Iov_Len (?V ! ?j)"
    using k(4) t assms(1) ib(1) by auto
  moreover have "total_len (take ?j ?V) \<le> Offset" using k(3) t by simp
  ultimately show ?thesis using j(1) by blast
qed

lemma peek_area:
  assumes "readable M v" "0 \<le> r" "0 \<le> m" "m \<le> Iov_Len v - r"
  shows "peek_mem M (address_plus (Iov_Base v) r) m = Inr (take (nat m) (drop (nat r) (iov_bytes M v)))"
proof (cases "Iov_Base v")
  case (At z i)
  with assms have "in_zone M z (i + r) m" "0 \<le> i" by (auto simp: readable_def in_zone_def)
  moreover have "nat m \<le> nat (Iov_Len v) - nat r" using assms by linarith
  ultimately show ?thesis
    using At assms by (simp add: iov_bytes_def drop_take nat_add_distrib min_def add.commute)
qed (use assms in \<open>simp add: readable_def\<close>)

text \<open>What is extracted: the octets of the contents at the offset, as far as they are contiguous.\<close>

lemma Extract_Data_correct:
  assumes "pool_inv P" "cache_inv P" "\<And>v. v \<in> set (Vecs P) \<Longrightarrow> readable M v" "0 \<le> Offset" "0 < n"
    "Offset < int (length (contents M (Vecs P)))"
  shows "\<exists>a m P'. Extract_Data P Offset n = (a, m, P') \<and> 0 < m \<and> m \<le> n \<and>
    peek_mem M a m = Inr (take (nat m) (drop (nat Offset) (contents M (Vecs P)))) \<and>
    (Pool_Last P = 1 \<and> n \<le> int (length (contents M (Vecs P))) - Offset \<longrightarrow> m = n) \<and>
    cache_inv P' \<and> (\<exists>x y. P' = P\<lparr>Last_Extract_Iovec := x, Last_Extract_Iovec_Offset := y\<rparr>)"
proof -
  let ?V = "Vecs P"
  have len: "\<And>v. v \<in> set ?V \<Longrightarrow> 0 \<le> Iov_Len v" using assms(3) readable_len by blast
  obtain k where k: "k \<le> Pool_Last P" "total_len (take k ?V) \<le> Offset"
    "k < Pool_Last P \<longrightarrow> Offset - total_len (take k ?V) < Iov_Len (?V ! k)" "Extract_Data P Offset n = extraction P Offset n k"
    using Extract_Data_shape [OF assms(1,2) len assms(4), of n] by blast
  have "total_len ?V = int (length (contents M ?V))" using assms(3) by (rule total_len_contents)
  then have lt: "k < Pool_Last P" using k(1,2) assms(1,6) by (cases "k = Pool_Last P") auto
  define v b where "v = ?V ! k" and "b = total_len (take k ?V)"
  define m where "m = (if n > 1 \<and> n > Iov_Len v - (Offset - b) then Iov_Len v - (Offset - b) else n)"
  have split: "?V = take k ?V @ v # drop (Suc k) ?V" using lt assms(1) by (simp add: id_take_nth_drop v_def)
  have r: "readable M v" using lt assms(1,3) by (simp add: v_def)
  have m: "0 < m" "m \<le> n" "m \<le> Iov_Len v - (Offset - b)" using k(3) lt assms(5) by (auto simp: m_def v_def b_def)
  have b: "b = int (length (contents M (take k ?V)))"
    using assms(3) in_set_takeD unfolding b_def by (fastforce intro: total_len_contents)
  have "peek_mem M (address_plus (Iov_Base v) (Offset - b)) m =
      Inr (take (nat m) (drop (nat (Offset - b)) (iov_bytes M v)))"
    using r m k(2) by (intro peek_area) (auto simp: b_def)
  moreover have "take (nat m) (drop (nat (Offset - b)) (iov_bytes M v)) = take (nat m) (drop (nat Offset) (contents M ?V))"
  proof -
    have "contents M ?V = contents M (take k ?V) @ iov_bytes M v @ contents M (drop (Suc k) ?V)"
      by (subst split) simp
    moreover have "nat m \<le> length (iov_bytes M v) - nat (Offset - b)" "nat Offset = length (contents M (take k ?V)) + nat (Offset - b)"
      using m length_iov_bytes [OF r] k(2) b by (auto simp: b_def [symmetric])
    ultimately show ?thesis by simp
  qed
  moreover have "m = n" if "Pool_Last P = 1" "n \<le> int (length (contents M ?V)) - Offset"
  proof -
    have "k = 0" "drop (Suc k) ?V = []" using that(1) lt assms(1) by auto
    with split have "contents M ?V = iov_bytes M v" "b = 0" by (simp_all add: b_def)
    with that(2) int_length_iov_bytes [OF r] show ?thesis by (simp add: m_def)
  qed
  moreover have "Extract_Data P Offset n = (address_plus (Iov_Base v) (Offset - b), m,
      P\<lparr>Last_Extract_Iovec := k + 1, Last_Extract_Iovec_Offset := b\<rparr>)"
    using k(4) lt unfolding m_def v_def b_def extraction_def Let_def by simp
  moreover have "cache_inv (P\<lparr>Last_Extract_Iovec := k + 1, Last_Extract_Iovec_Offset := b\<rparr>)"
    using k(1) by (simp add: b_def cache_inv_def)
  ultimately show ?thesis
    using m(1,2) by (intro exI [of _ "address_plus (Iov_Base v) (Offset - b)"] exI [of _ m]
      exI [of _ "P\<lparr>Last_Extract_Iovec := k + 1, Last_Extract_Iovec_Offset := b\<rparr>"] conjI impI) auto
qed

end
