(* ===== verification/Buffers.thy ===== *)
theory Buffers
  imports Iovec_Pools
begin

unbundle bit_operations_syntax

text \<open>
  PolyORB.Buffers (\<open>src/src/polyorb-buffers.adb\<close>): the buffer that requests are marshalled into and
  unmarshalled from. A buffer is a position within a stream, the areas of its contents and the chunks
  that it owns; the octets are in the memory. The byte order of the host is an argument of the
  operations that depend on it. The theory shows that the operations that insert data append it to
  the contents, whichever way the space for it is found, and that no other area changes.
\<close>

section \<open>Buffers\<close>

datatype Endianness_Type = Big_Endian | Little_Endian

datatype Alignment_Type = Align_1 | Align_2 | Align_4 | Align_8

fun alignment_rep :: "Alignment_Type \<Rightarrow> int" where
  "alignment_rep Align_1 = 1" | "alignment_rep Align_2 = 2" | "alignment_rep Align_4 = 4" | "alignment_rep Align_8 = 8"

record Buffer_Type =
  Endianness :: Endianness_Type
  CDR_Position :: int
  Initial_CDR_Position :: int
  Contents :: Iovec_Pool_Type
  Storage :: Pool_Type
  Buffer_Length :: int

text \<open>\<open>new Buffer_Type\<close>: the preallocated chunk is a zone of its own.\<close>

definition New_Buffer :: "Endianness_Type \<Rightarrow> memory \<Rightarrow> Buffer_Type \<times> memory" where
  "New_Buffer Host_Order M = (let (z, M) = new_zone M Default_Chunk_Size in
     (\<lparr>Endianness = Host_Order, CDR_Position = 0, Initial_CDR_Position = 0, Contents = New_Iovec_Pool,
       Storage = \<lparr>chunks = [\<lparr>Chunk_Zone = z, Chunk_Size = Default_Chunk_Size, Last_Used = 0\<rparr>], Prealloc_Used = False, Dynamic_Chunks = []\<rparr>,
       Buffer_Length = 0\<rparr>, M))"

text \<open>The conversion of a negative position to a modular type raises.\<close>

definition Padding_Size :: "int \<Rightarrow> Alignment_Type \<Rightarrow> int result" where
  "Padding_Size Pos Alignment =
     (if Pos < 0 then Inl Constraint_Error
      else Inr (uint ((- word_of_int Pos) AND (word_of_int (alignment_rep Alignment) - 1 :: 64 word))))"

definition Align_Position :: "Buffer_Type \<Rightarrow> Alignment_Type \<Rightarrow> Buffer_Type result" where
  "Align_Position B Alignment = on_ok (Padding_Size (CDR_Position B) Alignment) (\<lambda>Padding.
     on_ok (check Assert_Failure (CDR_Position B + Padding \<le> Initial_CDR_Position B + Buffer_Length B)) (\<lambda>_.
     Inr (B\<lparr>CDR_Position := CDR_Position B + Padding\<rparr>)))"

definition Allocate_And_Insert_Cooked_Data ::
  "memory \<Rightarrow> Buffer_Type \<Rightarrow> int \<Rightarrow> (Opaque_Pointer \<times> memory \<times> Buffer_Type) result" where
  "Allocate_And_Insert_Cooked_Data M B n =
     (let (A_Data, S, P) = Grow_Shrink (Storage B) (Contents B) n in
      on_ok (if Is_Null A_Data
             then let (c, M, S) = Allocate M S n in
                  on_ok (check Assert_Failure (n \<le> Chunk_Size (chunks S ! c))) (\<lambda>_.
                  let S = S\<lparr>chunks := (chunks S)[c := (chunks S ! c)\<lparr>Last_Used := n\<rparr>]\<rparr> in
                  on_ok (Append P \<lparr>Iov_Base = Chunk_Storage S c, Iov_Len = n\<rparr> (Some c)) (\<lambda>P.
                  Inr (Chunk_Storage S c, M, S, P)))
             else Inr (A_Data, M, S, P)) (\<lambda>(A_Data, M, S, P).
      Inr (A_Data, M, B\<lparr>Storage := S, Contents := P, CDR_Position := CDR_Position B + n, Buffer_Length := Buffer_Length B + n\<rparr>)))"

definition Set_Initial_Position :: "Buffer_Type \<Rightarrow> int \<Rightarrow> Buffer_Type result" where
  "Set_Initial_Position B Position = on_ok (check Assert_Failure (Initial_CDR_Position B = CDR_Position B)) (\<lambda>_.
     Inr (B\<lparr>Initial_CDR_Position := Position, CDR_Position := Position\<rparr>))"

definition Copy :: "Endianness_Type \<Rightarrow> memory \<Rightarrow> Buffer_Type \<Rightarrow> (Buffer_Type \<times> memory) result" where
  "Copy Host_Order M B = (let (Into, M) = New_Buffer Host_Order M; Into = Into\<lparr>Endianness := Endianness B\<rparr> in
     on_ok (Set_Initial_Position Into (Initial_CDR_Position B)) (\<lambda>Into.
     on_ok (Allocate_And_Insert_Cooked_Data M Into (Buffer_Length B)) (\<lambda>(Copy_Address, M, Into).
     on_ok (Dump M (Contents B) Copy_Address) (\<lambda>M.
     Inr (Into\<lparr>CDR_Position := Initial_CDR_Position B\<rparr>, M)))))"

record Reservation =
  Location :: Opaque_Pointer
  Res_Endianness :: Endianness_Type
  Res_CDR_Position :: int
  Res_Length :: int

definition Copy_Data :: "memory \<Rightarrow> Buffer_Type \<Rightarrow> Reservation \<Rightarrow> memory result" where
  "Copy_Data M From Into =
     on_ok (check Assert_Failure (Endianness From = Res_Endianness Into \<and> Initial_CDR_Position From = Res_CDR_Position Into \<and>
       Buffer_Length From = Res_Length Into)) (\<lambda>_.
     Dump M (Contents From) (Location Into))"

definition Reserve :: "memory \<Rightarrow> Buffer_Type \<Rightarrow> int \<Rightarrow> (Reservation \<times> memory \<times> Buffer_Type) result" where
  "Reserve M B Amount = on_ok (Allocate_And_Insert_Cooked_Data M B Amount) (\<lambda>(Copy_Address, M, B').
     Inr (\<lparr>Location = Copy_Address, Res_Endianness = Endianness B', Res_CDR_Position = CDR_Position B, Res_Length = Amount\<rparr>, M, B'))"

definition Partial_Extract_Data ::
  "Buffer_Type \<Rightarrow> int \<Rightarrow> bool \<Rightarrow> int \<Rightarrow> bool \<Rightarrow> (Opaque_Pointer \<times> int \<times> Buffer_Type) result" where
  "Partial_Extract_Data B n Use_Current At_Position Partial =
     (let Start_Position = (if Use_Current then CDR_Position B else At_Position);
          (Data, m, P) = Iovec_Pools.Extract_Data (Contents B) (Start_Position - Initial_CDR_Position B) n;
          B = B\<lparr>Contents := P\<rparr>
      in if m < n \<and> \<not> Partial then Inl Constraint_Error
         else Inr (Data, m, if Use_Current then B\<lparr>CDR_Position := CDR_Position B + m\<rparr> else B))"

definition Extract_Data :: "Buffer_Type \<Rightarrow> int \<Rightarrow> bool \<Rightarrow> int \<Rightarrow> (Opaque_Pointer \<times> Buffer_Type) result" where
  "Extract_Data B n Use_Current At_Position =
     on_ok (Partial_Extract_Data B n Use_Current At_Position False) (\<lambda>(Data, m, B).
     on_ok (check Assert_Failure (m = n)) (\<lambda>_. Inr (Data, B)))"

definition Initialize_Buffer :: "Buffer_Type \<Rightarrow> int \<Rightarrow> Opaque_Pointer \<Rightarrow> Endianness_Type \<Rightarrow> int \<Rightarrow> Buffer_Type result" where
  "Initialize_Buffer B n Data E Position =
     on_ok (check Assert_Failure (CDR_Position B = 0 \<and> Initial_CDR_Position B = 0)) (\<lambda>_.
     let B = B\<lparr>Endianness := E, CDR_Position := Position, Initial_CDR_Position := Position\<rparr> in
     on_ok (Append (Contents B) \<lparr>Iov_Base = Data, Iov_Len = n\<rparr> None) (\<lambda>P.
     Inr (B\<lparr>Contents := P, Buffer_Length := n\<rparr>)))"

definition Insert_Raw_Data :: "Endianness_Type \<Rightarrow> Buffer_Type \<Rightarrow> int \<Rightarrow> Opaque_Pointer \<Rightarrow> Buffer_Type result" where
  "Insert_Raw_Data Host_Order B n Data =
     on_ok (check Assert_Failure (Endianness B = Host_Order)) (\<lambda>_.
     on_ok (Append (Contents B) \<lparr>Iov_Base = Data, Iov_Len = n\<rparr> None) (\<lambda>P.
     Inr (B\<lparr>Contents := P, CDR_Position := CDR_Position B + n, Buffer_Length := Buffer_Length B + n\<rparr>)))"

text \<open>\<open>Null_Data\<close> is zone 0 of the memory.\<close>

definition Null_Data :: Opaque_Pointer where
  "Null_Data = At 0 0"

definition Pad_Align :: "memory \<Rightarrow> Buffer_Type \<Rightarrow> Alignment_Type \<Rightarrow> (memory \<times> Buffer_Type) result" where
  "Pad_Align M B Alignment = on_ok (Padding_Size (CDR_Position B) Alignment) (\<lambda>Padding.
     if Padding = 0 then Inr (M, B)
     else let (Padding_Space, S, P) = Grow_Shrink (Storage B) (Contents B) Padding in
       on_ok (if Is_Null Padding_Space
              then on_ok (Append P \<lparr>Iov_Base = Null_Data, Iov_Len = Padding\<rparr> None) (\<lambda>P. Inr (M, P))
              else on_ok (poke_mem M Padding_Space (replicate (nat Padding) 0)) (\<lambda>M. Inr (M, P))) (\<lambda>(M, P).
       on_ok (Align_Position (B\<lparr>Storage := S, Contents := P, Buffer_Length := Buffer_Length B + Padding\<rparr>) Alignment) (\<lambda>B.
       Inr (M, B))))"

definition Peek :: "memory \<Rightarrow> Buffer_Type \<Rightarrow> int \<Rightarrow> byte result" where
  "Peek M B Position = Iovec_Pools.Peek M (Contents B) (Position - Initial_CDR_Position B)"

text \<open>Shrinking that fails is not noticed.\<close>

definition Unuse_Allocation :: "Buffer_Type \<Rightarrow> int \<Rightarrow> Buffer_Type" where
  "Unuse_Allocation B n = (if n \<noteq> 0
     then let (Data, S, P) = Grow_Shrink (Storage B) (Contents B) (- n) in
          B\<lparr>Storage := S, Contents := P, CDR_Position := CDR_Position B - n, Buffer_Length := Buffer_Length B - n\<rparr>
     else B)"

text \<open>\<open>Lowlevel_Receive\<close> delivers the octets \<open>data\<close>, no more than there is room for.\<close>

definition Receive_Buffer :: "memory \<Rightarrow> Buffer_Type \<Rightarrow> int \<Rightarrow> byte list \<Rightarrow> (int \<times> memory \<times> Buffer_Type) result" where
  "Receive_Buffer M B Maximum data =
     on_ok (Allocate_And_Insert_Cooked_Data M B Maximum) (\<lambda>(base, M, B').
     on_ok (poke_mem M base data) (\<lambda>M.
     let Received = int (length data); B' = Unuse_Allocation B' (Maximum - Received) in
     Inr (Received, M, B'\<lparr>CDR_Position := CDR_Position B\<rparr>)))"

definition Release_Contents :: "Endianness_Type \<Rightarrow> Buffer_Type \<Rightarrow> Buffer_Type" where
  "Release_Contents Host_Order B = B\<lparr>Contents := Iovec_Pools.Release (Contents B), Storage := Release_Chunks (Storage B),
     CDR_Position := 0, Initial_CDR_Position := 0, Endianness := Host_Order, Buffer_Length := 0\<rparr>"

definition Remaining :: "Buffer_Type \<Rightarrow> int" where
  "Remaining B = Initial_CDR_Position B + Buffer_Length B - CDR_Position B"

definition Rewind :: "Buffer_Type \<Rightarrow> Buffer_Type" where
  "Rewind B = B\<lparr>CDR_Position := Initial_CDR_Position B\<rparr>"

definition Set_CDR_Position :: "Buffer_Type \<Rightarrow> int \<Rightarrow> Buffer_Type" where
  "Set_CDR_Position B Position = B\<lparr>CDR_Position := Position\<rparr>"

definition Set_Endianness :: "Buffer_Type \<Rightarrow> Endianness_Type \<Rightarrow> Buffer_Type result" where
  "Set_Endianness B E = on_ok (check Assert_Failure (CDR_Position B = Initial_CDR_Position B)) (\<lambda>_.
     Inr (B\<lparr>Endianness := E\<rparr>))"

text \<open>The zone that \<open>To_Stream_Element_Array\<close> fills; taking the address of its first element needs one.\<close>

definition To_Zone :: "memory \<Rightarrow> Buffer_Type \<Rightarrow> (nat \<times> memory) result" where
  "To_Zone M B = on_ok (check Assert_Failure (Initial_CDR_Position B = 0)) (\<lambda>_.
     let (z, M) = new_zone M (Buffer_Length B) in
     on_ok (check Constraint_Error (1 \<le> Buffer_Length B)) (\<lambda>_.
     on_ok (Dump M (Contents B) (At z 0)) (\<lambda>M. Inr (z, M))))"

definition To_Stream_Element_Array :: "memory \<Rightarrow> Buffer_Type \<Rightarrow> (byte list \<times> memory) result" where
  "To_Stream_Element_Array M B = on_ok (To_Zone M B) (\<lambda>(z, M). Inr (zones M ! z, M))"

section \<open>Sending\<close>

text \<open>
  \<open>Lowlevel_Send\<close> is given the octets of the areas from the first one on and tells how many it has
  sent; what it sends is the list that the loop builds.
\<close>

fun sent_loop :: "Iovec list \<Rightarrow> nat \<Rightarrow> int \<Rightarrow> int \<Rightarrow> nat \<times> int \<times> int" where
  "sent_loop [] Index Count Remainder = (Index, Count, Remainder)"
| "sent_loop (v # vs) Index Count Remainder =
     (if Count \<ge> Iov_Len v then sent_loop vs (Index + 1) (Count - Iov_Len v) (Remainder - Iov_Len v)
      else (Index, Count, Remainder))"

partial_function (option) Send_loop ::
  "('w \<Rightarrow> byte list \<Rightarrow> int \<times> 'w) \<Rightarrow> memory \<Rightarrow> Iovec list \<Rightarrow> nat \<Rightarrow> int \<Rightarrow> 'w \<Rightarrow> byte list \<Rightarrow>
   (byte list \<times> Iovec list \<times> 'w) result option" where
  "Send_loop lowlevel M vs Index Remainder w sent =
     (if Remainder > 0
      then if vs = [] then Some (Inl Constraint_Error)
           else let data = contents M (take (length vs - Index + 1) vs);
               (Count, w) = lowlevel w data;
               sent = sent @ take (nat Count) data;
               (Index, Count, Remainder) = sent_loop (drop (Index - 1) vs) Index Count Remainder
           in if Count > 0
              then (if Index \<le> length vs
                    then let v = vs ! (Index - 1);
                             v = \<lparr>Iov_Base = address_plus (Iov_Base v) Count, Iov_Len = Iov_Len v - Count\<rparr>
                         in Send_loop lowlevel M (vs[Index - 1 := v]) Index (Remainder - Count) w sent
                    else Some (Inl Constraint_Error))
              else Send_loop lowlevel M vs Index Remainder w sent
      else Some (Inr (sent, vs, w)))"

text \<open>The loop updates the areas of the pool in place.\<close>

definition put_vecs :: "Iovec_Pool_Type \<Rightarrow> Iovec list \<Rightarrow> Iovec_Pool_Type" where
  "put_vecs P vs = (case Dynamic_Array P of
       Some a \<Rightarrow> P\<lparr>Dynamic_Array := Some (vs @ drop (length vs) a)\<rparr>
     | None \<Rightarrow> P\<lparr>Prealloc_Array := vs @ drop (length vs) (Prealloc_Array P)\<rparr>)"

definition Send_Buffer ::
  "('w \<Rightarrow> byte list \<Rightarrow> int \<times> 'w) \<Rightarrow> memory \<Rightarrow> Buffer_Type \<Rightarrow> 'w \<Rightarrow> (byte list \<times> Buffer_Type \<times> 'w) result option" where
  "Send_Buffer lowlevel M B w = (case Send_loop lowlevel M (Vecs (Contents B)) 1 (Buffer_Length B) w [] of
       None \<Rightarrow> None
     | Some (Inl e) \<Rightarrow> Some (Inl e)
     | Some (Inr (sent, vs, w)) \<Rightarrow> Some (Inr (sent, B\<lparr>Contents := put_vecs (Contents B) vs\<rparr>, w)))"

section \<open>Alignment\<close>

definition padding :: "int \<Rightarrow> Alignment_Type \<Rightarrow> int" where
  "padding Pos A = (- Pos) mod alignment_rep A"

lemma uint_and_low_bits:
  assumes "n \<le> 64"
  shows "uint ((- word_of_int k) AND (mask n :: 64 word)) = (- k) mod 2 ^ n"
proof -
  have "uint ((- word_of_int k :: 64 word) AND mask n) = take_bit n (uint (- word_of_int k :: 64 word))"
    by (simp add: unsigned_take_bit_eq flip: take_bit_eq_mask)
  also have "uint (- word_of_int k :: 64 word) = take_bit 64 (- k)"
    using uint_word_of_int [of "- k", where 'a = 64] by (simp add: take_bit_eq_mod)
  also have "take_bit n (take_bit 64 (- k)) = (- k) mod 2 ^ n"
    using assms by (simp add: take_bit_take_bit min_def) (simp add: take_bit_eq_mod)
  finally show ?thesis .
qed

lemma Padding_Size_eq: "0 \<le> Pos \<Longrightarrow> Padding_Size Pos A = Inr (padding Pos A)"
proof -
  have m: "mask 1 = (1 :: 64 word)" "mask 2 = (3 :: 64 word)" "mask 3 = (7 :: 64 word)"
    by (simp_all add: mask_eq_exp_minus_1)
  assume "0 \<le> Pos"
  then show ?thesis
    using uint_and_low_bits [of 1 Pos] uint_and_low_bits [of 2 Pos] uint_and_low_bits [of 3 Pos] unfolding m
    by (cases A) (simp_all add: Padding_Size_def padding_def)
qed

lemma padding_bounds: "0 \<le> padding Pos A" "padding Pos A < 8" "padding Pos A < alignment_rep A"
  "(Pos + padding Pos A) mod alignment_rep A = 0"
  by (cases A; simp add: padding_def; presburger)+

lemma padding_aligned: "padding (Pos + padding Pos A) A = 0"
  using padding_bounds(4) [of Pos A] by (cases A; simp add: padding_def; presburger)

lemma padding_Align_1 [simp]: "padding Pos Align_1 = 0"
  by (simp add: padding_def)

section \<open>Growing and shrinking the last area\<close>

lemma last_slot:
  assumes "pool_inv P" "0 < Pool_Last P"
  shows "(if Pool_Last P \<le> Prealloc_Size then Prealloc_Array P else the (Dynamic_Array P)) = Iovecs P"
    "Iovecs P ! (Pool_Last P - 1) = last (Vecs P)" "Vecs P \<noteq> []" "Pool_Last P \<le> length (Iovecs P)"
proof -
  show "(if Pool_Last P \<le> Prealloc_Size then Prealloc_Array P else the (Dynamic_Array P)) = Iovecs P"
    using assms by (auto simp: pool_inv_def Iovecs_def split: option.splits)
  have len: "length (Vecs P) = Pool_Last P" using assms(1) by simp
  then show "Vecs P \<noteq> []" using assms(2) by auto
  then show "Iovecs P ! (Pool_Last P - 1) = last (Vecs P)"
    using len assms(2) by (simp add: last_conv_nth Vecs_def)
  show "Pool_Last P \<le> length (Iovecs P)" using len by (simp add: Vecs_def)
qed

lemma Vecs_set_last:
  assumes "pool_inv P" "0 < Pool_Last P"
  shows "Vecs (set_iovec P (Pool_Last P) v) = butlast (Vecs P) @ [v]" "pool_inv (set_iovec P (Pool_Last P) v)"
    "Pool_Last (set_iovec P (Pool_Last P) v) = Pool_Last P" "Last_Chunk (set_iovec P (Pool_Last P) v) = Last_Chunk P"
    "Last_Extract_Iovec (set_iovec P (Pool_Last P) v) = Last_Extract_Iovec P"
    "Last_Extract_Iovec_Offset (set_iovec P (Pool_Last P) v) = Last_Extract_Iovec_Offset P"
proof -
  have "Iovecs (set_iovec P (Pool_Last P) v) = (Iovecs P)[Pool_Last P - 1 := v]"
    by (simp add: set_iovec_def Iovecs_def split: option.splits)
  moreover show "Pool_Last (set_iovec P (Pool_Last P) v) = Pool_Last P" by (simp add: set_iovec_def split: option.splits)
  ultimately show "Vecs (set_iovec P (Pool_Last P) v) = butlast (Vecs P) @ [v]"
    using assms(2) last_slot(4) [OF assms]
    by (cases "Pool_Last P") (auto simp: Vecs_def take_Suc_conv_app_nth butlast_append)
qed (use assms in \<open>auto simp: set_iovec_def pool_inv_def split: option.splits\<close>)

lemma Grow_Shrink_eq:
  assumes "pool_inv P" "0 < Pool_Last P" "Last_Chunk P = Some c" "v = last (Vecs P)" "used = Last_Used (chunks S ! c)"
    "n > 0 \<and> used + n \<le> Chunk_Size (chunks S ! c) \<or> n < 0 \<and> used + n \<ge> 0 \<and> Iov_Len v + n \<ge> 0"
  shows "Grow_Shrink S P n = (address_plus (Iov_Base v) (Iov_Len v),
    S\<lparr>chunks := (chunks S)[c := (chunks S ! c)\<lparr>Last_Used := used + n\<rparr>]\<rparr>,
    set_iovec P (Pool_Last P) (v\<lparr>Iov_Len := Iov_Len v + n\<rparr>))"
proof -
  have "Pool_Last P \<le> Prealloc_Size \<Longrightarrow> P\<lparr>Prealloc_Array := (Iovecs P)[Pool_Last P - Suc 0 := x]\<rparr> = set_iovec P (Pool_Last P) x"
    "\<not> Pool_Last P \<le> Prealloc_Size \<Longrightarrow> P\<lparr>Dynamic_Array := Some ((Iovecs P)[Pool_Last P - Suc 0 := x])\<rparr> = set_iovec P (Pool_Last P) x" for x
    using assms(1) by (auto simp: pool_inv_def set_iovec_def Iovecs_def split: option.splits)
  then show ?thesis
    using assms(2-6) last_slot(2) [OF assms(1,2)] unfolding Grow_Shrink_def last_slot(1) [OF assms(1,2)]
    by (simp add: Let_def)
qed

lemma Grow_Shrink_refuses:
  "Pool_Last P = 0 \<or> Last_Chunk P = None \<Longrightarrow> Grow_Shrink S P n = (Null_Address, S, P)"
  by (auto simp: Grow_Shrink_def Let_def)

section \<open>Invariant\<close>

definition chunk_ok :: "byte list list \<Rightarrow> memory \<Rightarrow> Chunk \<Rightarrow> bool" where
  "chunk_ok K M c \<longleftrightarrow> length K \<le> Chunk_Zone c \<and> Chunk_Zone c < length (zones M) \<and> int (length (zones M ! Chunk_Zone c)) = Chunk_Size c \<and>
     0 \<le> Last_Used c \<and> Last_Used c \<le> Chunk_Size c"

definition storage_inv :: "byte list list \<Rightarrow> memory \<Rightarrow> Pool_Type \<Rightarrow> bool" where
  "storage_inv K M S \<longleftrightarrow> chunks S \<noteq> [] \<and> (\<forall>c\<in>set (chunks S). chunk_ok K M c) \<and> Chunk_Size (chunks S ! 0) = Default_Chunk_Size"

text \<open>
  The last area, if it can grow, is the used part of its chunk, and no other area is in that chunk; no
  area is in the preallocated chunk before it is used.
\<close>

definition last_inv :: "Pool_Type \<Rightarrow> Iovec_Pool_Type \<Rightarrow> bool" where
  "last_inv S P \<longleftrightarrow> (\<forall>c. Last_Chunk P = Some c \<and> 0 < Pool_Last P \<longrightarrow> c < length (chunks S) \<and>
      last (Vecs P) = \<lparr>Iov_Base = At (Chunk_Zone (chunks S ! c)) 0, Iov_Len = Last_Used (chunks S ! c)\<rparr> \<and>
      (\<forall>v\<in>set (butlast (Vecs P)). iov_zone v \<noteq> Some (Chunk_Zone (chunks S ! c)))) \<and>
    (\<not> Prealloc_Used S \<longrightarrow> (\<forall>v\<in>set (Vecs P). iov_zone v \<noteq> Some (Chunk_Zone (chunks S ! 0))))"

text \<open>
  Zones that the operations of a buffer leave alone: \<open>Null_Data\<close>, which is zone 0, and those that existed before
  the buffer.
\<close>

definition null_zone :: "memory \<Rightarrow> bool" where
  "null_zone M \<longleftrightarrow> 0 < length (zones M) \<and> zones M ! 0 = replicate 8 0"

definition saved :: "byte list list \<Rightarrow> memory \<Rightarrow> bool" where
  "saved K M \<longleftrightarrow> 0 < length K \<and> K ! 0 = replicate 8 0 \<and> (\<exists>ext. zones M = K @ ext)"

lemma saved_null_zone: "saved K M \<Longrightarrow> null_zone M" "null_zone M \<Longrightarrow> saved (zones M) M"
  by (auto simp: saved_def null_zone_def nth_append)

definition octets :: "memory \<Rightarrow> Buffer_Type \<Rightarrow> byte list" where
  "octets M B = contents M (Vecs (Contents B))"

definition buf_inv :: "byte list list \<Rightarrow> memory \<Rightarrow> Buffer_Type \<Rightarrow> bool" where
  "buf_inv K M B \<longleftrightarrow> saved K M \<and> pool_inv (Contents B) \<and> cache_inv (Contents B) \<and> storage_inv K M (Storage B) \<and>
     last_inv (Storage B) (Contents B) \<and> (\<forall>v\<in>set (Vecs (Contents B)). readable M v) \<and>
     Buffer_Length B = int (length (octets M B)) \<and> Last_Extract_Iovec (Contents B) \<le> max 1 (Pool_Last (Contents B))"

text \<open>A memory with \<open>Null_Data\<close> in its place and a new buffer.\<close>

lemma New_Buffer_inv:
  assumes "saved K M" "New_Buffer h M = (B, M')"
  shows "buf_inv K M' B" "octets M' B = []" "CDR_Position B = 0" "Initial_CDR_Position B = 0" "Endianness B = h"
    "\<exists>zn. zones M' = zones M @ [zn]" "garbage M' = garbage M"
proof -
  have eq: "B = \<lparr>Endianness = h, CDR_Position = 0, Initial_CDR_Position = 0, Contents = New_Iovec_Pool,
      Storage = \<lparr>chunks = [\<lparr>Chunk_Zone = length (zones M), Chunk_Size = Default_Chunk_Size, Last_Used = 0\<rparr>], Prealloc_Used = False, Dynamic_Chunks = []\<rparr>,
      Buffer_Length = 0\<rparr>" "M' = M\<lparr>zones := zones M @ [replicate (nat Default_Chunk_Size) (garbage M)]\<rparr>"
    using assms(2) by (auto simp: New_Buffer_def new_zone_def)
  show "buf_inv K M' B" using assms(1) unfolding eq
    by (auto simp: buf_inv_def saved_def storage_inv_def last_inv_def chunk_ok_def octets_def cache_inv_def
        New_Iovec_Pool_def Vecs_def pool_inv_def nth_append Default_Chunk_Size_def)
qed (use assms(2) in \<open>auto simp: New_Buffer_def new_zone_def octets_def\<close>)

lemma cache_inv_append:
  assumes "cache_inv P" "pool_inv P" "Vecs P' = Vecs P @ vs" "Pool_Last P \<le> Pool_Last P'"
    "Last_Extract_Iovec P' = Last_Extract_Iovec P" "Last_Extract_Iovec_Offset P' = Last_Extract_Iovec_Offset P"
  shows "cache_inv P'"
  using assms by (auto simp: cache_inv_def)

lemma cache_inv_grow:
  assumes "cache_inv P" "pool_inv P" "Vecs P' = butlast (Vecs P) @ [v]" "Pool_Last P' = Pool_Last P"
    "Last_Extract_Iovec P' = Last_Extract_Iovec P" "Last_Extract_Iovec_Offset P' = Last_Extract_Iovec_Offset P"
    "Last_Extract_Iovec P \<le> Pool_Last P"
  shows "cache_inv P'"
  using assms by (auto simp: cache_inv_def butlast_conv_take min_def)

text \<open>Writing into a zone that an area does not use.\<close>

lemma poke_other:
  assumes "poke_mem M (At z i) bs = Inr M'" "readable M v" "iov_zone v \<noteq> Some z"
  shows "readable M' v \<and> iov_bytes M' v = iov_bytes M v"
proof -
  obtain y where "iov_zone v = Some y" "y < length (zones M)" using readable_zone [OF assms(2)] by blast
  with assms(1,3) area_cong [OF assms(2), of y M'] show ?thesis by (auto split: if_splits)
qed

lemma poke_others:
  assumes "poke_mem M (At z i) bs = Inr M'" "\<forall>v\<in>set vs. readable M v \<and> iov_zone v \<noteq> Some z"
  shows "(\<forall>v\<in>set vs. readable M' v) \<and> contents M' vs = contents M vs"
  using assms(2) by (induction vs) (auto simp: poke_other [OF assms(1)])

lemma poke_frame:
  assumes "poke_mem M (At z i) bs = Inr M'"
  shows "length (zones M') = length (zones M)" "\<And>y. y \<noteq> z \<Longrightarrow> zones M' ! y = zones M ! y"
    "zones M' ! z = overwrite (zones M ! z) (nat i) bs" "length (zones M' ! z) = length (zones M ! z)" "garbage M' = garbage M"
  using assms by (auto simp: in_zone_def split: if_splits)

lemma storage_inv_poke:
  assumes "poke_mem M (At z i) bs = Inr M'" "storage_inv K M S"
  shows "storage_inv K M' S"
proof -
  have "length (zones M' ! y) = length (zones M ! y)" for y using poke_frame [OF assms(1)] by (cases "y = z") auto
  with assms(2) poke_frame(1) [OF assms(1)] show ?thesis by (auto simp: storage_inv_def chunk_ok_def)
qed

lemma saved_poke: "poke_mem M (At z i) bs = Inr M' \<Longrightarrow> length K \<le> z \<Longrightarrow> saved K M \<Longrightarrow> saved K M'"
  by (auto simp: saved_def list_update_append split: if_splits)

section \<open>Inserting data\<close>

text \<open>
  What the operations that insert data have in common: space for \<open>n\<close> octets at the end of the
  contents, such that writing them there appends them.
\<close>

definition space_at_end :: "byte list list \<Rightarrow> memory \<Rightarrow> Pool_Type \<Rightarrow> Iovec_Pool_Type \<Rightarrow> int \<Rightarrow> byte list \<Rightarrow> Opaque_Pointer \<Rightarrow> bool" where
  "space_at_end K M S P n old a \<longleftrightarrow> (\<forall>bs. int (length bs) = n \<longrightarrow> (\<exists>M'. poke_mem M a bs = Inr M' \<and>
     saved K M' \<and> storage_inv K M' S \<and> (\<forall>v\<in>set (Vecs P). readable M' v) \<and> contents M' (Vecs P) = old @ bs \<and>
     length (zones M') = length (zones M) \<and> garbage M' = garbage M))"

lemma space_after:
  assumes "saved K M" "storage_inv K M S" "\<forall>v\<in>set us. readable M v \<and> iov_zone v \<noteq> Some z" "length K \<le> z" "z < length (zones M)"
    "0 \<le> u" "0 \<le> n" "u + n \<le> int (length (zones M ! z))" "Vecs P = us @ [\<lparr>Iov_Base = At z 0, Iov_Len = u + n\<rparr>]"
  shows "space_at_end K M S P n (contents M us @ take (nat u) (zones M ! z)) (At z u)"
  unfolding space_at_end_def
proof (intro allI impI)
  fix bs :: "byte list" assume bs: "int (length bs) = n"
  have "in_zone M z u (int (length bs))" using bs assms by (simp add: in_zone_def)
  then obtain M' where M': "poke_mem M (At z u) bs = Inr M'" by simp
  note fr = poke_frame [OF M']
  let ?w = "\<lparr>Iov_Base = At z 0, Iov_Len = u + n\<rparr>"
  have others: "(\<forall>v\<in>set us. readable M' v) \<and> contents M' us = contents M us" by (rule poke_others [OF M' assms(3)])
  have w: "readable M' ?w" using fr assms by (simp add: readable_def in_zone_def)
  have len: "nat (u + n) = nat u + length bs" "nat u + length bs \<le> length (zones M ! z)" using bs assms(6,8) by auto
  then have "length (take (nat u) (zones M ! z)) = nat u" by simp
  then have "iov_bytes M' ?w = take (nat u) (zones M ! z) @ bs"
    by (simp add: iov_bytes_def fr(3) overwrite_def len(1) del: length_take)
  with others w fr(1,5) M' saved_poke [OF M' assms(4,1)] storage_inv_poke [OF M' assms(2)] assms(9)
  show "\<exists>M'. poke_mem M (At z u) bs = Inr M' \<and> saved K M' \<and> storage_inv K M' S \<and> (\<forall>v\<in>set (Vecs P). readable M' v) \<and>
      contents M' (Vecs P) = (contents M us @ take (nat u) (zones M ! z)) @ bs \<and> length (zones M') = length (zones M) \<and> garbage M' = garbage M"
    by auto
qed

lemma grown_space:
  assumes "saved K M" "storage_inv K M S" "pool_inv P" "last_inv S P" "\<forall>v\<in>set (Vecs P). readable M v" "0 < n" "0 < Pool_Last P"
    "Last_Chunk P = Some c" "Last_Used (chunks S ! c) + n \<le> Chunk_Size (chunks S ! c)"
  shows "\<exists>S' P'. Grow_Shrink S P n = (At (Chunk_Zone (chunks S ! c)) (Last_Used (chunks S ! c)), S', P') \<and>
    pool_inv P' \<and> Vecs P' = butlast (Vecs P) @ [\<lparr>Iov_Base = At (Chunk_Zone (chunks S ! c)) 0, Iov_Len = Last_Used (chunks S ! c) + n\<rparr>] \<and>
    Pool_Last P' = Pool_Last P \<and> Last_Extract_Iovec P' = Last_Extract_Iovec P \<and> Last_Extract_Iovec_Offset P' = Last_Extract_Iovec_Offset P \<and>
    storage_inv K M S' \<and> last_inv S' P' \<and>
    space_at_end K M S' P' n (contents M (Vecs P)) (At (Chunk_Zone (chunks S ! c)) (Last_Used (chunks S ! c)))"
proof -
  let ?c = "chunks S ! c" and ?v = "last (Vecs P)"
  let ?z = "Chunk_Zone ?c" and ?u = "Last_Used ?c"
  have c: "c < length (chunks S)" "?v = \<lparr>Iov_Base = At ?z 0, Iov_Len = ?u\<rparr>" "\<forall>v\<in>set (butlast (Vecs P)). iov_zone v \<noteq> Some ?z"
    using assms(4,7,8) by (auto simp: last_inv_def)
  have ok: "length K \<le> ?z" "?z < length (zones M)" "int (length (zones M ! ?z)) = Chunk_Size ?c" "0 \<le> ?u"
    using assms(2) c(1) by (auto simp: storage_inv_def chunk_ok_def)
  let ?S = "S\<lparr>chunks := (chunks S)[c := ?c\<lparr>Last_Used := ?u + n\<rparr>]\<rparr>"
  let ?w = "\<lparr>Iov_Base = At ?z 0, Iov_Len = ?u + n\<rparr>"
  let ?P = "set_iovec P (Pool_Last P) ?w"
  have g: "Grow_Shrink S P n = (At ?z ?u, ?S, ?P)"
    using Grow_Shrink_eq [OF assms(3,7,8) refl refl, of n S] assms(6,9) c(2) by simp
  have V: "Vecs P = butlast (Vecs P) @ [?v]" using last_slot(3) [OF assms(3,7)] by simp
  have stor: "storage_inv K M ?S"
    using assms(2,6,9) ok c(1) by (auto simp: storage_inv_def chunk_ok_def nth_list_update dest!: set_update_subset_insert [THEN subsetD])
  have zone_same: "Chunk_Zone (chunks ?S ! k) = Chunk_Zone (chunks S ! k)" for k
    using c(1) by (simp add: nth_list_update)
  have VP: "Vecs ?P = butlast (Vecs P) @ [?w]" using Vecs_set_last(1) [OF assms(3,7)] .
  have "\<forall>v\<in>set (Vecs ?P). iov_zone v \<noteq> Some (Chunk_Zone (chunks ?S ! 0))" if "\<not> Prealloc_Used S"
  proof -
    have "\<forall>v\<in>set (Vecs P). iov_zone v \<noteq> Some (Chunk_Zone (chunks S ! 0))" using assms(4) that by (simp add: last_inv_def)
    then have "\<forall>v\<in>set (butlast (Vecs P) @ [?v]). iov_zone v \<noteq> Some (Chunk_Zone (chunks S ! 0))" using V by simp
    then show ?thesis unfolding VP zone_same using c(2) by (auto simp: iov_zone_def)
  qed
  then have "last_inv ?S ?P"
    using c assms(8) Vecs_set_last(4) [OF assms(3,7)] by (simp add: last_inv_def VP)
  moreover have "space_at_end K M ?S ?P n (contents M (Vecs P)) (At ?z ?u)"
  proof -
    have "\<forall>v\<in>set (butlast (Vecs P)). readable M v \<and> iov_zone v \<noteq> Some ?z" using assms(5) c(3) in_set_butlastD by fast
    from space_after [OF assms(1) stor this ok(1,2,4), of n ?P]
    have "space_at_end K M ?S ?P n (contents M (butlast (Vecs P)) @ take (nat ?u) (zones M ! ?z)) (At ?z ?u)"
      using assms(6,9) ok(3) VP by simp
    moreover have "contents M (Vecs P) = contents M (butlast (Vecs P)) @ take (nat ?u) (zones M ! ?z)"
      by (subst V) (simp add: c(2) iov_bytes_def)
    ultimately show ?thesis by simp
  qed
  ultimately show ?thesis using g VP stor Vecs_set_last [OF assms(3,7), of ?w] by blast
qed

lemma zones_extend:
  assumes "zones M' = zones M @ ext" "\<forall>v\<in>set vs. readable M v"
  shows "(\<forall>v\<in>set vs. readable M' v) \<and> contents M' vs = contents M vs"
  using assms(2) readable_zone
  by (intro contents_cong) (auto simp: assms(1) nth_append dest!: bspec readable_zone)

lemma storage_inv_extend: "zones M' = zones M @ ext \<Longrightarrow> storage_inv K M S \<Longrightarrow> storage_inv K M' S"
  by (auto simp: storage_inv_def chunk_ok_def nth_append)

lemma saved_extend: "zones M' = zones M @ ext \<Longrightarrow> saved K M \<Longrightarrow> saved K M'"
  by (auto simp: saved_def nth_append)

lemma Allocate_fresh:
  assumes "storage_inv K M S" "saved K M" "\<forall>v\<in>set vs. readable M v"
    "\<not> Prealloc_Used S \<longrightarrow> (\<forall>v\<in>set vs. iov_zone v \<noteq> Some (Chunk_Zone (chunks S ! 0)))"
  obtains c M' S' ext where "Allocate M S n = (c, M', S')" "c < length (chunks S')" "n \<le> Chunk_Size (chunks S' ! c)"
    "storage_inv K M' S'" "zones M' = zones M @ ext" "garbage M' = garbage M"
    "\<forall>v\<in>set vs. iov_zone v \<noteq> Some (Chunk_Zone (chunks S' ! c))"
    "Prealloc_Used S' \<or> (\<forall>v\<in>set vs. iov_zone v \<noteq> Some (Chunk_Zone (chunks S' ! 0))) \<and> Chunk_Zone (chunks S' ! c) \<noteq> Chunk_Zone (chunks S' ! 0)"
proof (cases "n \<le> Default_Chunk_Size \<and> \<not> Prealloc_Used S")
  case True
  with assms show ?thesis
    by (intro that [of 0 M "S\<lparr>Prealloc_Used := True\<rparr>" "[]"]) (auto simp: Allocate_def storage_inv_def)
next
  case False
  define k where "k = (if n \<le> Default_Chunk_Size then Default_Chunk_Size else n)"
  let ?M = "M\<lparr>zones := zones M @ [replicate (nat k) (garbage M)]\<rparr>" and ?c = "length (chunks S)"
  let ?S = "S\<lparr>chunks := chunks S @ [\<lparr>Chunk_Zone = length (zones M), Chunk_Size = k, Last_Used = 0\<rparr>], Dynamic_Chunks := Dynamic_Chunks S @ [?c]\<rparr>"
  have k: "n \<le> k" "0 \<le> k" "k = Default_Chunk_Size \<longrightarrow> Prealloc_Used S" using False by (auto simp: k_def Default_Chunk_Size_def)
  have run: "Allocate M S n = (?c, ?M, ?S)"
    using k(3) by (auto simp: Allocate_def new_zone_def Let_def k_def)
  have "storage_inv K ?M S" using assms(1) by (rule storage_inv_extend [rotated]) simp
  then have stor: "storage_inv K ?M ?S" using k assms(2)
    by (auto simp: storage_inv_def chunk_ok_def saved_def nth_append)
  have fresh: "\<forall>v\<in>set vs. iov_zone v \<noteq> Some (length (zones M))" using assms(3) readable_zone by fastforce
  have old: "Chunk_Zone (chunks S ! 0) < length (zones M)" "chunks S \<noteq> []" using assms(1) by (auto simp: storage_inv_def chunk_ok_def)
  show ?thesis by (rule that [OF run]) (use k stor fresh old assms(4) in \<open>auto simp: nth_append\<close>)
qed

lemma fresh_space:
  assumes "saved K M" "storage_inv K M S" "pool_inv P" "last_inv S P" "\<forall>v\<in>set (Vecs P). readable M v" "0 \<le> n"
  shows "\<exists>c M' S' P' ext. Allocate M S n = (c, M', S') \<and> n \<le> Chunk_Size (chunks S' ! c) \<and> zones M' = zones M @ ext \<and> garbage M' = garbage M \<and>
    (let S'' = S'\<lparr>chunks := (chunks S')[c := (chunks S' ! c)\<lparr>Last_Used := n\<rparr>]\<rparr> in
     Append P \<lparr>Iov_Base = Chunk_Storage S'' c, Iov_Len = n\<rparr> (Some c) = Inr P' \<and>
     pool_inv P' \<and> Vecs P' = Vecs P @ [\<lparr>Iov_Base = Chunk_Storage S'' c, Iov_Len = n\<rparr>] \<and> Pool_Last P' = Pool_Last P + 1 \<and>
     Last_Extract_Iovec P' = Last_Extract_Iovec P \<and> Last_Extract_Iovec_Offset P' = Last_Extract_Iovec_Offset P \<and>
     storage_inv K M' S'' \<and> last_inv S'' P' \<and> space_at_end K M' S'' P' n (contents M (Vecs P)) (Chunk_Storage S'' c))"
proof -
  have pre: "\<not> Prealloc_Used S \<longrightarrow> (\<forall>v\<in>set (Vecs P). iov_zone v \<noteq> Some (Chunk_Zone (chunks S ! 0)))"
    using assms(4) by (simp add: last_inv_def)
  obtain c M1 S1 ext where A: "Allocate M S n = (c, M1, S1)" "c < length (chunks S1)" "n \<le> Chunk_Size (chunks S1 ! c)"
    "storage_inv K M1 S1" "zones M1 = zones M @ ext" "garbage M1 = garbage M"
    "\<forall>v\<in>set (Vecs P). iov_zone v \<noteq> Some (Chunk_Zone (chunks S1 ! c))"
    "Prealloc_Used S1 \<or> (\<forall>v\<in>set (Vecs P). iov_zone v \<noteq> Some (Chunk_Zone (chunks S1 ! 0))) \<and> Chunk_Zone (chunks S1 ! c) \<noteq> Chunk_Zone (chunks S1 ! 0)"
    by (rule Allocate_fresh [OF assms(2,1,5) pre, of n]) (rule that)
  let ?S = "S1\<lparr>chunks := (chunks S1)[c := (chunks S1 ! c)\<lparr>Last_Used := n\<rparr>]\<rparr>"
  let ?z = "Chunk_Zone (chunks S1 ! c)"
  have zone_same: "Chunk_Zone (chunks ?S ! k) = Chunk_Zone (chunks S1 ! k)" for k
    using A(2) by (simp add: nth_list_update)
  have st: "Chunk_Storage ?S c = At ?z 0" using A(2) by (simp add: Chunk_Storage_def)
  let ?w = "\<lparr>Iov_Base = At ?z 0, Iov_Len = n\<rparr>"
  have stor: "storage_inv K M1 ?S"
    using A(2-4) assms(6) by (auto simp: storage_inv_def chunk_ok_def nth_list_update dest!: set_update_subset_insert [THEN subsetD])
  have ok: "length K \<le> ?z" "?z < length (zones M1)" "int (length (zones M1 ! ?z)) = Chunk_Size (chunks S1 ! c)"
    using A(2,4) by (auto simp: storage_inv_def chunk_ok_def)
  obtain P1 where P1: "Append P ?w (Some c) = Inr P1" "pool_inv P1" "Vecs P1 = Vecs P @ [?w]" "Pool_Last P1 = Pool_Last P + 1"
    "Last_Chunk P1 = Some c" "Last_Extract_Iovec P1 = Last_Extract_Iovec P" "Last_Extract_Iovec_Offset P1 = Last_Extract_Iovec_Offset P"
    by (rule Append_Vecs [OF assms(3)]) (rule that)
  have old: "(\<forall>v\<in>set (Vecs P). readable M1 v) \<and> contents M1 (Vecs P) = contents M (Vecs P)"
    by (rule zones_extend [OF A(5) assms(5)])
  have w: "iov_zone ?w = Some ?z" by (simp add: iov_zone_def)
  have "\<forall>v\<in>set (Vecs P1). iov_zone v \<noteq> Some (Chunk_Zone (chunks ?S ! 0))" if "\<not> Prealloc_Used S1"
    using A(8) that w unfolding P1(3) zone_same by auto
  moreover have "last (Vecs P1) = \<lparr>Iov_Base = At ?z 0, Iov_Len = n\<rparr>" "butlast (Vecs P1) = Vecs P" unfolding P1(3) by simp_all
  ultimately have last: "last_inv ?S P1" using A(2,7) P1(5) by (simp add: last_inv_def)
  have "space_at_end K M1 ?S P1 n (contents M (Vecs P)) (At ?z 0)"
    using space_after [OF saved_extend [OF A(5) assms(1)] stor _ ok(1,2) order_refl assms(6), of "Vecs P" P1] old A(3,7) ok(3) P1(3)
    by simp
  then show ?thesis
    using A(1,3,5,6) P1 stor last
    by (intro exI [of _ c] exI [of _ M1] exI [of _ S1] exI [of _ P1] exI [of _ ext]) (simp add: Let_def st)
qed

text \<open>
  The space that is inserted: writing the octets into it appends them to the contents and keeps the
  invariant, whether the last area has grown or a chunk has been added.
\<close>

lemma buf_inv_insert:
  assumes "buf_inv K M B" "pool_inv P" "cache_inv P" "last_inv S P" "Last_Extract_Iovec P \<le> max 1 (Pool_Last P)"
    "space_at_end K M1 S P n (octets M B) a" "int (length bs) = n"
  obtains M' where "poke_mem M1 a bs = Inr M'"
    "buf_inv K M' (B\<lparr>Storage := S, Contents := P, CDR_Position := p, Buffer_Length := Buffer_Length B + n\<rparr>)"
    "octets M' (B\<lparr>Storage := S, Contents := P, CDR_Position := p, Buffer_Length := Buffer_Length B + n\<rparr>) = octets M B @ bs"
proof -
  obtain M' where M': "poke_mem M1 a bs = Inr M'" "saved K M'" "storage_inv K M' S" "\<forall>v\<in>set (Vecs P). readable M' v"
    "contents M' (Vecs P) = octets M B @ bs"
    using assms(6,7) by (auto simp: space_at_end_def)
  moreover have "Buffer_Length B + n = int (length (octets M B @ bs))" using assms(1,7) by (simp add: buf_inv_def)
  ultimately show ?thesis using assms(2-5) by (intro that [of M']) (simp_all add: buf_inv_def octets_def)
qed

lemma Grow_cases:
  assumes "buf_inv K M B" "0 \<le> n"
  obtains (full) "Grow_Shrink (Storage B) (Contents B) n = (Null_Address, Storage B, Contents B)"
  | (room) a S P where "Grow_Shrink (Storage B) (Contents B) n = (a, S, P)" "a \<noteq> Null_Address" "pool_inv P" "cache_inv P" "last_inv S P"
      "Last_Extract_Iovec P \<le> max 1 (Pool_Last P)" "space_at_end K M S P n (octets M B) a"
proof -
  let ?P = "Contents B" and ?S = "Storage B"
  have inv: "saved K M" "pool_inv ?P" "cache_inv ?P" "storage_inv K M ?S" "last_inv ?S ?P" "\<forall>v\<in>set (Vecs ?P). readable M v"
    "Last_Extract_Iovec ?P \<le> max 1 (Pool_Last ?P)"
    using assms(1) by (auto simp: buf_inv_def)
  show ?thesis
  proof (cases "\<exists>c. 0 < n \<and> 0 < Pool_Last ?P \<and> Last_Chunk ?P = Some c \<and> Last_Used (chunks ?S ! c) + n \<le> Chunk_Size (chunks ?S ! c)")
    case True
    then obtain c where c: "0 < n" "0 < Pool_Last ?P" "Last_Chunk ?P = Some c" "Last_Used (chunks ?S ! c) + n \<le> Chunk_Size (chunks ?S ! c)"
      by blast
    obtain a S P v where g: "Grow_Shrink ?S ?P n = (a, S, P)" "a \<noteq> Null_Address" "pool_inv P" "Vecs P = butlast (Vecs ?P) @ [v]"
      "Pool_Last P = Pool_Last ?P" "Last_Extract_Iovec P = Last_Extract_Iovec ?P" "Last_Extract_Iovec_Offset P = Last_Extract_Iovec_Offset ?P"
      "last_inv S P" "space_at_end K M S P n (contents M (Vecs ?P)) a"
      using grown_space [OF inv(1,4,2,5,6) c] by blast
    have "cache_inv P" using cache_inv_grow [OF inv(3,2) g(4-7)] inv(7) c(2) by simp
    with g inv(7) show ?thesis by (intro room [of a S P]) (simp_all add: octets_def)
  next
    case False
    show ?thesis by (rule full) (use False assms(2) in \<open>auto simp: Grow_Shrink_def Let_def split: option.splits\<close>)
  qed
qed

lemma insert_space:
  assumes "buf_inv K M B" "0 \<le> n"
  shows "\<exists>a M1 S P. Allocate_And_Insert_Cooked_Data M B n = Inr (a, M1, B\<lparr>Storage := S, Contents := P,
      CDR_Position := CDR_Position B + n, Buffer_Length := Buffer_Length B + n\<rparr>) \<and>
    pool_inv P \<and> cache_inv P \<and> last_inv S P \<and> Last_Extract_Iovec P \<le> max 1 (Pool_Last P) \<and> space_at_end K M1 S P n (octets M B) a"
  using assms
proof (cases rule: Grow_cases)
  case (room a S P)
  then show ?thesis
    by (intro exI [of _ a] exI [of _ M] exI [of _ S] exI [of _ P]) (simp add: Allocate_And_Insert_Cooked_Data_def Is_Null_def)
next
  case full
  let ?P = "Contents B" and ?S = "Storage B"
  have inv: "saved K M" "pool_inv ?P" "cache_inv ?P" "storage_inv K M ?S" "last_inv ?S ?P" "\<forall>v\<in>set (Vecs ?P). readable M v"
    "Last_Extract_Iovec ?P \<le> max 1 (Pool_Last ?P)"
    using assms(1) by (auto simp: buf_inv_def)
  obtain c M1 S P where f: "Allocate M ?S n = (c, M1, S)" "n \<le> Chunk_Size (chunks S ! c)"
    "let S' = S\<lparr>chunks := (chunks S)[c := (chunks S ! c)\<lparr>Last_Used := n\<rparr>]\<rparr> in
     Append ?P \<lparr>Iov_Base = Chunk_Storage S' c, Iov_Len = n\<rparr> (Some c) = Inr P \<and>
     pool_inv P \<and> Vecs P = Vecs ?P @ [\<lparr>Iov_Base = Chunk_Storage S' c, Iov_Len = n\<rparr>] \<and> Pool_Last P = Pool_Last ?P + 1 \<and>
     Last_Extract_Iovec P = Last_Extract_Iovec ?P \<and> Last_Extract_Iovec_Offset P = Last_Extract_Iovec_Offset ?P \<and>
     storage_inv K M1 S' \<and> last_inv S' P \<and> space_at_end K M1 S' P n (contents M (Vecs ?P)) (Chunk_Storage S' c)"
    using fresh_space [OF inv(1,4,2,5,6) assms(2)] by blast
  define S' where "S' = S\<lparr>chunks := (chunks S)[c := (chunks S ! c)\<lparr>Last_Used := n\<rparr>]\<rparr>"
  note f' = f(3) [unfolded Let_def, folded S'_def]
  have "cache_inv P" using cache_inv_append [OF inv(3,2)] f' by simp
  moreover have "Allocate_And_Insert_Cooked_Data M B n = Inr (Chunk_Storage S' c, M1, B\<lparr>Storage := S', Contents := P,
    CDR_Position := CDR_Position B + n, Buffer_Length := Buffer_Length B + n\<rparr>)"
    using full f(1,2) f' by (simp add: Allocate_And_Insert_Cooked_Data_def Is_Null_def Let_def flip: S'_def)
  ultimately show ?thesis using f' inv(7)
    by (intro exI [of _ "Chunk_Storage S' c"] exI [of _ M1] exI [of _ S'] exI [of _ P]) (simp add: octets_def)
qed

lemma Allocate_And_Insert_appends:
  assumes "buf_inv K M B" "int (length bs) = n"
  obtains a M1 B' M' where "Allocate_And_Insert_Cooked_Data M B n = Inr (a, M1, B')" "poke_mem M1 a bs = Inr M'"
    "buf_inv K M' B'" "octets M' B' = octets M B @ bs" "CDR_Position B' = CDR_Position B + n"
    "Initial_CDR_Position B' = Initial_CDR_Position B" "Endianness B' = Endianness B"
proof -
  obtain a M1 S P where i: "Allocate_And_Insert_Cooked_Data M B n = Inr (a, M1, B\<lparr>Storage := S, Contents := P,
      CDR_Position := CDR_Position B + n, Buffer_Length := Buffer_Length B + n\<rparr>)"
    "pool_inv P" "cache_inv P" "last_inv S P" "Last_Extract_Iovec P \<le> max 1 (Pool_Last P)" "space_at_end K M1 S P n (octets M B) a"
    using insert_space [OF assms(1), of n] assms(2) by auto
  obtain M' where "poke_mem M1 a bs = Inr M'"
    "buf_inv K M' (B\<lparr>Storage := S, Contents := P, CDR_Position := CDR_Position B + n, Buffer_Length := Buffer_Length B + n\<rparr>)"
    "octets M' (B\<lparr>Storage := S, Contents := P, CDR_Position := CDR_Position B + n, Buffer_Length := Buffer_Length B + n\<rparr>) = octets M B @ bs"
    by (rule buf_inv_insert [OF assms(1) i(2-6) assms(2)]) (rule that)
  with i(1) show ?thesis
    by (intro that [of a M1 "B\<lparr>Storage := S, Contents := P, CDR_Position := CDR_Position B + n, Buffer_Length := Buffer_Length B + n\<rparr>" M']) simp_all
qed

text \<open>A buffer that is being written: the position is the end of the contents.\<close>

definition writer_inv :: "byte list list \<Rightarrow> memory \<Rightarrow> Buffer_Type \<Rightarrow> bool" where
  "writer_inv K M B \<longleftrightarrow> buf_inv K M B \<and> CDR_Position B = Initial_CDR_Position B + Buffer_Length B \<and> 0 \<le> Initial_CDR_Position B"

lemma writer_position: "writer_inv K M B \<Longrightarrow> CDR_Position B = Initial_CDR_Position B + int (length (octets M B))" "writer_inv K M B \<Longrightarrow> 0 \<le> CDR_Position B"
  by (auto simp: writer_inv_def buf_inv_def)

text \<open>Padding: zeros within the last area, or else a part of \<open>Null_Data\<close>.\<close>

lemma null_area:
  assumes "buf_inv K M B" "0 < n" "n < 8"
  obtains P where "Append (Contents B) \<lparr>Iov_Base = Null_Data, Iov_Len = n\<rparr> None = Inr P"
    "buf_inv K M (B\<lparr>Contents := P, CDR_Position := p, Buffer_Length := Buffer_Length B + n\<rparr>)"
    "octets M (B\<lparr>Contents := P, CDR_Position := p, Buffer_Length := Buffer_Length B + n\<rparr>) = octets M B @ replicate (nat n) 0"
proof -
  let ?P = "Contents B" and ?S = "Storage B" and ?w = "\<lparr>Iov_Base = Null_Data, Iov_Len = n\<rparr>"
  have inv: "saved K M" "pool_inv ?P" "cache_inv ?P" "storage_inv K M ?S" "last_inv ?S ?P" "\<forall>v\<in>set (Vecs ?P). readable M v"
    "Last_Extract_Iovec ?P \<le> max 1 (Pool_Last ?P)" "Buffer_Length B = int (length (octets M B))"
    using assms(1) by (auto simp: buf_inv_def)
  obtain P where P: "Append ?P ?w None = Inr P" "pool_inv P" "Vecs P = Vecs ?P @ [?w]" "Pool_Last P = Pool_Last ?P + 1" "Last_Chunk P = None"
    "Last_Extract_Iovec P = Last_Extract_Iovec ?P" "Last_Extract_Iovec_Offset P = Last_Extract_Iovec_Offset ?P"
    by (rule Append_Vecs [OF inv(2)]) (rule that)
  have w: "readable M ?w" "iov_bytes M ?w = replicate (nat n) 0" "iov_zone ?w = Some 0"
    using saved_null_zone(1) [OF inv(1)] assms(2,3)
    by (simp_all add: readable_def iov_bytes_def iov_zone_def Null_Data_def null_zone_def in_zone_def min_def)
  have "length K \<le> Chunk_Zone (chunks ?S ! 0)" "0 < length K" using inv(1,4) by (auto simp: storage_inv_def chunk_ok_def saved_def)
  then have "0 < Chunk_Zone (chunks ?S ! 0)" by linarith
  then have "last_inv ?S P" using inv(5) w(3) P(3,5) by (auto simp: last_inv_def)
  moreover have "cache_inv P" using cache_inv_append [OF inv(3,2) P(3)] P by simp
  moreover have "contents M (Vecs P) = octets M B @ replicate (nat n) 0" using w(2) by (simp add: P(3) octets_def)
  ultimately show ?thesis using inv w(1) P assms(2) by (intro that [of P]) (auto simp: buf_inv_def octets_def)
qed

definition aligned :: "int \<Rightarrow> Alignment_Type \<Rightarrow> byte list \<Rightarrow> byte list" where
  "aligned Pos A bs = replicate (nat (padding Pos A)) 0 @ bs"

lemma Align_Position_end:
  "0 \<le> CDR_Position B \<Longrightarrow> CDR_Position B + padding (CDR_Position B) A \<le> Initial_CDR_Position B + Buffer_Length B \<Longrightarrow>
   Align_Position B A = Inr (B\<lparr>CDR_Position := CDR_Position B + padding (CDR_Position B) A\<rparr>)"
  by (simp add: Align_Position_def Padding_Size_eq)

lemma Pad_Align_appends:
  assumes "writer_inv K M B"
  obtains M' B' where "Pad_Align M B A = Inr (M', B')" "writer_inv K M' B'" "octets M' B' = octets M B @ aligned (CDR_Position B) A []"
    "CDR_Position B' = CDR_Position B + padding (CDR_Position B) A" "Initial_CDR_Position B' = Initial_CDR_Position B" "Endianness B' = Endianness B"
proof (cases "padding (CDR_Position B) A = 0")
  case True
  with assms writer_position(2) [OF assms] show ?thesis
    by (intro that [of M B]) (simp_all add: Pad_Align_def Padding_Size_eq aligned_def)
next
  case False
  define n where "n = padding (CDR_Position B) A"
  have n: "0 < n" "n < 8" using False padding_bounds [of "CDR_Position B" A] by (auto simp: n_def)
  have w: "buf_inv K M B" "0 \<le> CDR_Position B" "CDR_Position B = Initial_CDR_Position B + Buffer_Length B" "0 \<le> Initial_CDR_Position B"
    using assms writer_position(2) [OF assms] by (auto simp: writer_inv_def)
  note outcome = that
  have result: thesis if
    "Pad_Align M B A = on_ok (Align_Position (B\<lparr>Storage := S, Contents := P, Buffer_Length := Buffer_Length B + n\<rparr>) A) (\<lambda>B. Inr (M', B))"
    "buf_inv K M' (B\<lparr>Storage := S, Contents := P, CDR_Position := CDR_Position B + n, Buffer_Length := Buffer_Length B + n\<rparr>)"
    "octets M' (B\<lparr>Storage := S, Contents := P, CDR_Position := CDR_Position B + n, Buffer_Length := Buffer_Length B + n\<rparr>) = octets M B @ replicate (nat n) 0"
    for S P M'
  proof (rule outcome)
    let ?B = "B\<lparr>Storage := S, Contents := P, CDR_Position := CDR_Position B + n, Buffer_Length := Buffer_Length B + n\<rparr>"
    show "Pad_Align M B A = Inr (M', ?B)"
      using \<open>Pad_Align M B A = _\<close> w Align_Position_end [of "B\<lparr>Storage := S, Contents := P, Buffer_Length := Buffer_Length B + n\<rparr>" A] by (simp add: n_def)
    show "writer_inv K M' ?B" using \<open>buf_inv K M' ?B\<close> w by (simp add: writer_inv_def)
    show "octets M' ?B = octets M B @ aligned (CDR_Position B) A []" using \<open>octets M' ?B = _\<close> by (simp add: aligned_def n_def)
  qed (simp_all add: n_def)
  from w(1) n(1) [THEN less_imp_le] show thesis
  proof (cases rule: Grow_cases)
    case full
    obtain P where P: "Append (Contents B) \<lparr>Iov_Base = Null_Data, Iov_Len = n\<rparr> None = Inr P"
      "buf_inv K M (B\<lparr>Contents := P, CDR_Position := CDR_Position B + n, Buffer_Length := Buffer_Length B + n\<rparr>)"
      "octets M (B\<lparr>Contents := P, CDR_Position := CDR_Position B + n, Buffer_Length := Buffer_Length B + n\<rparr>) = octets M B @ replicate (nat n) 0"
      by (rule null_area [OF w(1) n]) (rule that)
    have same: "B\<lparr>Storage := Storage B, Contents := P, CDR_Position := CDR_Position B + n, Buffer_Length := Buffer_Length B + n\<rparr> =
        B\<lparr>Contents := P, CDR_Position := CDR_Position B + n, Buffer_Length := Buffer_Length B + n\<rparr>" by simp
    show thesis
      by (rule result [where S = "Storage B" and P = P and M' = M])
        (use P full w(2) n(1) False in \<open>simp_all add: same Pad_Align_def Padding_Size_eq Is_Null_def flip: n_def\<close>)
  next
    case (room a S P)
    have zeros: "int (length (replicate (nat n) (0 :: byte))) = n" using n by simp
    obtain M' where M': "poke_mem M a (replicate (nat n) 0) = Inr M'"
      "buf_inv K M' (B\<lparr>Storage := S, Contents := P, CDR_Position := CDR_Position B + n, Buffer_Length := Buffer_Length B + n\<rparr>)"
      "octets M' (B\<lparr>Storage := S, Contents := P, CDR_Position := CDR_Position B + n, Buffer_Length := Buffer_Length B + n\<rparr>) = octets M B @ replicate (nat n) 0"
      by (rule buf_inv_insert [OF w(1) room(3-7) zeros]) (rule that)
    show thesis
      by (rule result [where S = S and P = P and M' = M']) (use M' room(1,2) w(2) n(1) False in \<open>simp_all add: Pad_Align_def Padding_Size_eq Is_Null_def flip: n_def\<close>)
  qed
qed

text \<open>Zones that are added to the memory do not matter.\<close>

lemma writer_inv_extend:
  assumes "zones M' = zones M @ ext" "writer_inv K M B"
  shows "writer_inv K M' B" "octets M' B = octets M B"
proof -
  have "\<forall>v\<in>set (Vecs (Contents B)). readable M v" using assms(2) by (simp add: writer_inv_def buf_inv_def)
  then have "(\<forall>v\<in>set (Vecs (Contents B)). readable M' v) \<and> contents M' (Vecs (Contents B)) = contents M (Vecs (Contents B))"
    by (rule zones_extend [OF assms(1)])
  then show "octets M' B = octets M B" "writer_inv K M' B"
    using assms(2) saved_extend [OF assms(1)] storage_inv_extend [OF assms(1)] by (auto simp: writer_inv_def buf_inv_def octets_def)
qed

section \<open>Reading\<close>

text \<open>The octets of a buffer in a zone of their own.\<close>

lemma To_Zone_octets:
  assumes "buf_inv K M B" "Initial_CDR_Position B = 0" "octets M B \<noteq> []"
  obtains z M' where "To_Zone M B = Inr (z, M')" "z = length (zones M)" "z < length (zones M')" "zones M' ! z = octets M B" "saved K M'"
    "\<exists>ext. zones M' = zones M @ ext"
proof -
  let ?V = "Vecs (Contents B)" and ?z = "length (zones M)"
  let ?M = "M\<lparr>zones := zones M @ [replicate (length (octets M B)) (garbage M)]\<rparr>"
  have inv: "\<forall>v\<in>set ?V. readable M v" "Buffer_Length B = int (length (octets M B))" "saved K M"
    using assms(1) by (auto simp: buf_inv_def)
  have ext: "(\<forall>v\<in>set ?V. readable ?M v) \<and> contents ?M ?V = contents M ?V"
    by (rule zones_extend [OF _ inv(1), where ext = "[replicate (length (octets M B)) (garbage M)]"]) simp
  have "iov_zone v \<noteq> Some ?z" if "v \<in> set ?V" for v using readable_zone inv(1) that by fastforce
  then obtain M' where M': "Dump_loop ?M ?V (At ?z 0) = Inr M'" "zones M' = (zones ?M)[?z := overwrite (zones ?M ! ?z) (nat 0) (contents ?M ?V)]"
    using Dump_loop_correct [of ?V ?M ?z 0] ext by (auto simp: in_zone_def octets_def)
  have "1 \<le> int (length (octets M B))" using assms(3) by (cases "octets M B") auto
  then have "To_Zone M B = Inr (?z, M')"
    using assms(2) inv(2) M'(1) by (simp add: To_Zone_def new_zone_def Dump_def)
  moreover have "zones M' ! ?z = octets M B" using M'(2) ext by (simp add: nth_append octets_def overwrite_def)
  moreover have "saved K M'" "\<exists>ext. zones M' = zones M @ ext" using inv(3) M'(2) by (auto simp: saved_def list_update_append)
  ultimately show ?thesis using M'(2) by (intro that [of ?z M']) simp_all
qed

text \<open>A buffer of one area that is being read, and the octets that are left.\<close>

definition reader_inv :: "memory \<Rightarrow> Buffer_Type \<Rightarrow> bool" where
  "reader_inv M B \<longleftrightarrow> pool_inv (Contents B) \<and> cache_inv (Contents B) \<and> Pool_Last (Contents B) = 1 \<and>
     (\<forall>v\<in>set (Vecs (Contents B)). readable M v) \<and> Buffer_Length B = int (length (octets M B)) \<and>
     0 \<le> Initial_CDR_Position B \<and> Initial_CDR_Position B \<le> CDR_Position B \<and> CDR_Position B \<le> Initial_CDR_Position B + Buffer_Length B"

definition unread :: "memory \<Rightarrow> Buffer_Type \<Rightarrow> byte list" where
  "unread M B = drop (nat (CDR_Position B - Initial_CDR_Position B)) (octets M B)"

lemma length_unread: "reader_inv M B \<Longrightarrow> int (length (unread M B)) = Initial_CDR_Position B + Buffer_Length B - CDR_Position B"
  unfolding reader_inv_def unread_def length_drop by linarith

lemma reader_inv_extend:
  assumes "zones M' = zones M @ ext" "reader_inv M B"
  shows "reader_inv M' B" "unread M' B = unread M B"
proof -
  have "\<forall>v\<in>set (Vecs (Contents B)). readable M v" using assms(2) by (simp add: reader_inv_def)
  then have "(\<forall>v\<in>set (Vecs (Contents B)). readable M' v) \<and> contents M' (Vecs (Contents B)) = contents M (Vecs (Contents B))"
    by (rule zones_extend [OF assms(1)])
  then show "reader_inv M' B" "unread M' B = unread M B" using assms(2) by (auto simp: reader_inv_def unread_def octets_def)
qed

lemma Initialize_Buffer_reads:
  assumes "pool_inv (Contents B)" "Pool_Last (Contents B) = 0" "Last_Extract_Iovec (Contents B) = 1" "Last_Extract_Iovec_Offset (Contents B) = 0"
    "CDR_Position B = 0" "Initial_CDR_Position B = 0" "peek_mem M a n = Inr bs" "0 \<le> n" "0 \<le> p"
  obtains B' where "Initialize_Buffer B n a E p = Inr B'" "reader_inv M B'" "unread M B' = bs" "Endianness B' = E" "CDR_Position B' = p"
proof -
  let ?w = "\<lparr>Iov_Base = a, Iov_Len = n\<rparr>"
  have w: "readable M ?w" "iov_bytes M ?w = bs" using assms(7)
    by (cases a; simp add: readable_def iov_bytes_def split: if_splits)+
  obtain P where P: "Append (Contents B) ?w None = Inr P" "pool_inv P" "Vecs P = Vecs (Contents B) @ [?w]" "Pool_Last P = Pool_Last (Contents B) + 1"
    "Last_Chunk P = None" "Last_Extract_Iovec P = Last_Extract_Iovec (Contents B)" "Last_Extract_Iovec_Offset P = Last_Extract_Iovec_Offset (Contents B)"
    by (rule Append_Vecs [OF assms(1)]) (rule that)
  have V: "Vecs P = [?w]" using P(3) assms(2) by (simp add: Vecs_def)
  have "cache_inv P" using P(4,6,7) assms(2-4) by (simp add: cache_inv_def)
  moreover have "n = int (length bs)" using int_length_iov_bytes [OF w(1)] w(2) by simp
  ultimately show ?thesis
    using P(1,2,4) V w assms(2,5,6,9)
    by (intro that [of "B\<lparr>Endianness := E, CDR_Position := p, Initial_CDR_Position := p, Contents := P, Buffer_Length := n\<rparr>"])
      (simp_all add: Initialize_Buffer_def reader_inv_def unread_def octets_def)
qed

lemma Align_Position_reads:
  assumes "reader_inv M B" "unread M B = aligned (CDR_Position B) A bs"
  obtains B' where "Align_Position B A = Inr B'" "reader_inv M B'" "unread M B' = bs" "Endianness B' = Endianness B"
    "CDR_Position B' = CDR_Position B + padding (CDR_Position B) A"
proof (rule that)
  let ?p = "padding (CDR_Position B) A"
  let ?B = "B\<lparr>CDR_Position := CDR_Position B + ?p\<rparr>"
  have r: "0 \<le> Initial_CDR_Position B" "Initial_CDR_Position B \<le> CDR_Position B" using assms(1) by (simp_all add: reader_inv_def)
  have "int (length (unread M B)) = ?p + int (length bs)" using assms(2) padding_bounds(1) [of "CDR_Position B" A] by (simp add: aligned_def)
  then have le: "CDR_Position B + ?p \<le> Initial_CDR_Position B + Buffer_Length B" using length_unread [OF assms(1)] by simp
  show "Align_Position B A = Inr ?B" using r le by (intro Align_Position_end) simp_all
  show "reader_inv M ?B" using assms(1) le padding_bounds(1) [of "CDR_Position B" A] by (simp add: reader_inv_def octets_def)
  have "unread M ?B = drop (nat ?p) (unread M B)"
    using r padding_bounds(1) [of "CDR_Position B" A] by (simp add: unread_def octets_def algebra_simps flip: nat_add_distrib)
  then show "unread M ?B = bs" using assms(2) by (simp add: aligned_def)
qed simp_all

lemma Extract_Data_reads:
  assumes "reader_inv M B" "unread M B = bs @ rs" "bs \<noteq> []" "n = int (length bs)"
  obtains a B' where "Extract_Data B n True 0 = Inr (a, B')" "peek_mem M a n = Inr bs" "reader_inv M B'" "unread M B' = rs"
    "Endianness B' = Endianness B" "CDR_Position B' = CDR_Position B + n"
proof -
  let ?P = "Contents B" and ?o = "CDR_Position B - Initial_CDR_Position B"
  have r: "pool_inv ?P" "cache_inv ?P" "\<And>v. v \<in> set (Vecs ?P) \<Longrightarrow> readable M v" "0 \<le> ?o" "Pool_Last ?P = 1"
    using assms(1) by (auto simp: reader_inv_def)
  have u: "drop (nat ?o) (contents M (Vecs ?P)) = bs @ rs" using assms(2) by (simp add: unread_def octets_def)
  have len: "length (contents M (Vecs ?P)) - nat ?o = length bs + length rs" using arg_cong [OF u, of length] by simp
  have n: "0 < n" "0 < length bs" using assms(3,4) by auto
  then have lt: "?o < int (length (contents M (Vecs ?P)))" "n \<le> int (length (contents M (Vecs ?P))) - ?o"
    using len r(4) assms(4) by linarith+
  obtain a m P' where e: "Iovec_Pools.Extract_Data ?P ?o n = (a, m, P')" "m = n"
    "peek_mem M a m = Inr (take (nat m) (drop (nat ?o) (contents M (Vecs ?P))))" "cache_inv P'"
    "\<exists>x y. P' = ?P\<lparr>Last_Extract_Iovec := x, Last_Extract_Iovec_Offset := y\<rparr>"
    using Extract_Data_correct [OF r(1-4) n(1) lt(1)] r(5) lt(2) by blast
  let ?B = "B\<lparr>Contents := P', CDR_Position := CDR_Position B + n\<rparr>"
  have P': "Vecs P' = Vecs ?P" "pool_inv P'" "Pool_Last P' = 1" using e(5) r(1,5) by auto
  show ?thesis
  proof (rule that)
    show "Extract_Data B n True 0 = Inr (a, ?B)"
      using e(1,2) by (simp add: Buffers.Extract_Data_def Partial_Extract_Data_def)
    show "peek_mem M a n = Inr bs" using e(2,3) u assms(4) by simp
    have "CDR_Position B + n \<le> Initial_CDR_Position B + Buffer_Length B"
      using assms(1) lt(2) by (simp add: reader_inv_def octets_def)
    then show "reader_inv M ?B" using assms(1) P' e(4) n(1) by (simp add: reader_inv_def octets_def)
    have "nat (?o + n) = length bs + nat ?o" using r(4) assms(4) by simp
    then have "unread M ?B = drop (length bs) (drop (nat ?o) (octets M B))" using P'(1) by (simp add: unread_def octets_def algebra_simps)
    then show "unread M ?B = rs" using u by (simp add: octets_def)
  qed simp_all
qed

section \<open>Sending is complete\<close>

text \<open>A transport that takes at least one octet of those that it is given, and no more than those.\<close>

definition takes_some :: "('w \<Rightarrow> byte list \<Rightarrow> int \<times> 'w) \<Rightarrow> bool" where
  "takes_some lowlevel \<longleftrightarrow> (\<forall>w data. data \<noteq> [] \<longrightarrow> 0 < fst (lowlevel w data) \<and> fst (lowlevel w data) \<le> int (length data))"

definition takes_all :: "('w \<Rightarrow> byte list \<Rightarrow> int \<times> 'w) \<Rightarrow> bool" where
  "takes_all lowlevel \<longleftrightarrow> (\<forall>w data. fst (lowlevel w data) = int (length data))"

lemma rest_of_area:
  assumes "readable M v" "0 \<le> k" "k \<le> Iov_Len v"
  shows "readable M \<lparr>Iov_Base = address_plus (Iov_Base v) k, Iov_Len = Iov_Len v - k\<rparr>"
    "iov_bytes M \<lparr>Iov_Base = address_plus (Iov_Base v) k, Iov_Len = Iov_Len v - k\<rparr> = drop (nat k) (iov_bytes M v)"
proof -
  obtain z i where b: "Iov_Base v = At z i" using assms(1) by (cases "Iov_Base v") (auto simp: readable_def)
  then show "readable M \<lparr>Iov_Base = address_plus (Iov_Base v) k, Iov_Len = Iov_Len v - k\<rparr>"
    using assms by (auto simp: readable_def in_zone_def)
  have "0 \<le> i" using b assms(1) by (auto simp: readable_def in_zone_def)
  then show "iov_bytes M \<lparr>Iov_Base = address_plus (Iov_Base v) k, Iov_Len = Iov_Len v - k\<rparr> = drop (nat k) (iov_bytes M v)"
    using b assms(2,3) by (simp add: iov_bytes_def drop_take nat_add_distrib nat_diff_distrib add.commute)
qed

lemma Send_loop_end [simp]: "r \<le> 0 \<Longrightarrow> Send_loop lowlevel M vs i r w sent = Some (Inr (sent, vs, w))"
  by (simp add: Send_loop.simps)

lemma Send_single:
  assumes "takes_some lowlevel" "readable M v" "r = Iov_Len v"
  shows "\<exists>vs' w'. Send_loop lowlevel M [v] 1 r w sent = Some (Inr (sent @ iov_bytes M v, vs', w'))"
  using assms(2,3)
proof (induction "nat r" arbitrary: v r w sent rule: less_induct)
  case less
  show ?case
  proof (cases "0 < r")
    case True
    obtain k w1 where k: "lowlevel w (iov_bytes M v) = (k, w1)" by fastforce
    have len: "int (length (iov_bytes M v)) = r" using int_length_iov_bytes less.prems by simp
    then have "iov_bytes M v \<noteq> []" using True by auto
    with assms(1) have kr: "0 < k" "k \<le> r" using k len by (auto simp: takes_some_def dest!: spec [of _ w] spec [of _ "iov_bytes M v"])
    show ?thesis
    proof (cases "k = r")
      case True
      then show ?thesis using \<open>0 < r\<close> k len less.prems(2) by (subst Send_loop.simps) (simp add: Let_def)
    next
      case False
      let ?v = "\<lparr>Iov_Base = address_plus (Iov_Base v) k, Iov_Len = Iov_Len v - k\<rparr>"
      have rest: "readable M ?v" "iov_bytes M ?v = drop (nat k) (iov_bytes M v)" using rest_of_area less.prems kr by auto
      obtain vs' w' where "Send_loop lowlevel M [?v] 1 (r - k) w1 (sent @ take (nat k) (iov_bytes M v)) =
          Some (Inr ((sent @ take (nat k) (iov_bytes M v)) @ iov_bytes M ?v, vs', w'))"
        using less.hyps [of "r - k" ?v w1 "sent @ take (nat k) (iov_bytes M v)"] rest(1) kr less.prems(2) by auto
      then have "Send_loop lowlevel M [?v] 1 (r - k) w1 (sent @ take (nat k) (iov_bytes M v)) = Some (Inr (sent @ iov_bytes M v, vs', w'))"
        using rest(2) by simp
      then show ?thesis using \<open>0 < r\<close> k False kr less.prems(2) by (subst Send_loop.simps) (simp add: Let_def)
    qed
  next
    case False
    then have "iov_bytes M v = []" using length_iov_bytes [OF less.prems(1)] less.prems(2) by simp
    with False show ?thesis by simp
  qed
qed

lemma sent_loop_all:
  "(\<And>v. v \<in> set vs \<Longrightarrow> 0 \<le> Iov_Len v) \<Longrightarrow> sent_loop vs i (total_len vs) (total_len vs) = (i + length vs, 0, 0)"
proof (induction vs arbitrary: i)
  case (Cons v vs)
  have "0 \<le> total_len vs" using Cons.prems by (auto simp: total_len_def intro!: sum_list_nonneg)
  with Cons.IH [of "Suc i"] Cons.prems show ?case by simp
qed simp

lemma Send_at_once:
  assumes "takes_all lowlevel" "\<And>v. v \<in> set vs \<Longrightarrow> readable M v"
  shows "\<exists>vs' w'. Send_loop lowlevel M vs 1 (total_len vs) w [] = Some (Inr (contents M vs, vs', w'))"
proof (cases "0 < total_len vs")
  case True
  have t: "total_len vs = int (length (contents M vs))" by (rule total_len_contents) (rule assms(2))
  obtain k w1 where k: "lowlevel w (contents M vs) = (k, w1)" by fastforce
  have "k = total_len vs" using assms(1) k t by (metis fst_conv takes_all_def)
  moreover have "vs \<noteq> []" using True by auto
  moreover have "sent_loop vs 1 (total_len vs) (total_len vs) = (1 + length vs, 0, 0)"
    by (rule sent_loop_all) (use assms(2) readable_len in blast)
  ultimately show ?thesis
    using True k t by (subst Send_loop.simps) (simp add: Let_def)
next
  case False
  then have "contents M vs = []" using total_len_contents [OF assms(2), of vs] by simp
  with False show ?thesis by simp
qed

section \<open>Properties\<close>

text \<open>
  \<open>Padding_Size\<close>, computed on a modular type with a mask, is the distance to the next multiple of the
  alignment: less than the alignment, and no smaller distance leads to a multiple.
\<close>

theorem Padding_Size_correct:
  assumes "0 \<le> Pos"
  shows "\<exists>n. Padding_Size Pos A = Inr n \<and> n = (- Pos) mod alignment_rep A \<and> 0 \<le> n \<and> n < alignment_rep A \<and> alignment_rep A dvd Pos + n"
  using assms padding_bounds [of Pos A] by (auto simp: Padding_Size_eq padding_def mod_eq_0_iff_dvd)

theorem Padding_Size_correct_witness:
  "\<exists>n. Padding_Size 13 Align_8 = Inr n \<and> n = (- 13) mod 8 \<and> 0 \<le> n \<and> n < 8 \<and> 8 dvd 13 + n"
  using Padding_Size_correct [of 13 Align_8] by simp

text \<open>
  Property C33. Sending returns and sends the contents of the buffer, all of them and in order, when the transport takes
  at least one octet in each call and the contents are in one area, or when the transport takes all that it is given.
\<close>

theorem Send_Buffer_complete:
  assumes "buf_inv K M B" "takes_all lowlevel \<or> takes_some lowlevel \<and> Pool_Last (Contents B) = 1"
  shows "\<exists>B' w'. Send_Buffer lowlevel M B w = Some (Inr (octets M B, B', w'))"
proof -
  let ?V = "Vecs (Contents B)"
  have inv: "\<And>v. v \<in> set ?V \<Longrightarrow> readable M v" "Buffer_Length B = int (length (contents M ?V))" "length ?V = Pool_Last (Contents B)"
    using assms(1) by (auto simp: buf_inv_def octets_def)
  have len: "Buffer_Length B = total_len ?V" using total_len_contents [OF inv(1)] inv(2) by simp
  have "\<exists>vs' w'. Send_loop lowlevel M ?V 1 (total_len ?V) w [] = Some (Inr (contents M ?V, vs', w'))"
  proof (cases "takes_all lowlevel")
    case True
    then show ?thesis using inv(1) by (rule Send_at_once)
  next
    case False
    then have "length ?V = 1" "takes_some lowlevel" using assms(2) inv(3) by auto
    moreover then obtain v where v: "?V = [v]" by (auto simp: length_Suc_conv)
    ultimately show ?thesis using Send_single [of lowlevel M v "Iov_Len v" w "[]"] inv(1) by simp
  qed
  then show ?thesis by (auto simp: Send_Buffer_def len octets_def)
qed

theorem Send_Buffer_complete_witness:
  "\<exists>B' w'. Send_Buffer (\<lambda>w data. (int (length data), w)) (snd (New_Buffer Big_Endian \<lparr>zones = [replicate 8 0], garbage = 0\<rparr>))
     (fst (New_Buffer Big_Endian \<lparr>zones = [replicate 8 0], garbage = 0\<rparr>)) () = Some (Inr ([], B', w'))"
proof -
  let ?N = "New_Buffer Big_Endian \<lparr>zones = [replicate 8 0], garbage = 0\<rparr>"
  have n: "saved [replicate 8 0] \<lparr>zones = [replicate 8 0], garbage = 0\<rparr>" by (simp add: saved_def)
  have "buf_inv [replicate 8 0] (snd ?N) (fst ?N)" "octets (snd ?N) (fst ?N) = []"
    using New_Buffer_inv(1,2) [OF n, of Big_Endian "fst ?N" "snd ?N"] by simp_all
  then show ?thesis
    using Send_Buffer_complete [of "[replicate 8 0]" "snd ?N" "fst ?N" "\<lambda>w data. (int (length data), w)" "()"] by (simp add: takes_all_def)
qed

text \<open>
  With a transport that takes fewer octets than the first area has, a buffer of several areas is not sent
  correctly: every call is given the areas from the first one on, so that two areas of one octet each are sent as the
  first octet twice.
\<close>

theorem partial_send_repeats:
  "contents \<lparr>zones = [[a], [b]], garbage = g\<rparr> [\<lparr>Iov_Base = At 0 0, Iov_Len = 1\<rparr>, \<lparr>Iov_Base = At 1 0, Iov_Len = 1\<rparr>] = [a, b] \<and>
   Send_loop (\<lambda>w data. (1, w)) \<lparr>zones = [[a], [b]], garbage = g\<rparr>
     [\<lparr>Iov_Base = At 0 0, Iov_Len = 1\<rparr>, \<lparr>Iov_Base = At 1 0, Iov_Len = 1\<rparr>] 1 2 w [] =
   Some (Inr ([a, a], [\<lparr>Iov_Base = At 0 0, Iov_Len = 1\<rparr>, \<lparr>Iov_Base = At 1 0, Iov_Len = 1\<rparr>], w))"
  by (simp add: Send_loop.simps iov_bytes_def)

end
