(* ===== verification/Cdr.thy ===== *)
theory Cdr
  imports Buffers
begin

text \<open>
  CDR, the representation of data that GIOP and encapsulations use: the transfer of elementary items
  (\<open>src/src/polyorb-utils-buffers.adb\<close>) and the operations of
  \<open>src/src/polyorb-representations-cdr-common.adb\<close> for booleans, characters, octets, integers, strings
  and sequences of octets, and encapsulations. A stream is a buffer with the memory that holds its
  contents. The generic package \<open>Align_Transfer_Elementary\<close> is a family of definitions over the word type
  that has the size of its parameter; floating point items are the words of their representation.

  The theory shows that what is marshalled into an encapsulation can be unmarshalled from it, on hosts
  of any byte order, and that the octets are the ones that CDR prescribes.
\<close>

type_synonym stream = "memory \<times> Buffer_Type"

section \<open>Elementary items\<close>

text \<open>The memory representation of an item of the host.\<close>

fun le_octets :: "nat \<Rightarrow> int \<Rightarrow> byte list" where
  "le_octets 0 v = []"
| "le_octets (Suc k) v = word_of_int v # le_octets k (v div 256)"

fun le_value :: "byte list \<Rightarrow> int" where
  "le_value [] = 0"
| "le_value (b # bs) = uint b + 256 * le_value bs"

definition in_order :: "Endianness_Type \<Rightarrow> byte list \<Rightarrow> byte list" where
  "in_order E bs = (if E = Little_Endian then bs else rev bs)"

definition T_Size :: "'a::len word \<Rightarrow> nat" where
  "T_Size w = LENGTH('a)"

definition Item_Storage :: "Endianness_Type \<Rightarrow> 'a::len word \<Rightarrow> byte list" where
  "Item_Storage host w = in_order host (le_octets (LENGTH('a) div 8) (uint w))"

definition Stored_Item :: "Endianness_Type \<Rightarrow> byte list \<Rightarrow> 'a::len word" where
  "Stored_Item host bs = word_of_int (le_value (in_order host bs))"

text \<open>The unchecked conversion gives a valid alignment for these sizes only.\<close>

definition Alignment_Of :: "nat \<Rightarrow> Alignment_Type result" where
  "Alignment_Of n = (if n = 1 then Inr Align_1 else if n = 2 then Inr Align_2 else if n = 4 then Inr Align_4
     else if n = 8 then Inr Align_8 else Inl Erroneous_Access)"

definition Swap :: "nat \<Rightarrow> byte list \<Rightarrow> byte list result" where
  "Swap size_T bs = (if size_T = 8 then Inr bs else if size_T = 16 \<or> size_T = 32 \<or> size_T = 64 then Inr (rev bs) else Inl Program_Error)"

definition Marshall_Elementary :: "Endianness_Type \<Rightarrow> bool \<Rightarrow> stream \<Rightarrow> 'a::len word \<Rightarrow> stream result" where
  "Marshall_Elementary Host_Order With_Alignment s Item =
     on_ok (Alignment_Of (T_Size Item div 8)) (\<lambda>Alignment_Of_T.
     on_ok (if Alignment_Of_T \<noteq> Align_1 \<and> With_Alignment then Pad_Align (fst s) (snd s) Alignment_Of_T else Inr s) (\<lambda>(M, Buffer).
     on_ok (Allocate_And_Insert_Cooked_Data M Buffer (int (T_Size Item div 8))) (\<lambda>(Data_Address, M, Buffer).
     on_ok (poke_mem M Data_Address (Item_Storage Host_Order Item)) (\<lambda>M.
     on_ok (if T_Size Item > 8 \<and> Endianness Buffer \<noteq> Host_Order
            then on_ok (peek_mem M Data_Address (int (T_Size Item div 8))) (\<lambda>bs.
                 on_ok (Swap (T_Size Item) bs) (\<lambda>bs. poke_mem M Data_Address bs))
            else Inr M) (\<lambda>M.
     Inr (M, Buffer))))))"

definition Unmarshall_Elementary :: "Endianness_Type \<Rightarrow> bool \<Rightarrow> stream \<Rightarrow> ('a::len word \<times> stream) result" where
  "Unmarshall_Elementary Host_Order With_Alignment s = (let (M, Buffer) = s; size_T = LENGTH('a) in
     on_ok (Alignment_Of (size_T div 8)) (\<lambda>Alignment_Of_T.
     on_ok (if Alignment_Of_T \<noteq> Align_1 \<and> With_Alignment then Align_Position Buffer Alignment_Of_T else Inr Buffer) (\<lambda>Buffer.
     on_ok (Extract_Data Buffer (int (size_T div 8)) True 0) (\<lambda>(Data_Address, Buffer).
     on_ok (peek_mem M Data_Address (int (size_T div 8))) (\<lambda>Z.
     on_ok (if size_T > 8 \<and> Endianness Buffer \<noteq> Host_Order then Swap size_T Z else Inr Z) (\<lambda>Z.
     Inr (Stored_Item Host_Order Z, M, Buffer)))))))"

definition Align_Marshall_Copy :: "stream \<Rightarrow> byte list \<Rightarrow> Alignment_Type \<Rightarrow> stream result" where
  "Align_Marshall_Copy s Octets Alignment =
     on_ok (Pad_Align (fst s) (snd s) Alignment) (\<lambda>(M, Buffer).
     on_ok (Allocate_And_Insert_Cooked_Data M Buffer (int (length Octets))) (\<lambda>(Data_Address, M, Buffer).
     on_ok (poke_mem M Data_Address Octets) (\<lambda>M. Inr (M, Buffer))))"

text \<open>The loop of \<open>Align_Unmarshall_Copy\<close> has read \<open>Data\<close> and \<open>left\<close> octets are missing.\<close>

function Unmarshall_Copy_loop :: "stream \<Rightarrow> byte list \<Rightarrow> int \<Rightarrow> (byte list \<times> stream) result" where
  "Unmarshall_Copy_loop s Data left =
     (if left \<le> 0 then Inr (Data, s)
      else on_ok (Partial_Extract_Data (snd s) left True 0 True) (\<lambda>(Data_Address, Size, Buffer).
           if 0 < Size
           then on_ok (peek_mem (fst s) Data_Address Size) (\<lambda>Extracted_Data.
                Unmarshall_Copy_loop (fst s, Buffer) (Data @ Extracted_Data) (left - Size))
           else Inl Assert_Failure))"
  by pat_completeness auto
termination by (relation "measure (\<lambda>(s, Data, left). nat left)") auto

definition Align_Unmarshall_Copy :: "stream \<Rightarrow> Alignment_Type \<Rightarrow> nat \<Rightarrow> (byte list \<times> stream) result" where
  "Align_Unmarshall_Copy s Alignment n = on_ok (Align_Position (snd s) Alignment) (\<lambda>Buffer.
     Unmarshall_Copy_loop (fst s, Buffer) [] (int n))"

section \<open>Types of CDR\<close>

definition Marshall_Octet :: "stream \<Rightarrow> byte \<Rightarrow> stream result" where
  "Marshall_Octet s Data = Align_Marshall_Copy s [Data] Align_1"

definition Marshall_Boolean :: "stream \<Rightarrow> bool \<Rightarrow> stream result" where
  "Marshall_Boolean s Data = Marshall_Octet s (if Data then 1 else 0)"

definition Marshall_Latin_1_Char :: "stream \<Rightarrow> char \<Rightarrow> stream result" where
  "Marshall_Latin_1_Char s Data = Marshall_Octet s (of_char Data)"

definition Marshall_Long_Double :: "stream \<Rightarrow> 'r \<Rightarrow> stream result" where
  "Marshall_Long_Double s Data = Inl Program_Error"

text \<open>\<open>Data'Length + 1\<close> is computed in the modular type.\<close>

definition Marshall_Latin_1_String :: "Endianness_Type \<Rightarrow> stream \<Rightarrow> string \<Rightarrow> stream result" where
  "Marshall_Latin_1_String Host_Order s Data =
     on_ok (Marshall_Elementary Host_Order True s (word_of_int (int (length Data)) + 1 :: 32 word)) (\<lambda>s.
     on_ok (Align_Marshall_Copy s (map of_char Data) Align_1) (\<lambda>s.
     Marshall_Latin_1_Char s (CHR 0x00)))"

definition Marshall_Octets :: "Endianness_Type \<Rightarrow> stream \<Rightarrow> byte list \<Rightarrow> stream result" where
  "Marshall_Octets Host_Order s Data =
     on_ok (check Constraint_Error (length Data < 2 ^ 32)) (\<lambda>_.
     on_ok (Marshall_Elementary Host_Order True s (word_of_int (int (length Data)) :: 32 word)) (\<lambda>s.
     Align_Marshall_Copy s Data Align_1))"

definition Unmarshall_Octet :: "Endianness_Type \<Rightarrow> stream \<Rightarrow> (byte \<times> stream) result" where
  "Unmarshall_Octet Host_Order s = Unmarshall_Elementary Host_Order True s"

definition Boolean_Val :: "byte \<Rightarrow> bool result" where
  "Boolean_Val b = (if b = 0 then Inr False else if b = 1 then Inr True else Inl Constraint_Error)"

definition Unmarshall_Boolean :: "Endianness_Type \<Rightarrow> stream \<Rightarrow> (bool \<times> stream) result" where
  "Unmarshall_Boolean Host_Order s = on_ok (Unmarshall_Octet Host_Order s) (\<lambda>(b, s).
     on_ok (Boolean_Val b) (\<lambda>v. Inr (v, s)))"

definition Unmarshall_Latin_1_Char :: "Endianness_Type \<Rightarrow> stream \<Rightarrow> (char \<times> stream) result" where
  "Unmarshall_Latin_1_Char Host_Order s = on_ok (Unmarshall_Octet Host_Order s) (\<lambda>(b, s). Inr (char_of (unat b), s))"

definition Unmarshall_Long_Double :: "stream \<Rightarrow> ('r \<times> stream) result" where
  "Unmarshall_Long_Double s = Inl Program_Error"

text \<open>The loops over the elements of a string and of a sequence of octets.\<close>

fun unmarshall_times :: "(stream \<Rightarrow> ('v \<times> stream) result) \<Rightarrow> nat \<Rightarrow> stream \<Rightarrow> ('v list \<times> stream) result" where
  "unmarshall_times f 0 s = Inr ([], s)"
| "unmarshall_times f (Suc n) s = on_ok (f s) (\<lambda>(v, s). on_ok (unmarshall_times f n s) (\<lambda>(vs, s). Inr (v # vs, s)))"

definition Unmarshall_Latin_1_String :: "Endianness_Type \<Rightarrow> stream \<Rightarrow> (string \<times> stream) result" where
  "Unmarshall_Latin_1_String Host_Order s =
     on_ok (Unmarshall_Elementary Host_Order True s) (\<lambda>(Length :: 32 word, s).
     on_ok (to_Natural (uint Length)) (\<lambda>n.
     if Length = 0 then Inr ([], s)
     else on_ok (unmarshall_times (Unmarshall_Latin_1_Char Host_Order) (nat (n - 1)) s) (\<lambda>(Equiv, s).
          on_ok (Unmarshall_Latin_1_Char Host_Order s) (\<lambda>(c, s).
          if c \<noteq> CHR 0x00 then Inl Constraint_Error else Inr (Equiv, s)))))"

definition Unmarshall_Octets :: "Endianness_Type \<Rightarrow> stream \<Rightarrow> (byte list \<times> stream) result" where
  "Unmarshall_Octets Host_Order s =
     on_ok (Unmarshall_Elementary Host_Order True s) (\<lambda>(Length :: 32 word, s).
     unmarshall_times (Unmarshall_Octet Host_Order) (unat Length) s)"

section \<open>Encapsulations\<close>

definition Encapsulate :: "stream \<Rightarrow> (byte list \<times> memory) result" where
  "Encapsulate s = To_Stream_Element_Array (fst s) (snd s)"

definition Start_Encapsulation :: "stream \<Rightarrow> stream result" where
  "Start_Encapsulation s = (let (M, Buffer) = s in
     on_ok (Set_Initial_Position Buffer 0) (\<lambda>Buffer.
     Marshall_Boolean (M, Buffer) (Endianness Buffer = Little_Endian)))"

text \<open>The octets are the ones of a zone, and the buffer refers to them.\<close>

definition Decapsulate :: "memory \<Rightarrow> nat \<Rightarrow> Buffer_Type \<Rightarrow> Buffer_Type result" where
  "Decapsulate M z Buffer = (let Octets = zones M ! z in
     on_ok (check Constraint_Error (1 \<le> length Octets)) (\<lambda>_.
     on_ok (Boolean_Val (Octets ! 0)) (\<lambda>b.
     on_ok (check Constraint_Error (2 \<le> length Octets)) (\<lambda>_.
     Initialize_Buffer Buffer (int (length Octets) - 1) (At z 1) (if b then Little_Endian else Big_Endian) 1))))"

section \<open>Items and their octets\<close>

lemma length_le_octets [simp]: "length (le_octets k v) = k"
  by (induction k arbitrary: v) auto

lemma le_value_le_octets: "le_value (le_octets k v) = v mod 256 ^ k"
  by (induction k arbitrary: v) (simp_all add: uint_word_of_int zmod_zmult2_eq)

lemma in_order_simps [simp]: "in_order E (in_order E bs) = bs" "length (in_order E bs) = length bs"
  "in_order Little_Endian bs = bs" "E \<noteq> E' \<Longrightarrow> rev (in_order E bs) = in_order E' bs"
  by (cases E; cases E'; simp add: in_order_def)+

lemma Stored_Item_Storage:
  assumes "8 dvd LENGTH('a::len)"
  shows "Stored_Item host (Item_Storage host (w :: 'a word)) = w"
proof -
  have "(256 :: int) ^ (LENGTH('a) div 8) = 2 ^ LENGTH('a)"
    using assms by (auto simp: dvd_def power_mult)
  then show ?thesis
    unfolding Stored_Item_def Item_Storage_def in_order_simps le_value_le_octets by simp
qed

text \<open>The sizes that the transfer of elementary items supports.\<close>

definition transferable :: "nat \<Rightarrow> bool" where
  "transferable size_T \<longleftrightarrow> size_T = 8 \<or> size_T = 16 \<or> size_T = 32 \<or> size_T = 64"

definition natural_alignment :: "nat \<Rightarrow> Alignment_Type" where
  "natural_alignment size_T = (if size_T = 8 then Align_1 else if size_T = 16 then Align_2 else if size_T = 32 then Align_4 else Align_8)"

lemma Alignment_Of_transferable: "transferable size_T \<Longrightarrow> Alignment_Of (size_T div 8) = Inr (natural_alignment size_T)"
  by (auto simp: transferable_def Alignment_Of_def natural_alignment_def)

lemma Swap_transferable: "transferable size_T \<Longrightarrow> size_T > 8 \<Longrightarrow> Swap size_T bs = Inr (rev bs)"
  by (auto simp: transferable_def Swap_def)

lemma transferable_dvd: "transferable size_T \<Longrightarrow> 8 dvd size_T" "transferable size_T \<Longrightarrow> 0 < size_T div 8"
  by (auto simp: transferable_def)

section \<open>Sequences of aligned octets\<close>

text \<open>The octets that CDR prescribes for a sequence of aligned items from a position on.\<close>

type_synonym frame = "Alignment_Type \<times> byte list"

fun frames :: "int \<Rightarrow> frame list \<Rightarrow> byte list" where
  "frames p [] = []"
| "frames p ((A, bs) # fs) = aligned p A bs @ frames (p + int (length (aligned p A bs))) fs"

lemma frames_append: "frames p (fs @ gs) = frames p fs @ frames (p + int (length (frames p fs))) gs"
  by (induction p fs rule: frames.induct) (auto simp: add.assoc)

lemma aligned_Align_1 [simp]: "aligned p Align_1 bs = bs"
  by (simp add: aligned_def)

lemma frames_octets: "frames p (map (\<lambda>b. (Align_1, [b])) bs) = bs"
  by (induction bs arbitrary: p) auto

text \<open>
  What a writer of octets promises, and what follows for the operations that are built on it: the
  frames of the parts are written one after the other.
\<close>

locale octet_sink =
  fixes good :: "'s \<Rightarrow> bool" and written :: "'s \<Rightarrow> byte list" and position :: "'s \<Rightarrow> int" and order :: "'s \<Rightarrow> Endianness_Type"
    and pad :: "'s \<Rightarrow> Alignment_Type \<Rightarrow> 's result" and put :: "'s \<Rightarrow> byte list \<Rightarrow> 's result"
  assumes pad_law: "good s \<Longrightarrow> \<exists>s'. pad s A = Inr s' \<and> good s' \<and> written s' = written s @ aligned (position s) A [] \<and>
      position s' = position s + int (length (aligned (position s) A [])) \<and> order s' = order s"
    and put_law: "good s \<Longrightarrow> \<exists>s'. put s bs = Inr s' \<and> good s' \<and> written s' = written s @ bs \<and>
      position s' = position s + int (length bs) \<and> order s' = order s"
begin

definition writes :: "Endianness_Type \<Rightarrow> ('s \<Rightarrow> 's result) \<Rightarrow> frame list \<Rightarrow> bool" where
  "writes E f fs \<longleftrightarrow> (\<forall>s. good s \<and> order s = E \<longrightarrow> (\<exists>s'. f s = Inr s' \<and> good s' \<and> order s' = E \<and>
     written s' = written s @ frames (position s) fs \<and> position s' = position s + int (length (frames (position s) fs))))"

lemma writesD:
  assumes "writes E f fs" "good s" "order s = E"
  obtains s' where "f s = Inr s'" "good s'" "order s' = E" "written s' = written s @ frames (position s) fs"
    "position s' = position s + int (length (frames (position s) fs))"
  using assms unfolding writes_def by blast

lemma writes_none: "writes E Inr []"
  by (simp add: writes_def)

lemma writes_seq:
  assumes "writes E f fs" "writes E g gs"
  shows "writes E (\<lambda>s. on_ok (f s) g) (fs @ gs)"
  unfolding writes_def
proof (intro allI impI, elim conjE)
  fix s assume s: "good s" "order s = E"
  obtain s1 where s1: "f s = Inr s1" "good s1" "order s1 = E" "written s1 = written s @ frames (position s) fs"
    "position s1 = position s + int (length (frames (position s) fs))" by (rule writesD [OF assms(1) s]) (rule that)
  obtain s2 where s2: "g s1 = Inr s2" "good s2" "order s2 = E" "written s2 = written s1 @ frames (position s1) gs"
    "position s2 = position s1 + int (length (frames (position s1) gs))" by (rule writesD [OF assms(2) s1(2,3)]) (rule that)
  show "\<exists>s'. on_ok (f s) g = Inr s' \<and> good s' \<and> order s' = E \<and> written s' = written s @ frames (position s) (fs @ gs) \<and>
      position s' = position s + int (length (frames (position s) (fs @ gs)))"
    using s1 s2 by (intro exI [of _ s2]) (simp add: frames_append)
qed

lemma writes_put: "writes E (\<lambda>s. put s bs) [(Align_1, bs)]"
  using put_law unfolding writes_def by fastforce

lemma writes_copy: "writes E (\<lambda>s. on_ok (pad s A) (\<lambda>s. put s bs)) [(A, bs)]"
proof -
  have "writes E (\<lambda>s. pad s A) [(A, [])]" using pad_law unfolding writes_def by fastforce
  from writes_seq [OF this writes_put] have w: "writes E (\<lambda>s. on_ok (pad s A) (\<lambda>s. put s bs)) [(A, []), (Align_1, bs)]" by simp
  have "frames p [(A, []), (Align_1, bs)] = frames p [(A, bs)]" for p by (simp add: aligned_def)
  with w show ?thesis by (simp only: writes_def)
qed

end

text \<open>What a reader of octets promises.\<close>

locale octet_source =
  fixes good :: "'s \<Rightarrow> bool" and ahead :: "'s \<Rightarrow> byte list" and position :: "'s \<Rightarrow> int" and order :: "'s \<Rightarrow> Endianness_Type"
    and skip :: "'s \<Rightarrow> Alignment_Type \<Rightarrow> 's result" and fetch :: "'s \<Rightarrow> nat \<Rightarrow> (byte list \<times> 's) result"
  assumes skip_law: "good s \<Longrightarrow> ahead s = aligned (position s) A bs \<Longrightarrow> \<exists>s'. skip s A = Inr s' \<and> good s' \<and> ahead s' = bs \<and>
      position s' = position s + int (length (aligned (position s) A [])) \<and> order s' = order s"
    and fetch_law: "good s \<Longrightarrow> ahead s = bs @ rs \<Longrightarrow> bs \<noteq> [] \<Longrightarrow> \<exists>s'. fetch s (length bs) = Inr (bs, s') \<and> good s' \<and> ahead s' = rs \<and>
      position s' = position s + int (length bs) \<and> order s' = order s"
begin

definition reads :: "Endianness_Type \<Rightarrow> ('s \<Rightarrow> ('v \<times> 's) result) \<Rightarrow> frame list \<Rightarrow> 'v \<Rightarrow> bool" where
  "reads E f fs v \<longleftrightarrow> (\<forall>s rs. good s \<and> order s = E \<and> ahead s = frames (position s) fs @ rs \<longrightarrow>
     (\<exists>s'. f s = Inr (v, s') \<and> good s' \<and> order s' = E \<and> ahead s' = rs \<and> position s' = position s + int (length (frames (position s) fs))))"

lemma readsD:
  assumes "reads E f fs v" "good s" "order s = E" "ahead s = frames (position s) fs @ rs"
  obtains s' where "f s = Inr (v, s')" "good s'" "order s' = E" "ahead s' = rs" "position s' = position s + int (length (frames (position s) fs))"
  using assms unfolding reads_def by blast

lemma reads_return: "reads E (\<lambda>s. Inr (v, s)) [] v"
  by (simp add: reads_def)

lemma reads_bind:
  assumes "reads E f fs v" "reads E (g v) gs w"
  shows "reads E (\<lambda>s. on_ok (f s) (\<lambda>(v, s). g v s)) (fs @ gs) w"
  unfolding reads_def
proof (intro allI impI, elim conjE)
  fix s rs assume s: "good s" "order s = E" "ahead s = frames (position s) (fs @ gs) @ rs"
  have a: "ahead s = frames (position s) fs @ frames (position s + int (length (frames (position s) fs))) gs @ rs"
    using s(3) by (simp add: frames_append)
  obtain s1 where s1: "f s = Inr (v, s1)" "good s1" "order s1 = E"
    "ahead s1 = frames (position s + int (length (frames (position s) fs))) gs @ rs"
    "position s1 = position s + int (length (frames (position s) fs))" by (rule readsD [OF assms(1) s(1,2) a]) (rule that)
  have "ahead s1 = frames (position s1) gs @ rs" using s1(4,5) by simp
  then obtain s2 where s2: "g v s1 = Inr (w, s2)" "good s2" "order s2 = E" "ahead s2 = rs"
    "position s2 = position s1 + int (length (frames (position s1) gs))" by (rule readsD [OF assms(2) s1(2,3)]) (rule that)
  show "\<exists>s'. on_ok (f s) (\<lambda>(v, s). g v s) = Inr (w, s') \<and> good s' \<and> order s' = E \<and> ahead s' = rs \<and>
      position s' = position s + int (length (frames (position s) (fs @ gs)))"
    using s1 s2 by (intro exI [of _ s2]) (simp add: frames_append)
qed

lemma reads_fetch:
  assumes "bs \<noteq> []"
  shows "reads E (\<lambda>s. on_ok (skip s A) (\<lambda>s. fetch s (length bs))) [(A, bs)] bs"
  unfolding reads_def
proof (intro allI impI, elim conjE)
  fix s rs assume s: "good s" "order s = E" "ahead s = frames (position s) [(A, bs)] @ rs"
  have "ahead s = aligned (position s) A (bs @ rs)" using s(3) by (simp add: aligned_def)
  from skip_law [OF s(1) this] obtain s1 where s1: "skip s A = Inr s1" "good s1" "ahead s1 = bs @ rs" "order s1 = order s"
    "position s1 = position s + int (length (aligned (position s) A []))" by blast
  from fetch_law [OF s1(2,3) assms] obtain s2 where "fetch s1 (length bs) = Inr (bs, s2)" "good s2" "ahead s2 = rs"
    "position s2 = position s1 + int (length bs)" "order s2 = order s1" by blast
  with s1 s(2) show "\<exists>s'. on_ok (skip s A) (\<lambda>s. fetch s (length bs)) = Inr (bs, s') \<and> good s' \<and> order s' = E \<and> ahead s' = rs \<and>
      position s' = position s + int (length (frames (position s) [(A, bs)]))"
    by (intro exI [of _ s2]) (simp add: aligned_def)
qed

lemma reads_regrouped: "reads E f fs v \<Longrightarrow> (\<And>p. frames p fs = frames p gs) \<Longrightarrow> reads E f gs v"
  by (simp add: reads_def)

end

section \<open>Buffers as sinks and sources\<close>

definition put_octets :: "stream \<Rightarrow> byte list \<Rightarrow> stream result" where
  "put_octets s bs = on_ok (Allocate_And_Insert_Cooked_Data (fst s) (snd s) (int (length bs))) (\<lambda>(a, M, B).
     on_ok (poke_mem M a bs) (\<lambda>M. Inr (M, B)))"

definition get_octets :: "stream \<Rightarrow> nat \<Rightarrow> (byte list \<times> stream) result" where
  "get_octets s n = on_ok (Extract_Data (snd s) (int n) True 0) (\<lambda>(a, B).
     on_ok (peek_mem (fst s) a (int n)) (\<lambda>bs. Inr (bs, (fst s, B))))"

definition skip_padding :: "stream \<Rightarrow> Alignment_Type \<Rightarrow> stream result" where
  "skip_padding s A = on_ok (Align_Position (snd s) A) (\<lambda>B. Inr (fst s, B))"

lemma length_aligned_Nil: "int (length (aligned p A [])) = padding p A"
  using padding_bounds(1) [of p A] by (simp add: aligned_def)

lemma put_octets_appends:
  assumes "writer_inv K (fst s) (snd s)"
  shows "\<exists>s'. put_octets s bs = Inr s' \<and> writer_inv K (fst s') (snd s') \<and> octets (fst s') (snd s') = octets (fst s) (snd s) @ bs \<and>
    CDR_Position (snd s') = CDR_Position (snd s) + int (length bs) \<and> Endianness (snd s') = Endianness (snd s)"
proof -
  have inv: "buf_inv K (fst s) (snd s)" using assms by (simp add: writer_inv_def)
  obtain a M1 B' M' where i: "Allocate_And_Insert_Cooked_Data (fst s) (snd s) (int (length bs)) = Inr (a, M1, B')" "poke_mem M1 a bs = Inr M'"
    "buf_inv K M' B'" "octets M' B' = octets (fst s) (snd s) @ bs" "CDR_Position B' = CDR_Position (snd s) + int (length bs)"
    "Initial_CDR_Position B' = Initial_CDR_Position (snd s)" "Endianness B' = Endianness (snd s)"
    by (rule Allocate_And_Insert_appends [OF inv refl]) (rule that)
  moreover from i(3) have "Buffer_Length B' = int (length (octets M' B'))" by (simp add: buf_inv_def)
  ultimately show ?thesis
    using writer_position(1) [OF assms] assms by (intro exI [of _ "(M', B')"]) (simp add: put_octets_def writer_inv_def)
qed

interpretation bw: octet_sink "\<lambda>s. writer_inv K (fst s) (snd s)" "\<lambda>s. octets (fst s) (snd s)" "\<lambda>s. CDR_Position (snd s)"
  "\<lambda>s. Endianness (snd s)" "\<lambda>s. Pad_Align (fst s) (snd s)" put_octets for K
proof
  fix s A assume "writer_inv K (fst s) (snd s)"
  then obtain M' B' where "Pad_Align (fst s) (snd s) A = Inr (M', B')" "writer_inv K M' B'" "octets M' B' = octets (fst s) (snd s) @ aligned (CDR_Position (snd s)) A []"
    "CDR_Position B' = CDR_Position (snd s) + padding (CDR_Position (snd s)) A" "Initial_CDR_Position B' = Initial_CDR_Position (snd s)" "Endianness B' = Endianness (snd s)"
    by (rule Pad_Align_appends) (rule that)
  then show "\<exists>s'. Pad_Align (fst s) (snd s) A = Inr s' \<and> writer_inv K (fst s') (snd s') \<and>
      octets (fst s') (snd s') = octets (fst s) (snd s) @ aligned (CDR_Position (snd s)) A [] \<and>
      CDR_Position (snd s') = CDR_Position (snd s) + int (length (aligned (CDR_Position (snd s)) A [])) \<and> Endianness (snd s') = Endianness (snd s)"
    by (intro exI [of _ "(M', B')"]) (simp add: length_aligned_Nil)
qed (rule put_octets_appends)

interpretation br: octet_source "\<lambda>s. fst s = M \<and> reader_inv M (snd s)" "\<lambda>s. unread M (snd s)" "\<lambda>s. CDR_Position (snd s)"
  "\<lambda>s. Endianness (snd s)" skip_padding get_octets for M
proof
  fix s :: stream and A bs assume s: "fst s = M \<and> reader_inv M (snd s)" "unread M (snd s) = aligned (CDR_Position (snd s)) A bs"
  obtain B' where "Align_Position (snd s) A = Inr B'" "reader_inv M B'" "unread M B' = bs" "Endianness B' = Endianness (snd s)"
    "CDR_Position B' = CDR_Position (snd s) + padding (CDR_Position (snd s)) A" by (rule Align_Position_reads [OF s(1) [THEN conjunct2] s(2)]) (rule that)
  then show "\<exists>s'. skip_padding s A = Inr s' \<and> (fst s' = M \<and> reader_inv M (snd s')) \<and> unread M (snd s') = bs \<and>
      CDR_Position (snd s') = CDR_Position (snd s) + int (length (aligned (CDR_Position (snd s)) A [])) \<and> Endianness (snd s') = Endianness (snd s)"
    using s(1) by (intro exI [of _ "(M, B')"]) (simp add: skip_padding_def length_aligned_Nil)
next
  fix s :: stream and bs rs assume s: "fst s = M \<and> reader_inv M (snd s)" "unread M (snd s) = bs @ rs" "bs \<noteq> []"
  obtain a B' where "Extract_Data (snd s) (int (length bs)) True 0 = Inr (a, B')" "peek_mem M a (int (length bs)) = Inr bs"
    "reader_inv M B'" "unread M B' = rs" "Endianness B' = Endianness (snd s)" "CDR_Position B' = CDR_Position (snd s) + int (length bs)"
    by (rule Extract_Data_reads [OF s(1) [THEN conjunct2] s(2,3) refl]) (rule that)
  then show "\<exists>s'. get_octets s (length bs) = Inr (bs, s') \<and> (fst s' = M \<and> reader_inv M (snd s')) \<and> unread M (snd s') = rs \<and>
      CDR_Position (snd s') = CDR_Position (snd s) + int (length bs) \<and> Endianness (snd s') = Endianness (snd s)"
    using s(1) by (intro exI [of _ "(M, B')"]) (simp add: get_octets_def)
qed

section \<open>Marshalling\<close>

lemma poke_again:
  assumes "poke_mem M a bs = Inr M'" "length cs = length bs"
  shows "peek_mem M' a (int (length bs)) = Inr bs" "poke_mem M' a cs = poke_mem M a cs"
  using assms by (cases a; auto simp: overwrite_def in_zone_def nth_list_update split: if_splits)+

lemma Pad_Align_1: "0 \<le> CDR_Position B \<Longrightarrow> Pad_Align M B Align_1 = Inr (M, B)"
  by (simp add: Pad_Align_def Padding_Size_eq)

lemma Allocate_order:
  "Allocate_And_Insert_Cooked_Data M B n = Inr (a, M', B') \<Longrightarrow> Endianness B' = Endianness B"
  by (auto simp: Allocate_And_Insert_Cooked_Data_def result_simps split: prod.splits if_splits)

text \<open>The octets of an item in a buffer depend on the byte order of the buffer and not on that of the host.\<close>

lemma Marshall_Elementary_eq:
  assumes "transferable (T_Size w)" "writer_inv K (fst s) (snd s)"
  shows "\<exists>s'. on_ok (Pad_Align (fst s) (snd s) (natural_alignment (T_Size w))) (\<lambda>s. put_octets s (Item_Storage (Endianness (snd s)) w)) = Inr s' \<and>
    Marshall_Elementary host True s w = Inr s'"
proof -
  let ?A = "natural_alignment (T_Size w)" and ?n = "T_Size w div 8"
  obtain s1 where s1: "Pad_Align (fst s) (snd s) ?A = Inr s1" "writer_inv K (fst s1) (snd s1)" using bw.pad_law assms(2) by blast
  have pad: "(if ?A \<noteq> Align_1 \<and> True then Pad_Align (fst s) (snd s) ?A else Inr s) = Inr s1"
    using s1(1) Pad_Align_1 writer_position(2) [OF assms(2)] by auto
  have len: "length (Item_Storage E w) = ?n" for E by (simp add: Item_Storage_def T_Size_def)
  let ?bs = "Item_Storage host w" and ?cs = "Item_Storage (Endianness (snd s1)) w"
  obtain s2 where s2: "put_octets s1 ?cs = Inr s2" using put_octets_appends [OF s1(2)] by blast
  then obtain a M1 where a: "Allocate_And_Insert_Cooked_Data (fst s1) (snd s1) (int ?n) = Inr (a, M1, snd s2)" "poke_mem M1 a ?cs = Inr (fst s2)"
    by (auto simp: put_octets_def len result_simps)
  have "\<exists>M2. poke_mem M1 a ?bs = Inr M2" using a(2) len by (cases a) (auto split: if_splits)
  then obtain M2 where M2: "poke_mem M1 a ?bs = Inr M2" ..
  have sw: "(if T_Size w > 8 \<and> Endianness (snd s2) \<noteq> host then on_ok (peek_mem M2 a (int ?n)) (\<lambda>bs. on_ok (Swap (T_Size w) bs) (poke_mem M2 a)) else Inr M2) = Inr (fst s2)"
  proof (cases "T_Size w > 8 \<and> Endianness (snd s2) \<noteq> host")
    case True
    then have "host \<noteq> Endianness (snd s1)" using Allocate_order [OF a(1)] by auto
    then have "rev ?bs = ?cs" unfolding Item_Storage_def by (rule in_order_simps(4))
    with True show ?thesis using poke_again [OF M2, of ?cs] a(2) len Swap_transferable [OF assms(1)] by simp
  next
    case False
    have "?bs = ?cs"
    proof (cases "T_Size w > 8")
      case False
      then have "T_Size w = 8" using assms(1) by (auto simp: transferable_def)
      then show ?thesis by (simp add: Item_Storage_def in_order_def T_Size_def)
    qed (use False Allocate_order [OF a(1)] in \<open>simp add: Item_Storage_def\<close>)
    with False M2 a(2) show ?thesis by auto
  qed
  have "Marshall_Elementary host True s w = Inr s2"
    unfolding Marshall_Elementary_def Alignment_Of_transferable [OF assms(1)] on_ok.simps pad case_prod_beta a(1) fst_conv snd_conv M2 sw
    by simp
  with s1 s2 show ?thesis by simp
qed

lemma writes_Elementary:
  assumes "transferable (T_Size w)"
  shows "bw.writes K E (\<lambda>s. Marshall_Elementary host True s w) [(natural_alignment (T_Size w), Item_Storage E w)]"
  unfolding bw.writes_def
proof (intro allI impI, elim conjE)
  fix s assume s: "writer_inv K (fst s) (snd s)" "Endianness (snd s) = E"
  obtain s1 where s1: "Pad_Align (fst s) (snd s) (natural_alignment (T_Size w)) = Inr s1" "Endianness (snd s1) = E" using bw.pad_law [OF s(1)] s(2) by blast
  obtain s' where "Marshall_Elementary host True s w = Inr s'"
    "on_ok (Pad_Align (fst s) (snd s) (natural_alignment (T_Size w))) (\<lambda>s. put_octets s (Item_Storage E w)) = Inr s'"
    using Marshall_Elementary_eq [OF assms s(1), of host] s1 by auto
  with bw.writes_copy [of K E "natural_alignment (T_Size w)" "Item_Storage E w"] s
  show "\<exists>s'. Marshall_Elementary host True s w = Inr s' \<and> writer_inv K (fst s') (snd s') \<and> Endianness (snd s') = E \<and>
      octets (fst s') (snd s') = octets (fst s) (snd s) @ frames (CDR_Position (snd s)) [(natural_alignment (T_Size w), Item_Storage E w)] \<and>
      CDR_Position (snd s') = CDR_Position (snd s) + int (length (frames (CDR_Position (snd s)) [(natural_alignment (T_Size w), Item_Storage E w)]))"
    unfolding bw.writes_def by fastforce
qed

lemma Align_Marshall_Copy_eq: "Align_Marshall_Copy s bs A = on_ok (Pad_Align (fst s) (snd s) A) (\<lambda>s. put_octets s bs)"
  unfolding Align_Marshall_Copy_def put_octets_def by (intro on_ok_cong) auto

lemma writes_Copy: "bw.writes K E (\<lambda>s. Align_Marshall_Copy s bs A) [(A, bs)]"
  unfolding Align_Marshall_Copy_eq by (rule bw.writes_copy)

lemma writes_Octet: "bw.writes K E (\<lambda>s. Marshall_Octet s b) [(Align_1, [b])]"
  unfolding Marshall_Octet_def by (rule writes_Copy)

lemma writes_Latin_1_String:
  "bw.writes K E (\<lambda>s. Marshall_Latin_1_String host s cs)
     [(Align_4, Item_Storage E (word_of_int (int (length cs)) + 1 :: 32 word)), (Align_1, map of_char cs), (Align_1, [0])]"
proof -
  have w: "bw.writes K E (\<lambda>s. Marshall_Elementary host True s (word_of_int (int (length cs)) + 1 :: 32 word))
      [(Align_4, Item_Storage E (word_of_int (int (length cs)) + 1 :: 32 word))]"
    using writes_Elementary [of "word_of_int (int (length cs)) + 1 :: 32 word"] by (simp add: T_Size_def transferable_def natural_alignment_def)
  have n: "bw.writes K E (\<lambda>s. Marshall_Latin_1_Char s (CHR 0x00)) [(Align_1, [0])]"
    using writes_Octet [of K E 0] by (simp add: Marshall_Latin_1_Char_def)
  show ?thesis
    using bw.writes_seq [OF w bw.writes_seq [OF writes_Copy n]] by (simp add: Marshall_Latin_1_String_def)
qed

lemma writes_Octets:
  "length bs < 2 ^ 32 \<Longrightarrow> bw.writes K E (\<lambda>s. Marshall_Octets host s bs)
     [(Align_4, Item_Storage E (word_of_int (int (length bs)) :: 32 word)), (Align_1, bs)]"
proof -
  have w: "bw.writes K E (\<lambda>s. Marshall_Elementary host True s (word_of_int (int (length bs)) :: 32 word))
      [(Align_4, Item_Storage E (word_of_int (int (length bs)) :: 32 word))]"
    using writes_Elementary [of "word_of_int (int (length bs)) :: 32 word"] by (simp add: T_Size_def transferable_def natural_alignment_def)
  assume "length bs < 2 ^ 32"
  then show ?thesis
    using bw.writes_seq [OF w writes_Copy] by (simp add: Marshall_Octets_def)
qed

section \<open>Unmarshalling\<close>

lemma Align_Position_1: "reader_inv M B \<Longrightarrow> Align_Position B Align_1 = Inr B"
  by (simp add: Align_Position_def Padding_Size_eq reader_inv_def)

lemma reads_Elementary:
  assumes "transferable LENGTH('a::len)"
  shows "br.reads M E (Unmarshall_Elementary host True) [(natural_alignment LENGTH('a), Item_Storage E (w :: 'a word))] w"
  unfolding br.reads_def
proof (intro allI impI, elim conjE)
  let ?A = "natural_alignment LENGTH('a)" and ?bs = "Item_Storage E w"
  fix s :: stream and rs assume s: "fst s = M" "reader_inv M (snd s)" "Endianness (snd s) = E" "unread M (snd s) = frames (CDR_Position (snd s)) [(?A, ?bs)] @ rs"
  have len: "length ?bs = LENGTH('a) div 8" by (simp add: Item_Storage_def)
  have "?bs \<noteq> []" using len transferable_dvd(2) [OF assms] by auto
  from br.readsD [OF br.reads_fetch [OF this] conjI [OF s(1,2)] s(3,4)]
  obtain s' where s': "on_ok (skip_padding s ?A) (\<lambda>s. get_octets s (length ?bs)) = Inr (?bs, s')" "fst s' = M \<and> reader_inv M (snd s')" "Endianness (snd s') = E"
    "unread M (snd s') = rs" "CDR_Position (snd s') = CDR_Position (snd s) + int (length (frames (CDR_Position (snd s)) [(?A, ?bs)]))" .
  obtain B1 a where B1: "Align_Position (snd s) ?A = Inr B1" "Extract_Data B1 (int (LENGTH('a) div 8)) True 0 = Inr (a, snd s')"
    "peek_mem (fst s) a (int (LENGTH('a) div 8)) = Inr ?bs" "fst s' = fst s"
    using s'(1) by (auto simp: skip_padding_def get_octets_def len result_simps)
  have al: "(if ?A \<noteq> Align_1 \<and> True then Align_Position (snd s) ?A else Inr (snd s)) = Inr B1"
    using Align_Position_1 [OF s(2)] B1(1) by auto
  have "\<exists>Z. (if LENGTH('a) > 8 \<and> E \<noteq> host then Swap LENGTH('a) ?bs else Inr ?bs) = Inr Z \<and> Stored_Item host Z = w"
  proof (cases "LENGTH('a) > 8 \<and> E \<noteq> host")
    case True
    then have "rev ?bs = Item_Storage host w" unfolding Item_Storage_def by (intro in_order_simps(4)) simp
    with True show ?thesis
      using Swap_transferable [OF assms] Stored_Item_Storage [OF transferable_dvd(1) [OF assms]] by simp
  next
    case False
    have "?bs = Item_Storage host w"
    proof (cases "LENGTH('a) > 8")
      case False
      then have "LENGTH('a) = 8" using assms by (auto simp: transferable_def)
      then show ?thesis by (simp add: Item_Storage_def in_order_def)
    qed (use False in simp)
    then show ?thesis using False Stored_Item_Storage [OF transferable_dvd(1) [OF assms]] by auto
  qed
  then obtain Z where Z: "(if LENGTH('a) > 8 \<and> E \<noteq> host then Swap LENGTH('a) ?bs else Inr ?bs) = Inr Z" "Stored_Item host Z = w" by blast
  have "Unmarshall_Elementary host True s = Inr (w, s')"
    unfolding Unmarshall_Elementary_def Let_def case_prod_beta Alignment_Of_transferable [OF assms] on_ok.simps al B1(2) fst_conv snd_conv B1(3) s'(3) Z
    using B1(4) by (cases s') simp
  then show "\<exists>s'. Unmarshall_Elementary host True s = Inr (w, s') \<and> (fst s' = M \<and> reader_inv M (snd s')) \<and> Endianness (snd s') = E \<and> unread M (snd s') = rs \<and>
      CDR_Position (snd s') = CDR_Position (snd s) + int (length (frames (CDR_Position (snd s)) [(?A, ?bs)]))"
    using s' by blast
qed

lemma Item_Storage_byte [simp]: "Item_Storage E (b :: byte) = [b]"
  by (simp add: Item_Storage_def in_order_def)

lemma reads_Octet: "br.reads M E (Unmarshall_Octet host) [(Align_1, [b])] b"
proof -
  have "Unmarshall_Octet host = Unmarshall_Elementary host True" by (simp add: fun_eq_iff Unmarshall_Octet_def)
  moreover have "br.reads M E (Unmarshall_Elementary host True) [(natural_alignment LENGTH(8), Item_Storage E b)] b"
    by (rule reads_Elementary) (simp add: transferable_def)
  ultimately show ?thesis by (simp add: natural_alignment_def)
qed

lemma reads_times:
  assumes "\<And>v. v \<in> set vs \<Longrightarrow> br.reads M E f (fr v) v"
  shows "br.reads M E (unmarshall_times f (length vs)) (concat (map fr vs)) vs"
  using assms
proof (induction vs)
  case (Cons v vs)
  have "br.reads M E (\<lambda>s. on_ok (unmarshall_times f (length vs) s) (\<lambda>(vs, s). Inr (v # vs, s))) (concat (map fr vs) @ []) (v # vs)"
    by (rule br.reads_bind [where g = "\<lambda>vs s. Inr (v # vs, s)"]) (rule Cons.IH, use Cons.prems in simp, rule br.reads_return)
  moreover have "br.reads M E f (fr v) v" using Cons.prems by simp
  ultimately show ?case
    using br.reads_bind [where g = "\<lambda>v s. on_ok (unmarshall_times f (length vs) s) (\<lambda>(vs, s). Inr (v # vs, s))"] by fastforce
qed (simp add: br.reads_def)

lemma reads_Boolean: "br.reads M E (Unmarshall_Boolean host) [(Align_1, [if v then 1 else 0])] v"
proof -
  have "br.reads M E (\<lambda>s. on_ok (Boolean_Val (if v then 1 else 0)) (\<lambda>v. Inr (v, s))) [] v"
    using br.reads_return [of M E v] by (cases v) (simp_all add: Boolean_Val_def)
  from br.reads_bind [where g = "\<lambda>b s. on_ok (Boolean_Val b) (\<lambda>v. Inr (v, s))", OF reads_Octet this]
  have "br.reads M E (\<lambda>s. on_ok (Unmarshall_Octet host s) (\<lambda>(b, s). on_ok (Boolean_Val b) (\<lambda>v. Inr (v, s)))) [(Align_1, [if v then 1 else 0])] v"
    by simp
  then show ?thesis by (simp only: Unmarshall_Boolean_def [abs_def])
qed

lemma char_of_byte [simp]: "char_of (unat (of_char c :: byte)) = c"
proof -
  have "unat (word_of_nat (of_char c) :: byte) = of_char c" using of_char_byte_less [of c] by (simp add: unat_of_nat take_bit_nat_eq_self_iff)
  then show ?thesis by (simp add: of_nat_of_char)
qed

lemma reads_Latin_1_Char: "br.reads M E (Unmarshall_Latin_1_Char host) [(Align_1, [of_char c])] c"
proof -
  have "br.reads M E (\<lambda>s. Inr (char_of (unat (of_char c :: byte)), s)) [] c" using br.reads_return [of M E c] by simp
  from br.reads_bind [where g = "\<lambda>b s. Inr (char_of (unat b), s)", OF reads_Octet this]
  show ?thesis by (simp add: Unmarshall_Latin_1_Char_def [abs_def])
qed

text \<open>A length item is read back as long as it is in the range of its type.\<close>

lemma reads_Unsigned_Long: "br.reads M E (Unmarshall_Elementary host True) [(Align_4, Item_Storage E (w :: 32 word))] w"
proof -
  have "br.reads M E (Unmarshall_Elementary host True) [(natural_alignment LENGTH(32), Item_Storage E w)] w"
    by (rule reads_Elementary) (simp add: transferable_def)
  then show ?thesis by (simp add: natural_alignment_def)
qed

lemma reads_Latin_1_String:
  assumes "int (length cs) < Integer_Last"
  shows "br.reads M E (Unmarshall_Latin_1_String host)
     [(Align_4, Item_Storage E (word_of_int (int (length cs)) + 1 :: 32 word)), (Align_1, map of_char cs), (Align_1, [0])] cs"
proof -
  let ?w = "word_of_int (int (length cs)) + 1 :: 32 word"
  let ?body = "\<lambda>n s. on_ok (unmarshall_times (Unmarshall_Latin_1_Char host) (nat (n - 1)) s) (\<lambda>(Equiv, s).
          on_ok (Unmarshall_Latin_1_Char host s) (\<lambda>(c, s). if c \<noteq> CHR 0x00 then Inl Constraint_Error else Inr (Equiv, s)))"
  have "?w = word_of_int (int (length cs) + 1)" by simp
  then have w: "uint ?w = int (length cs) + 1" using assms
    by (simp add: Integer_Last_def uint_word_of_int take_bit_eq_mod del: of_int_add)
  then have w0: "?w \<noteq> 0" by (metis add_nonneg_eq_0_iff of_nat_0_le_iff one_neq_zero uint_0_eq zero_le_one)
  have "br.reads M E (\<lambda>s. on_ok (Unmarshall_Latin_1_Char host s) (\<lambda>(c, s). if c \<noteq> CHR 0x00 then Inl Constraint_Error else Inr (cs, s))) ([(Align_1, [0])] @ []) cs"
    by (rule br.reads_bind [where v = "CHR 0x00" and g = "\<lambda>c s. if c \<noteq> CHR 0x00 then Inl Constraint_Error else Inr (cs, s)"])
      (use reads_Latin_1_Char [of M E host "CHR 0x00"] br.reads_return [of M E cs] in simp_all)
  then have tail: "br.reads M E (\<lambda>s. on_ok (Unmarshall_Latin_1_Char host s) (\<lambda>(c, s). if c \<noteq> CHR 0x00 then Inl Constraint_Error else Inr (cs, s))) [(Align_1, [0])] cs"
    by simp
  have "br.reads M E (unmarshall_times (Unmarshall_Latin_1_Char host) (length cs)) (concat (map (\<lambda>c. [(Align_1, [of_char c])]) cs)) cs"
    by (rule reads_times) (rule reads_Latin_1_Char)
  moreover have "frames p (concat (map (\<lambda>c. [(Align_1, [of_char c])]) cs)) = frames p [(Align_1, map of_char cs)]" for p
    using frames_octets [of p "map of_char cs"] by (simp add: concat_map_singleton comp_def)
  ultimately have "br.reads M E (unmarshall_times (Unmarshall_Latin_1_Char host) (length cs)) [(Align_1, map of_char cs)] cs"
    by (rule br.reads_regrouped)
  from br.reads_bind [where g = "\<lambda>Equiv s. on_ok (Unmarshall_Latin_1_Char host s) (\<lambda>(c, s). if c \<noteq> CHR 0x00 then Inl Constraint_Error else Inr (Equiv, s))", OF this tail]
  have "br.reads M E (?body (uint ?w)) [(Align_1, map of_char cs), (Align_1, [0])] cs" using w by simp
  then have "br.reads M E (\<lambda>s. on_ok (to_Natural (uint ?w)) (\<lambda>n. if ?w = 0 then Inr ([], s) else ?body n s)) [(Align_1, map of_char cs), (Align_1, [0])] cs"
    using w w0 assms by (simp add: to_Natural_def)
  from br.reads_bind [where g = "\<lambda>Length s. on_ok (to_Natural (uint Length)) (\<lambda>n. if Length = 0 then Inr ([], s) else ?body n s)", OF reads_Unsigned_Long this]
  show ?thesis by (simp only: Unmarshall_Latin_1_String_def [abs_def] append.simps)
qed

lemma reads_Octets:
  assumes "length bs < 2 ^ 32"
  shows "br.reads M E (Unmarshall_Octets host) [(Align_4, Item_Storage E (word_of_int (int (length bs)) :: 32 word)), (Align_1, bs)] bs"
proof -
  let ?w = "word_of_int (int (length bs)) :: 32 word"
  have w: "unat ?w = length bs" using assms by (simp add: unat_of_nat take_bit_nat_eq_self_iff)
  have "br.reads M E (unmarshall_times (Unmarshall_Octet host) (length bs)) (concat (map (\<lambda>b. [(Align_1, [b])]) bs)) bs"
    by (rule reads_times) (rule reads_Octet)
  moreover have "frames p (concat (map (\<lambda>b. [(Align_1, [b])]) bs)) = frames p [(Align_1, bs)]" for p
    using frames_octets [of p bs] by (simp add: concat_map_singleton)
  ultimately have "br.reads M E (\<lambda>s. unmarshall_times (Unmarshall_Octet host) (unat ?w) s) [(Align_1, bs)] bs"
    unfolding w by (rule br.reads_regrouped)
  from br.reads_bind [where g = "\<lambda>Length s. unmarshall_times (Unmarshall_Octet host) (unat Length) s", OF reads_Unsigned_Long this]
  show ?thesis by (simp only: Unmarshall_Octets_def [abs_def] append.simps)
qed

section \<open>Sequences of values\<close>

text \<open>The values that a client marshals one after the other, each with the operation for its type.\<close>

datatype cdr_value = Boolean_V bool | Char_V char | Octet_V byte | Short_V "16 word" | Long_V "32 word" | Long_Long_V "64 word"
  | String_V string | Octets_V "byte list"

datatype cdr_kind = Boolean_K | Char_K | Octet_K | Short_K | Long_K | Long_Long_K | String_K | Octets_K

fun kind_of :: "cdr_value \<Rightarrow> cdr_kind" where
  "kind_of (Boolean_V _) = Boolean_K" | "kind_of (Char_V _) = Char_K" | "kind_of (Octet_V _) = Octet_K" | "kind_of (Short_V _) = Short_K"
| "kind_of (Long_V _) = Long_K" | "kind_of (Long_Long_V _) = Long_Long_K" | "kind_of (String_V _) = String_K" | "kind_of (Octets_V _) = Octets_K"

fun marshall_value :: "Endianness_Type \<Rightarrow> stream \<Rightarrow> cdr_value \<Rightarrow> stream result" where
  "marshall_value h s (Boolean_V b) = Marshall_Boolean s b"
| "marshall_value h s (Char_V c) = Marshall_Latin_1_Char s c"
| "marshall_value h s (Octet_V b) = Marshall_Octet s b"
| "marshall_value h s (Short_V w) = Marshall_Elementary h True s w"
| "marshall_value h s (Long_V w) = Marshall_Elementary h True s w"
| "marshall_value h s (Long_Long_V w) = Marshall_Elementary h True s w"
| "marshall_value h s (String_V cs) = Marshall_Latin_1_String h s cs"
| "marshall_value h s (Octets_V bs) = Marshall_Octets h s bs"

definition as_value :: "('v \<Rightarrow> cdr_value) \<Rightarrow> ('v \<times> stream) result \<Rightarrow> (cdr_value \<times> stream) result" where
  "as_value c r = on_ok r (\<lambda>(v, s). Inr (c v, s))"

fun unmarshall_value :: "Endianness_Type \<Rightarrow> cdr_kind \<Rightarrow> stream \<Rightarrow> (cdr_value \<times> stream) result" where
  "unmarshall_value h Boolean_K s = as_value Boolean_V (Unmarshall_Boolean h s)"
| "unmarshall_value h Char_K s = as_value Char_V (Unmarshall_Latin_1_Char h s)"
| "unmarshall_value h Octet_K s = as_value Octet_V (Unmarshall_Octet h s)"
| "unmarshall_value h Short_K s = as_value Short_V (Unmarshall_Elementary h True s)"
| "unmarshall_value h Long_K s = as_value Long_V (Unmarshall_Elementary h True s)"
| "unmarshall_value h Long_Long_K s = as_value Long_Long_V (Unmarshall_Elementary h True s)"
| "unmarshall_value h String_K s = as_value String_V (Unmarshall_Latin_1_String h s)"
| "unmarshall_value h Octets_K s = as_value Octets_V (Unmarshall_Octets h s)"

fun marshall_values :: "Endianness_Type \<Rightarrow> cdr_value list \<Rightarrow> stream \<Rightarrow> stream result" where
  "marshall_values h [] s = Inr s"
| "marshall_values h (v # vs) s = on_ok (marshall_value h s v) (marshall_values h vs)"

fun unmarshall_values :: "Endianness_Type \<Rightarrow> cdr_kind list \<Rightarrow> stream \<Rightarrow> (cdr_value list \<times> stream) result" where
  "unmarshall_values h [] s = Inr ([], s)"
| "unmarshall_values h (k # ks) s = on_ok (unmarshall_value h k s) (\<lambda>(v, s). on_ok (unmarshall_values h ks s) (\<lambda>(vs, s). Inr (v # vs, s)))"

definition encapsulation :: "Endianness_Type \<Rightarrow> Endianness_Type \<Rightarrow> memory \<Rightarrow> cdr_value list \<Rightarrow> byte list result" where
  "encapsulation h E M vs = (let (B, M) = New_Buffer h M in
     on_ok (Set_Endianness B E) (\<lambda>B.
     on_ok (Start_Encapsulation (M, B)) (\<lambda>s.
     on_ok (marshall_values h vs s) (\<lambda>s.
     on_ok (Encapsulate s) (\<lambda>(data, M). Inr data)))))"

definition decapsulation :: "Endianness_Type \<Rightarrow> memory \<Rightarrow> nat \<Rightarrow> cdr_kind list \<Rightarrow> cdr_value list result" where
  "decapsulation h M z ks = (let (B, M) = New_Buffer h M in
     on_ok (Decapsulate M z B) (\<lambda>B.
     on_ok (unmarshall_values h ks (M, B)) (\<lambda>(vs, s). Inr vs)))"

text \<open>The octets that CDR prescribes: length, characters and a null character for a string, and so on.\<close>

fun value_frames :: "Endianness_Type \<Rightarrow> cdr_value \<Rightarrow> frame list" where
  "value_frames E (Boolean_V b) = [(Align_1, [if b then 1 else 0])]"
| "value_frames E (Char_V c) = [(Align_1, [of_char c])]"
| "value_frames E (Octet_V b) = [(Align_1, [b])]"
| "value_frames E (Short_V w) = [(Align_2, Item_Storage E w)]"
| "value_frames E (Long_V w) = [(Align_4, Item_Storage E w)]"
| "value_frames E (Long_Long_V w) = [(Align_8, Item_Storage E w)]"
| "value_frames E (String_V cs) = [(Align_4, Item_Storage E (word_of_int (int (length cs)) + 1 :: 32 word)), (Align_1, map of_char cs), (Align_1, [0])]"
| "value_frames E (Octets_V bs) = [(Align_4, Item_Storage E (word_of_int (int (length bs)) :: 32 word)), (Align_1, bs)]"

fun representable :: "cdr_value \<Rightarrow> bool" where
  "representable (String_V cs) \<longleftrightarrow> int (length cs) < Integer_Last"
| "representable (Octets_V bs) \<longleftrightarrow> length bs < 2 ^ 32"
| "representable _ \<longleftrightarrow> True"

lemma writes_words:
  "bw.writes K E (\<lambda>s. Marshall_Elementary h True s (w :: 16 word)) [(Align_2, Item_Storage E w)]"
  "bw.writes K E (\<lambda>s. Marshall_Elementary h True s (x :: 32 word)) [(Align_4, Item_Storage E x)]"
  "bw.writes K E (\<lambda>s. Marshall_Elementary h True s (y :: 64 word)) [(Align_8, Item_Storage E y)]"
  using writes_Elementary [of w K E h] writes_Elementary [of x K E h] writes_Elementary [of y K E h]
  by (simp_all add: T_Size_def transferable_def natural_alignment_def)

lemma reads_words:
  "br.reads M E (Unmarshall_Elementary h True) [(Align_2, Item_Storage E (w :: 16 word))] w"
  "br.reads M E (Unmarshall_Elementary h True) [(Align_8, Item_Storage E (y :: 64 word))] y"
  using reads_Elementary [where w = w and E = E and host = h] reads_Elementary [where w = y and E = E and host = h]
  by (simp_all add: transferable_def natural_alignment_def)

lemma writes_value: "representable v \<Longrightarrow> bw.writes K E (\<lambda>s. marshall_value h s v) (value_frames E v)"
proof (cases v)
  case (Boolean_V b) then show ?thesis using writes_Octet [of K E "if b then 1 else 0"] by (simp add: Marshall_Boolean_def)
next
  case (Char_V c) then show ?thesis using writes_Octet [of K E "of_char c"] by (simp add: Marshall_Latin_1_Char_def)
qed (simp_all add: writes_Octet writes_words writes_Latin_1_String writes_Octets del: of_int_of_nat_eq)

lemma reads_as_value: "br.reads M E f fs v \<Longrightarrow> br.reads M E (\<lambda>s. as_value c (f s)) fs (c v)"
  using br.reads_bind [where f = f and v = v and E = E and fs = fs and g = "\<lambda>v s. Inr (c v, s)", OF _ br.reads_return]
  by (simp add: as_value_def)

lemma unmarshall_value_fun:
  "unmarshall_value h k = (\<lambda>s. case k of Boolean_K \<Rightarrow> as_value Boolean_V (Unmarshall_Boolean h s) | Char_K \<Rightarrow> as_value Char_V (Unmarshall_Latin_1_Char h s)
     | Octet_K \<Rightarrow> as_value Octet_V (Unmarshall_Octet h s) | Short_K \<Rightarrow> as_value Short_V (Unmarshall_Elementary h True s)
     | Long_K \<Rightarrow> as_value Long_V (Unmarshall_Elementary h True s) | Long_Long_K \<Rightarrow> as_value Long_Long_V (Unmarshall_Elementary h True s)
     | String_K \<Rightarrow> as_value String_V (Unmarshall_Latin_1_String h s) | Octets_K \<Rightarrow> as_value Octets_V (Unmarshall_Octets h s))"
  by (cases k) (simp_all add: fun_eq_iff)

lemma reads_value: "representable v \<Longrightarrow> br.reads M E (unmarshall_value h (kind_of v)) (value_frames E v) v"
  unfolding unmarshall_value_fun
  by (cases v) (simp_all add: reads_as_value reads_Boolean reads_Latin_1_Char reads_Octet reads_words reads_Unsigned_Long
    reads_Latin_1_String reads_Octets del: of_int_of_nat_eq split del: if_split)

lemma writes_values: "\<forall>v\<in>set vs. representable v \<Longrightarrow> bw.writes K E (marshall_values h vs) (concat (map (value_frames E) vs))"
proof (induction vs)
  case (Cons v vs)
  then show ?case using bw.writes_seq [OF writes_value [of v K E h], of "marshall_values h vs"] by simp
qed (simp add: bw.writes_def)

lemma reads_values: "\<forall>v\<in>set vs. representable v \<Longrightarrow> br.reads M E (unmarshall_values h (map kind_of vs)) (concat (map (value_frames E) vs)) vs"
proof (induction vs)
  case (Cons v vs)
  have "br.reads M E (\<lambda>s. on_ok (unmarshall_values h (map kind_of vs) s) (\<lambda>(vs, s). Inr (v # vs, s))) (concat (map (value_frames E) vs) @ []) (v # vs)"
    by (rule br.reads_bind [where g = "\<lambda>vs s. Inr (v # vs, s)"]) (use Cons in simp, rule br.reads_return)
  from br.reads_bind [where g = "\<lambda>v s. on_ok (unmarshall_values h (map kind_of vs) s) (\<lambda>(vs, s). Inr (v # vs, s))", OF reads_value this, of h]
  show ?case using Cons.prems by simp
qed (simp add: br.reads_def)

section \<open>Encapsulations are faithful\<close>

definition encapsulated :: "Endianness_Type \<Rightarrow> frame list \<Rightarrow> byte list" where
  "encapsulated E fs = (if E = Little_Endian then 1 else 0) # frames 1 fs"

text \<open>What is written after \<open>Start_Encapsulation\<close> into a new buffer is encapsulated; older zones keep their octets.\<close>

lemma Encapsulate_writes:
  assumes "null_zone M" "New_Buffer h M = (B, M1)" "bw.writes (zones M) E f fs"
  shows "\<exists>M' ext. on_ok (Start_Encapsulation (M1, B\<lparr>Endianness := E\<rparr>)) (\<lambda>s. on_ok (f s) Encapsulate) = Inr (encapsulated E fs, M') \<and>
    zones M' = zones M @ ext"
proof -
  note new = New_Buffer_inv [OF saved_null_zone(2) [OF assms(1)] assms(2)]
  let ?B = "B\<lparr>Endianness := E\<rparr>" and ?b = "if E = Little_Endian then 1 else 0 :: byte"
  have "Buffer_Length B = 0" using new(1,2) by (simp add: buf_inv_def)
  then have inv: "writer_inv (zones M) M1 ?B" "octets M1 ?B = []" using new(1-4) by (simp_all add: writer_inv_def buf_inv_def octets_def)
  have sip: "Set_Initial_Position ?B 0 = Inr ?B" using new(3,4) by (cases B) (simp add: Set_Initial_Position_def)
  have st: "Start_Encapsulation (M1, ?B) = Marshall_Octet (M1, ?B) ?b"
    by (simp add: Start_Encapsulation_def sip Marshall_Boolean_def)
  have "bw.writes (zones M) E (\<lambda>s. on_ok (Marshall_Octet s ?b) f) ([(Align_1, [?b])] @ fs)"
    by (rule bw.writes_seq [OF writes_Octet assms(3)])
  then have "\<exists>s. on_ok (Marshall_Octet (M1, ?B) ?b) f = Inr s \<and> writer_inv (zones M) (fst s) (snd s) \<and> Endianness (snd s) = E \<and>
    octets (fst s) (snd s) = octets M1 ?B @ frames (CDR_Position ?B) ([(Align_1, [?b])] @ fs) \<and>
    CDR_Position (snd s) = CDR_Position ?B + int (length (frames (CDR_Position ?B) ([(Align_1, [?b])] @ fs)))"
    using inv(1) unfolding bw.writes_def by fastforce
  then obtain s where s: "on_ok (Marshall_Octet (M1, ?B) ?b) f = Inr s" "writer_inv (zones M) (fst s) (snd s)"
    "octets (fst s) (snd s) = frames 0 ([(Align_1, [?b])] @ fs)" "CDR_Position (snd s) = int (length (frames 0 ([(Align_1, [?b])] @ fs)))"
    unfolding inv(2) using new(3) by auto
  have o: "octets (fst s) (snd s) = encapsulated E fs" using s(3) by (simp add: frames_append encapsulated_def)
  have init: "Initial_CDR_Position (snd s) = 0" using s(3,4) writer_position(1) [OF s(2)] by simp
  have full: "buf_inv (zones M) (fst s) (snd s)" "octets (fst s) (snd s) \<noteq> []" using s(2) o by (simp_all add: writer_inv_def encapsulated_def)
  obtain z M' where z: "To_Zone (fst s) (snd s) = Inr (z, M')" "z = length (zones (fst s))" "z < length (zones M')"
    "zones M' ! z = octets (fst s) (snd s)" "saved (zones M) M'" "\<exists>ext. zones M' = zones (fst s) @ ext"
    by (rule To_Zone_octets [OF full(1) init full(2)]) (rule that)
  then have "Encapsulate s = Inr (encapsulated E fs, M')" using o by (simp add: Encapsulate_def To_Stream_Element_Array_def)
  moreover have "on_ok (Start_Encapsulation (M1, ?B)) (\<lambda>s. on_ok (f s) Encapsulate) = on_ok (on_ok (Marshall_Octet (M1, ?B) ?b) f) Encapsulate"
    by (simp only: st on_ok_assoc)
  ultimately show ?thesis using s(1) z(5) by (auto simp: saved_def)
qed

lemma Decapsulate_reads:
  assumes "New_Buffer h M = (B, M1)" "z < length (zones M)" "zones M ! z = encapsulated E (fs @ gs)" "frames 1 (fs @ gs) \<noteq> []" "br.reads M1 E f fs v"
  shows "\<exists>B' s'. Decapsulate M1 z B = Inr B' \<and> f (M1, B') = Inr (v, s') \<and> fst s' = M1 \<and> (\<exists>ext. zones M1 = zones M @ ext)"
proof -
  have B: "Contents B = New_Iovec_Pool" "CDR_Position B = 0" "Initial_CDR_Position B = 0" "\<exists>ext. zones M1 = zones M @ ext"
    using assms(1) by (auto simp: New_Buffer_def new_zone_def)
  have pool: "Pool_Last New_Iovec_Pool = 0" "Last_Extract_Iovec New_Iovec_Pool = 1" "Last_Extract_Iovec_Offset New_Iovec_Pool = 0"
    by (simp_all add: New_Iovec_Pool_def)
  have z: "z < length (zones M1)" "zones M1 ! z = encapsulated E (fs @ gs)" using B(4) assms(2,3) by (auto simp: nth_append)
  let ?n = "int (length (encapsulated E (fs @ gs))) - 1"
  have "peek_mem M1 (At z 1) ?n = Inr (frames 1 (fs @ gs))" using z by (simp add: in_zone_def encapsulated_def)
  then obtain B' where B': "Initialize_Buffer B ?n (At z 1) E 1 = Inr B'" "reader_inv M1 B'" "unread M1 B' = frames 1 (fs @ gs)" "Endianness B' = E" "CDR_Position B' = 1"
    by (rule Initialize_Buffer_reads [rotated 6, where B = B and E = E and p = 1])
      (use B pool in \<open>auto simp: encapsulated_def intro: that\<close>)
  have "Boolean_Val (encapsulated E (fs @ gs) ! 0) = Inr (E = Little_Endian)" by (simp add: encapsulated_def Boolean_Val_def)
  moreover have "(if E = Little_Endian then Little_Endian else Big_Endian) = E" by (cases E) auto
  moreover have "2 \<le> length (encapsulated E (fs @ gs))" using assms(4) by (cases "frames 1 (fs @ gs)") (auto simp: encapsulated_def)
  ultimately have "Decapsulate M1 z B = Inr B'" using z(2) B'(1) by (simp add: Decapsulate_def Let_def)
  moreover have "\<exists>s'. f (M1, B') = Inr (v, s') \<and> fst s' = M1"
    using assms(5) [unfolded br.reads_def, rule_format, of "(M1, B')" "frames (1 + int (length (frames 1 fs))) gs"] B' by (auto simp: frames_append)
  ultimately show ?thesis using B(4) by blast
qed

lemma encapsulation_eq:
  assumes "null_zone M" "\<forall>v\<in>set vs. representable v"
  shows "encapsulation h E M vs = Inr (encapsulated E (concat (map (value_frames E) vs)))"
proof -
  obtain B M1 where nb: "New_Buffer h M = (B, M1)" by fastforce
  note new = New_Buffer_inv [OF saved_null_zone(2) [OF assms(1)] nb]
  have "Set_Endianness B E = Inr (B\<lparr>Endianness := E\<rparr>)" using new(3,4) by (simp add: Set_Endianness_def)
  then have "encapsulation h E M vs =
      on_ok (on_ok (Start_Encapsulation (M1, B\<lparr>Endianness := E\<rparr>)) (\<lambda>s. on_ok (marshall_values h vs s) Encapsulate)) (\<lambda>(data, M). Inr data)"
    using nb by (simp add: encapsulation_def on_ok_assoc)
  then show ?thesis using Encapsulate_writes [OF assms(1) nb writes_values [OF assms(2), of _ E h]] by auto
qed

lemma le_octets_Nil: "le_octets k v = [] \<longleftrightarrow> k = 0"
  by (cases k) auto

lemma value_frames_not_Nil: "frames p (value_frames E v @ fs) \<noteq> []"
proof -
  have "Item_Storage E (w :: 16 word) \<noteq> []" "Item_Storage E (x :: 32 word) \<noteq> []" "Item_Storage E (y :: 64 word) \<noteq> []" for w x y
    by (simp_all add: Item_Storage_def in_order_def le_octets_Nil)
  then show ?thesis by (cases v) (simp_all add: aligned_def)
qed

lemma decapsulation_eq:
  assumes "z < length (zones M)" "zones M ! z = encapsulated E (concat (map (value_frames E) vs))" "vs \<noteq> []" "\<forall>v\<in>set vs. representable v"
  shows "decapsulation h M z (map kind_of vs) = Inr vs"
proof -
  obtain B M1 where nb: "New_Buffer h M = (B, M1)" by fastforce
  have "frames 1 (concat (map (value_frames E) vs)) \<noteq> []" using assms(3) value_frames_not_Nil by (cases vs) auto
  with Decapsulate_reads [OF nb assms(1), of E _ "[]", OF _ _ reads_values [OF assms(4), of M1 E h]] assms(2)
  show ?thesis using nb by (auto simp: decapsulation_def)
qed

section \<open>Copying octets out of several areas\<close>

text \<open>A buffer with any number of areas, read at a position within it.\<close>

definition scan_inv :: "memory \<Rightarrow> Buffer_Type \<Rightarrow> bool" where
  "scan_inv M B \<longleftrightarrow> pool_inv (Contents B) \<and> cache_inv (Contents B) \<and> (\<forall>v\<in>set (Vecs (Contents B)). readable M v) \<and>
     0 \<le> Initial_CDR_Position B \<and> Initial_CDR_Position B \<le> CDR_Position B"

lemma Unmarshall_Copy_loop_reads:
  assumes "scan_inv M B" "unread M B = bs @ rs" "n = int (length bs)"
  shows "\<exists>B'. Unmarshall_Copy_loop (M, B) Data n = Inr (Data @ bs, (M, B')) \<and> scan_inv M B' \<and> unread M B' = rs \<and> CDR_Position B' = CDR_Position B + n"
  using assms
proof (induction "length bs" arbitrary: B bs n Data rule: less_induct)
  case less
  show ?case
  proof (cases "bs = []")
    case False
    let ?P = "Contents B" and ?o = "CDR_Position B - Initial_CDR_Position B"
    have r: "pool_inv ?P" "cache_inv ?P" "\<And>v. v \<in> set (Vecs ?P) \<Longrightarrow> readable M v" "0 \<le> ?o"
      using less.prems(1) by (auto simp: scan_inv_def)
    have u: "drop (nat ?o) (contents M (Vecs ?P)) = bs @ rs" using less.prems(2) by (simp add: unread_def octets_def)
    have len: "length (contents M (Vecs ?P)) - nat ?o = length bs + length rs" using arg_cong [OF u, of length] by simp
    have n: "0 < n" "0 < length bs" using False less.prems(3) by auto
    then have lt: "?o < int (length (contents M (Vecs ?P)))" using len r(4) by linarith
    obtain a m P' where e: "Iovec_Pools.Extract_Data ?P ?o n = (a, m, P')" "0 < m" "m \<le> n"
      "peek_mem M a m = Inr (take (nat m) (drop (nat ?o) (contents M (Vecs ?P))))" "cache_inv P'"
      "\<exists>x y. P' = ?P\<lparr>Last_Extract_Iovec := x, Last_Extract_Iovec_Offset := y\<rparr>"
      using Extract_Data_correct [OF r n(1) lt] by blast
    let ?B = "B\<lparr>Contents := P', CDR_Position := CDR_Position B + m\<rparr>" and ?got = "take (nat m) bs" and ?left = "drop (nat m) bs"
    have P': "Vecs P' = Vecs ?P" "pool_inv P'" using e(6) r(1) by auto
    have inv: "scan_inv M ?B" using less.prems(1) P' e(2,5) by (simp add: scan_inv_def)
    have "nat (?o + m) = nat m + nat ?o" using r(4) e(2) by simp
    then have "unread M ?B = drop (nat m) (drop (nat ?o) (octets M B))" using P'(1) by (simp add: unread_def octets_def algebra_simps)
    then have unread: "unread M ?B = ?left @ rs" using u e(3) less.prems(3) by (simp add: octets_def)
    have "peek_mem M a m = Inr ?got" using e(3,4) u less.prems(3) by simp
    then have run: "Unmarshall_Copy_loop (M, B) Data n = Unmarshall_Copy_loop (M, ?B) (Data @ ?got) (n - m)"
      using n(1) e(1,2) by (subst Unmarshall_Copy_loop.simps) (simp add: Partial_Extract_Data_def)
    have "\<exists>B'. Unmarshall_Copy_loop (M, ?B) (Data @ ?got) (n - m) = Inr ((Data @ ?got) @ ?left, (M, B')) \<and> scan_inv M B' \<and>
        unread M B' = rs \<and> CDR_Position B' = CDR_Position ?B + (n - m)"
      by (rule less.hyps [OF _ inv unread]) (use e(2,3) n less.prems(3) in auto)
    then show ?thesis unfolding run by simp
  qed (use less.prems in auto)
qed

section \<open>Properties\<close>

text \<open>
  Property C34. \<open>Align_Unmarshall_Copy\<close> ends and gives the octets that follow the padding at the position, in however
  many areas of the buffer they lie, and moves the position behind them.
\<close>

theorem Align_Unmarshall_Copy_reads:
  assumes "scan_inv M B" "unread M B = aligned (CDR_Position B) A (bs @ rs)" "CDR_Position B + padding (CDR_Position B) A \<le> Initial_CDR_Position B + Buffer_Length B"
  shows "\<exists>B'. Align_Unmarshall_Copy (M, B) A (length bs) = Inr (bs, (M, B')) \<and> unread M B' = rs \<and>
    CDR_Position B' = CDR_Position B + padding (CDR_Position B) A + int (length bs)"
proof -
  let ?p = "padding (CDR_Position B) A"
  let ?B = "B\<lparr>CDR_Position := CDR_Position B + ?p\<rparr>"
  have r: "0 \<le> Initial_CDR_Position B" "Initial_CDR_Position B \<le> CDR_Position B" using assms(1) by (simp_all add: scan_inv_def)
  have al: "Align_Position B A = Inr ?B" using r assms(3) by (intro Align_Position_end) simp_all
  have "scan_inv M ?B" using assms(1) padding_bounds(1) [of "CDR_Position B" A] by (simp add: scan_inv_def)
  moreover have "unread M ?B = drop (nat ?p) (unread M B)"
    using r padding_bounds(1) [of "CDR_Position B" A] by (simp add: unread_def octets_def algebra_simps flip: nat_add_distrib)
  then have "unread M ?B = bs @ rs" using assms(2) by (simp add: aligned_def)
  ultimately show ?thesis
    using Unmarshall_Copy_loop_reads [of M ?B bs rs "int (length bs)" "[]"] al by (auto simp: Align_Unmarshall_Copy_def)
qed

theorem Align_Unmarshall_Copy_reads_witness:
  "\<exists>B'. Align_Unmarshall_Copy (\<lparr>zones = [[4, 5], [6, 7]], garbage = 0\<rparr>,
      \<lparr>Endianness = Big_Endian, CDR_Position = 1, Initial_CDR_Position = 0,
       Contents = New_Iovec_Pool\<lparr>Pool_Last := 2, Prealloc_Array := [\<lparr>Iov_Base = At 0 0, Iov_Len = 2\<rparr>, \<lparr>Iov_Base = At 1 0, Iov_Len = 2\<rparr>] @ replicate 6 no_iovec\<rparr>,
       Storage = \<lparr>chunks = [], Prealloc_Used = False, Dynamic_Chunks = []\<rparr>, Buffer_Length = 4\<rparr>) Align_1 2 =
    Inr ([5, 6], (\<lparr>zones = [[4, 5], [6, 7]], garbage = 0\<rparr>, B')) \<and> unread \<lparr>zones = [[4, 5], [6, 7]], garbage = 0\<rparr> B' = [7] \<and> CDR_Position B' = 3"
proof -
  let ?P = "New_Iovec_Pool\<lparr>Pool_Last := 2, Prealloc_Array := [\<lparr>Iov_Base = At 0 0, Iov_Len = 2\<rparr>, \<lparr>Iov_Base = At 1 0, Iov_Len = 2\<rparr>] @ replicate 6 no_iovec\<rparr>"
  let ?B = "\<lparr>Endianness = Big_Endian, CDR_Position = 1, Initial_CDR_Position = 0, Contents = ?P,
       Storage = \<lparr>chunks = [], Prealloc_Used = False, Dynamic_Chunks = []\<rparr>, Buffer_Length = 4\<rparr>"
  let ?M = "\<lparr>zones = [[4, 5], [6, 7]], garbage = 0\<rparr> :: memory"
  have V: "Vecs ?P = [\<lparr>Iov_Base = At 0 0, Iov_Len = 2\<rparr>, \<lparr>Iov_Base = At 1 0, Iov_Len = 2\<rparr>]" by (simp add: Vecs_def Iovecs_def New_Iovec_Pool_def)
  have P: "pool_inv ?P" "cache_inv ?P"
    by (simp_all add: pool_inv_def cache_inv_def New_Iovec_Pool_def Prealloc_Size_def numeral_eq_Suc)
  have "scan_inv ?M ?B" using P V by (simp add: scan_inv_def readable_def in_zone_def)
  moreover have "unread ?M ?B = [5, 6, 7]" using V by (simp add: unread_def octets_def iov_bytes_def)
  ultimately show ?thesis using Align_Unmarshall_Copy_reads [of ?M ?B Align_1 "[5, 6]" "[7]"] by (simp add: numeral_2_eq_2)
qed

text \<open>
  Property C18. Whatever sequence of values is marshalled into an encapsulation, on a host of either byte order and
  for either byte order of the buffer, unmarshalling its octets on another host, of any byte order, gives
  the values back. The values are not too long for the length items that go with them.
\<close>

theorem cdr_roundtrip:
  assumes "null_zone M" "vs \<noteq> []" "\<forall>v\<in>set vs. representable v"
  shows "\<exists>data. encapsulation h E M vs = Inr data \<and>
    decapsulation h' (M'\<lparr>zones := zones M' @ [data]\<rparr>) (length (zones M')) (map kind_of vs) = Inr vs"
proof -
  let ?data = "encapsulated E (concat (map (value_frames E) vs))"
  have "decapsulation h' (M'\<lparr>zones := zones M' @ [?data]\<rparr>) (length (zones M')) (map kind_of vs) = Inr vs"
    by (rule decapsulation_eq [where E = E]) (use assms in simp_all)
  with encapsulation_eq [OF assms(1,3)] show ?thesis by blast
qed

theorem cdr_roundtrip_witness:
  "\<exists>data. encapsulation Little_Endian Big_Endian \<lparr>zones = [replicate 8 0], garbage = 7\<rparr> [Octet_V 5, Long_V 258, String_V ''ab'', Boolean_V True] = Inr data \<and>
    decapsulation Big_Endian \<lparr>zones = [replicate 8 0, data], garbage = 9\<rparr> 1 [Octet_K, Long_K, String_K, Boolean_K] =
      Inr [Octet_V 5, Long_V 258, String_V ''ab'', Boolean_V True]"
  using cdr_roundtrip [of "\<lparr>zones = [replicate 8 0], garbage = 7\<rparr>"
      "[Octet_V 5, Long_V 258, String_V ''ab'', Boolean_V True]" Little_Endian Big_Endian Big_Endian "\<lparr>zones = [replicate 8 0], garbage = 9\<rparr>"]
  by (simp add: null_zone_def Integer_Last_def)

text \<open>
  Property C19. The octets of an encapsulation are the ones that CDR prescribes: the byte order, then every value
  aligned relative to the start of the encapsulation, with zeros in the gaps, in the byte order of the
  buffer. Neither the byte order of the host, nor what the memory held, nor the way in which the contents
  are split into areas can be seen in them.
\<close>

theorem encapsulation_refines:
  assumes "null_zone M" "\<forall>v\<in>set vs. representable v"
  shows "encapsulation h E M vs = Inr ((if E = Little_Endian then 1 else 0) # frames 1 (concat (map (value_frames E) vs)))"
  using encapsulation_eq [OF assms] by (simp add: encapsulated_def)

theorem encapsulation_refines_witness:
  "encapsulation Little_Endian Big_Endian \<lparr>zones = [replicate 8 0], garbage = 7\<rparr> [Octet_V 5, Short_V 258, Long_V 1, Octets_V [9]] =
     Inr [0, 5, 1, 2, 0, 0, 0, 1, 0, 0, 0, 1, 9]"
proof -
  have "Item_Storage Big_Endian (258 :: 16 word) = [1, 2]" "Item_Storage Big_Endian (1 :: 32 word) = [0, 0, 0, 1]"
    by code_simp+
  then show ?thesis
    using encapsulation_refines [of "\<lparr>zones = [replicate 8 0], garbage = 7\<rparr>" "[Octet_V 5, Short_V 258, Long_V 1, Octets_V [9]]" Little_Endian Big_Endian]
    by (simp add: null_zone_def aligned_def padding_def)
qed

text \<open>
  An encapsulation whose first octet is not a byte order, and one with no octets at all, raise
  \<open>Constraint_Error\<close>, whatever else they hold.
\<close>

theorem Decapsulate_rejects:
  assumes "zones M ! z = [] \<or> 1 < uint (hd (zones M ! z))"
  shows "Decapsulate M z B = Inl Constraint_Error"
proof (cases "zones M ! z")
  case (Cons b bs)
  then have "b \<noteq> 0" "b \<noteq> 1" using assms by auto
  then show ?thesis using Cons by (simp add: Decapsulate_def Boolean_Val_def)
qed (simp add: Decapsulate_def)

theorem Decapsulate_rejects_witness:
  "Decapsulate \<lparr>zones = [[2, 1, 1]], garbage = 0\<rparr> 0 (fst (New_Buffer Big_Endian \<lparr>zones = [], garbage = 0\<rparr>)) = Inl Constraint_Error"
  by (rule Decapsulate_rejects) simp

end
