(* ===== verification/Ada_Utils.thy ===== *)
theory Ada_Utils
  imports Prelude
begin

text \<open>
  PolyORB.Utils (\<open>src/src/polyorb-utils.ads\<close>, \<open>src/src/polyorb-utils.adb\<close>): hexadecimal dumps of
  octet arrays, the RFC 2396 escaping of URIs, searches in strings, intervals and case folding.

  An Ada \<open>String\<close> is the list of its characters. Where the code works with indices, the index
  \<open>S'First\<close> of the first character is an argument of its own.
\<close>

section \<open>Hexadecimal digits\<close>

definition Hex :: "nat \<Rightarrow> char" where
  "Hex n = ''0123456789abcdef'' ! n"

definition Hex_Val :: "char \<Rightarrow> int" where
  "Hex_Val c =
     (case map_of
        [(CHR ''0'', 0), (CHR ''1'', 1), (CHR ''2'', 2), (CHR ''3'', 3), (CHR ''4'', 4),
         (CHR ''5'', 5), (CHR ''6'', 6), (CHR ''7'', 7), (CHR ''8'', 8), (CHR ''9'', 9),
         (CHR ''A'', 10), (CHR ''a'', 10), (CHR ''B'', 11), (CHR ''b'', 11),
         (CHR ''C'', 12), (CHR ''c'', 12), (CHR ''D'', 13), (CHR ''d'', 13),
         (CHR ''E'', 14), (CHR ''e'', 14), (CHR ''F'', 15), (CHR ''f'', 15)] c
      of Some v \<Rightarrow> v | None \<Rightarrow> -1)"

definition Hex_Value :: "char \<Rightarrow> int result" where
  "Hex_Value c = (let V = Hex_Val c in if V = -1 then Inl Constraint_Error else Inr V)"

fun SEA_To_Hex_String :: "byte list \<Rightarrow> string" where
  "SEA_To_Hex_String [] = []"
| "SEA_To_Hex_String (a # A) =
     Hex (unat a div 16) # Hex (unat a mod 16) # SEA_To_Hex_String A"

text \<open>
  The loop runs over the \<open>S'Length / 2\<close> pairs of digits: a last unpaired digit is not read.
\<close>

fun Hex_String_To_SEA :: "string \<Rightarrow> byte list result" where
  "Hex_String_To_SEA (c # d # S) =
     on_ok (Hex_Value c) (\<lambda>hi. on_ok (Hex_Value d) (\<lambda>lo.
       on_ok (Hex_String_To_SEA S) (\<lambda>A. Inr (word_of_int (hi * 16 + lo) # A))))"
| "Hex_String_To_SEA _ = Inr []"

section \<open>URI escaping\<close>

definition Default_Escape_Map :: "char \<Rightarrow> bool" where
  "Default_Escape_Map c \<longleftrightarrow>
     (of_char c :: nat) \<le> 31 \<or>
     c \<in> set (CHR 0x22 # CHR 0x5C # '';?:@&=+$,<>#%{}|^[]`'')"

definition Need_Escape :: "string \<Rightarrow> char \<Rightarrow> bool" where
  "Need_Escape Also_Escape c \<longleftrightarrow> Default_Escape_Map c \<or> c \<in> set Also_Escape"

fun URI_Encode :: "string \<Rightarrow> string \<Rightarrow> string" where
  "URI_Encode [] Also_Escape = []"
| "URI_Encode (c # S) Also_Escape =
     (if Need_Escape Also_Escape c
      then [CHR ''%'', Hex (of_char c div 16), Hex (of_char c mod 16)]
      else [c]) @ URI_Encode S Also_Escape"

fun URI_Decode :: "string \<Rightarrow> string result" where
  "URI_Decode [] = Inr []"
| "URI_Decode (c # S) =
     (if c = CHR ''%'' then
        (case S of
           h # l # S' \<Rightarrow>
             on_ok (Hex_Value h) (\<lambda>hi. on_ok (Hex_Value l) (\<lambda>lo.
               on_ok (URI_Decode S') (\<lambda>R. Inr (char_of (nat (hi * 16 + lo)) # R))))
         | _ \<Rightarrow> Inl Constraint_Error)
      else on_ok (URI_Decode S) (\<lambda>R. Inr (c # R)))"

section \<open>Searching\<close>

datatype Direction_Type = Forward | Backward

fun direction_step :: "Direction_Type \<Rightarrow> int" where
  "direction_step Forward = 1"
| "direction_step Backward = -1"

definition string_last :: "int \<Rightarrow> string \<Rightarrow> int" where
  "string_last first S = first + int (length S) - 1"

definition in_range :: "int \<Rightarrow> string \<Rightarrow> int \<Rightarrow> bool" where
  "in_range first S i \<longleftrightarrow> first \<le> i \<and> i \<le> string_last first S"

definition char_at :: "int \<Rightarrow> string \<Rightarrow> int \<Rightarrow> char" where
  "char_at first S i = S ! nat (i - first)"

text \<open>
  \<open>Find_Skip S Start What Skip Direction\<close>: the loop steps from \<open>Start\<close> until it leaves
  \<open>S'Range\<close> or meets \<open>S (I) = What xor Skip\<close>. Every step stays inside the range it has to
  leave, which is what terminates it.
\<close>

function Find_Skip :: "int \<Rightarrow> string \<Rightarrow> int \<Rightarrow> char \<Rightarrow> bool \<Rightarrow> Direction_Type \<Rightarrow> int" where
  "Find_Skip first S I What Skip Direction =
     (if \<not> in_range first S I \<or> (char_at first S I = What) \<noteq> Skip then I
      else Find_Skip first S (I + direction_step Direction) What Skip Direction)"
  by pat_completeness auto
termination
  by (relation "measure (\<lambda>(first, S, I, What, Skip, Direction).
        case Direction of Forward \<Rightarrow> nat (string_last first S + 1 - I)
        | Backward \<Rightarrow> nat (I - first + 1))")
    (auto simp: in_range_def split: Direction_Type.splits)

declare Find_Skip.simps [simp del]

abbreviation Find :: "int \<Rightarrow> string \<Rightarrow> int \<Rightarrow> char \<Rightarrow> int" where
  "Find first S Start What \<equiv> Find_Skip first S Start What False Forward"

definition Has_Prefix :: "string \<Rightarrow> string \<Rightarrow> bool" where
  "Has_Prefix S Prefix \<longleftrightarrow> length S \<ge> length Prefix \<and> take (length Prefix) S = Prefix"

section \<open>The attribute Integer'Value of the language\<close>

text \<open>
  \<open>Integer'Value\<close> accepts the image of an integer literal with an optional sign, surrounded by
  blanks: a decimal numeral with single underscores between digits and an optional exponent, or
  a based literal. Everything else, and a value outside Integer, raises Constraint_Error.
\<close>

definition digit_value :: "char \<Rightarrow> nat option" where
  "digit_value c = (let v = Hex_Val c in if v = -1 then None else Some (nat v))"

fun numeral_value :: "nat \<Rightarrow> nat \<Rightarrow> string \<Rightarrow> (nat \<times> string) option" where
  "numeral_value base acc [] = Some (acc, [])"
| "numeral_value base acc (c # S) =
     (case digit_value c of
        Some d \<Rightarrow> if d < base then numeral_value base (acc * base + d) S else Some (acc, c # S)
      | None \<Rightarrow>
          if c = CHR ''_'' then
            (case S of
               c' # S' \<Rightarrow> (case digit_value c' of
                   Some d \<Rightarrow> if d < base then numeral_value base (acc * base + d) S' else None
                 | None \<Rightarrow> None)
             | [] \<Rightarrow> None)
          else Some (acc, c # S))"

definition numeral_image :: "nat \<Rightarrow> string \<Rightarrow> (nat \<times> string) option" where
  "numeral_image base S =
     (case S of [] \<Rightarrow> None
      | c # S' \<Rightarrow> (case digit_value c of
            Some d \<Rightarrow> if d < base then numeral_value base d S' else None
          | None \<Rightarrow> None))"

definition exponent_image :: "nat \<Rightarrow> nat \<Rightarrow> string \<Rightarrow> nat option" where
  "exponent_image base v S =
     (case S of [] \<Rightarrow> Some v
      | c # S' \<Rightarrow>
          if c \<in> set ''eE'' then
            (case numeral_image 10 (case S' of CHR ''+'' # S'' \<Rightarrow> S'' | _ \<Rightarrow> S') of
               Some (e, []) \<Rightarrow> Some (v * base ^ e)
             | _ \<Rightarrow> None)
          else None)"

definition literal_image :: "string \<Rightarrow> nat option" where
  "literal_image S =
     (case numeral_image 10 S of
        None \<Rightarrow> None
      | Some (v, R) \<Rightarrow>
          (case R of
             c # R' \<Rightarrow>
               if c = CHR ''#'' then
                 (if 2 \<le> v \<and> v \<le> 16 then
                    (case numeral_image v R' of
                       Some (w, c' # R'') \<Rightarrow> if c' = CHR ''#'' then exponent_image v w R'' else None
                     | _ \<Rightarrow> None)
                  else None)
               else exponent_image 10 v R
           | [] \<Rightarrow> Some v))"

definition trim :: "string \<Rightarrow> string" where
  "trim S = rev (dropWhile (\<lambda>c. c = CHR '' '') (rev (dropWhile (\<lambda>c. c = CHR '' '') S)))"

definition Integer_Value :: "string \<Rightarrow> int result" where
  "Integer_Value S =
     (let (sign, T) = (case trim S of
            c # T \<Rightarrow> if c = CHR ''-'' then (-1, T) else if c = CHR ''+'' then (1, T) else (1, c # T)
          | [] \<Rightarrow> (1, []))
      in case literal_image T of
           None \<Rightarrow> Inl Constraint_Error
         | Some v \<Rightarrow> to_Integer (sign * int v))"

section \<open>Intervals\<close>

record Interval =
  Lo :: int
  Hi :: int

text \<open>\<open>S'First\<close> is 1. The components are of subtype Natural, so each assignment is range checked.\<close>

definition To_Interval :: "string \<Rightarrow> Interval result" where
  "To_Interval S =
     (let Hyphen = Find 1 S 1 (CHR ''-''); Last = string_last 1 S in
      if Hyphen = 1 \<or> Hyphen = Last then Inl Constraint_Error
      else
        on_ok (Integer_Value (take (nat (Hyphen - 1)) S)) (\<lambda>l. on_ok (to_Natural l) (\<lambda>lo.
          if Hyphen < Last then
            on_ok (Integer_Value (drop (nat Hyphen) S)) (\<lambda>h. on_ok (to_Natural h) (\<lambda>hi.
              Inr \<lparr>Lo = lo, Hi = hi\<rparr>))
          else Inr \<lparr>Lo = lo, Hi = lo\<rparr>)))"

section \<open>Case folding\<close>

definition To_Lower_Char :: "char \<Rightarrow> char" where
  "To_Lower_Char c =
     (let C_Val = (of_char c :: nat) in
      if (65 \<le> C_Val \<and> C_Val \<le> 90) \<or> (0xC0 \<le> C_Val \<and> C_Val \<le> 0xD6) \<or> (0xD8 \<le> C_Val \<and> C_Val \<le> 0xDE)
      then char_of (C_Val + 0x20) else c)"

definition To_Lower :: "string \<Rightarrow> string" where
  "To_Lower S = map To_Lower_Char S"

definition To_Upper_Char :: "char \<Rightarrow> char" where
  "To_Upper_Char c =
     (let C_Val = (of_char c :: nat) in
      if (97 \<le> C_Val \<and> C_Val \<le> 122) \<or> (0xE0 \<le> C_Val \<and> C_Val \<le> 0xF6) \<or> (0xF8 \<le> C_Val \<and> C_Val \<le> 0xFE)
      then char_of (C_Val - 0x20) else c)"

definition To_Upper :: "string \<Rightarrow> string" where
  "To_Upper S = map To_Upper_Char S"

section \<open>Correctness\<close>

lemma Hex_digits: "list_all (\<lambda>n. Hex_Val (Hex n) = int n) [0..<16]"
  by code_simp

lemma Hex_Val_Hex [simp]: "n < 16 \<Longrightarrow> Hex_Val (Hex n) = int n"
  using Hex_digits by (auto simp: list_all_iff)

lemma Hex_Value_Hex [simp]: "n < 16 \<Longrightarrow> Hex_Value (Hex n) = Inr (int n)"
  by (simp add: Hex_Value_def)

lemma nibbles_value: "int (n div 16) * 16 + int (n mod 16) = int n"
  by (metis div_mult_mod_eq of_nat_add of_nat_mult of_nat_numeral)

lemma byte_of_nibbles [simp]:
  "word_of_nat (unat b div 16) * 16 + word_of_nat (unat b mod 16) = (b :: byte)"
proof -
  have "word_of_int (int (unat b div 16) * 16 + int (unat b mod 16)) = b"
    by (simp only: nibbles_value) simp
  then show ?thesis by simp
qed

lemma char_of_nibbles [simp]:
  "char_of (nat (int ((of_char c :: nat) div 16) * 16 + int ((of_char c :: nat) mod 16))) = c"
  by (simp only: nibbles_value nat_int) simp

lemma nibble_bounds [simp]: "(of_char c :: nat) div 16 < 16" "unat (b :: byte) div 16 < 16"
  using of_char_byte_less [of c] unat_byte_less [of b] by (auto intro: less_mult_imp_div_less simp del: of_char_byte_less unat_byte_less)

lemma Hex_String_inverse: "Hex_String_To_SEA (SEA_To_Hex_String A) = Inr A"
  by (induction A) simp_all

lemma percent_escaped: "Need_Escape also (CHR ''%'')"
  by (simp add: Need_Escape_def Default_Escape_Map_def)

lemma URI_Encode_inverse: "URI_Decode (URI_Encode S Also_Escape) = Inr S"
proof (induction S)
  case (Cons c S)
  then show ?case by (auto simp: percent_escaped)
qed simp

text \<open>
  Decoding the hexadecimal dump of an octet array gives the array back: every
  octet is written as two digits that \<open>Hex_String_To_SEA\<close> reads without raising.
\<close>

theorem Hex_String_roundtrip: "Hex_String_To_SEA (SEA_To_Hex_String A) = Inr A"
  by (rule Hex_String_inverse)

text \<open>
  For every string and every set of additional characters to escape, decoding an
  encoded string succeeds and gives the string back.
\<close>

theorem URI_Decode_Encode: "URI_Decode (URI_Encode S Also_Escape) = Inr S"
  by (rule URI_Encode_inverse)

lemma URI_Encode_length: "length (URI_Encode S also) \<le> 3 * length S"
  by (induction S) auto

text \<open>
  An encoded string holds only characters that need no escape, the escape
  character itself and hexadecimal digits.
\<close>

theorem URI_Encode_clean:
  "set (URI_Encode S also) \<subseteq> {c. \<not> Need_Escape also c} \<union> {CHR ''%''} \<union> {c. Hex_Val c \<noteq> -1}"
  by (induction S) (auto split: if_splits)

lemma Find_Skip_Forward:
  assumes "first \<le> I" "I \<le> string_last first S + 1"
  shows "I \<le> Find_Skip first S I What Skip Forward \<and>
    Find_Skip first S I What Skip Forward \<le> string_last first S + 1 \<and>
    (\<forall>i. I \<le> i \<and> i < Find_Skip first S I What Skip Forward \<longrightarrow> (char_at first S i = What) = Skip) \<and>
    (in_range first S (Find_Skip first S I What Skip Forward) \<longrightarrow>
      (char_at first S (Find_Skip first S I What Skip Forward) = What) \<noteq> Skip)"
  using assms
proof (induction first S I What Skip Forward rule: Find_Skip.induct)
  case (1 first S I What Skip)
  show ?case
  proof (cases "\<not> in_range first S I \<or> (char_at first S I = What) \<noteq> Skip")
    case True
    with 1(2-) show ?thesis by (auto simp: Find_Skip.simps [of first S I] in_range_def)
  next
    case False
    let ?r = "Find_Skip first S (I + 1) What Skip Forward"
    have r: "Find_Skip first S I What Skip Forward = ?r"
      using False by (simp add: Find_Skip.simps [of first S I])
    have IH: "I + 1 \<le> ?r \<and> ?r \<le> string_last first S + 1 \<and>
      (\<forall>i. I + 1 \<le> i \<and> i < ?r \<longrightarrow> (char_at first S i = What) = Skip) \<and>
      (in_range first S ?r \<longrightarrow> (char_at first S ?r = What) \<noteq> Skip)"
      using 1 False by (simp add: in_range_def)
    moreover have "(char_at first S i = What) = Skip" if "I \<le> i" "i < ?r" for i
      using IH that False by (cases "i = I") auto
    ultimately show ?thesis unfolding r by auto
  qed
qed

text \<open>The first occurrence of a character, seen as a split of the string.\<close>

lemma Find_split:
  assumes "c \<notin> set ys" "i = first + int (length xs)"
  shows "Find first (xs @ ys @ c # zs) i c = i + int (length ys)"
  using assms
proof (induction ys arbitrary: xs i)
  case Nil
  then show ?case by (subst Find_Skip.simps) (simp add: in_range_def string_last_def char_at_def)
next
  case (Cons y ys)
  have "Find first ((xs @ [y]) @ ys @ c # zs) (i + 1) c = i + 1 + int (length ys)"
    by (rule Cons.IH) (use Cons.prems in auto)
  with Cons.prems show ?case
    by (subst Find_Skip.simps) (auto simp: in_range_def string_last_def char_at_def nth_append ac_simps)
qed

lemma Find_Skip_Backward:
  assumes "first - 1 \<le> I" "I \<le> string_last first S"
  shows "Find_Skip first S I What Skip Backward \<le> I \<and>
    first - 1 \<le> Find_Skip first S I What Skip Backward \<and>
    (\<forall>i. Find_Skip first S I What Skip Backward < i \<and> i \<le> I \<longrightarrow> (char_at first S i = What) = Skip) \<and>
    (in_range first S (Find_Skip first S I What Skip Backward) \<longrightarrow>
      (char_at first S (Find_Skip first S I What Skip Backward) = What) \<noteq> Skip)"
  using assms
proof (induction first S I What Skip Backward rule: Find_Skip.induct)
  case (1 first S I What Skip)
  show ?case
  proof (cases "\<not> in_range first S I \<or> (char_at first S I = What) \<noteq> Skip")
    case True
    with 1(2-) show ?thesis by (auto simp: Find_Skip.simps [of first S I] in_range_def)
  next
    case False
    let ?r = "Find_Skip first S (I - 1) What Skip Backward"
    have r: "Find_Skip first S I What Skip Backward = ?r"
      using False by (simp add: Find_Skip.simps [of first S I])
    have IH: "?r \<le> I - 1 \<and> first - 1 \<le> ?r \<and>
      (\<forall>i. ?r < i \<and> i \<le> I - 1 \<longrightarrow> (char_at first S i = What) = Skip) \<and>
      (in_range first S ?r \<longrightarrow> (char_at first S ?r = What) \<noteq> Skip)"
      using 1 False by (simp add: in_range_def)
    moreover have "(char_at first S i = What) = Skip" if "i \<le> I" "?r < i" for i
      using IH that False by (cases "i = I") auto
    ultimately show ?thesis unfolding r by auto
  qed
qed

text \<open>
  \<open>Find_Skip\<close> from an index of the string stops, in either direction, at the first
  index where the character is \<open>What\<close> (or is not, when skipping), or one past the end it walks to.
\<close>

theorem Find_Skip_correct:
  assumes "in_range first S I"
  shows "(let r = Find_Skip first S I What Skip Forward in
      I \<le> r \<and> r \<le> string_last first S + 1 \<and>
      (\<forall>i. I \<le> i \<and> i < r \<longrightarrow> (char_at first S i = What) = Skip) \<and>
      (r = string_last first S + 1 \<or> (char_at first S r = What) \<noteq> Skip)) \<and>
    (let r = Find_Skip first S I What Skip Backward in
      first - 1 \<le> r \<and> r \<le> I \<and>
      (\<forall>i. r < i \<and> i \<le> I \<longrightarrow> (char_at first S i = What) = Skip) \<and>
      (r = first - 1 \<or> (char_at first S r = What) \<noteq> Skip))"
proof -
  from assms have "first \<le> I" "I \<le> string_last first S" by (auto simp: in_range_def)
  then show ?thesis
    using Find_Skip_Forward [of first I S What Skip] Find_Skip_Backward [of first I S What Skip]
    by (auto simp: in_range_def Let_def)
qed

theorem Find_Skip_correct_witness:
  "in_range 1 ''a-b'' 1 \<and> Find 1 ''a-b'' 1 (CHR ''-'') \<le> string_last 1 ''a-b'' + 1"
proof -
  have h: "in_range 1 ''a-b'' 1" by (simp add: in_range_def string_last_def)
  then show ?thesis using Find_Skip_correct [OF h, of "CHR ''-''" False] by (simp add: Let_def)
qed

lemma To_Lower_To_Upper_Char: "To_Lower_Char (To_Upper_Char c) = To_Lower_Char c"
  by (auto simp: To_Lower_Char_def To_Upper_Char_def Let_def)

text \<open>
  Folding to upper case and then to lower case is folding to lower case, over the
  whole Latin-1 range: the two tables of the code agree.
\<close>

theorem To_Lower_To_Upper: "To_Lower (To_Upper S) = To_Lower S"
  by (simp add: To_Lower_def To_Upper_def To_Lower_To_Upper_Char)

end
