(* ===== verification/Errors.thy ===== *)
theory Errors
  imports Prelude
begin

text \<open>
  PolyORB.Errors (\<open>src/src/polyorb-errors.ads\<close>, \<open>src/src/polyorb-errors.adb\<close>): the error container
  that the object adapters thread through their operations in the place of an exception. The kind
  of the error is kept; the member record that travels with it is not.
\<close>

datatype Error_Id =
  No_Error | Unknown_E | Bad_Param_E | No_Memory_E | Imp_Limit_E | Comm_Failure_E | Inv_Objref_E
  | No_Permission_E | Internal_E | Marshal_E | Initialize_E | No_Implement_E | Bad_TypeCode_E
  | Bad_Operation_E | No_Resources_E | No_Response_E | Persist_Store_E | Bad_Inv_Order_E
  | Transient_E | Free_Mem_E | Inv_Ident_E | Inv_Flag_E | Intf_Repos_E | Bad_Context_E
  | Obj_Adapter_E | Data_Conversion_E | Object_Not_Exist_E | Transaction_Required_E
  | Transaction_Rolledback_E | Invalid_Transaction_E | Inv_Policy_E | Codeset_Incompatible_E
  | Rebind_E | Timeout_E | Transaction_Unavailable_E | Transaction_Mode_E | Bad_Qos_E
  | ForwardRequest_E | ForwardRequestPerm_E | NeedsAddressingMode_E | AdapterAlreadyExists_E
  | AdapterNonExistent_E | InvalidPolicy_E | NoServant_E | ObjectAlreadyActive_E
  | ObjectNotActive_E | ServantAlreadyActive_E | ServantNotActive_E | WrongAdapter_E
  | WrongPolicy_E | AdapterInactive_E | Invalid_Object_Id_E | NotAGroupObject_E

type_synonym Error_Container = Error_Id

definition Found :: "Error_Container \<Rightarrow> bool" where
  "Found Error \<longleftrightarrow> Error \<noteq> No_Error"

text \<open>A new error replaces the one that the container held.\<close>

definition Throw :: "Error_Container \<Rightarrow> Error_Id \<Rightarrow> Error_Container" where
  "Throw Error Kind = Kind"

definition Catch :: "Error_Container \<Rightarrow> Error_Container" where
  "Catch Error = No_Error"

definition Is_Error :: "Error_Container \<Rightarrow> bool" where
  "Is_Error Error \<longleftrightarrow> Error \<noteq> No_Error"

lemma Found_No_Error [simp]: "\<not> Found No_Error"
  by (simp add: Found_def)

lemma Found_Throw [simp]: "Found (Throw Error Kind) \<longleftrightarrow> Kind \<noteq> No_Error"
  by (simp add: Found_def Throw_def)

end
