(* ===== verification/Poa_Types.thy ===== *)
theory Poa_Types
  imports Ada_Utils Errors
begin

text \<open>
  PolyORB.POA_Types (\<open>src/src/polyorb-poa_types.ads\<close>, \<open>src/src/polyorb-poa_types.adb\<close>): the
  conversion between the object identifiers a POA works with (\<open>Unmarshalled_Oid\<close>) and the octet
  arrays that travel in object keys (\<open>Object_Id\<close>).

  An index of an \<open>Object_Id\<close> is its distance from \<open>Oid'First\<close>. A time stamp is
  the 64-bit representation of a Duration, and \<open>host_big_endian\<close> says how the unchecked
  conversion lays it out as two unsigned longs.
\<close>

section \<open>Data\<close>

type_synonym Object_Id = "byte list"
type_synonym Unsigned_Long = "32 word"
type_synonym Time_Stamp = "64 word"

definition POA_Path_Separator :: char where
  "POA_Path_Separator = CHR ''/''"

record Unmarshalled_Oid =
  Id :: string
  Creator :: string
  System_Generated :: bool
  Persistency_Flag :: Time_Stamp

text \<open>The equality of the package does not look at the creator.\<close>

definition oid_eq :: "Unmarshalled_Oid \<Rightarrow> Unmarshalled_Oid \<Rightarrow> bool" where
  "oid_eq X Y \<longleftrightarrow>
     Id X = Id Y \<and> System_Generated X = System_Generated Y
     \<and> Persistency_Flag X = Persistency_Flag Y"

definition Create_Id :: "string \<Rightarrow> bool \<Rightarrow> Time_Stamp \<Rightarrow> string \<Rightarrow> Unmarshalled_Oid" where
  "Create_Id Name SysGen Flag Crea =
     \<lparr>Id = Name, Creator = Crea, System_Generated = SysGen, Persistency_Flag = Flag\<rparr>"

section \<open>Octets of the representation\<close>

abbreviation octet :: "char \<Rightarrow> byte" where
  "octet c \<equiv> word_of_nat (of_char c)"

abbreviation octet_char :: "byte \<Rightarrow> char" where
  "octet_char b \<equiv> char_of (unat b)"

definition Hex_Val_SE :: "byte \<Rightarrow> Unsigned_Long" where
  "Hex_Val_SE b = (let v = Hex_Val (octet_char b) in if v = -1 then 0 else word_of_int v)"

definition Hex_SE :: "Unsigned_Long \<Rightarrow> byte" where
  "Hex_SE u = octet (Hex (unat u))"

fun Put_ULong_loop :: "nat \<Rightarrow> Unsigned_Long \<Rightarrow> Object_Id \<Rightarrow> Object_Id" where
  "Put_ULong_loop 0 U R = R"
| "Put_ULong_loop (Suc J) U R = Put_ULong_loop J (U div 16) (Hex_SE (U mod 16) # R)"

text \<open>The loop fills \<open>R (7)\<close> down to \<open>R (0)\<close>.\<close>

definition Put_ULong :: "Unsigned_Long \<Rightarrow> Object_Id" where
  "Put_ULong ULo = Put_ULong_loop 8 ULo []"

definition Get_ULong ::
  "Object_Id \<Rightarrow> nat \<Rightarrow> Error_Container \<Rightarrow> Unsigned_Long \<times> nat \<times> Error_Container" where
  "Get_ULong SEA SEI Error =
     (if SEI + 7 \<ge> length SEA then (0, SEI, Throw Error Invalid_Object_Id_E)
      else (foldl (\<lambda>R b. R * 16 + Hex_Val_SE b) 0 (take 8 (drop SEI SEA)), SEI + 8, Error))"

definition Put_Boolean :: "bool \<Rightarrow> Object_Id" where
  "Put_Boolean Boo = [octet (if Boo then CHR ''T'' else CHR ''F'')]"

text \<open>Reading \<open>SEA (SEI)\<close> past the end of the array raises Constraint_Error.\<close>

definition Get_Boolean ::
  "Object_Id \<Rightarrow> nat \<Rightarrow> Error_Container \<Rightarrow> (bool \<times> nat \<times> Error_Container) result" where
  "Get_Boolean SEA SEI Error =
     (if SEI \<ge> length SEA then Inl Constraint_Error
      else if SEA ! SEI = octet (CHR ''F'') then Inr (False, SEI + 1, Error)
      else if SEA ! SEI = octet (CHR ''T'') then Inr (True, SEI + 1, Error)
      else Inr (False, SEI + 1, Throw Error Invalid_Object_Id_E))"

definition Put_String :: "string \<Rightarrow> bool \<Rightarrow> Object_Id" where
  "Put_String Str With_Length =
     (if Str = [] then (if With_Length then Put_ULong 0 else [])
      else if With_Length then Put_ULong (word_of_nat (length Str)) @ map octet Str
      else map octet Str)"

text \<open>
  \<open>Str\<close> is an out parameter of a by-reference type: with a length of zero it keeps the value it
  has on entry, which is why the model takes that value as an argument.
\<close>

definition Get_String_With_Length ::
  "Object_Id \<Rightarrow> nat \<Rightarrow> string \<Rightarrow> Error_Container \<Rightarrow> string \<times> nat \<times> Error_Container" where
  "Get_String_With_Length SEA SEI Str Error =
     (let (Len, SEI, Error) = Get_ULong SEA SEI Error in
      if SEI + unat Len > length SEA \<or> Found Error
      then ([], SEI, Throw Error Invalid_Object_Id_E)
      else (if Len > 0 then map octet_char (take (unat Len) (drop SEI SEA)) else Str,
            SEI + unat Len, Error))"

section \<open>Time stamps\<close>

definition To_ULongs :: "bool \<Rightarrow> Time_Stamp \<Rightarrow> Unsigned_Long list" where
  "To_ULongs host_big_endian TS =
     (let lo = ucast TS; hi = ucast (drop_bit 32 TS)
      in if host_big_endian then [hi, lo] else [lo, hi])"

fun From_ULongs :: "bool \<Rightarrow> Unsigned_Long list \<Rightarrow> Time_Stamp" where
  "From_ULongs host_big_endian [a, b] =
     (let (hi, lo) = (if host_big_endian then (a, b) else (b, a))
      in push_bit 32 (ucast hi) + ucast lo)"
| "From_ULongs _ _ = 0"

definition Put_Time_Stamp :: "bool \<Rightarrow> Time_Stamp \<Rightarrow> Object_Id" where
  "Put_Time_Stamp host_big_endian TS = concat (map Put_ULong (To_ULongs host_big_endian TS))"

text \<open>The loop over the unsigned longs stops at the first error, with \<open>TS\<close> not assigned.\<close>

definition Get_Time_Stamp ::
  "bool \<Rightarrow> Object_Id \<Rightarrow> nat \<Rightarrow> Time_Stamp \<Rightarrow> Error_Container \<Rightarrow> Time_Stamp \<times> nat \<times> Error_Container" where
  "Get_Time_Stamp host_big_endian SEA SEI TS Error =
     (let (u1, SEI1, Error1) = Get_ULong SEA SEI Error in
      if Found Error1 then (TS, SEI1, Error1)
      else
        let (u2, SEI2, Error2) = Get_ULong SEA SEI1 Error1 in
        if Found Error2 then (TS, SEI2, Error2)
        else (From_ULongs host_big_endian [u1, u2], SEI2, Error2))"

section \<open>Whole object identifiers\<close>

text \<open>The overlay of an empty array at \<open>Oid (Oid'First)\<close> fails its index check.\<close>

definition Get_Creator :: "Object_Id \<Rightarrow> string result" where
  "Get_Creator Oid =
     (if Oid = [] then Inl Constraint_Error
      else
        let Oid_Str = map octet_char Oid; Last = string_last 1 Oid_Str;
            Sep = Find_Skip 1 Oid_Str Last POA_Path_Separator False Backward;
            Sep = (if Sep < 1 then Last + 1 else Sep)
        in if Sep = 1 then Inr [] else Inr (take (nat (Sep - 1)) Oid_Str))"

definition Oid_To_U_Oid ::
  "bool \<Rightarrow> Object_Id \<Rightarrow> Unmarshalled_Oid \<Rightarrow> Error_Container
     \<Rightarrow> (Unmarshalled_Oid \<times> Error_Container) result" where
  "Oid_To_U_Oid host_big_endian Oid U_Oid Error =
     on_ok (Get_Creator Oid) (\<lambda>Crea.
       let U = U_Oid\<lparr>System_Generated := False, Persistency_Flag := 0, Creator := Crea\<rparr>;
           Index = length Crea + 1
       in if Index < length Oid then
            let (Str, Index, Error) = Get_String_With_Length Oid Index (Id U) Error;
                U = U\<lparr>Id := Str\<rparr>
            in if Found Error then Inr (U, Error)
               else on_ok (Get_Boolean Oid Index Error) (\<lambda>(Boo, Index, Error).
                 let U = U\<lparr>System_Generated := Boo\<rparr> in
                 if Found Error then Inr (U, Error)
                 else
                   let (TS, Index, Error) =
                         Get_Time_Stamp host_big_endian Oid Index (Persistency_Flag U) Error;
                       U = U\<lparr>Persistency_Flag := TS\<rparr>
                   in if Found Error then Inr (U, Error)
                      else on_ok (check Assert_Failure (Index \<ge> length Oid)) (\<lambda>_. Inr (U, Error)))
          else on_ok (check Assert_Failure (Index \<ge> length Oid)) (\<lambda>_. Inr (U, Error)))"

definition U_Oid_To_Oid :: "bool \<Rightarrow> Unmarshalled_Oid \<Rightarrow> Object_Id" where
  "U_Oid_To_Oid host_big_endian U_Oid =
     Put_String (Creator U_Oid) False
     @ [octet POA_Path_Separator]
     @ Put_String (Id U_Oid) True
     @ Put_Boolean (System_Generated U_Oid)
     @ Put_Time_Stamp host_big_endian (Persistency_Flag U_Oid)"

text \<open>The quotients that the loop of \<open>Put_ULong\<close> goes through.\<close>

primrec quotients :: "nat \<Rightarrow> Unsigned_Long \<Rightarrow> Unsigned_Long" where
  "quotients 0 U = U"
| "quotients (Suc n) U = quotients n (U div 16)"

section \<open>Correctness\<close>

lemma octet_char_octet [simp]: "octet_char (octet c) = c"
  by (simp add: unsigned_of_nat take_bit_nat_eq_self)

lemma octet_octet_char [simp]: "octet (octet_char b) = b"
  by (simp add: unsigned_of_nat take_bit_nat_eq_self)

lemma octet_inject [simp]: "octet c = octet d \<longleftrightarrow> c = d"
  by (metis octet_char_octet)

lemma octet_char_comp_octet [simp]: "octet_char \<circ> octet = id"
  by (rule ext) simp

lemma Hex_Val_SE_Hex_SE [simp]: "unat d < 16 \<Longrightarrow> Hex_Val_SE (Hex_SE d) = d"
  by (simp add: Hex_Val_SE_def Hex_SE_def Let_def)

lemma unat_mod_16 [simp]: "unat (U mod 16 :: Unsigned_Long) < 16"
  by (simp add: unat_mod)

lemma unat_quotients: "unat (quotients n U) = unat U div 16 ^ n"
  by (induction n arbitrary: U) (simp_all add: unat_div div_mult2_eq)

lemma foldl_Put_ULong_loop:
  "foldl (\<lambda>R b. R * 16 + Hex_Val_SE b) (quotients n U) (Put_ULong_loop n U R)
     = foldl (\<lambda>R b. R * 16 + Hex_Val_SE b) U R"
  by (induction n arbitrary: U R) (simp_all add: div_mult_mod_eq)

lemma quotients_8: "quotients 8 U = 0"
proof -
  have "unat U < 16 ^ 8" using unsigned_less [of U] by simp
  then have "unat (quotients 8 U) = 0" by (simp add: unat_quotients)
  then show ?thesis by (simp only: unat_eq_0)
qed

lemma length_Put_ULong_loop [simp]: "length (Put_ULong_loop n U R) = n + length R"
  by (induction n arbitrary: U R) auto

lemma length_Put_ULong [simp]: "length (Put_ULong U) = 8"
  by (simp add: Put_ULong_def)

lemma foldl_Put_ULong: "foldl (\<lambda>R b. R * 16 + Hex_Val_SE b) 0 (Put_ULong U) = U"
  using foldl_Put_ULong_loop [of 8 U "[]"] by (simp add: Put_ULong_def quotients_8)

lemma Get_ULong_Put_ULong:
  "length xs = SEI \<Longrightarrow> Get_ULong (xs @ Put_ULong U @ ys) SEI Error = (U, SEI + 8, Error)"
  by (simp add: Get_ULong_def foldl_Put_ULong)

lemma Hex_Val_separator: "Hex_Val POA_Path_Separator = -1"
  by (simp add: Hex_Val_def POA_Path_Separator_def)

lemma Hex_not_separator: "n < 16 \<Longrightarrow> Hex n \<noteq> POA_Path_Separator"
proof
  assume n: "n < 16" and eq: "Hex n = POA_Path_Separator"
  show False using Hex_Val_Hex [OF n] unfolding eq Hex_Val_separator by simp
qed

lemma separator_not_Hex: "unat d < 16 \<Longrightarrow> Hex_SE d \<noteq> octet POA_Path_Separator"
  unfolding Hex_SE_def octet_inject by (rule Hex_not_separator)

lemma separator_neq_Hex_mod [simp]: "octet POA_Path_Separator \<noteq> Hex_SE (U mod 16)"
  using separator_not_Hex [OF unat_mod_16] by metis

lemma separator_not_in_loop:
  "octet POA_Path_Separator \<in> set (Put_ULong_loop n U R) \<Longrightarrow> octet POA_Path_Separator \<in> set R"
  by (induction n arbitrary: U R) (simp, fastforce)

lemma separator_not_in_ULong: "octet POA_Path_Separator \<notin> set (Put_ULong U)"
  using separator_not_in_loop [of 8 U "[]"] by (auto simp: Put_ULong_def)


lemma ucast_ucast_32: "(ucast (ucast w :: Unsigned_Long) :: Time_Stamp) = take_bit 32 w"
  by (rule bit_word_eqI) (auto simp: bit_simps)

lemma push_high_half: "push_bit 32 (take_bit 32 (drop_bit 32 TS)) = push_bit 32 (drop_bit 32 (TS :: Time_Stamp))"
  by (rule bit_word_eqI) (auto simp: bit_simps)

lemma From_To_ULongs: "From_ULongs be (To_ULongs be TS) = TS"
  by (simp add: To_ULongs_def Let_def ucast_ucast_32 push_high_half bits_ident)

lemma Get_Time_Stamp_Put:
  "length xs = SEI \<Longrightarrow>
   Get_Time_Stamp be (xs @ Put_Time_Stamp be TS) SEI TS0 No_Error = (TS, SEI + 16, No_Error)"
proof -
  assume len: "length xs = SEI"
  obtain a b where ab: "To_ULongs be TS = [a, b]" by (cases be) (auto simp: To_ULongs_def Let_def)
  have "Get_ULong (xs @ Put_ULong a @ Put_ULong b) SEI No_Error = (a, SEI + 8, No_Error)"
    using len by (rule Get_ULong_Put_ULong)
  moreover have "Get_ULong ((xs @ Put_ULong a) @ Put_ULong b @ []) (SEI + 8) No_Error = (b, SEI + 8 + 8, No_Error)"
    using len by (intro Get_ULong_Put_ULong) simp
  ultimately show ?thesis
    using From_To_ULongs [of be TS] by (simp add: Get_Time_Stamp_def Put_Time_Stamp_def ab Found_def)
qed

lemma Get_String_Put_String:
  assumes "length xs = SEI" "length S < 2 ^ 32"
  shows "Get_String_With_Length (xs @ Put_String S True @ ys) SEI S0 No_Error
    = (if S = [] then S0 else S, SEI + 8 + length S, No_Error)"
proof -
  have put: "Put_String S True = Put_ULong (word_of_nat (length S)) @ map octet S"
    by (simp add: Put_String_def)
  have "Get_ULong (xs @ Put_ULong (word_of_nat (length S)) @ map octet S @ ys) SEI No_Error
    = (word_of_nat (length S), SEI + 8, No_Error)"
    using assms(1) by (rule Get_ULong_Put_ULong)
  moreover have len: "unat (word_of_nat (length S) :: Unsigned_Long) = length S"
    using assms(2) by (simp add: unsigned_of_nat take_bit_nat_eq_self)
  moreover have "(word_of_nat (length S) :: Unsigned_Long) > 0 \<longleftrightarrow> S \<noteq> []"
    using len by (simp add: word_greater_zero_iff unat_gt_0 [symmetric])
  ultimately show ?thesis
    using assms(1) by (auto simp: Get_String_With_Length_def put Found_def)
qed

lemma Get_Boolean_Put:
  "length xs = SEI \<Longrightarrow> Get_Boolean (xs @ Put_Boolean b @ ys) SEI Error = Inr (b, SEI + 1, Error)"
  by (auto simp: Get_Boolean_def Put_Boolean_def nth_append simp del: of_char_byte_less)

lemma Get_Creator_split:
  assumes "octet POA_Path_Separator \<notin> set rest"
  shows "Get_Creator (map octet crea @ octet POA_Path_Separator # rest) = Inr crea"
proof -
  let ?Oid = "map octet crea @ octet POA_Path_Separator # rest"
  let ?S = "crea @ POA_Path_Separator # map octet_char rest"
  let ?r = "Find_Skip 1 ?S (string_last 1 ?S) POA_Path_Separator False Backward"
  have S: "map octet_char ?Oid = ?S" by simp
  have last: "string_last 1 ?S = int (length crea) + int (length rest) + 1"
    by (simp add: string_last_def)
  have r: "0 \<le> ?r" "?r \<le> string_last 1 ?S"
    "\<forall>i. ?r < i \<and> i \<le> string_last 1 ?S \<longrightarrow> char_at 1 ?S i \<noteq> POA_Path_Separator"
    "in_range 1 ?S ?r \<Longrightarrow> char_at 1 ?S ?r = POA_Path_Separator"
    using Find_Skip_Backward [of 1 "string_last 1 ?S" ?S POA_Path_Separator False] last by auto
  have sep: "char_at 1 ?S (int (length crea) + 1) = POA_Path_Separator"
    by (simp add: char_at_def nth_append)
  have ge: "int (length crea) + 1 \<le> ?r"
    using r(3) [rule_format, of "int (length crea) + 1"] sep last by force
  have "?r \<le> int (length crea) + 1"
  proof (rule ccontr)
    assume gt: "\<not> ?thesis"
    then have "char_at 1 ?S ?r = POA_Path_Separator" using r by (simp add: in_range_def)
    moreover define k where "k = nat (?r - (int (length crea) + 2))"
    have k: "?r = int (length crea) + 2 + int k" using gt by (simp add: k_def)
    moreover have "k < length rest" using k r(2) last by simp
    ultimately have "octet_char (rest ! k) = POA_Path_Separator"
      by (simp add: char_at_def nth_append nat_add_distrib)
    then have "rest ! k = octet POA_Path_Separator" by (metis octet_octet_char)
    then show False using assms \<open>k < length rest\<close> by (metis nth_mem)
  qed
  with ge have "?r = int (length crea) + 1" by simp
  then show ?thesis unfolding Get_Creator_def S Let_def by (auto simp: nat_add_distrib)
qed

lemma separator_not_in_tail:
  assumes "POA_Path_Separator \<notin> set S"
  shows "octet POA_Path_Separator \<notin> set (Put_String S True @ Put_Boolean b @ Put_Time_Stamp be TS)"
proof -
  have "octet POA_Path_Separator \<notin> set (map octet S)" using assms by auto
  moreover have "octet POA_Path_Separator \<notin> set (Put_Boolean b)"
    by (simp add: Put_Boolean_def POA_Path_Separator_def)
  ultimately show ?thesis
    using separator_not_in_ULong by (simp add: Put_String_def Put_Time_Stamp_def)
qed

text \<open>What unmarshalling makes of any array that \<open>U_Oid_To_Oid\<close> writes.\<close>

lemma Oid_unmarshall:
  assumes "POA_Path_Separator \<notin> set (Id U)" and "length (Id U) < 2 ^ 32"
  shows "Oid_To_U_Oid be (U_Oid_To_Oid be U) U0 No_Error
    = Inr (U\<lparr>Id := if Id U = [] then Id U0 else Id U\<rparr>, No_Error)"
proof -
  let ?c = "map octet (Creator U) @ [octet POA_Path_Separator]"
  let ?s = "Put_String (Id U) True"
  let ?b = "Put_Boolean (System_Generated U)"
  let ?t = "Put_Time_Stamp be (Persistency_Flag U)"
  have oid: "U_Oid_To_Oid be U = ?c @ ?s @ ?b @ ?t"
    by (simp add: U_Oid_To_Oid_def Put_String_def)
  have crea: "Get_Creator (?c @ ?s @ ?b @ ?t) = Inr (Creator U)"
    using Get_Creator_split [OF separator_not_in_tail [OF assms(1)]] by simp
  have len_s: "length ?s = 8 + length (Id U)" by (simp add: Put_String_def)
  have str: "Get_String_With_Length (?c @ ?s @ ?b @ ?t) (length (Creator U) + 1) (Id U0) No_Error
      = (if Id U = [] then Id U0 else Id U, length (Creator U) + 1 + 8 + length (Id U), No_Error)"
    by (rule Get_String_Put_String) (use assms in auto)
  have boo: "Get_Boolean ((?c @ ?s) @ ?b @ ?t) (length (Creator U) + 1 + 8 + length (Id U)) No_Error
      = Inr (System_Generated U, length (Creator U) + 1 + 8 + length (Id U) + 1, No_Error)"
    by (rule Get_Boolean_Put) (simp add: len_s)
  have ts: "Get_Time_Stamp be ((?c @ ?s @ ?b) @ ?t) (length (Creator U) + 1 + 8 + length (Id U) + 1) 0 No_Error
      = (Persistency_Flag U, length (Creator U) + 1 + 8 + length (Id U) + 1 + 16, No_Error)"
    by (rule Get_Time_Stamp_Put) (simp add: len_s Put_Boolean_def)
  have len_t: "length ?t = 16" by (cases be) (simp_all add: Put_Time_Stamp_def To_ULongs_def Let_def)
  show ?thesis
    using crea str boo ts
    by (simp add: Oid_To_U_Oid_def oid Found_def len_s len_t Put_Boolean_def)
qed

lemma Oid_roundtrip_core:
  assumes "POA_Path_Separator \<notin> set (Id U)" and "length (Id U) < 2 ^ 32"
    and "Id U \<noteq> [] \<or> Id U0 = []"
  shows "Oid_To_U_Oid be (U_Oid_To_Oid be U) U0 No_Error = Inr (U, No_Error)"
  using Oid_unmarshall [OF assms(1,2)] assms(3) by auto



text \<open>Distinct identifiers have distinct octet arrays.\<close>

lemma U_Oid_To_Oid_inject:
  assumes "U_Oid_To_Oid be U = U_Oid_To_Oid be V"
    and "POA_Path_Separator \<notin> set (Id U)" "length (Id U) < 2 ^ 32"
    and "POA_Path_Separator \<notin> set (Id V)" "length (Id V) < 2 ^ 32"
  shows "U = V"
proof -
  let ?U0 = "Create_Id [] False 0 []"
  have U: "Oid_To_U_Oid be (U_Oid_To_Oid be U) ?U0 No_Error = Inr (U, No_Error)"
    using assms by (intro Oid_roundtrip_core) (simp_all add: Create_Id_def)
  have V: "Oid_To_U_Oid be (U_Oid_To_Oid be V) ?U0 No_Error = Inr (V, No_Error)"
    using assms by (intro Oid_roundtrip_core) (simp_all add: Create_Id_def)
  have "(Inr (U, No_Error) :: (Unmarshalled_Oid \<times> Error_Container) result) = Inr (V, No_Error)"
    using U V assms(1) by metis
  then show ?thesis by (simp only: sum.inject prod.inject)
qed

text \<open>
  An object identifier that is cut off after the name makes the unmarshalling raise
  Constraint_Error, the index check of \<open>Get_Boolean\<close>, where every other malformed identifier
  is reported as Invalid_Object_Id_E in the error container.
\<close>

theorem Oid_truncated_raises:
  assumes "POA_Path_Separator \<notin> set S" and "length S < 2 ^ 32"
  shows "Oid_To_U_Oid be (map octet Crea @ [octet POA_Path_Separator] @ Put_String S True) U0 No_Error
           = Inl Constraint_Error"
proof -
  let ?c = "map octet Crea @ [octet POA_Path_Separator]"
  let ?s = "Put_String S True"
  have "octet POA_Path_Separator \<notin> set ?s"
    using separator_not_in_tail [OF assms(1)] by simp
  then have crea: "Get_Creator (?c @ ?s) = Inr Crea"
    using Get_Creator_split [of ?s Crea] by simp
  have str: "Get_String_With_Length (?c @ ?s @ []) (length Crea + 1) (Id U0) No_Error
      = (if S = [] then Id U0 else S, length Crea + 1 + 8 + length S, No_Error)"
    by (rule Get_String_Put_String) (use assms in auto)
  have len: "length ?s = 8 + length S" by (simp add: Put_String_def)
  show ?thesis
    using crea str by (simp add: Oid_To_U_Oid_def Found_def Get_Boolean_def len)
qed

theorem Oid_truncated_raises_witness:
  "Oid_To_U_Oid False (map octet ''a'' @ [octet POA_Path_Separator] @ Put_String ''12'' True)
     (Create_Id [] False 0 []) No_Error = Inl Constraint_Error"
  by (rule Oid_truncated_raises) (simp_all add: POA_Path_Separator_def)

text \<open>
  Unmarshalling an identifier whose name is empty leaves in the result the name that
  the variable held before, whatever the octet array says.
\<close>

theorem Oid_empty_name_keeps_old:
  "Oid_To_U_Oid be (U_Oid_To_Oid be (U\<lparr>Id := []\<rparr>)) U0 No_Error = Inr (U\<lparr>Id := Id U0\<rparr>, No_Error)"
  using Oid_unmarshall [of "U\<lparr>Id := []\<rparr>" be U0] by simp

end
