(* ===== verification/Dynamic_Tables.thy ===== *)
theory Dynamic_Tables
  imports Prelude
begin

text \<open>
  PolyORB.Utils.Dynamic_Tables (\<open>src/src/polyorb-utils-dynamic_tables.adb\<close>): tables that grow.

  The generic parameters are the record \<open>table_params\<close>; \<open>dflt\<close> is the value of a component that has not
  been assigned, null for the access types the tables are instantiated with. The component at
  index \<open>i\<close> is element \<open>i - Table_Low_Bound\<close> of the list. Index checks and overflows of Integer raise
  Constraint_Error.
\<close>

section \<open>Model\<close>

record table_params =
  Table_Low_Bound :: int
  Table_Initial :: int
  Table_Increment :: int

record 'a Instance =
  Table :: "'a list option"
  Is_Initialized :: bool
  Max :: int
  Length :: int
  Last_Val :: int

text \<open>An object of the type before any operation on it.\<close>

definition Null_Instance :: "table_params \<Rightarrow> 'a Instance" where
  "Null_Instance G =
     \<lparr>Table = None, Is_Initialized = False, Max = 0, Length = 0, Last_Val = Table_Low_Bound G - 1\<rparr>"

definition table_length :: "table_params \<Rightarrow> 'a Instance \<Rightarrow> nat" where
  "table_length G T = nat (Max T - Table_Low_Bound G + 1)"

text \<open>The loop of \<open>Reallocate\<close> that finds the new length.\<close>

function grow :: "table_params \<Rightarrow> int \<Rightarrow> int \<Rightarrow> int \<Rightarrow> (int \<times> int) result" where
  "grow G lv mx ln =
     (if mx < lv then
        if Integer_Last < ln * (100 + Table_Increment G) \<or> Integer_Last < ln + 10 then Inl Constraint_Error
        else
          let ln' = (if ln + 10 \<le> ln * (100 + Table_Increment G) div 100
                     then ln * (100 + Table_Increment G) div 100 else ln + 10)
          in if Integer_Last < Table_Low_Bound G + ln' then Inl Constraint_Error
             else grow G lv (Table_Low_Bound G + ln' - 1) ln'
      else Inr (mx, ln))"
  by pat_completeness auto

termination grow
  by (relation "measure (\<lambda>(G, lv, mx, ln). if mx < lv then 1 + nat (lv - Table_Low_Bound G - ln + 1) else 0)")
    auto

declare grow.simps [simp del]

definition new_table :: "'a \<Rightarrow> table_params \<Rightarrow> int \<Rightarrow> 'a list" where
  "new_table dflt G mx = replicate (nat (mx - Table_Low_Bound G + 1)) dflt"

text \<open>
  The slice of the new table that takes the old contents has the bounds of the old table: a new
  table that is smaller fails the index check.
\<close>

definition Reallocate :: "'a \<Rightarrow> table_params \<Rightarrow> 'a Instance \<Rightarrow> 'a Instance result" where
  "Reallocate dflt G T =
     on_ok (grow G (Last_Val T) (Max T) (Length T)) (\<lambda>(mx, ln).
       let T = T\<lparr>Max := mx, Length := ln\<rparr> in
       case Table T of
         None \<Rightarrow> Inr (T\<lparr>Table := Some (new_table dflt G mx)\<rparr>)
       | Some Old_Table \<Rightarrow>
           if Table_Low_Bound G \<le> mx then
             let New = new_table dflt G mx in
             if length Old_Table \<le> length New
             then Inr (T\<lparr>Table := Some (Old_Table @ drop (length Old_Table) New)\<rparr>)
             else Inl Constraint_Error
           else Inr T)"

definition Allocate :: "'a \<Rightarrow> table_params \<Rightarrow> 'a Instance \<Rightarrow> int \<Rightarrow> 'a Instance result" where
  "Allocate dflt G T Num =
     on_ok (to_Integer (Last_Val T + Num)) (\<lambda>l.
       let T = T\<lparr>Last_Val := l\<rparr> in
       if Max T < Last_Val T then Reallocate dflt G T else Inr T)"

definition Deallocate :: "'a Instance \<Rightarrow> 'a Instance" where
  "Deallocate T = T\<lparr>Table := None, Length := 0\<rparr>"

definition Decrement_Last :: "'a Instance \<Rightarrow> 'a Instance result" where
  "Decrement_Last T = on_ok (to_Integer (Last_Val T - 1)) (\<lambda>l. Inr (T\<lparr>Last_Val := l\<rparr>))"

definition First :: "table_params \<Rightarrow> 'a Instance \<Rightarrow> int" where
  "First G T = Table_Low_Bound G"

definition Increment_Last :: "'a \<Rightarrow> table_params \<Rightarrow> 'a Instance \<Rightarrow> 'a Instance result" where
  "Increment_Last dflt G T =
     on_ok (to_Integer (Last_Val T + 1)) (\<lambda>l.
       let T = T\<lparr>Last_Val := l\<rparr> in
       if Max T < Last_Val T then Reallocate dflt G T else Inr T)"

definition Initialize :: "'a \<Rightarrow> table_params \<Rightarrow> 'a Instance \<Rightarrow> 'a Instance result" where
  "Initialize dflt G T =
     (let Old_Length = Length T;
          T = T\<lparr>Last_Val := Table_Low_Bound G - 1, Max := Table_Low_Bound G + Table_Initial G - 1,
               Length := Table_Initial G\<rparr>
      in if Old_Length = Length T then Inr T
         else on_ok (Reallocate dflt G T) (\<lambda>T. Inr (T\<lparr>Is_Initialized := True\<rparr>)))"

definition Initialized :: "'a Instance \<Rightarrow> bool" where
  "Initialized T = Is_Initialized T"

definition Last :: "'a Instance \<Rightarrow> int" where
  "Last T = Last_Val T"

definition Set_Last :: "'a \<Rightarrow> table_params \<Rightarrow> 'a Instance \<Rightarrow> int \<Rightarrow> 'a Instance result" where
  "Set_Last dflt G T New_Val =
     (let T = T\<lparr>Last_Val := New_Val\<rparr> in
      if Max T < Last_Val T then Reallocate dflt G T else Inr T)"

text \<open>The assignment of all components at once checks that the two tables have the same length.\<close>

definition Duplicate :: "'a \<Rightarrow> table_params \<Rightarrow> 'a Instance \<Rightarrow> 'a Instance result" where
  "Duplicate dflt G T =
     on_ok (Initialize dflt G (Null_Instance G)) (\<lambda>Result.
     on_ok (Set_Last dflt G Result (Last T)) (\<lambda>Result.
       case (Table Result, Table T) of
         (Some r, Some t) \<Rightarrow>
           if length r = length t then Inr (Result\<lparr>Table := Some t\<rparr>) else Inl Constraint_Error
       | _ \<Rightarrow> Inl Constraint_Error))"

definition Release :: "'a \<Rightarrow> table_params \<Rightarrow> 'a Instance \<Rightarrow> 'a Instance result" where
  "Release dflt G T =
     Reallocate dflt G (T\<lparr>Length := Last_Val T - Table_Low_Bound G + 1, Max := Last_Val T\<rparr>)"

text \<open>The indexed component, read and assigned by clients of the package.\<close>

definition table_get :: "table_params \<Rightarrow> 'a Instance \<Rightarrow> int \<Rightarrow> 'a result" where
  "table_get G T i =
     (case Table T of
        None \<Rightarrow> Inl Constraint_Error
      | Some t \<Rightarrow>
          if Table_Low_Bound G \<le> i \<and> i < Table_Low_Bound G + int (length t)
          then Inr (t ! nat (i - Table_Low_Bound G)) else Inl Constraint_Error)"

definition table_put :: "table_params \<Rightarrow> 'a Instance \<Rightarrow> int \<Rightarrow> 'a \<Rightarrow> 'a Instance result" where
  "table_put G T i x =
     (case Table T of
        None \<Rightarrow> Inl Constraint_Error
      | Some t \<Rightarrow>
          if Table_Low_Bound G \<le> i \<and> i < Table_Low_Bound G + int (length t)
          then Inr (T\<lparr>Table := Some (t[nat (i - Table_Low_Bound G) := x])\<rparr>) else Inl Constraint_Error)"

section \<open>Invariant\<close>

text \<open>
  The parameters the package is meant for, and what holds of a table between operations: the list has
  the length that \<open>Length\<close> and \<open>Max\<close> say, and the last index is in it or before its first.
\<close>

definition good_params :: "table_params \<Rightarrow> bool" where
  "good_params G \<longleftrightarrow> 0 \<le> Table_Low_Bound G \<and> 0 < Table_Initial G \<and> 0 \<le> Table_Increment G \<and>
     Table_Low_Bound G + Table_Initial G \<le> Integer_Last"

definition table_inv :: "table_params \<Rightarrow> 'a Instance \<Rightarrow> bool" where
  "table_inv G T \<longleftrightarrow>
     (\<exists>t. Table T = Some t \<and> int (length t) = Length T) \<and>
     Max T = Table_Low_Bound G + Length T - 1 \<and>
     Table_Low_Bound G - 1 \<le> Last_Val T \<and> Last_Val T \<le> Max T \<and> Max T \<le> Integer_Last"

lemma grow_bounds:
  assumes "grow G lv mx ln = Inr (mx', ln')" "mx = Table_Low_Bound G + ln - 1" "mx \<le> Integer_Last"
  shows "mx' = Table_Low_Bound G + ln' - 1 \<and> lv \<le> mx' \<and> mx \<le> mx' \<and> mx' \<le> Integer_Last"
  using assms
proof (induction G lv mx ln rule: grow.induct)
  case (1 G lv mx ln)
  let ?ln = "if ln + 10 \<le> ln * (100 + Table_Increment G) div 100
    then ln * (100 + Table_Increment G) div 100 else ln + 10"
  show ?case
  proof (cases "mx < lv")
    case True
    with 1(2) have ok: "\<not> (Integer_Last < ln * (100 + Table_Increment G) \<or> Integer_Last < ln + 10)"
      "\<not> Integer_Last < Table_Low_Bound G + ?ln" "grow G lv (Table_Low_Bound G + ?ln - 1) ?ln = Inr (mx', ln')"
      by (subst (asm) grow.simps, simp add: Let_def split: if_splits)+
    have "mx' = Table_Low_Bound G + ln' - 1 \<and> lv \<le> mx' \<and> Table_Low_Bound G + ?ln - 1 \<le> mx' \<and> mx' \<le> Integer_Last"
      using ok by (intro 1(1) [OF True _ refl]) auto
    moreover have "ln + 10 \<le> ?ln" by auto
    ultimately show ?thesis using 1(3) by linarith
  qed (use 1 in \<open>simp add: grow.simps\<close>)
qed

lemma grow_done: "lv \<le> mx \<Longrightarrow> grow G lv mx ln = Inr (mx, ln)"
  by (simp add: grow.simps)

text \<open>The sizes at which one step of growth is within the range of Integer.\<close>

definition room :: "table_params \<Rightarrow> 'a Instance \<Rightarrow> bool" where
  "room G T \<longleftrightarrow> Length T * (100 + Table_Increment G) + Table_Low_Bound G + 10 \<le> Integer_Last"

lemma grow_one:
  assumes "good_params G" "0 \<le> ln" "mx = Table_Low_Bound G + ln - 1" "lv = mx + 1"
    and "ln * (100 + Table_Increment G) + Table_Low_Bound G + 10 \<le> Integer_Last"
  shows "\<exists>r. grow G lv mx ln = Inr r"
proof -
  let ?p = "ln * (100 + Table_Increment G)"
  have lo: "0 \<le> Table_Low_Bound G" "0 \<le> Table_Increment G" using assms(1) by (simp_all add: good_params_def)
  then have "ln * 1 \<le> ?p" using assms(2) by (intro mult_left_mono) auto
  moreover have "q div 100 \<le> q" if "0 \<le> q" for q :: int using that by presburger
  then have "?p div 100 \<le> ?p" using assms(2) lo by simp
  ultimately have "\<not> (Integer_Last < ?p \<or> Integer_Last < ln + 10)"
    "\<not> Integer_Last < Table_Low_Bound G + (if ln + 10 \<le> ?p div 100 then ?p div 100 else ln + 10)"
    using assms(5) lo by auto
  moreover have "lv \<le> Table_Low_Bound G + (if ln + 10 \<le> ?p div 100 then ?p div 100 else ln + 10) - 1"
    using assms(3,4) by auto
  ultimately show ?thesis
    using assms(3,4) by (subst grow.simps) (auto simp: Let_def grow_done)
qed

lemma length_new_table [simp]: "length (new_table dflt G mx) = nat (mx - Table_Low_Bound G + 1)"
  by (simp add: new_table_def)

text \<open>Growing keeps the contents of the table.\<close>

lemma Reallocate_grows:
  assumes "Reallocate dflt G T = Inr T'"
    and "Table T = Some t" "int (length t) = Length T" "Max T = Table_Low_Bound G + Length T - 1"
      "Table_Low_Bound G - 1 \<le> Last_Val T" "Max T \<le> Integer_Last"
  shows "table_inv G T' \<and> Last_Val T' = Last_Val T \<and> Length T \<le> Length T' \<and>
    (\<exists>k. Table T' = Some (t @ replicate k dflt))"
proof -
  from assms(1) obtain mx ln where g: "grow G (Last_Val T) (Max T) (Length T) = Inr (mx, ln)"
    unfolding Reallocate_def by (auto simp: on_ok_eq_Inr)
  have b: "mx = Table_Low_Bound G + ln - 1 \<and> Last_Val T \<le> mx \<and> Max T \<le> mx \<and> mx \<le> Integer_Last"
    using grow_bounds [OF g assms(4,6)] .
  show ?thesis
  proof (cases "Table_Low_Bound G \<le> mx")
    case True
    then show ?thesis
      using assms b g by (auto simp: Reallocate_def Let_def table_inv_def new_table_def split: if_splits)
  next
    case False
    then have "int (length t) \<le> 0" using assms(3,4) b by linarith
    then have t: "t = []" by simp
    then have "ln = 0" using False assms(3,4) b by auto
    then show ?thesis using t False assms b g by (auto simp: Reallocate_def Let_def table_inv_def)
  qed
qed

lemma Increment_Last_step:
  assumes "table_inv G T" "Increment_Last dflt G T = Inr T'"
  shows "table_inv G T' \<and> Last T' = Last T + 1 \<and> Length T \<le> Length T' \<and>
    (\<exists>k. Table T' = Some (the (Table T) @ replicate k dflt))"
proof (cases "Max T < Last_Val T + 1")
  case True
  then have "Reallocate dflt G (T\<lparr>Last_Val := Last_Val T + 1\<rparr>) = Inr T'"
    using assms(2) by (auto simp: Increment_Last_def Let_def on_ok_eq_Inr to_Integer_def split: if_splits)
  from Reallocate_grows [OF this] assms(1) show ?thesis by (auto simp: table_inv_def Last_def)
next
  case False
  then show ?thesis
    using assms by (auto simp: Increment_Last_def Let_def on_ok_eq_Inr to_Integer_def table_inv_def Last_def
        intro!: exI [of _ 0] split: if_splits)
qed

lemma Increment_Last_succeeds:
  assumes "table_inv G T" "good_params G" "room G T"
  shows "\<exists>T'. Increment_Last dflt G T = Inr T'"
proof -
  have "0 \<le> Length T" using assms(1) by (auto simp: table_inv_def)
  have "Length T * 1 \<le> Length T * (100 + Table_Increment G)"
    using \<open>0 \<le> Length T\<close> assms(2) by (intro mult_left_mono) (auto simp: good_params_def)
  then have int_ok: "Integer_First \<le> Last_Val T + 1 \<and> Last_Val T + 1 \<le> Integer_Last"
    using assms by (auto simp: table_inv_def room_def good_params_def Integer_First_def)
  show ?thesis
  proof (cases "Max T < Last_Val T + 1")
    case True
    then have "Last_Val T + 1 = Max T + 1" using assms(1) by (auto simp: table_inv_def)
    then obtain mx ln where g: "grow G (Last_Val T + 1) (Max T) (Length T) = Inr (mx, ln)"
      using grow_one [OF assms(2) \<open>0 \<le> Length T\<close>, of "Max T" "Last_Val T + 1"] assms(1,3)
      by (auto simp: table_inv_def room_def)
    have "Table_Low_Bound G + ln - 1 = mx" "Max T \<le> mx"
      using grow_bounds [OF g] assms(1) by (auto simp: table_inv_def)
    then show ?thesis
      using True g int_ok assms(1)
      by (auto simp: Increment_Last_def Reallocate_def to_Integer_def Let_def table_inv_def)
  qed (use int_ok in \<open>auto simp: Increment_Last_def to_Integer_def Let_def\<close>)
qed

lemma Initialize_fresh:
  assumes "good_params G"
  shows "Initialize dflt G (Null_Instance G) =
    Inr \<lparr>Table = Some (replicate (nat (Table_Initial G)) dflt), Is_Initialized = True,
         Max = Table_Low_Bound G + Table_Initial G - 1, Length = Table_Initial G,
         Last_Val = Table_Low_Bound G - 1\<rparr>"
  using assms
  by (auto simp: Initialize_def Null_Instance_def Reallocate_def grow_done new_table_def good_params_def Let_def)

section \<open>The interface of a growing table\<close>

text \<open>
  A scan of \<open>n\<close> components from index \<open>j\<close> for the first that satisfies a test: the form of the loops
  that clients run over \<open>First (T) .. Last (T)\<close>.
\<close>

fun scan :: "(int \<Rightarrow> 'a result) \<Rightarrow> ('a \<Rightarrow> bool) \<Rightarrow> int \<Rightarrow> nat \<Rightarrow> int option result" where
  "scan get p j 0 = Inr None"
| "scan get p j (Suc n) = on_ok (get j) (\<lambda>x. if p x then Inr (Some j) else scan get p (j + 1) n)"

locale growing_table =
  fixes inv :: "'t \<Rightarrow> bool"
    and lo :: int
    and hi :: "'t \<Rightarrow> int"
    and get :: "'t \<Rightarrow> int \<Rightarrow> 'a result"
    and put :: "'t \<Rightarrow> int \<Rightarrow> 'a \<Rightarrow> 't result"
    and extend :: "'t \<Rightarrow> 't result"
  assumes get_in_range: "inv t \<Longrightarrow> lo \<le> i \<Longrightarrow> i \<le> hi t \<Longrightarrow> \<exists>x. get t i = Inr x"
    and hi_lo: "inv t \<Longrightarrow> lo - 1 \<le> hi t"
    and put_get: "inv t \<Longrightarrow> get t i = Inr y \<Longrightarrow>
      \<exists>t'. put t i x = Inr t' \<and> inv t' \<and> hi t' = hi t \<and> (\<forall>j. get t' j = (if j = i then Inr x else get t j))"
    and extend_get: "inv t \<Longrightarrow> extend t = Inr t' \<Longrightarrow>
      inv t' \<and> hi t' = hi t + 1 \<and> (\<forall>j x. get t j = Inr x \<longrightarrow> get t' j = Inr x)"
begin

lemma scan_first:
  assumes "inv t" "lo \<le> j" "j + int n \<le> hi t + 1"
  shows "\<exists>r. scan (get t) p j n = Inr r \<and>
    (case r of
       None \<Rightarrow> \<forall>i x. j \<le> i \<and> i < j + int n \<and> get t i = Inr x \<longrightarrow> \<not> p x
     | Some k \<Rightarrow> j \<le> k \<and> k < j + int n \<and> (\<exists>x. get t k = Inr x \<and> p x) \<and>
         (\<forall>i x. j \<le> i \<and> i < k \<and> get t i = Inr x \<longrightarrow> \<not> p x))"
  using assms(2,3)
proof (induction n arbitrary: j)
  case (Suc n)
  obtain x where x: "get t j = Inr x" using get_in_range [OF assms(1), of j] Suc.prems by auto
  show ?case
  proof (cases "p x")
    case True
    with x show ?thesis by auto
  next
    case False
    obtain r where r: "scan (get t) p (j + 1) n = Inr r" and
      c: "case r of
          None \<Rightarrow> \<forall>i x. j + 1 \<le> i \<and> i < j + 1 + int n \<and> get t i = Inr x \<longrightarrow> \<not> p x
        | Some k \<Rightarrow> j + 1 \<le> k \<and> k < j + 1 + int n \<and> (\<exists>x. get t k = Inr x \<and> p x) \<and>
            (\<forall>i x. j + 1 \<le> i \<and> i < k \<and> get t i = Inr x \<longrightarrow> \<not> p x)"
      using Suc.IH [of "j + 1"] Suc.prems by auto
    define k where "k = (case r of None \<Rightarrow> j + 1 + int n | Some k \<Rightarrow> k)"
    have c': "\<not> p y" if "j + 1 \<le> i" "i < k" "get t i = Inr y" for i y
      using c that by (cases r) (auto simp: k_def)
    have "\<not> p y" if "j \<le> i" "i < k" "get t i = Inr y" for i y
    proof (cases "i = j")
      case True
      then show ?thesis using x False that(3) by simp
    next
      case False
      then have "j + 1 \<le> i" using that(1) by linarith
      then show ?thesis using that c' by blast
    qed
    then show ?thesis using x False r c by (cases r) (auto simp: k_def)
  qed
qed auto

lemma append_last:
  assumes "inv t" "extend t = Inr t'"
  shows "\<exists>t''. put t' (hi t') x = Inr t'' \<and> inv t'' \<and> hi t'' = hi t + 1 \<and> get t'' (hi t + 1) = Inr x \<and>
    (\<forall>j y. get t j = Inr y \<and> j \<noteq> hi t + 1 \<longrightarrow> get t'' j = Inr y)"
proof -
  have e: "inv t'" "hi t' = hi t + 1" "\<And>j x. get t j = Inr x \<Longrightarrow> get t' j = Inr x"
    using extend_get [OF assms] by auto
  obtain y where "get t' (hi t') = Inr y" using get_in_range [OF e(1), of "hi t'"] hi_lo [OF assms(1)] e(2) by auto
  from put_get [OF e(1) this, of x] e show ?thesis by auto
qed

end

interpretation dyn: growing_table "table_inv G" "Table_Low_Bound G" Last "table_get G" "table_put G" "Increment_Last dflt G"
  for G dflt
proof
  fix T :: "'a Instance" and i
  assume "table_inv G T" "Table_Low_Bound G \<le> i" "i \<le> Last T"
  then show "\<exists>x. table_get G T i = Inr x" by (auto simp: table_inv_def table_get_def Last_def)
next
  fix T :: "'a Instance"
  assume "table_inv G T"
  then show "Table_Low_Bound G - 1 \<le> Last T" by (simp add: table_inv_def Last_def)
next
  fix T :: "'a Instance" and i x y
  assume "table_inv G T" "table_get G T i = Inr y"
  then show "\<exists>T'. table_put G T i x = Inr T' \<and> table_inv G T' \<and> Last T' = Last T \<and>
      (\<forall>j. table_get G T' j = (if j = i then Inr x else table_get G T j))"
    by (auto simp: table_put_def table_get_def table_inv_def Last_def nth_list_update split: option.splits if_splits)
next
  fix T T' :: "'a Instance"
  assume "table_inv G T" "Increment_Last dflt G T = Inr T'"
  from Increment_Last_step [OF this] \<open>table_inv G T\<close>
  show "table_inv G T' \<and> Last T' = Last T + 1 \<and>
      (\<forall>j x. table_get G T j = Inr x \<longrightarrow> table_get G T' j = Inr x)"
    by (auto simp: table_get_def table_inv_def nth_append nat_less_iff split: if_splits)
qed

section \<open>Properties\<close>

text \<open>
  The invariant of a table is established by \<open>Initialize\<close> and kept by \<open>Increment_Last\<close>,
  which succeeds while the next size is within the range of Integer, adds one to the last index and
  keeps every component, whether or not the table is reallocated.
\<close>

theorem Increment_Last_correct:
  assumes "good_params G" "table_inv G T" "room G T"
  shows "\<exists>T'. Increment_Last dflt G T = Inr T' \<and> table_inv G T' \<and> Last T' = Last T + 1 \<and>
    (\<forall>j x. table_get G T j = Inr x \<longrightarrow> table_get G T' j = Inr x)"
  using Increment_Last_succeeds [OF assms(2,1,3), of dflt] dyn.extend_get [OF assms(2)] by blast

definition sample_params :: table_params where
  "sample_params = \<lparr>Table_Low_Bound = 1, Table_Initial = 2, Table_Increment = 1\<rparr>"

definition sample_table :: "nat Instance" where
  "sample_table = \<lparr>Table = Some [5, 6], Is_Initialized = True, Max = 2, Length = 2, Last_Val = 2\<rparr>"

lemma sample_table_ok: "good_params sample_params" "table_inv sample_params sample_table" "room sample_params sample_table"
  by (simp_all add: good_params_def table_inv_def room_def sample_params_def sample_table_def Integer_Last_def)

theorem Increment_Last_correct_witness:
  "\<exists>T'. Increment_Last 0 sample_params sample_table = Inr T' \<and> table_inv sample_params T' \<and> Last T' = Last sample_table + 1 \<and>
    table_get sample_params T' 1 = Inr 5"
  using Increment_Last_correct [OF sample_table_ok, of 0]
  by (auto simp: table_get_def sample_params_def sample_table_def)

text \<open>
  Releasing the unused part of a table that has one raises Constraint_Error, since the old
  contents are assigned to a slice that the smaller table does not have.
\<close>

theorem Release_raises:
  assumes "table_inv G T" "Table_Low_Bound G \<le> Last_Val T" "Last_Val T < Max T"
  shows "Release dflt G T = Inl Constraint_Error"
  using assms by (auto simp: Release_def Reallocate_def grow_done table_inv_def Let_def)

theorem Release_raises_witness:
  "Release 0 sample_params (sample_table\<lparr>Last_Val := 1\<rparr>) = Inl Constraint_Error"
  by (rule Release_raises) (simp_all add: table_inv_def sample_params_def sample_table_def Integer_Last_def)

end
