(* ===== verification/Object_Maps.thy ===== *)
theory Object_Maps
  imports Poa_Types Dynamic_Tables
begin

text \<open>
  Active object maps: PolyORB.Objects and the images of PolyORB.Types that the identifiers are made
  of (\<open>src/src/polyorb-objects.adb\<close>, \<open>src/src/polyorb-types.adb\<close>), PolyORB.Object_Maps
  (\<open>src/src/polyorb-object_maps.adb\<close>) and its implementation for identifiers that the system
  assigns, PolyORB.Object_Maps.System (\<open>src/src/polyorb-object_maps-system.adb\<close>).

  Entries are designated by access values and changed after they have been entered in a map, so
  they live in a store, a list whose index is the address. A map holds addresses, None for null.
\<close>

section \<open>Objects and images\<close>

definition Oid_To_Hex_String :: "Object_Id \<Rightarrow> string" where
  "Oid_To_Hex_String Oid = SEA_To_Hex_String Oid"

definition Hex_String_To_Oid :: "string \<Rightarrow> Object_Id result" where
  "Hex_String_To_Oid S = Hex_String_To_SEA S"

definition String_To_Oid :: "string \<Rightarrow> Object_Id" where
  "String_To_Oid S = map octet S"

definition Oid_Image :: "Object_Id \<Rightarrow> string" where
  "Oid_Image Oid =
     map (\<lambda>b. if 32 \<le> unat b \<and> unat b \<le> 127 then octet_char b else CHR ''.'') Oid"

text \<open>The decimal digits of a number, and the image attribute of the language: a blank stands for the plus sign.\<close>

fun digits :: "nat \<Rightarrow> nat list" where
  "digits k = (if k < 10 then [k] else digits (k div 10) @ [k mod 10])"

declare digits.simps [simp del]

definition Long_Long_Image :: "int \<Rightarrow> string" where
  "Long_Long_Image X = (if 0 \<le> X then CHR '' '' else CHR ''-'') # map Hex (digits (nat \<bar>X\<bar>))"

definition Trimmed_Image :: "int \<Rightarrow> string" where
  "Trimmed_Image X = (let R = Long_Long_Image X in if 0 \<le> X then tl R else R)"

section \<open>PolyORB.Object_Maps\<close>

record Object_Map_Entry =
  Oid :: "Unmarshalled_Oid option"
  Servant :: "nat option"

type_synonym entry_access = "nat option"
type_synonym entry_store = "Object_Map_Entry list"

definition Is_Null :: "entry_access \<Rightarrow> bool" where
  "Is_Null Item \<longleftrightarrow> Item = None"

text \<open>The two tests that every map inherits dispatch on the map's own lookups.\<close>

definition Is_Servant_In :: "('m \<Rightarrow> nat option \<Rightarrow> entry_access result) \<Rightarrow> 'm \<Rightarrow> nat option \<Rightarrow> bool result" where
  "Is_Servant_In get_by_servant O_Map Item =
     on_ok (get_by_servant O_Map Item) (\<lambda>e. Inr (\<not> Is_Null e))"

definition Is_Object_Id_In :: "('m \<Rightarrow> Unmarshalled_Oid \<Rightarrow> entry_access result) \<Rightarrow> 'm \<Rightarrow> Unmarshalled_Oid \<Rightarrow> bool result" where
  "Is_Object_Id_In get_by_id O_Map Item = on_ok (get_by_id O_Map Item) (\<lambda>e. Inr (\<not> Is_Null e))"

section \<open>PolyORB.Object_Maps.System\<close>

type_synonym System_Object_Map = "entry_access Instance"

definition Map_Params :: table_params where
  "Map_Params = \<lparr>Table_Low_Bound = 1, Table_Initial = 10, Table_Increment = 1\<rparr>"

abbreviation Table_At :: "System_Object_Map \<Rightarrow> int \<Rightarrow> entry_access result" where
  "Table_At \<equiv> table_get Map_Params"

abbreviation map_inv :: "System_Object_Map \<Rightarrow> bool" where
  "map_inv \<equiv> table_inv Map_Params"

definition System_Initialize :: "System_Object_Map \<Rightarrow> System_Object_Map result" where
  "System_Initialize O_Map = Initialize None Map_Params O_Map"

definition System_Finalize :: "System_Object_Map \<Rightarrow> System_Object_Map" where
  "System_Finalize O_Map = Deallocate O_Map"

text \<open>The loop over \<open>First .. Last\<close>.\<close>

definition scan_map :: "System_Object_Map \<Rightarrow> (entry_access \<Rightarrow> bool) \<Rightarrow> int option result" where
  "scan_map O_Map p =
     scan (Table_At O_Map) p (First Map_Params O_Map) (nat (Last O_Map - First Map_Params O_Map + 1))"

definition Add :: "entry_store \<Rightarrow> System_Object_Map \<Rightarrow> nat \<Rightarrow> (int \<times> System_Object_Map) result" where
  "Add st O_Map Obj =
     (if Oid (st ! Obj) \<noteq> None then Inl Program_Error
      else
        on_ok (scan_map O_Map Is_Null) (\<lambda>r.
          case r of
            Some J \<Rightarrow>
              on_ok (table_put Map_Params O_Map (1 + J - First Map_Params O_Map) (Some Obj)) (\<lambda>M. Inr (J, M))
          | None \<Rightarrow>
              on_ok (Increment_Last None Map_Params O_Map) (\<lambda>M.
              on_ok (table_put Map_Params M (Last M) (Some Obj)) (\<lambda>M'. Inr (Last M', M')))))"

definition Add_At :: "entry_store \<Rightarrow> System_Object_Map \<Rightarrow> nat \<Rightarrow> int \<Rightarrow> System_Object_Map result" where
  "Add_At st O_Map Obj Index =
     (case Oid (st ! Obj) of
        None \<Rightarrow> Inl Constraint_Error
      | Some oid \<Rightarrow>
          if \<not> System_Generated oid then Inl Program_Error
          else
            on_ok (table_get Map_Params O_Map Index) (\<lambda>old.
              if (case old of None \<Rightarrow> False | Some a \<Rightarrow> Servant (st ! a) \<noteq> None) then Inl Program_Error
              else
                on_ok (if Is_Null old then Inr O_Map else table_put Map_Params O_Map Index None) (\<lambda>M.
                  table_put Map_Params M (1 + Index - First Map_Params M) (Some Obj))))"

definition Get_By_Id :: "System_Object_Map \<Rightarrow> Unmarshalled_Oid \<Rightarrow> entry_access result" where
  "Get_By_Id O_Map Item =
     (if \<not> System_Generated Item then Inl Program_Error
      else on_ok (Integer_Value (Id Item)) (\<lambda>Index. table_get Map_Params O_Map Index))"

definition Get_By_Servant :: "entry_store \<Rightarrow> System_Object_Map \<Rightarrow> nat option \<Rightarrow> entry_access result" where
  "Get_By_Servant st O_Map Item =
     on_ok (scan_map O_Map (\<lambda>e. case e of None \<Rightarrow> False | Some a \<Rightarrow> Servant (st ! a) = Item)) (\<lambda>r.
       case r of Some J \<Rightarrow> table_get Map_Params O_Map J | None \<Rightarrow> Inr None)"

definition Remove_By_Id :: "System_Object_Map \<Rightarrow> Unmarshalled_Oid \<Rightarrow> (entry_access \<times> System_Object_Map) result" where
  "Remove_By_Id O_Map Item =
     (if \<not> System_Generated Item then Inl Program_Error
      else
        on_ok (Integer_Value (Id Item)) (\<lambda>Index.
        on_ok (table_get Map_Params O_Map Index) (\<lambda>Old_Entry.
        on_ok (table_put Map_Params O_Map Index None) (\<lambda>M. Inr (Old_Entry, M)))))"

section \<open>Reading back an image\<close>

lemma digits_less: "d \<in> set (digits n) \<Longrightarrow> d < 10"
proof (induction n rule: digits.induct)
  case (1 n)
  then show ?case by (cases "n < 10") (auto simp: digits.simps [of n])
qed

lemma digits_not_Nil [simp]: "digits n \<noteq> []"
  by (subst digits.simps) simp

lemma foldl_digits: "foldl (\<lambda>a d. a * 10 + d) 0 (digits n) = n"
proof (induction n rule: digits.induct)
  case (1 n)
  then show ?case by (cases "n < 10") (auto simp: digits.simps [of n])
qed

lemma digit_value_Hex: "d < 16 \<Longrightarrow> digit_value (Hex d) = Some d"
  by (simp add: digit_value_def)

lemma numeral_value_digits:
  "\<forall>d \<in> set ds. d < 10 \<Longrightarrow> numeral_value 10 acc (map Hex ds) = Some (foldl (\<lambda>a d. a * 10 + d) acc ds, [])"
  by (induction ds arbitrary: acc) (simp_all add: digit_value_Hex)

lemma literal_image_digits: "literal_image (map Hex (digits n)) = Some n"
proof -
  obtain d ds where ds: "digits n = d # ds" by (cases "digits n") auto
  have "\<forall>d \<in> set (digits n). d < 10" using digits_less by blast
  then have "numeral_image 10 (map Hex (digits n)) = Some (foldl (\<lambda>a d. a * 10 + d) d ds, [])"
    using ds by (simp add: numeral_image_def digit_value_Hex numeral_value_digits)
  moreover have "foldl (\<lambda>a d. a * 10 + d) d ds = n" using foldl_digits [of n] ds by simp
  ultimately show ?thesis by (simp add: literal_image_def)
qed

lemma Hex_not_blank: "d < 10 \<Longrightarrow> Hex d \<noteq> CHR '' '' \<and> Hex d \<noteq> CHR ''-'' \<and> Hex d \<noteq> CHR ''+''"
proof -
  assume "d < 10"
  moreover have "list_all (\<lambda>d. Hex d \<noteq> CHR '' '' \<and> Hex d \<noteq> CHR ''-'' \<and> Hex d \<noteq> CHR ''+'') [0..<10]"
    by code_simp
  ultimately show ?thesis by (auto simp: list_all_iff)
qed

lemma trim_digits: "trim (map Hex (digits n)) = map Hex (digits n)"
proof -
  have no: "c \<noteq> CHR '' ''" if "c \<in> set (map Hex (digits n))" for c
    using that digits_less Hex_not_blank by auto
  have "dropWhile (\<lambda>c. c = CHR '' '') xs = xs" if "\<And>c. c \<in> set xs \<Longrightarrow> c \<noteq> CHR '' ''" for xs
    using that by (cases xs) auto
  then show ?thesis using no unfolding trim_def by (metis rev_rev_ident set_rev)
qed

lemma Integer_Value_Image:
  assumes "0 \<le> X" "X \<le> Integer_Last"
  shows "Integer_Value (Trimmed_Image X) = Inr X"
proof -
  have im: "Trimmed_Image X = map Hex (digits (nat X))"
    using assms(1) by (simp add: Trimmed_Image_def Long_Long_Image_def Let_def)
  obtain d ds where ds: "digits (nat X) = d # ds" by (cases "digits (nat X)") auto
  then have "d < 10" using digits_less [of d "nat X"] by simp
  then have "(case trim (map Hex (digits (nat X))) of
      c # T \<Rightarrow> if c = CHR ''-'' then (-1, T) else if c = CHR ''+'' then (1, T) else (1, c # T)
    | [] \<Rightarrow> (1 :: int, [])) = (1, map Hex (digits (nat X)))"
    unfolding trim_digits using ds Hex_not_blank [of d] by simp
  then show ?thesis
    using assms by (simp add: Integer_Value_def im literal_image_digits to_Integer_def Integer_First_def)
qed

section \<open>The operations of the system map\<close>

lemma Map_Params_good: "good_params Map_Params"
  by (simp add: good_params_def Map_Params_def Integer_Last_def)

lemma Map_Params_simps [simp]: "Table_Low_Bound Map_Params = 1" "First Map_Params M = 1"
  by (simp_all add: Map_Params_def First_def)

lemma System_Initialize_inv:
  "\<exists>M. System_Initialize (Null_Instance Map_Params) = Inr M \<and> map_inv M \<and> Last M = 0"
  using Initialize_fresh [OF Map_Params_good, of "None :: entry_access"]
  by (simp add: System_Initialize_def table_inv_def Map_Params_def Last_def Integer_Last_def)

lemma scan_map_first:
  assumes "map_inv M"
  shows "\<exists>r. scan_map M p = Inr r \<and>
    (case r of
       None \<Rightarrow> \<forall>i x. 1 \<le> i \<and> i \<le> Last M \<and> Table_At M i = Inr x \<longrightarrow> \<not> p x
     | Some k \<Rightarrow> 1 \<le> k \<and> k \<le> Last M \<and> (\<exists>x. Table_At M k = Inr x \<and> p x))"
proof -
  have n: "int (nat (Last M - 1 + 1)) = Last M" using dyn.hi_lo [OF assms] by simp
  have "1 + int (nat (Last M - 1 + 1)) \<le> Last M + 1" unfolding n by simp
  from dyn.scan_first [OF assms _ this, of p] n show ?thesis
    unfolding scan_map_def Map_Params_simps by (fastforce split: option.splits)
qed

text \<open>Where \<open>Add\<close> puts an entry: the first free slot, or a new one.\<close>

lemma Add_outcome:
  assumes "map_inv M" "room Map_Params M" "Oid (st ! Obj) = None"
  obtains J M' where "Add st M Obj = Inr (J, M')" "map_inv M'" "1 \<le> J" "J \<le> Last M'"
    "Table_At M' J = Inr (Some Obj)" "\<And>i x. i \<noteq> J \<Longrightarrow> Table_At M i = Inr x \<Longrightarrow> Table_At M' i = Inr x"
    "J \<le> Last M \<Longrightarrow> Table_At M J = Inr None"
    "J > Last M \<Longrightarrow> J = Last M + 1 \<and> (\<forall>i x. 1 \<le> i \<and> i \<le> Last M \<and> Table_At M i = Inr x \<longrightarrow> x \<noteq> None)"
proof -
  obtain r where r: "scan_map M Is_Null = Inr r" and c: "case r of
      None \<Rightarrow> \<forall>i x. 1 \<le> i \<and> i \<le> Last M \<and> Table_At M i = Inr x \<longrightarrow> \<not> Is_Null x
    | Some k \<Rightarrow> 1 \<le> k \<and> k \<le> Last M \<and> (\<exists>x. Table_At M k = Inr x \<and> Is_Null x)"
    using scan_map_first [OF assms(1)] by blast
  show thesis
  proof (cases r)
    case (Some k)
    with c have k: "1 \<le> k" "k \<le> Last M" "Table_At M k = Inr None" by (auto simp: Is_Null_def)
    obtain M' where "table_put Map_Params M k (Some Obj) = Inr M'" "map_inv M'" "Last M' = Last M"
      "\<forall>j. Table_At M' j = (if j = k then Inr (Some Obj) else Table_At M j)"
      using dyn.put_get [OF assms(1) k(3)] by blast
    with k Some r assms(3) show thesis by (intro that [of k M']) (simp_all add: Add_def)
  next
    case None
    obtain M1 where M1: "Increment_Last None Map_Params M = Inr M1"
      using Increment_Last_succeeds [OF assms(1) Map_Params_good assms(2)] by blast
    obtain M' where M': "table_put Map_Params M1 (Last M1) (Some Obj) = Inr M'" "map_inv M'" "Last M' = Last M + 1"
      "Table_At M' (Last M + 1) = Inr (Some Obj)"
      "\<forall>j y. Table_At M j = Inr y \<and> j \<noteq> Last M + 1 \<longrightarrow> Table_At M' j = Inr y"
      using dyn.append_last [OF assms(1) M1] by blast
    have "Add st M Obj = Inr (Last M + 1, M')" using None r assms(3) M1 M' by (simp add: Add_def)
    moreover have "0 \<le> Last M" using dyn.hi_lo [OF assms(1)] by simp
    ultimately show thesis
      using M' c None by (intro that [of "Last M + 1" M']) (auto simp: Is_Null_def)
  qed
qed

lemma Add_At_outcome:
  assumes "map_inv M" "Oid (st ! Obj) = Some oid" "System_Generated oid" "Table_At M i = Inr None"
  obtains M' where "Add_At st M Obj i = Inr M'" "map_inv M'" "Last M' = Last M" "Table_At M' i = Inr (Some Obj)"
    "\<And>j. j \<noteq> i \<Longrightarrow> Table_At M' j = Table_At M j" "Length M' = Length M"
proof -
  obtain M' where M': "table_put Map_Params M i (Some Obj) = Inr M'" "map_inv M'" "Last M' = Last M"
      "\<forall>j. Table_At M' j = (if j = i then Inr (Some Obj) else Table_At M j)"
    using dyn.put_get [OF assms(1,4), of "Some Obj"] by blast
  moreover have "Length M' = Length M"
    using M'(1) by (auto simp: table_put_def split: option.splits if_splits)
  ultimately show thesis using assms by (intro that [of M']) (simp_all add: Add_At_def Is_Null_def)
qed

section \<open>The interface of an object map\<close>

text \<open>
  What the object adapters rely on, for every implementation of the abstract map: an entry that is
  removed is the one that was found there, it is found no more, the entries of other identifiers
  stay, and a lookup by servant finds an entry of the map that has that servant.
\<close>

locale object_map =
  fixes inv :: "'m \<Rightarrow> bool"
    and slot :: "Unmarshalled_Oid \<Rightarrow> 'k option"
    and get_by_id :: "'m \<Rightarrow> Unmarshalled_Oid \<Rightarrow> entry_access result"
    and get_by_servant :: "entry_store \<Rightarrow> 'm \<Rightarrow> nat option \<Rightarrow> entry_access result"
    and remove_by_id :: "'m \<Rightarrow> Unmarshalled_Oid \<Rightarrow> (entry_access \<times> 'm) result"
  assumes removes: "inv m \<Longrightarrow> remove_by_id m u = Inr (e, m') \<Longrightarrow>
      inv m' \<and> slot u \<noteq> None \<and> get_by_id m u = Inr e \<and>
      (\<forall>v. get_by_id m' v = (if slot v = slot u then Inr None else get_by_id m v))"
    and finds: "inv m \<Longrightarrow> get_by_servant st m s = Inr (Some a) \<Longrightarrow>
      Servant (st ! a) = s \<and> (\<exists>u. get_by_id m u = Inr (Some a))"
begin

lemma removed_id_not_in:
  "inv m \<Longrightarrow> remove_by_id m u = Inr (e, m') \<Longrightarrow> Is_Object_Id_In get_by_id m' u = Inr False"
  using removes [of m u e m'] by (simp add: Is_Object_Id_In_def Is_Null_def)

lemma other_id_stays:
  "inv m \<Longrightarrow> remove_by_id m u = Inr (e, m') \<Longrightarrow> slot v \<noteq> slot u \<Longrightarrow>
   Is_Object_Id_In get_by_id m' v = Is_Object_Id_In get_by_id m v"
  using removes [of m u e m'] by (simp add: Is_Object_Id_In_def)

lemma removed_servant_gone:
  assumes "inv m" "remove_by_id m u = Inr (e, m')"
    and unique: "\<And>v a. get_by_id m v = Inr (Some a) \<Longrightarrow> Servant (st ! a) = s \<Longrightarrow> slot v = slot u"
  shows "Is_Servant_In (get_by_servant st) m' s \<noteq> Inr True"
proof
  assume "Is_Servant_In (get_by_servant st) m' s = Inr True"
  then obtain a where a: "get_by_servant st m' s = Inr (Some a)"
    by (auto simp: Is_Servant_In_def Is_Null_def on_ok_eq_Inr)
  have r: "inv m'" "\<And>v. get_by_id m' v = (if slot v = slot u then Inr None else get_by_id m v)"
    using removes [OF assms(1,2)] by auto
  from finds [OF r(1) a] obtain v where "Servant (st ! a) = s" "get_by_id m' v = Inr (Some a)" by blast
  then have "get_by_id m v = Inr (Some a)" "slot v \<noteq> slot u" using r(2) [of v] by (auto split: if_splits)
  then show False using unique \<open>Servant (st ! a) = s\<close> by blast
qed

end

definition system_slot :: "Unmarshalled_Oid \<Rightarrow> int option" where
  "system_slot u =
     (if System_Generated u then case Integer_Value (Id u) of Inr i \<Rightarrow> Some i | Inl _ \<Rightarrow> None else None)"

lemma system_slot_Some: "system_slot u = Some i \<longleftrightarrow> System_Generated u \<and> Integer_Value (Id u) = Inr i"
  by (auto simp: system_slot_def split: sum.splits)

lemma Get_By_Id_slot: "system_slot u = Some i \<Longrightarrow> Get_By_Id M u = Table_At M i"
  by (auto simp: system_slot_Some Get_By_Id_def)

definition system_oid :: "int \<Rightarrow> Unmarshalled_Oid" where
  "system_oid i = Create_Id (Trimmed_Image i) True 0 []"

lemma system_slot_oid: "0 \<le> i \<Longrightarrow> i \<le> Integer_Last \<Longrightarrow> Id u = Trimmed_Image i \<Longrightarrow> System_Generated u \<Longrightarrow> system_slot u = Some i"
  by (simp add: system_slot_Some Integer_Value_Image)

lemma Table_At_range: "map_inv M \<Longrightarrow> Table_At M i = Inr x \<Longrightarrow> 1 \<le> i \<and> i \<le> Integer_Last"
  by (auto simp: table_inv_def table_get_def split: if_splits)

interpretation system_map: object_map map_inv system_slot Get_By_Id Get_By_Servant Remove_By_Id
proof
  fix M u e M'
  assume M: "map_inv M" and r: "Remove_By_Id M u = Inr (e, M')"
  then obtain i where i: "System_Generated u" "Integer_Value (Id u) = Inr i" "Table_At M i = Inr e"
    "table_put Map_Params M i None = Inr M'"
    by (auto simp: Remove_By_Id_def on_ok_eq_Inr split: if_splits)
  have s: "system_slot u = Some i" using i(1,2) by (simp add: system_slot_Some)
  have M': "map_inv M'" "\<And>j. Table_At M' j = (if j = i then Inr None else Table_At M j)"
    using dyn.put_get [OF M i(3), of None] i(4) by auto
  have "Get_By_Id M' v = (if system_slot v = system_slot u then Inr None else Get_By_Id M v)" for v
  proof (cases "system_slot v")
    case None
    then have "Get_By_Id M' v = Get_By_Id M v"
      by (auto simp: system_slot_def Get_By_Id_def split: sum.splits if_splits)
    then show ?thesis using None s by simp
  next
    case (Some j)
    then show ?thesis using s M'(2) by (simp add: Get_By_Id_slot)
  qed
  then show "map_inv M' \<and> system_slot u \<noteq> None \<and> Get_By_Id M u = Inr e \<and>
      (\<forall>v. Get_By_Id M' v = (if system_slot v = system_slot u then Inr None else Get_By_Id M v))"
    using M'(1) s i(3) by (simp add: Get_By_Id_slot)
next
  fix M st s a
  assume M: "map_inv M" and g: "Get_By_Servant st M s = Inr (Some a)"
  let ?p = "\<lambda>e. case e of None \<Rightarrow> False | Some a \<Rightarrow> Servant (st ! a) = s"
  obtain r where r: "scan_map M ?p = Inr r" and c: "case r of
      None \<Rightarrow> \<forall>i x. 1 \<le> i \<and> i \<le> Last M \<and> Table_At M i = Inr x \<longrightarrow> \<not> ?p x
    | Some k \<Rightarrow> 1 \<le> k \<and> k \<le> Last M \<and> (\<exists>x. Table_At M k = Inr x \<and> ?p x)"
    using scan_map_first [OF M] by blast
  with g obtain k where k: "Table_At M k = Inr (Some a)" "Servant (st ! a) = s"
    by (auto simp: Get_By_Servant_def split: option.splits)
  then have "system_slot (system_oid k) = Some k"
    using Table_At_range [OF M k(1)] by (intro system_slot_oid) (simp_all add: system_oid_def Create_Id_def)
  then show "Servant (st ! a) = s \<and> (\<exists>u. Get_By_Id M u = Inr (Some a))"
    using k by (auto simp: Get_By_Id_slot intro!: exI [of _ "system_oid k"])
qed

end
