(* ===== verification/Simple_Adapter.thy ===== *)
theory Simple_Adapter
  imports Cdr Object_Maps
begin

text \<open>
  The Simple Object Adapter (\<open>src/src/polyorb-obj_adapters-simple.adb\<close>) and the URIs of objects that every adapter
  inherits (\<open>src/src/polyorb-obj_adapters.adb\<close>).

  The adapter is a growing table under a lock; the identifier of an object is its index, in the memory representation of
  an Integer. Other tasks call the operations, too: an operation that finds the lock entered waits, and when the task
  that entered it has left the operation by an exception, it waits forever. Therefore an operation has three outcomes,
  \<open>Returns\<close>, \<open>Raises\<close> and \<open>Blocks\<close>, each with the state that it leaves. Servants are addresses; argument lists and
  results of methods, which the application builds, are the types \<open>'a\<close> and \<open>'r\<close>.
\<close>

section \<open>Outcomes\<close>

datatype 'x completion = Returns 'x | Raises ada_error | Blocks

fun and_then :: "'x completion \<times> 's \<Rightarrow> ('x \<Rightarrow> 's \<Rightarrow> 'y completion \<times> 's) \<Rightarrow> 'y completion \<times> 's" where
  "and_then (Returns x, s) f = f x s"
| "and_then (Raises e, s) f = (Raises e, s)"
| "and_then (Blocks, s) f = (Blocks, s)"

fun evaluate :: "'x result \<Rightarrow> 's \<Rightarrow> 'x completion \<times> 's" where
  "evaluate (Inr x) s = (Returns x, s)"
| "evaluate (Inl e) s = (Raises e, s)"

lemma and_then_Returns [result_simps]:
  "and_then m f = (Returns y, s') \<longleftrightarrow> (\<exists>x s. m = (Returns x, s) \<and> f x s = (Returns y, s'))"
proof (cases m)
  case (Pair c s)
  then show ?thesis by (cases c) auto
qed

lemma evaluate_Returns [result_simps]: "evaluate r s = (Returns x, s') \<longleftrightarrow> r = Inr x \<and> s' = s"
  by (cases r) auto

section \<open>Model\<close>

record ('a, 'r) Interface_Description =
  PP_Desc :: "(string \<Rightarrow> 'a) option"
  RP_Desc :: "(string \<Rightarrow> 'r) option"

record ('a, 'r) SOA_Entry =
  SOA_Servant :: "nat option"
  If_Desc :: "('a, 'r) Interface_Description"

definition SOA_Params :: table_params where
  "SOA_Params = \<lparr>Table_Low_Bound = 1, Table_Initial = 10, Table_Increment = 1\<rparr>"

record ('a, 'r) Simple_Obj_Adapter =
  Object_Map :: "('a, 'r) SOA_Entry Instance"
  S_Exec :: nat
  Lock :: "bool option"

definition No_Desc :: "('a, 'r) Interface_Description" where
  "No_Desc = \<lparr>PP_Desc = None, RP_Desc = None\<rparr>"

definition Null_Entry :: "('a, 'r) SOA_Entry" where
  "Null_Entry = \<lparr>SOA_Servant = None, If_Desc = No_Desc\<rparr>"

definition New_Adapter :: "nat \<Rightarrow> ('a, 'r) Simple_Obj_Adapter" where
  "New_Adapter exec = \<lparr>Object_Map = Null_Instance SOA_Params, S_Exec = exec, Lock = None\<rparr>"

text \<open>The lock: None is the null access, otherwise it says whether a task has entered it.\<close>

definition Lock_Enter :: "('a, 'r) Simple_Obj_Adapter \<Rightarrow> unit completion \<times> ('a, 'r) Simple_Obj_Adapter" where
  "Lock_Enter OA =
     (case Lock OA of
        None \<Rightarrow> (Raises Constraint_Error, OA)
      | Some True \<Rightarrow> (Blocks, OA)
      | Some False \<Rightarrow> (Returns (), OA\<lparr>Lock := Some True\<rparr>))"

definition Lock_Leave :: "('a, 'r) Simple_Obj_Adapter \<Rightarrow> unit completion \<times> ('a, 'r) Simple_Obj_Adapter" where
  "Lock_Leave OA = (Returns (), OA\<lparr>Lock := Some False\<rparr>)"

text \<open>The unchecked conversions, and the checked one to an array of four octets before the second of them.\<close>

definition Index_To_Oid :: "Endianness_Type \<Rightarrow> int \<Rightarrow> Object_Id" where
  "Index_To_Oid host Index = Item_Storage host (word_of_int Index :: 32 word)"

definition Oid_To_Index :: "Endianness_Type \<Rightarrow> Object_Id \<Rightarrow> int" where
  "Oid_To_Index host oid = sint (Stored_Item host oid :: 32 word)"

definition Simple_OA_Index :: "Endianness_Type \<Rightarrow> Object_Id option \<Rightarrow> int result" where
  "Simple_OA_Index host Ident =
     (case Ident of
        None \<Rightarrow> Inl Constraint_Error
      | Some oid \<Rightarrow> if length oid = 4 then Inr (Oid_To_Index host oid) else Inl Constraint_Error)"

definition Find_Entry ::
  "('a, 'r) Simple_Obj_Adapter \<Rightarrow> int \<Rightarrow> Error_Container
     \<Rightarrow> (('a, 'r) SOA_Entry \<times> Error_Container) completion \<times> ('a, 'r) Simple_Obj_Adapter" where
  "Find_Entry OA Index Error =
     and_then (Lock_Enter OA) (\<lambda>_ OA.
     and_then (evaluate (if Last (Object_Map OA) < Index \<or> Table (Object_Map OA) = None then Inr Null_Entry
                         else table_get SOA_Params (Object_Map OA) Index) OA) (\<lambda>OME OA.
     and_then (Lock_Leave OA) (\<lambda>_ OA.
       if SOA_Servant OME = None then (Returns (Null_Entry, Throw Error Invalid_Object_Id_E), OA)
       else (Returns (OME, Error), OA))))"

definition Create :: "('a, 'r) Simple_Obj_Adapter \<Rightarrow> unit completion \<times> ('a, 'r) Simple_Obj_Adapter" where
  "Create OA =
     (let OA = OA\<lparr>Lock := Some False\<rparr> in
      and_then (evaluate (Initialize Null_Entry SOA_Params (Object_Map OA)) OA) (\<lambda>T OA.
        (Returns (), OA\<lparr>Object_Map := T\<rparr>)))"

definition Destroy :: "('a, 'r) Simple_Obj_Adapter \<Rightarrow> ('a, 'r) Simple_Obj_Adapter" where
  "Destroy OA = OA\<lparr>Lock := None, Object_Map := Deallocate (Object_Map OA)\<rparr>"

definition Export ::
  "Endianness_Type \<Rightarrow> ('a, 'r) Simple_Obj_Adapter \<Rightarrow> nat option \<Rightarrow> Object_Id option \<Rightarrow> Object_Id option \<Rightarrow> Error_Container
     \<Rightarrow> (Object_Id option \<times> Error_Container) completion \<times> ('a, 'r) Simple_Obj_Adapter" where
  "Export host OA Obj Key oid Error =
     (if Key \<noteq> None \<or> Table (Object_Map OA) = None then (Returns (oid, Throw Error Invalid_Object_Id_E), OA)
      else
        let OME = \<lparr>SOA_Servant = Obj, If_Desc = No_Desc\<rparr> in
        and_then (Lock_Enter OA) (\<lambda>_ OA.
        and_then (evaluate (to_Integer (Last (Object_Map OA) + 1)) OA) (\<lambda>New_Id OA.
        and_then (evaluate (scan (table_get SOA_Params (Object_Map OA)) (\<lambda>e. SOA_Servant e = None)
                     (First SOA_Params (Object_Map OA))
                     (nat (Last (Object_Map OA) - First SOA_Params (Object_Map OA) + 1))) OA) (\<lambda>hole OA.
        and_then (evaluate (case hole of
                      None \<Rightarrow> Inr (New_Id, Object_Map OA)
                    | Some J \<Rightarrow> on_ok (table_put SOA_Params (Object_Map OA) J OME) (\<lambda>T. Inr (J, T))) OA) (\<lambda>(New_Id, T) OA.
        and_then (evaluate (if Last T < New_Id
                      then on_ok (Increment_Last Null_Entry SOA_Params T) (\<lambda>T.
                           table_put SOA_Params T (Last T) OME)
                      else Inr T) OA) (\<lambda>T OA.
        and_then (Lock_Leave (OA\<lparr>Object_Map := T\<rparr>)) (\<lambda>_ OA.
          (Returns (Some (Index_To_Oid host (New_Id - First SOA_Params T + 1)), Error), OA))))))))"

text \<open>
  The critical section in which \<open>Unexport\<close> and \<open>Set_Interface_Description\<close> store an entry. It is not the one
  in which they have read it: between the two, other tasks can enter the lock.
\<close>

definition Store_Entry ::
  "('a, 'r) Simple_Obj_Adapter \<Rightarrow> int \<Rightarrow> ('a, 'r) SOA_Entry \<Rightarrow> unit completion \<times> ('a, 'r) Simple_Obj_Adapter" where
  "Store_Entry OA Index OME =
     and_then (Lock_Enter OA) (\<lambda>_ OA.
     and_then (evaluate (table_put SOA_Params (Object_Map OA) Index OME) OA) (\<lambda>T OA.
       Lock_Leave (OA\<lparr>Object_Map := T\<rparr>)))"

definition Unexport ::
  "Endianness_Type \<Rightarrow> ('a, 'r) Simple_Obj_Adapter \<Rightarrow> Object_Id option \<Rightarrow> Error_Container
     \<Rightarrow> Error_Container completion \<times> ('a, 'r) Simple_Obj_Adapter" where
  "Unexport host OA Ident Error =
     and_then (evaluate (Simple_OA_Index host Ident) OA) (\<lambda>Index OA.
     and_then (Find_Entry OA Index Error) (\<lambda>(OME, Error) OA.
       if Is_Error Error then (Returns Error, OA)
       else
         and_then (evaluate (check Assert_Failure (SOA_Servant OME \<noteq> None)) OA) (\<lambda>_ OA.
         and_then (Store_Entry OA Index Null_Entry) (\<lambda>_ OA. (Returns Error, OA)))))"

definition Object_Key :: "Object_Id option \<Rightarrow> Error_Container \<Rightarrow> Object_Id option \<times> Error_Container" where
  "Object_Key Ident Error = (None, Throw Error Invalid_Object_Id_E)"

definition Set_Interface_Description ::
  "Endianness_Type \<Rightarrow> ('a, 'r) Simple_Obj_Adapter \<Rightarrow> Object_Id option \<Rightarrow> ('a, 'r) Interface_Description
     \<Rightarrow> unit completion \<times> ('a, 'r) Simple_Obj_Adapter" where
  "Set_Interface_Description host OA Ident Desc =
     and_then (evaluate (Simple_OA_Index host Ident) OA) (\<lambda>Index OA.
     and_then (Find_Entry OA Index No_Error) (\<lambda>(OME, Error) OA.
       if Is_Error Error then (Returns (), OA)
       else Store_Entry OA Index (OME\<lparr>If_Desc := Desc\<rparr>)))"

text \<open>\<open>Result\<close> is the object of the result type that the function declares and does not assign.\<close>

definition Get_Empty_Arg_List ::
  "'a \<Rightarrow> Endianness_Type \<Rightarrow> ('a, 'r) Simple_Obj_Adapter \<Rightarrow> Object_Id option \<Rightarrow> string
     \<Rightarrow> 'a completion \<times> ('a, 'r) Simple_Obj_Adapter" where
  "Get_Empty_Arg_List Result host OA oid Method =
     and_then (evaluate (Simple_OA_Index host oid) OA) (\<lambda>Index OA.
     and_then (Find_Entry OA Index No_Error) (\<lambda>(OME, Error) OA.
       if Is_Error Error then (Returns Result, OA)
       else
         case PP_Desc (If_Desc OME) of
           None \<Rightarrow> (Returns Result, OA)
         | Some pp \<Rightarrow> (Returns (pp Method), OA)))"

definition Get_Empty_Result ::
  "'r \<Rightarrow> Endianness_Type \<Rightarrow> ('a, 'r) Simple_Obj_Adapter \<Rightarrow> Object_Id option \<Rightarrow> string
     \<Rightarrow> 'r completion \<times> ('a, 'r) Simple_Obj_Adapter" where
  "Get_Empty_Result Result host OA oid Method =
     and_then (evaluate (Simple_OA_Index host oid) OA) (\<lambda>Index OA.
     and_then (Find_Entry OA Index No_Error) (\<lambda>(OME, Error) OA.
       if Is_Error Error then (Returns Result, OA)
       else if PP_Desc (If_Desc OME) = None then (Returns Result, OA)
       else
         case RP_Desc (If_Desc OME) of
           None \<Rightarrow> (Raises Constraint_Error, OA)
         | Some rp \<Rightarrow> (Returns (rp Method), OA)))"

text \<open>\<open>Exec\<close> is the executor that each servant has; the adapter sets that of the servant that it finds to its own.\<close>

definition Set_Executor :: "(nat \<Rightarrow> nat option) \<Rightarrow> nat \<Rightarrow> nat \<Rightarrow> nat \<Rightarrow> nat option" where
  "Set_Executor Exec S E = Exec(S \<mapsto> E)"

definition Find_Servant ::
  "Endianness_Type \<Rightarrow> ('a, 'r) Simple_Obj_Adapter \<Rightarrow> Object_Id option \<Rightarrow> nat option \<Rightarrow> (nat \<Rightarrow> nat option) \<Rightarrow> Error_Container
     \<Rightarrow> (nat option \<times> (nat \<Rightarrow> nat option) \<times> Error_Container) completion \<times> ('a, 'r) Simple_Obj_Adapter" where
  "Find_Servant host OA Ident Serv Exec Error =
     and_then (evaluate (Simple_OA_Index host Ident) OA) (\<lambda>Index OA.
     and_then (Find_Entry OA Index Error) (\<lambda>(OME, Error) OA.
       if Is_Error Error then (Returns (Serv, Exec, Error), OA)
       else
         case SOA_Servant OME of
           None \<Rightarrow> (Raises Constraint_Error, OA)
         | Some S \<Rightarrow> (Returns (Some S, Set_Executor Exec S (S_Exec OA), Error), OA)))"

definition Release_Servant :: "nat option \<Rightarrow> nat option" where
  "Release_Servant Serv = None"

text \<open>The URI of an object is a slash and the identifier in hexadecimal.\<close>

definition Oid_To_Rel_URI :: "Object_Id \<Rightarrow> string" where
  "Oid_To_Rel_URI Ident = CHR ''/'' # Oid_To_Hex_String Ident"

definition Rel_URI_To_Oid :: "string \<Rightarrow> Object_Id result" where
  "Rel_URI_To_Oid URI =
     (case URI of
        [] \<Rightarrow> Inl Constraint_Error
      | c # cs \<Rightarrow> if c \<noteq> CHR ''/'' then Inl Constraint_Error else Hex_String_To_Oid cs)"

section \<open>The objects of an adapter\<close>

text \<open>
  What an adapter is meant to be: a map from indices to entries that have a servant. Between operations the lock is free
  and the table well-formed.
\<close>

definition objects :: "('a, 'r) Simple_Obj_Adapter \<Rightarrow> int \<Rightarrow> ('a, 'r) SOA_Entry option" where
  "objects OA i =
     (if Last (Object_Map OA) < i then None
      else case table_get SOA_Params (Object_Map OA) i of
             Inl _ \<Rightarrow> None
           | Inr OME \<Rightarrow> if SOA_Servant OME = None then None else Some OME)"

definition soa_ok :: "('a, 'r) Simple_Obj_Adapter \<Rightarrow> bool" where
  "soa_ok OA \<longleftrightarrow> Lock OA = Some False \<and> table_inv SOA_Params (Object_Map OA)"

lemma SOA_Params_simps [simp]: "Table_Low_Bound SOA_Params = 1" "First SOA_Params T = 1" "good_params SOA_Params"
  by (simp_all add: SOA_Params_def First_def good_params_def Integer_Last_def)

lemma soa_okD:
  assumes "soa_ok OA"
  shows "Lock OA = Some False" "table_inv SOA_Params (Object_Map OA)" "0 \<le> Last (Object_Map OA)" "Table (Object_Map OA) \<noteq> None"
  using assms by (auto simp: soa_ok_def table_inv_def Last_def)

lemma restored_lock [simp]: "Lock OA = Some False \<Longrightarrow> OA\<lparr>Lock := Some False\<rparr> = OA"
  by simp

text \<open>Within the table a component can be read; below it the index check fails.\<close>

lemma entry_at:
  assumes "soa_ok OA" "1 \<le> i" "i \<le> Last (Object_Map OA)"
  obtains OME where "table_get SOA_Params (Object_Map OA) i = Inr OME"
    "objects OA i = (if SOA_Servant OME = None then None else Some OME)"
  using dyn.get_in_range [OF soa_okD(2) [OF assms(1)], of i] assms(2,3) by (auto simp: objects_def)

lemma below_table: "i < 1 \<Longrightarrow> Table T \<noteq> None \<Longrightarrow> table_get SOA_Params T i = Inl Constraint_Error"
  by (auto simp: table_get_def)

lemma objects_range:
  assumes "soa_ok OA" "objects OA i = Some OME"
  shows "1 \<le> i" "i \<le> Last (Object_Map OA)" "SOA_Servant OME \<noteq> None" "table_get SOA_Params (Object_Map OA) i = Inr OME"
  using assms below_table [OF _ soa_okD(4) [OF assms(1)], of i]
  by (auto simp: objects_def split: if_splits sum.splits intro: leI)

lemma Find_Entry_outcome:
  assumes "soa_ok OA"
  shows "Find_Entry OA i Error =
    (if i < 1 then (Raises Constraint_Error, OA\<lparr>Lock := Some True\<rparr>)
     else case objects OA i of
            None \<Rightarrow> (Returns (Null_Entry, Throw Error Invalid_Object_Id_E), OA)
          | Some OME \<Rightarrow> (Returns (OME, Error), OA))"
proof -
  note ok = soa_okD [OF assms]
  obtain t where t: "Table (Object_Map OA) = Some t" using ok(4) by blast
  consider "i < 1" | "1 \<le> i" "i \<le> Last (Object_Map OA)" | "Last (Object_Map OA) < i" by linarith
  then show ?thesis
  proof cases
    case 1
    then show ?thesis
      using ok t below_table [OF 1 ok(4)] by (simp add: Find_Entry_def Lock_Enter_def)
  next
    case 2
    obtain OME where "table_get SOA_Params (Object_Map OA) i = Inr OME"
      "objects OA i = (if SOA_Servant OME = None then None else Some OME)"
      by (rule entry_at [OF assms 2])
    then show ?thesis using 2 ok t by (simp add: Find_Entry_def Lock_Enter_def Lock_Leave_def)
  next
    case 3
    then show ?thesis
      using ok by (simp add: Find_Entry_def Lock_Enter_def Lock_Leave_def objects_def Null_Entry_def)
  qed
qed

lemma Find_Entry_held: "Lock OA = Some True \<Longrightarrow> Find_Entry OA i Error = (Blocks, OA)"
  by (simp add: Find_Entry_def Lock_Enter_def)

text \<open>The object table can grow by a step within the range of Integer.\<close>

definition soa_room :: "('a, 'r) Simple_Obj_Adapter \<Rightarrow> bool" where
  "soa_room OA \<longleftrightarrow> room SOA_Params (Object_Map OA)"

text \<open>Storing an entry at an index of the table changes the map there only.\<close>

lemma objects_put:
  assumes "soa_ok OA" "table_get SOA_Params (Object_Map OA) i = Inr y" "i \<le> Last (Object_Map OA)"
  obtains T where "table_put SOA_Params (Object_Map OA) i x = Inr T" "table_inv SOA_Params T" "Last T = Last (Object_Map OA)"
    "objects (OA\<lparr>Object_Map := T\<rparr>) = (objects OA)(i := if SOA_Servant x = None then None else Some x)"
    "Length T = Length (Object_Map OA)"
proof -
  obtain T where T: "table_put SOA_Params (Object_Map OA) i x = Inr T" "table_inv SOA_Params T" "Last T = Last (Object_Map OA)"
    "\<And>j. table_get SOA_Params T j = (if j = i then Inr x else table_get SOA_Params (Object_Map OA) j)"
    using dyn.put_get [OF soa_okD(2) [OF assms(1)] assms(2), of x] by blast
  have "objects (OA\<lparr>Object_Map := T\<rparr>) = (objects OA)(i := if SOA_Servant x = None then None else Some x)"
    using T(3,4) assms(3) by (auto simp: objects_def fun_eq_iff)
  moreover have "Length T = Length (Object_Map OA)" using T(1) by (auto simp: table_put_def split: option.splits if_splits)
  ultimately show ?thesis by (rule that [OF T(1-3)])
qed

lemma Store_Entry_ok:
  assumes "soa_ok OA" "table_get SOA_Params (Object_Map OA) i = Inr y" "i \<le> Last (Object_Map OA)"
  obtains OA' where "Store_Entry OA i x = (Returns (), OA')" "soa_ok OA'" "S_Exec OA' = S_Exec OA"
    "Last (Object_Map OA') = Last (Object_Map OA)" "soa_room OA' = soa_room OA"
    "objects OA' = (objects OA)(i := if SOA_Servant x = None then None else Some x)"
proof -
  obtain T where T: "table_put SOA_Params (Object_Map OA) i x = Inr T" "table_inv SOA_Params T" "Last T = Last (Object_Map OA)"
    "objects (OA\<lparr>Object_Map := T\<rparr>) = (objects OA)(i := if SOA_Servant x = None then None else Some x)"
    "Length T = Length (Object_Map OA)"
    by (rule objects_put [OF assms])
  have "Store_Entry OA i x = (Returns (), OA\<lparr>Object_Map := T\<rparr>)"
    using T(1) soa_okD(1) [OF assms(1)] by (simp add: Store_Entry_def Lock_Enter_def Lock_Leave_def)
  then show ?thesis using T soa_okD(1) [OF assms(1)] by (intro that) (simp_all add: soa_ok_def soa_room_def room_def)
qed

text \<open>
  An export takes the first index without a servant, or the next one behind the table.
\<close>

lemma soa_room_next:
  assumes "soa_ok OA" "soa_room OA"
  shows "to_Integer (Last (Object_Map OA) + 1) = Inr (Last (Object_Map OA) + 1)"
proof -
  have "0 \<le> Length (Object_Map OA)" "Last (Object_Map OA) \<le> Length (Object_Map OA)" "0 \<le> Last (Object_Map OA)"
    using assms(1) by (auto simp: soa_ok_def table_inv_def Last_def)
  moreover have "Length (Object_Map OA) * 101 + 11 \<le> Integer_Last"
    using assms(2) by (simp add: soa_room_def room_def SOA_Params_def)
  ultimately show ?thesis unfolding to_Integer_def Integer_First_def by auto
qed

lemma first_hole:
  assumes "soa_ok OA"
  obtains hole where
    "scan (table_get SOA_Params (Object_Map OA)) (\<lambda>e. SOA_Servant e = None) 1 (nat (Last (Object_Map OA))) = Inr hole"
    "case hole of
       None \<Rightarrow> \<forall>j. 1 \<le> j \<and> j \<le> Last (Object_Map OA) \<longrightarrow> objects OA j \<noteq> None
     | Some i \<Rightarrow> 1 \<le> i \<and> i \<le> Last (Object_Map OA) \<and> objects OA i = None \<and> (\<forall>j. 1 \<le> j \<and> j < i \<longrightarrow> objects OA j \<noteq> None)"
proof -
  note ok = soa_okD [OF assms]
  let ?get = "table_get SOA_Params (Object_Map OA)"
  have used: "objects OA j \<noteq> None \<longleftrightarrow> (\<forall>x. ?get j = Inr x \<longrightarrow> SOA_Servant x \<noteq> None)"
    if "1 \<le> j" "j \<le> Last (Object_Map OA)" for j
    by (rule entry_at [OF assms that]) auto
  obtain hole where h: "scan ?get (\<lambda>e. SOA_Servant e = None) 1 (nat (Last (Object_Map OA))) = Inr hole"
    "case hole of
       None \<Rightarrow> \<forall>i x. 1 \<le> i \<and> i < 1 + int (nat (Last (Object_Map OA))) \<and> ?get i = Inr x \<longrightarrow> \<not> SOA_Servant x = None
     | Some k \<Rightarrow> 1 \<le> k \<and> k < 1 + int (nat (Last (Object_Map OA))) \<and> (\<exists>x. ?get k = Inr x \<and> SOA_Servant x = None) \<and>
         (\<forall>i x. 1 \<le> i \<and> i < k \<and> ?get i = Inr x \<longrightarrow> \<not> SOA_Servant x = None)"
    using dyn.scan_first [OF ok(2), of 1 "nat (Last (Object_Map OA))" "\<lambda>e. SOA_Servant e = None"] ok(3) by auto
  show thesis
  proof (rule that [OF h(1)], cases hole)
    case None
    then have "objects OA j \<noteq> None" if "1 \<le> j" "j \<le> Last (Object_Map OA)" for j
      using used [OF that] that h(2) ok(3) by fastforce
    then show "case hole of
       None \<Rightarrow> \<forall>j. 1 \<le> j \<and> j \<le> Last (Object_Map OA) \<longrightarrow> objects OA j \<noteq> None
     | Some i \<Rightarrow> 1 \<le> i \<and> i \<le> Last (Object_Map OA) \<and> objects OA i = None \<and> (\<forall>j. 1 \<le> j \<and> j < i \<longrightarrow> objects OA j \<noteq> None)"
      using None by simp
  next
    case (Some k)
    then have k: "1 \<le> k" "k \<le> Last (Object_Map OA)" using h(2) ok(3) by auto
    moreover have "objects OA k = None" using used [OF k] h(2) Some by auto
    moreover have "objects OA j \<noteq> None" if "1 \<le> j" "j < k" for j
      using used [of j] that k h(2) Some by fastforce
    ultimately show "case hole of
       None \<Rightarrow> \<forall>j. 1 \<le> j \<and> j \<le> Last (Object_Map OA) \<longrightarrow> objects OA j \<noteq> None
     | Some i \<Rightarrow> 1 \<le> i \<and> i \<le> Last (Object_Map OA) \<and> objects OA i = None \<and> (\<forall>j. 1 \<le> j \<and> j < i \<longrightarrow> objects OA j \<noteq> None)"
      using Some by simp
  qed
qed

lemma objects_append:
  assumes "soa_ok OA" "Increment_Last Null_Entry SOA_Params (Object_Map OA) = Inr T"
  obtains T' where "table_put SOA_Params T (Last T) x = Inr T'" "table_inv SOA_Params T'" "Last T' = Last (Object_Map OA) + 1"
    "objects (OA\<lparr>Object_Map := T'\<rparr>) =
      (objects OA)(Last (Object_Map OA) + 1 := if SOA_Servant x = None then None else Some x)"
proof -
  note ok = soa_okD [OF assms(1)]
  obtain T' where T': "table_put SOA_Params T (Last T) x = Inr T'" "table_inv SOA_Params T'" "Last T' = Last (Object_Map OA) + 1"
    "table_get SOA_Params T' (Last (Object_Map OA) + 1) = Inr x"
    "\<And>j y. table_get SOA_Params (Object_Map OA) j = Inr y \<Longrightarrow> j \<noteq> Last (Object_Map OA) + 1 \<Longrightarrow> table_get SOA_Params T' j = Inr y"
    using dyn.append_last [OF ok(2) assms(2), of x] by blast
  have tab: "Table T' \<noteq> None" using T'(2) by (auto simp: table_inv_def)
  have "objects (OA\<lparr>Object_Map := T'\<rparr>) j =
      ((objects OA)(Last (Object_Map OA) + 1 := if SOA_Servant x = None then None else Some x)) j" for j
  proof -
    consider "j < 1" | "1 \<le> j" "j \<le> Last (Object_Map OA)" | "j = Last (Object_Map OA) + 1" | "Last (Object_Map OA) + 1 < j" by linarith
    then show ?thesis
    proof cases
      case 1
      then show ?thesis using below_table [OF 1 tab] below_table [OF 1 ok(4)] ok(3) by (auto simp: objects_def)
    next
      case 2
      then show ?thesis by (rule entry_at [OF assms(1)]) (use 2 T'(3,5) in \<open>auto simp: objects_def\<close>)
    qed (use T'(3,4) in \<open>auto simp: objects_def\<close>)
  qed
  then show thesis using T' by (intro that) auto
qed

lemma Export_outcome:
  assumes "soa_ok OA"
  obtains (returns) i OA' where "Export host OA (Some S) None oid Error = (Returns (Some (Index_To_Oid host i), Error), OA')"
    "soa_ok OA'" "S_Exec OA' = S_Exec OA" "1 \<le> i" "i \<le> Last (Object_Map OA) + 1" "Last (Object_Map OA) < Integer_Last"
    "objects OA i = None" "\<And>j. 1 \<le> j \<Longrightarrow> j < i \<Longrightarrow> objects OA j \<noteq> None"
    "objects OA' = (objects OA)(i \<mapsto> \<lparr>SOA_Servant = Some S, If_Desc = No_Desc\<rparr>)"
  | (raises) e OA' where "Export host OA (Some S) None oid Error = (Raises e, OA')" "\<not> soa_room OA"
proof -
  note ok = soa_okD [OF assms]
  let ?e = "\<lparr>SOA_Servant = Some S, If_Desc = No_Desc\<rparr>" and ?M = "Object_Map OA"
  obtain hole where h: "scan (table_get SOA_Params ?M) (\<lambda>e. SOA_Servant e = None) 1 (nat (Last ?M)) = Inr hole"
    "case hole of
       None \<Rightarrow> \<forall>j. 1 \<le> j \<and> j \<le> Last ?M \<longrightarrow> objects OA j \<noteq> None
     | Some i \<Rightarrow> 1 \<le> i \<and> i \<le> Last ?M \<and> objects OA i = None \<and> (\<forall>j. 1 \<le> j \<and> j < i \<longrightarrow> objects OA j \<noteq> None)"
    by (rule first_hole [OF assms])
  note run = Export_def Let_def Lock_Enter_def Lock_Leave_def ok(1,4) h(1)
  show thesis
  proof (cases "to_Integer (Last ?M + 1)")
    case (Inl e)
    moreover have "\<not> soa_room OA" using Inl soa_room_next [OF assms] by auto
    ultimately show ?thesis using ok by (intro raises [of e]) (simp_all add: run)
  next
    case (Inr n)
    then have n: "to_Integer (Last ?M + 1) = Inr (Last ?M + 1)" "Last ?M < Integer_Last"
      by (auto simp: to_Integer_def split: if_splits)
    show ?thesis
    proof (cases hole)
      case (Some i)
      obtain y where y: "table_get SOA_Params ?M i = Inr y" using Some h(2) by (auto intro: entry_at [OF assms, of i])
      obtain T where T: "table_put SOA_Params ?M i ?e = Inr T" "table_inv SOA_Params T" "Last T = Last ?M"
        "objects (OA\<lparr>Object_Map := T\<rparr>) = (objects OA)(i \<mapsto> ?e)"
        using objects_put [OF assms y, of ?e] Some h(2) by auto
      have "Export host OA (Some S) None oid Error = (Returns (Some (Index_To_Oid host i), Error), OA\<lparr>Object_Map := T\<rparr>)"
        using T(1,3) Some h(2) n ok(1) by (simp add: run)
      then show ?thesis using T Some h(2) n ok(1) by (intro returns [of i]) (auto simp: soa_ok_def)
    next
      case None
      show ?thesis
      proof (cases "Increment_Last Null_Entry SOA_Params ?M")
        case (Inl e)
        have "\<not> soa_room OA"
          using Increment_Last_succeeds [OF ok(2), of Null_Entry] Inl by (auto simp: soa_room_def)
        then show ?thesis using Inl None n ok by (intro raises [of e]) (simp_all add: run)
      next
        case (Inr T)
        obtain T' where T: "table_put SOA_Params T (Last T) ?e = Inr T'" "table_inv SOA_Params T'" "Last T' = Last ?M + 1"
          "objects (OA\<lparr>Object_Map := T'\<rparr>) = (objects OA)(Last ?M + 1 \<mapsto> ?e)"
          using objects_append [OF assms Inr, of ?e] by auto
        have "Export host OA (Some S) None oid Error =
            (Returns (Some (Index_To_Oid host (Last ?M + 1)), Error), OA\<lparr>Object_Map := T'\<rparr>)"
          using T(1) None Inr n ok(1) by (simp add: run)
        moreover have "objects OA (Last ?M + 1) = None" by (simp add: objects_def)
        ultimately show ?thesis using T None h(2) n ok(1,3) by (intro returns [of "Last ?M + 1"]) (auto simp: soa_ok_def)
      qed
    qed
  qed
qed

text \<open>Four octets and an Integer are the same thing, in either byte order.\<close>

lemma le_value_range: "0 \<le> le_value bs \<and> le_value bs < 256 ^ length bs"
proof (induction bs)
  case (Cons b bs)
  have "0 \<le> uint b" "uint b < 256" using unsigned_less [of b] uint_ge_0 [of b] by simp_all
  then show ?case using Cons by simp
qed simp

lemma byte_256: "(256 :: byte) = 0"
  by simp

lemma le_octets_le_value: "le_octets (length bs) (le_value bs) = bs"
proof (induction bs)
  case (Cons b bs)
  have "uint b < 256" using unsigned_less [of b] by simp
  then have "(uint b + 256 * le_value bs) div 256 = le_value bs" by (simp add: div_add1_eq)
  moreover have "word_of_int (uint b + 256 * le_value bs) = b + (256 :: byte) * word_of_int (le_value bs)" by simp
  then have "word_of_int (uint b + 256 * le_value bs) = b" by (simp only: byte_256 mult_zero_left add_0_right)
  ultimately show ?case using Cons by simp
qed simp

lemma Item_Storage_Stored:
  assumes "length bs = 4"
  shows "Item_Storage host (Stored_Item host bs :: 32 word) = bs"
proof -
  have "uint (word_of_int (le_value (in_order host bs)) :: 32 word) = le_value (in_order host bs)"
    using le_value_range [of "in_order host bs"] assms by (simp add: uint_word_of_int take_bit_eq_mod)
  then show ?thesis
    using le_octets_le_value [of "in_order host bs"] assms by (simp add: Item_Storage_def Stored_Item_def)
qed

lemma Index_To_Oid_To_Index:
  assumes "length oid = 4"
  shows "Index_To_Oid host (Oid_To_Index host oid) = oid"
  using assms by (simp add: Index_To_Oid_def Oid_To_Index_def Item_Storage_Stored)

lemma Oid_To_Index_To_Oid:
  assumes "Integer_First \<le> i" "i \<le> Integer_Last"
  shows "Oid_To_Index host (Index_To_Oid host i) = i" "length (Index_To_Oid host i) = 4"
proof -
  have "signed_take_bit 31 i = i" using assms by (intro signed_take_bit_int_eq_self) (simp_all add: Integer_First_def Integer_Last_def)
  then show "Oid_To_Index host (Index_To_Oid host i) = i"
    by (simp add: Index_To_Oid_def Oid_To_Index_def Stored_Item_Storage sint_sbintrunc')
  show "length (Index_To_Oid host i) = 4" by (simp add: Index_To_Oid_def Item_Storage_def)
qed

text \<open>The outcome of the operations on an adapter whose lock is free.\<close>

lemma SOA_Index_simps [simp]:
  "Simple_OA_Index host (Some oid) = (if length oid = 4 then Inr (Oid_To_Index host oid) else Inl Constraint_Error)"
  by (simp add: Simple_OA_Index_def)

lemma Is_Error_simps [simp]: "\<not> Is_Error No_Error" "Is_Error (Throw Error Invalid_Object_Id_E)"
  by (simp_all add: Is_Error_def Throw_def)

lemma Find_Servant_outcome:
  assumes "soa_ok OA"
  shows "Find_Servant host OA (Some oid) V Exec No_Error =
    (if length oid \<noteq> 4 then (Raises Constraint_Error, OA)
     else if Oid_To_Index host oid < 1 then (Raises Constraint_Error, OA\<lparr>Lock := Some True\<rparr>)
     else case objects OA (Oid_To_Index host oid) of
            None \<Rightarrow> (Returns (V, Exec, Invalid_Object_Id_E), OA)
          | Some OME \<Rightarrow>
              (Returns (SOA_Servant OME, Exec(the (SOA_Servant OME) \<mapsto> S_Exec OA), No_Error), OA))"
proof (cases "objects OA (Oid_To_Index host oid)")
  case (Some OME)
  then show ?thesis
    using objects_range(3) [OF assms Some] by (auto simp: Find_Servant_def Find_Entry_outcome [OF assms] Set_Executor_def)
qed (simp add: Find_Servant_def Find_Entry_outcome [OF assms] Throw_def Is_Error_def)

lemma Unexport_ok:
  assumes "soa_ok OA" "objects OA i = Some OME" "Simple_OA_Index host Ident = Inr i"
  obtains OA' where "Unexport host OA Ident No_Error = (Returns No_Error, OA')" "soa_ok OA'" "S_Exec OA' = S_Exec OA"
    "soa_room OA' = soa_room OA" "objects OA' = (objects OA)(i := None)"
proof -
  note r = objects_range [OF assms(1,2)]
  obtain OA' where S: "Store_Entry OA i Null_Entry = (Returns (), OA')" "soa_ok OA'" "S_Exec OA' = S_Exec OA"
    "Last (Object_Map OA') = Last (Object_Map OA)" "soa_room OA' = soa_room OA"
    "objects OA' = (objects OA)(i := if SOA_Servant (Null_Entry :: ('a, 'b) SOA_Entry) = None then None else Some Null_Entry)"
    by (rule Store_Entry_ok [OF assms(1) r(4,2)])
  have "SOA_Servant (Null_Entry :: ('a, 'b) SOA_Entry) = None" by (simp add: Null_Entry_def)
  then show ?thesis
    using S r assms(2,3) by (intro that [of OA']) (simp_all add: Unexport_def Find_Entry_outcome [OF assms(1)])
qed

lemma Unexport_unknown:
  assumes "soa_ok OA" "objects OA i = None" "1 \<le> i" "Simple_OA_Index host Ident = Inr i"
  shows "Unexport host OA Ident No_Error = (Returns Invalid_Object_Id_E, OA)"
  using assms(2-4) by (simp add: Unexport_def Find_Entry_outcome [OF assms(1)] Throw_def Is_Error_def)

lemma Set_Interface_Description_ok:
  assumes "soa_ok OA" "objects OA i = Some OME" "Simple_OA_Index host Ident = Inr i"
  obtains OA' where "Set_Interface_Description host OA Ident Desc = (Returns (), OA')" "soa_ok OA'" "S_Exec OA' = S_Exec OA"
    "objects OA' = (objects OA)(i \<mapsto> OME\<lparr>If_Desc := Desc\<rparr>)"
proof -
  note r = objects_range [OF assms(1,2)]
  obtain OA' where "Store_Entry OA i (OME\<lparr>If_Desc := Desc\<rparr>) = (Returns (), OA')" "soa_ok OA'" "S_Exec OA' = S_Exec OA"
    "objects OA' = (objects OA)(i := if SOA_Servant (OME\<lparr>If_Desc := Desc\<rparr>) = None then None else Some (OME\<lparr>If_Desc := Desc\<rparr>))"
    by (rule Store_Entry_ok [OF assms(1) r(4,2)])
  then show ?thesis
    using r assms(2,3) by (intro that [of OA']) (simp_all add: Set_Interface_Description_def Find_Entry_outcome [OF assms(1)])
qed

lemma Set_Interface_Description_unknown:
  assumes "soa_ok OA" "objects OA i = None" "1 \<le> i" "Simple_OA_Index host Ident = Inr i"
  shows "Set_Interface_Description host OA Ident Desc = (Returns (), OA)"
  using assms(2-4) by (simp add: Set_Interface_Description_def Find_Entry_outcome [OF assms(1)])

text \<open>An index below the table raises with the lock entered.\<close>

lemma below_first:
  assumes "soa_ok OA" "Simple_OA_Index host Ident = Inr i" "i < 1"
  shows "Unexport host OA Ident Error = (Raises Constraint_Error, OA\<lparr>Lock := Some True\<rparr>)"
    "Set_Interface_Description host OA Ident Desc = (Raises Constraint_Error, OA\<lparr>Lock := Some True\<rparr>)"
    "Find_Servant host OA Ident V Exec Error = (Raises Constraint_Error, OA\<lparr>Lock := Some True\<rparr>)"
  using assms(2,3)
  by (simp_all add: Unexport_def Set_Interface_Description_def Find_Servant_def Find_Entry_outcome [OF assms(1)])

section \<open>The interface of an object adapter\<close>

text \<open>
  What the users of an adapter rely on: an operation that returns keeps every object that it does not remove. It is
  stated for operations of any kind; \<open>perform\<close> gives the state when the operation returns.
\<close>

fun perform_all :: "('op \<Rightarrow> 'o \<Rightarrow> 'o option) \<Rightarrow> 'op list \<Rightarrow> 'o \<Rightarrow> 'o option" where
  "perform_all perform [] s = Some s"
| "perform_all perform (op # ops) s = (case perform op s of None \<Rightarrow> None | Some s' \<Rightarrow> perform_all perform ops s')"

locale object_adapter =
  fixes ok :: "'o \<Rightarrow> bool"
    and object_of :: "'o \<Rightarrow> 'i \<Rightarrow> 's option"
    and perform :: "'op \<Rightarrow> 'o \<Rightarrow> 'o option"
    and removes :: "'op \<Rightarrow> 'i \<Rightarrow> bool"
  assumes performed: "ok s \<Longrightarrow> perform op s = Some s' \<Longrightarrow> ok s'"
    and kept: "ok s \<Longrightarrow> perform op s = Some s' \<Longrightarrow> object_of s i = Some x \<Longrightarrow> \<not> removes op i \<Longrightarrow> object_of s' i = Some x"
begin

lemma stays:
  assumes "ok s" "perform_all perform ops s = Some s'" "object_of s i = Some x" "\<And>op. op \<in> set ops \<Longrightarrow> \<not> removes op i"
  shows "ok s' \<and> object_of s' i = Some x"
  using assms
proof (induction ops arbitrary: s)
  case (Cons op ops)
  obtain t where t: "perform op s = Some t" "perform_all perform ops t = Some s'"
    using Cons.prems(2) by (auto split: option.splits)
  show ?case
    using Cons.IH [OF performed [OF Cons.prems(1) t(1)] t(2) kept [OF Cons.prems(1) t(1) Cons.prems(3)]] Cons.prems(4)
    by auto
qed simp

end

datatype ('a, 'r) adapter_op =
  Export_Op "nat" | Unexport_Op Object_Id | Describe_Op Object_Id "('a, 'r) Interface_Description" | Find_Op Object_Id

fun returned :: "'x completion \<times> 's \<Rightarrow> 's option" where
  "returned (Returns x, s) = Some s"
| "returned (c, s) = None"

definition perform :: "Endianness_Type \<Rightarrow> ('a, 'r) adapter_op \<Rightarrow> ('a, 'r) Simple_Obj_Adapter \<Rightarrow> ('a, 'r) Simple_Obj_Adapter option" where
  "perform host op OA =
     (case op of
        Export_Op S \<Rightarrow> returned (Export host OA (Some S) None None No_Error)
      | Unexport_Op oid \<Rightarrow> returned (Unexport host OA (Some oid) No_Error)
      | Describe_Op oid Desc \<Rightarrow> returned (Set_Interface_Description host OA (Some oid) Desc)
      | Find_Op oid \<Rightarrow> returned (Find_Servant host OA (Some oid) None Map.empty No_Error))"

text \<open>The servant of an identifier and the executor that it gets.\<close>

definition servant_of :: "Endianness_Type \<Rightarrow> ('a, 'r) Simple_Obj_Adapter \<Rightarrow> Object_Id \<Rightarrow> (nat \<times> nat) option" where
  "servant_of host OA oid =
     (if length oid \<noteq> 4 then None
      else case objects OA (Oid_To_Index host oid) of
             None \<Rightarrow> None
           | Some OME \<Rightarrow> map_option (\<lambda>S. (S, S_Exec OA)) (SOA_Servant OME))"

lemma perform_outcome:
  assumes "soa_ok OA" "perform host op OA = Some OA'"
  shows "soa_ok OA' \<and> S_Exec OA' = S_Exec OA \<and>
    (case op of
       Export_Op S \<Rightarrow> \<exists>i. objects OA i = None \<and>
         objects OA' = (objects OA)(i \<mapsto> \<lparr>SOA_Servant = Some S, If_Desc = No_Desc\<rparr>)
     | Unexport_Op oid \<Rightarrow> length oid = 4 \<and> objects OA' = (objects OA)(Oid_To_Index host oid := None)
     | Describe_Op oid Desc \<Rightarrow>
         objects OA' = (objects OA)(Oid_To_Index host oid := map_option (If_Desc_update (\<lambda>_. Desc)) (objects OA (Oid_To_Index host oid)))
     | Find_Op oid \<Rightarrow> OA' = OA)"
proof (cases op)
  case (Export_Op S)
  then show ?thesis
    using assms by (cases rule: Export_outcome [OF assms(1), of host S None No_Error]) (auto simp: perform_def)
next
  case (Unexport_Op oid)
  let ?i = "Oid_To_Index host oid"
  have u: "returned (Unexport host OA (Some oid) No_Error) = Some OA'" using assms(2) Unexport_Op by (simp add: perform_def)
  have l: "length oid = 4" using u by (rule contrapos_pp) (simp add: Unexport_def)
  have "1 \<le> ?i" using u l by (rule_tac ccontr) (simp add: below_first(1) [OF assms(1)])
  then show ?thesis
    using u l Unexport_unknown [OF assms(1), of ?i host "Some oid"] Unexport_Op assms(1)
    by (cases "objects OA ?i") (auto elim: Unexport_ok [OF assms(1), of ?i _ host "Some oid"])
next
  case (Describe_Op oid Desc)
  let ?i = "Oid_To_Index host oid"
  have u: "returned (Set_Interface_Description host OA (Some oid) Desc) = Some OA'"
    using assms(2) Describe_Op by (simp add: perform_def)
  have l: "length oid = 4" using u by (rule contrapos_pp) (simp add: Set_Interface_Description_def)
  have "1 \<le> ?i" using u l by (rule_tac ccontr) (simp add: below_first(2) [OF assms(1)])
  then show ?thesis
    using u l Set_Interface_Description_unknown [OF assms(1), of ?i host "Some oid"] Describe_Op assms(1)
    by (cases "objects OA ?i") (auto elim: Set_Interface_Description_ok [OF assms(1), of ?i _ host "Some oid" Desc])
next
  case (Find_Op oid)
  then show ?thesis
    using assms by (simp add: perform_def Find_Servant_outcome [OF assms(1)] split: if_splits option.splits)
qed

lemma servant_of_kept:
  assumes "soa_ok OA" "perform host op OA = Some OA'" "servant_of host OA oid = Some x" "op \<noteq> Unexport_Op oid"
  shows "servant_of host OA' oid = Some x"
proof -
  have l: "length oid = 4" using assms(3) by (simp add: servant_of_def split: if_splits)
  have same: "oid' = oid" if "length oid' = 4" "Oid_To_Index host oid' = Oid_To_Index host oid" for oid'
    using that l Index_To_Oid_To_Index by metis
  let ?k = "Oid_To_Index host oid"
  obtain OME where k: "objects OA ?k = Some OME" "map_option (\<lambda>S. (S, S_Exec OA)) (SOA_Servant OME) = Some x"
    using assms(3) l by (auto simp: servant_of_def split: option.splits)
  note P = perform_outcome [OF assms(1,2)]
  have "\<exists>OME'. objects OA' ?k = Some OME' \<and> SOA_Servant OME' = SOA_Servant OME"
  proof (cases op)
    case (Export_Op S)
    then obtain i where "objects OA i = None" "objects OA' = (objects OA)(i \<mapsto> \<lparr>SOA_Servant = Some S, If_Desc = No_Desc\<rparr>)"
      using P by auto
    then show ?thesis using k(1) by (cases "i = ?k") simp_all
  next
    case (Unexport_Op oid')
    then have "Oid_To_Index host oid' \<noteq> ?k" using P assms(4) same [of oid'] by auto
    then show ?thesis using P k(1) Unexport_Op by simp
  next
    case (Describe_Op oid' Desc)
    then show ?thesis using P k(1) by (cases "Oid_To_Index host oid' = ?k") simp_all
  next
    case (Find_Op oid')
    then show ?thesis using P k(1) by simp
  qed
  then show ?thesis using l k(2) P by (auto simp: servant_of_def)
qed

interpretation soa: object_adapter soa_ok "servant_of host" "perform host" "\<lambda>op oid. op = Unexport_Op oid"
  for host
  by unfold_locales (auto dest: perform_outcome servant_of_kept)

lemma Find_Servant_servant:
  assumes "soa_ok OA" "servant_of host OA oid = Some (S, E)"
  shows "Find_Servant host OA (Some oid) V Exec No_Error = (Returns (Some S, Exec(S \<mapsto> E), No_Error), OA)"
proof -
  have l: "length oid = 4" using assms(2) by (simp add: servant_of_def split: if_splits)
  with assms(2) obtain OME where "objects OA (Oid_To_Index host oid) = Some OME" "SOA_Servant OME = Some S" "E = S_Exec OA"
    by (auto simp: servant_of_def split: option.splits)
  then show ?thesis using l objects_range(1) [OF assms(1)] by (simp add: Find_Servant_outcome [OF assms(1)] not_less)
qed

lemma Create_ok:
  obtains OA where "Create (New_Adapter E) = (Returns (), OA)" "soa_ok OA" "soa_room OA" "S_Exec OA = E" "objects OA = Map.empty"
proof -
  let ?T = "\<lparr>Table = Some (replicate 10 (Null_Entry :: ('a, 'b) SOA_Entry)), Is_Initialized = True, Max = 10, Length = 10, Last_Val = 0\<rparr>"
  let ?OA = "\<lparr>Object_Map = ?T, S_Exec = E, Lock = Some False\<rparr>"
  have "Initialize Null_Entry SOA_Params (Null_Instance SOA_Params) = Inr ?T"
    using Initialize_fresh [OF SOA_Params_simps(3), of Null_Entry] by (simp add: SOA_Params_def)
  then have "Create (New_Adapter E) = (Returns (), ?OA)" by (simp add: Create_def New_Adapter_def)
  moreover have "soa_ok ?OA" "soa_room ?OA" "S_Exec ?OA = E"
    by (simp_all add: soa_ok_def table_inv_def soa_room_def room_def SOA_Params_def Integer_Last_def)
  moreover have "objects ?OA = Map.empty"
    by (auto simp: fun_eq_iff objects_def Last_def below_table)
  ultimately show thesis by (rule that)
qed

section \<open>Properties\<close>

text \<open>
  Property C26. Exporting a servant gives an identifier that designated nothing before, and after any sequence of
  operations that return, none of which removes this identifier, the adapter finds the servant by it and
  gives it the executor of the adapter.
\<close>

theorem exported_object_found:
  assumes "soa_ok OA" "soa_room OA"
  shows "\<exists>oid OA'. Export host OA (Some S) None None No_Error = (Returns (Some oid, No_Error), OA') \<and>
    servant_of host OA oid = None \<and>
    (\<forall>ops OA''. perform_all (perform host) ops OA' = Some OA'' \<and> Unexport_Op oid \<notin> set ops \<longrightarrow>
       Find_Servant host OA'' (Some oid) V Exec No_Error = (Returns (Some S, Exec(S \<mapsto> S_Exec OA), No_Error), OA''))"
proof (cases rule: Export_outcome [OF assms(1), of host S None No_Error, case_names returns raises])
  case (returns i OA')
  let ?oid = "Index_To_Oid host i"
  have i: "Oid_To_Index host ?oid = i" "length ?oid = 4"
    using Oid_To_Index_To_Oid [of i host] returns(4-6) by (simp_all add: Integer_First_def)
  have "servant_of host OA' ?oid = Some (S, S_Exec OA)" using i returns(3,9) by (simp add: servant_of_def)
  then have "Find_Servant host OA'' (Some ?oid) V Exec No_Error = (Returns (Some S, Exec(S \<mapsto> S_Exec OA), No_Error), OA'')"
    if "perform_all (perform host) ops OA' = Some OA''" "Unexport_Op ?oid \<notin> set ops" for ops OA''
    using soa.stays [OF returns(2) that(1), of ?oid "(S, S_Exec OA)"] that(2) Find_Servant_servant by blast
  moreover have "servant_of host OA ?oid = None" using i returns(7) by (simp add: servant_of_def)
  ultimately show ?thesis using returns(1) by blast
qed (use assms(2) in simp)

text \<open>A new adapter, and what two operations do to an object that it holds.\<close>

definition sample_adapter :: "(unit, unit) Simple_Obj_Adapter" where
  "sample_adapter = snd (Create (New_Adapter 3))"

lemma sample_adapter_ok: "soa_ok sample_adapter" "soa_room sample_adapter" "S_Exec sample_adapter = 3" "objects sample_adapter = Map.empty"
  by (rule Create_ok [of 3, where ?'a = unit and ?'b = unit]; simp add: sample_adapter_def)+

theorem exported_object_found_witness:
  "\<exists>oid OA'. Export Little_Endian sample_adapter (Some 7) None None No_Error = (Returns (Some oid, No_Error), OA') \<and>
    fst (Find_Servant Little_Endian OA' (Some oid) None Map.empty No_Error) = Returns (Some 7, [7 \<mapsto> 3], No_Error)"
proof -
  obtain oid OA' where E: "Export Little_Endian sample_adapter (Some 7) None None No_Error = (Returns (Some oid, No_Error), OA')"
    "\<forall>ops OA''. perform_all (perform Little_Endian) ops OA' = Some OA'' \<and> Unexport_Op oid \<notin> set ops \<longrightarrow>
      Find_Servant Little_Endian OA'' (Some oid) None Map.empty No_Error = (Returns (Some 7, [7 \<mapsto> 3], No_Error), OA'')"
    using exported_object_found [OF sample_adapter_ok(1,2), of Little_Endian 7 None Map.empty] sample_adapter_ok(3) by auto
  show ?thesis using E(1) E(2) [rule_format, of "[]" OA'] by auto
qed

text \<open>
  Property C27. The code checks the index in an identifier against the upper bound of the table only. Four octets that are
  a number below one, which a client can send in a request, make the lookup raise Constraint_Error
  with the lock entered; from then on every export and every operation on any identifier waits forever.
\<close>

theorem wire_index_blocks:
  assumes "soa_ok OA" "length oid = 4" "Oid_To_Index host oid < 1"
  shows "\<exists>OA'. Find_Servant host OA (Some oid) V Exec No_Error = (Raises Constraint_Error, OA') \<and>
    (\<forall>S. Export host OA' (Some S) None None No_Error = (Blocks, OA')) \<and>
    (\<forall>oid'. length oid' = 4 \<longrightarrow>
       Find_Servant host OA' (Some oid') V Exec No_Error = (Blocks, OA') \<and>
       Unexport host OA' (Some oid') No_Error = (Blocks, OA') \<and>
       (\<forall>Desc. Set_Interface_Description host OA' (Some oid') Desc = (Blocks, OA')) \<and>
       (\<forall>R M. Get_Empty_Arg_List R host OA' (Some oid') M = (Blocks, OA')) \<and>
       (\<forall>R M. Get_Empty_Result R host OA' (Some oid') M = (Blocks, OA')))"
proof -
  let ?OA = "OA\<lparr>Lock := Some True\<rparr>"
  have held: "Lock ?OA = Some True" by simp
  have "Find_Servant host OA (Some oid) V Exec No_Error = (Raises Constraint_Error, ?OA)"
    using assms by (simp add: below_first(3))
  moreover have "Export host ?OA (Some S) None None No_Error = (Blocks, ?OA)" for S
    using soa_okD(4) [OF assms(1)] by (simp add: Export_def Lock_Enter_def Let_def)
  ultimately show ?thesis
    by (intro exI [of _ ?OA])
      (simp add: Find_Servant_def Unexport_def Set_Interface_Description_def Get_Empty_Arg_List_def Get_Empty_Result_def
        Find_Entry_held [OF held])
qed

theorem wire_index_blocks_witness:
  "\<exists>OA'. Find_Servant Big_Endian sample_adapter (Some [0, 0, 0, 0]) None Map.empty No_Error = (Raises Constraint_Error, OA') \<and>
    Export Big_Endian OA' (Some 7) None None No_Error = (Blocks, OA')"
proof -
  have "Oid_To_Index Big_Endian [0, 0, 0, 0] = 0" by (simp add: Oid_To_Index_def Stored_Item_def in_order_def)
  then show ?thesis using wire_index_blocks [OF sample_adapter_ok(1), of "[0, 0, 0, 0]" Big_Endian None Map.empty] by auto
qed

text \<open>
  Property C40. \<open>Set_Interface_Description\<close> reads an entry and stores it in two critical sections. When another task
  removes the object between them and exports a new servant, which gets the same identifier, the
  second section overwrites the new entry: the identifier then designates the servant that has been removed.
\<close>

theorem description_overwrites_successor:
  assumes "soa_ok OA" "objects OA i = Some OME" "\<And>j. 1 \<le> j \<Longrightarrow> j < i \<Longrightarrow> objects OA j \<noteq> None" "soa_room OA"
  shows "\<exists>OA1 OA2 OA3.
    Find_Entry OA i No_Error = (Returns (OME, No_Error), OA) \<and>
    Unexport host OA (Some (Index_To_Oid host i)) No_Error = (Returns No_Error, OA1) \<and>
    Export host OA1 (Some S) None None No_Error = (Returns (Some (Index_To_Oid host i), No_Error), OA2) \<and>
    Store_Entry OA2 i (OME\<lparr>If_Desc := Desc\<rparr>) = (Returns (), OA3) \<and>
    Find_Servant host OA3 (Some (Index_To_Oid host i)) V Exec No_Error =
      (Returns (SOA_Servant OME, Exec(the (SOA_Servant OME) \<mapsto> S_Exec OA), No_Error), OA3)"
proof -
  note r = objects_range [OF assms(1,2)]
  let ?oid = "Index_To_Oid host i"
  have "Last (Object_Map OA) \<le> Integer_Last" using assms(1) by (auto simp: soa_ok_def table_inv_def Last_def)
  then have ix: "Oid_To_Index host ?oid = i" "length ?oid = 4"
    using Oid_To_Index_To_Oid [of i host] r(1,2) by (simp_all add: Integer_First_def)
  then have s: "Simple_OA_Index host (Some ?oid) = Inr i" by simp
  obtain OA1 where U: "Unexport host OA (Some ?oid) No_Error = (Returns No_Error, OA1)" "soa_ok OA1" "S_Exec OA1 = S_Exec OA"
    "soa_room OA1 = soa_room OA" "objects OA1 = (objects OA)(i := None)"
    by (rule Unexport_ok [OF assms(1,2) s])
  show ?thesis
  proof (cases rule: Export_outcome [OF U(2), of host S None No_Error, case_names returns raises])
    case (returns k OA2)
    have "\<not> i < k" using returns(8) [of i] U(5) r(1) by auto
    moreover have "\<not> k < i" using returns(4,7) U(5) assms(3) [of k] by auto
    ultimately have k: "k = i" by simp
    have e: "objects OA2 i = Some \<lparr>SOA_Servant = Some S, If_Desc = No_Desc\<rparr>" using returns(9) k by simp
    note r2 = objects_range [OF returns(2) e]
    obtain OA3 where T: "Store_Entry OA2 i (OME\<lparr>If_Desc := Desc\<rparr>) = (Returns (), OA3)" "soa_ok OA3" "S_Exec OA3 = S_Exec OA2"
      "objects OA3 = (objects OA2)(i := if SOA_Servant (OME\<lparr>If_Desc := Desc\<rparr>) = None then None else Some (OME\<lparr>If_Desc := Desc\<rparr>))"
      by (rule Store_Entry_ok [OF returns(2) r2(4,2)])
    have "Find_Servant host OA3 (Some ?oid) V Exec No_Error =
        (Returns (SOA_Servant OME, Exec(the (SOA_Servant OME) \<mapsto> S_Exec OA), No_Error), OA3)"
      using T(3,4) U(3) returns(3) r(1,3) ix by (simp add: Find_Servant_outcome [OF T(2)])
    moreover have "Find_Entry OA i No_Error = (Returns (OME, No_Error), OA)"
      using assms(2) r(1) by (simp add: Find_Entry_outcome [OF assms(1)])
    ultimately show ?thesis using U(1) returns(1) T(1) k by blast
  qed (use U(4) assms(4) in simp)
qed

text \<open>An adapter with one object, and a description for it.\<close>

definition used_adapter :: "(unit, unit) Simple_Obj_Adapter" where
  "used_adapter =
     \<lparr>Object_Map = \<lparr>Table = Some (\<lparr>SOA_Servant = Some 7, If_Desc = No_Desc\<rparr> # replicate 9 Null_Entry),
        Is_Initialized = True, Max = 10, Length = 10, Last_Val = 1\<rparr>, S_Exec = 3, Lock = Some False\<rparr>"

definition unit_desc :: "(unit, unit) Interface_Description" where
  "unit_desc = \<lparr>PP_Desc = Some (\<lambda>_. ()), RP_Desc = Some (\<lambda>_. ())\<rparr>"

theorem description_overwrites_successor_witness:
  "\<exists>OA1 OA2 OA3.
    Unexport Little_Endian used_adapter (Some (Index_To_Oid Little_Endian 1)) No_Error = (Returns No_Error, OA1) \<and>
    Export Little_Endian OA1 (Some 8) None None No_Error = (Returns (Some (Index_To_Oid Little_Endian 1), No_Error), OA2) \<and>
    Store_Entry OA2 1 \<lparr>SOA_Servant = Some 7, If_Desc = unit_desc\<rparr> = (Returns (), OA3) \<and>
    Find_Servant Little_Endian OA3 (Some (Index_To_Oid Little_Endian 1)) None Map.empty No_Error =
      (Returns (Some 7, [7 \<mapsto> 3], No_Error), OA3)"
proof -
  have ok: "soa_ok used_adapter" "soa_room used_adapter" "S_Exec used_adapter = 3"
    by (simp_all add: used_adapter_def soa_ok_def table_inv_def soa_room_def room_def SOA_Params_def Integer_Last_def)
  have one: "objects used_adapter 1 = Some \<lparr>SOA_Servant = Some 7, If_Desc = No_Desc\<rparr>"
    by (simp add: used_adapter_def objects_def Last_def table_get_def)
  have first: "objects used_adapter j \<noteq> None" if "1 \<le> j" "j < 1" for j :: int using that by simp
  show ?thesis
    using description_overwrites_successor [OF ok(1) one first ok(2), of Little_Endian 8 unit_desc None Map.empty] ok(3)
    by simp
qed

text \<open>
  \<open>Get_Empty_Result\<close> tests the access value for argument lists before it calls the one for results: a description
  that has only the former raises, and one that has only the latter is not used.
\<close>

theorem Get_Empty_Result_tests_PP:
  assumes "soa_ok OA" "objects OA (Oid_To_Index host oid) = Some OME" "length oid = 4"
    and "If_Desc OME = \<lparr>PP_Desc = pp, RP_Desc = rp\<rparr>" "(pp = None) \<noteq> (rp = None)"
  shows "Get_Empty_Result R host OA (Some oid) M = (if pp = None then Returns R else Raises Constraint_Error, OA)"
  using assms(2-5) objects_range(1) [OF assms(1,2)]
  by (auto simp: Get_Empty_Result_def Find_Entry_outcome [OF assms(1)])

text \<open>Reading the URI of an object gives its identifier.\<close>

theorem Rel_URI_roundtrip: "Rel_URI_To_Oid (Oid_To_Rel_URI oid) = Inr oid"
  by (simp add: Rel_URI_To_Oid_def Oid_To_Rel_URI_def Oid_To_Hex_String_def Hex_String_To_Oid_def Hex_String_inverse)

end
