(* ===== verification/Perfect_Htables.thy ===== *)
theory Perfect_Htables
  imports Prelude "HOL-Library.Multiset"
begin

text \<open>
  PolyORB.Utils.HTables.Perfect (\<open>src/src/polyorb-utils-htables-perfect.adb\<close>): dynamic perfect hash tables, after
  Dietzfelbinger et al. An array of elements is divided into subtables; a first hash function selects the subtable of a
  key, and the function of the subtable its only possible place there. The hash functions are formal parameters of the
  generic package. The loops that look for a hash function, and those that move elements to their places,
  are partial functions; a table is extended with entries that the code overwrites before it reads them.
\<close>

section \<open>The data\<close>

text \<open>The formal parameters of the package.\<close>

record 'p hash_family =
  Default_Hash_Parameters :: 'p
  Hash :: "string \<Rightarrow> 'p \<Rightarrow> nat \<Rightarrow> nat"
  Next_Hash_Parameters :: "'p \<Rightarrow> 'p"

record Element =
  Key :: "string option"
  Used :: bool
  ST_Index :: nat
  ST_Offset :: nat
  Item_Index :: nat

definition Empty :: Element where
  "Empty = \<lparr>Key = None, Used = False, ST_Index = 0, ST_Offset = 0, Item_Index = 0\<rparr>"

record 'p Subtable =
  ST_First :: nat
  ST_Last :: nat
  ST_Count :: nat
  ST_High :: nat
  ST_Max :: nat
  ST_HParam :: 'p

record 'p Table_Info =
  Count :: nat
  High :: nat
  N_Subtables :: nat
  HParam :: 'p

record 'p Hash_Table =
  Info :: "'p Table_Info"
  Elements :: "Element list"
  Subtables :: "'p Subtable list"

record ('p, 'i) Table =
  HTable :: "'p Hash_Table"
  Items :: "'i option list"

definition Default_Max :: nat where "Default_Max = 10"

section \<open>Auxiliary procedures\<close>

definition Swap_Elements :: "Element list \<Rightarrow> nat \<Rightarrow> nat \<Rightarrow> Element list" where
  "Swap_Elements Es Index1 Index2 = Es[Index1 := Es ! Index2, Index2 := Es ! Index1]"

definition rehash_element :: "'p hash_family \<Rightarrow> nat \<Rightarrow> 'p Subtable \<Rightarrow> Element \<Rightarrow> Element" where
  "rehash_element F s ST e = (case Key e of
     Some k \<Rightarrow> if Used e then e\<lparr>ST_Index := s, ST_Offset := Hash F k (ST_HParam ST) (ST_Max ST)\<rparr> else e
   | None \<Rightarrow> e)"

text \<open>A loop that updates the elements of a range, each by itself.\<close>

definition update_range :: "(Element \<Rightarrow> Element) \<Rightarrow> nat \<Rightarrow> nat \<Rightarrow> Element list \<Rightarrow> Element list" where
  "update_range f a b Es = fold (\<lambda>J Es. Es[J := f (Es ! J)]) [a..<b] Es"

definition Rehash_Subtable :: "'p hash_family \<Rightarrow> nat \<Rightarrow> 'p Hash_Table \<Rightarrow> 'p Hash_Table" where
  "Rehash_Subtable F s T = (let ST = Subtables T ! s in
     T\<lparr>Elements := update_range (rehash_element F s ST) (ST_First ST) (Suc (ST_Last ST)) (Elements T)\<rparr>)"

definition Is_Injective :: "nat \<Rightarrow> 'p Hash_Table \<Rightarrow> bool" where
  "Is_Injective s T = (let ST = Subtables T ! s; Es = Elements T in
     \<forall>J\<in>set [ST_First ST..<ST_Last ST]. \<forall>K\<in>set [J + 1..<Suc (ST_Last ST)].
       \<not> (Used (Es ! J) \<and> Used (Es ! K) \<and> ST_Offset (Es ! J) = ST_Offset (Es ! K)))"

definition set_HParam :: "nat \<Rightarrow> 'p \<Rightarrow> 'p Hash_Table \<Rightarrow> 'p Hash_Table" where
  "set_HParam s p T = T\<lparr>Subtables := (Subtables T)[s := (Subtables T ! s)\<lparr>ST_HParam := p\<rparr>]\<rparr>"

partial_function (option) find_hash_loop :: "'p hash_family \<Rightarrow> nat \<Rightarrow> 'p Hash_Table \<Rightarrow> 'p Hash_Table option" where
  "find_hash_loop F s T = (let T1 = Rehash_Subtable F s T in
     if Is_Injective s T1 then Some T1
     else find_hash_loop F s (set_HParam s (Next_Hash_Parameters F (ST_HParam (Subtables T1 ! s))) T1))"

definition Find_Hash_For_Subtable :: "'p hash_family \<Rightarrow> nat \<Rightarrow> 'p Hash_Table \<Rightarrow> 'p Hash_Table option" where
  "Find_Hash_For_Subtable F s T = find_hash_loop F s (set_HParam s (Default_Hash_Parameters F) T)"

text \<open>The first place of the subtable that is free, or holds a deleted key.\<close>

fun add_key_loop :: "string \<Rightarrow> nat list \<Rightarrow> Element list \<Rightarrow> Element list result" where
  "add_key_loop K [] Es = Inl Assert_Failure"
| "add_key_loop K (J # Js) Es =
     (if Key (Es ! J) = None \<or> \<not> Used (Es ! J) then Inr (Es[J := (Es ! J)\<lparr>Key := Some K, Used := True\<rparr>])
      else add_key_loop K Js Es)"

definition Add_Key_To_Subtable :: "string \<Rightarrow> nat \<Rightarrow> 'p Hash_Table \<Rightarrow> 'p Hash_Table result" where
  "Add_Key_To_Subtable K s T = (let ST = Subtables T ! s in
     on_ok (add_key_loop K [ST_First ST..<Suc (ST_Last ST)] (Elements T)) (\<lambda>Es. Inr (T\<lparr>Elements := Es\<rparr>)))"

text \<open>The loop of \<open>Process_Subtable\<close> for one place: elements are swapped to where their offset says.\<close>

partial_function (option) settle_loop :: "nat \<Rightarrow> nat \<Rightarrow> Element list \<Rightarrow> Element list option" where
  "settle_loop base J Es = (let Offset = base + ST_Offset (Es ! J) in
     if Used (Es ! J) \<and> J \<noteq> Offset then settle_loop base J (Swap_Elements Es J Offset) else Some Es)"

fun settle_all :: "nat \<Rightarrow> nat list \<Rightarrow> Element list \<Rightarrow> Element list option" where
  "settle_all base [] Es = Some Es"
| "settle_all base (J # Js) Es = Option.bind (settle_loop base J Es) (settle_all base Js)"

definition Process_Subtable :: "'p hash_family \<Rightarrow> nat \<Rightarrow> 'p Hash_Table \<Rightarrow> 'p Hash_Table option" where
  "Process_Subtable F s T = Option.bind (Find_Hash_For_Subtable F s T) (\<lambda>T1.
     let ST = Subtables T1 ! s in
     map_option (\<lambda>Es. T1\<lparr>Elements := Es\<rparr>) (settle_all (ST_First ST) [ST_First ST..<Suc (ST_Last ST)] (Elements T1)))"

section \<open>Reorganization of the whole table\<close>

text \<open>The two indices of the loop that moves the elements in use to the front.\<close>

function retreat :: "Element list \<Rightarrow> nat \<Rightarrow> nat \<Rightarrow> nat" where
  "retreat Es i1 i2 = (if \<not> Used (Es ! i2) \<and> i1 + 1 < i2 then retreat Es i1 (i2 - 1) else i2)"
  by pat_completeness auto
termination by (relation "measure (\<lambda>(Es, i1, i2). i2)") auto

declare retreat.simps [simp del]

lemma retreat_le: "retreat Es i1 i2 \<le> i2"
  by (induction Es i1 i2 rule: retreat.induct) (subst retreat.simps, force)

function compact :: "Element list \<Rightarrow> nat \<Rightarrow> nat \<Rightarrow> Element list" where
  "compact Es i1 i2 = (if i1 < i2
     then (if \<not> Used (Es ! i1)
           then (let i2' = retreat Es i1 i2 in
                 compact (if Used (Es ! i2') \<and> i1 < i2' then Swap_Elements Es i1 i2' else Es) (i1 + 1) i2')
           else compact Es (i1 + 1) i2)
     else Es)"
  by pat_completeness auto
termination
proof (relation "measure (\<lambda>(Es, i1, i2). i2 - i1)")
  fix Es :: "Element list" and i1 i2 x :: nat
  assume "i1 < i2" "x = retreat Es i1 i2"
  then show "((if Used (Es ! x) \<and> i1 < x then Swap_Elements Es i1 x else Es, i1 + 1, x), Es, i1, i2)
      \<in> measure (\<lambda>(Es, i1, i2). i2 - i1)"
    using retreat_le [of Es i1 i2] by auto
qed auto

declare compact.simps [simp del]

definition put_last :: "string \<Rightarrow> Element list \<Rightarrow> Element list" where
  "put_last K Es = Es[length Es - 1 := (last Es)\<lparr>Key := Some K, Used := True\<rparr>]"

text \<open>One attempt with a hash function for the table: the distribution of the elements, and the sizes of the subtables.\<close>

definition reset_subtable :: "'p hash_family \<Rightarrow> 'p Subtable \<Rightarrow> 'p Subtable" where
  "reset_subtable F ST = ST\<lparr>ST_Count := 0, ST_HParam := Default_Hash_Parameters F\<rparr>"

definition distribute_one :: "'p hash_family \<Rightarrow> nat \<Rightarrow> 'p Hash_Table \<Rightarrow> 'p Hash_Table" where
  "distribute_one F J T =
     (let e = Elements T ! J; s = Hash F (the (Key e)) (HParam (Info T)) (N_Subtables (Info T)) in
      T\<lparr>Elements := (Elements T)[J := e\<lparr>ST_Index := s\<rparr>],
        Subtables := (Subtables T)[s := (Subtables T ! s)\<lparr>ST_Count := ST_Count (Subtables T ! s) + 1\<rparr>]\<rparr>)"

definition size_subtable :: "'p Subtable \<Rightarrow> 'p Subtable" where
  "size_subtable ST = (if ST_Count ST = 0 then ST\<lparr>ST_High := 1, ST_Max := 2\<rparr>
     else let h = 2 * ST_Count ST in ST\<lparr>ST_High := h, ST_Max := 2 * h * (h - 1)\<rparr>)"

definition distribute :: "'p hash_family \<Rightarrow> 'p Hash_Table \<Rightarrow> 'p Hash_Table" where
  "distribute F T =
     (let T1 = T\<lparr>Subtables := map (reset_subtable F) (Subtables T)\<rparr>;
          T2 = fold (distribute_one F) [0..<Count (Info T1)] T1 in
      T2\<lparr>Subtables := map size_subtable (Subtables T2)\<rparr>)"

definition Max_Sum :: "'p Hash_Table \<Rightarrow> nat" where
  "Max_Sum T = sum_list (map ST_Max (Subtables T))"

partial_function (option) find_table_hash :: "'p hash_family \<Rightarrow> 'p Hash_Table \<Rightarrow> 'p Hash_Table option" where
  "find_table_hash F T = (let T1 = distribute F T in
     if Max_Sum T1 \<le> 44 * High (Info T1) div 3 then Some T1
     else find_table_hash F (T1\<lparr>Info := (Info T1)\<lparr>HParam := Next_Hash_Parameters F (HParam (Info T1))\<rparr>\<rparr>))"

fun boundaries :: "nat \<Rightarrow> 'p Subtable list \<Rightarrow> 'p Subtable list" where
  "boundaries i [] = []"
| "boundaries i (ST # Ss) = ST\<lparr>ST_First := i, ST_Last := i + ST_Max ST - 1\<rparr> # boundaries (i + ST_Max ST) Ss"

text \<open>
  The loop that moves the element at \<open>J\<close> to its subtable. The variables \<open>ST_Index\<close> and \<open>ST_Offset\<close> of the code are
  arguments; \<open>E_Index\<close> is always computed from them. An element that is not in use leaves \<open>ST_Offset\<close> as it was. The search
  for a free place in a subtable that has none would leave the array; that it does not, and that the keys that are read are not
  null, is part of the theorems below.
\<close>

fun free_place :: "Element list \<Rightarrow> nat \<Rightarrow> nat list \<Rightarrow> nat option" where
  "free_place Es s [] = None"
| "free_place Es s (i # is) = (if Used (Es ! i) \<and> s = ST_Index (Es ! i) then free_place Es s is else Some i)"

definition misplaced :: "'p Subtable list \<Rightarrow> nat \<Rightarrow> nat \<Rightarrow> nat \<Rightarrow> bool" where
  "misplaced Ss s ofs J = (let ST = Ss ! s in
     (J \<noteq> ofs + ST_First ST \<and> ST_Count ST = 1) \<or> J < ST_First ST \<or> J > ST_Last ST)"

definition offset_of :: "'p hash_family \<Rightarrow> 'p Subtable list \<Rightarrow> Element \<Rightarrow> nat \<Rightarrow> nat" where
  "offset_of F Ss e old = (if Used e then Hash F (the (Key e)) (ST_HParam (Ss ! ST_Index e)) (ST_Max (Ss ! ST_Index e)) else old)"

partial_function (option) reorder_loop ::
    "'p hash_family \<Rightarrow> 'p Subtable list \<Rightarrow> nat \<Rightarrow> nat \<Rightarrow> nat \<Rightarrow> Element list \<Rightarrow> Element list option" where
  "reorder_loop F Ss J s ofs Es =
     (if misplaced Ss s ofs J \<and> Used (Es ! J)
      then Option.bind (if ST_Count (Ss ! s) = 1 then Some (ofs + ST_First (Ss ! s)) else free_place Es s [ST_First (Ss ! s)..<length Es]) (\<lambda>dest.
        let Es1 = Swap_Elements Es J dest;
            ofs1 = offset_of F Ss (Es1 ! J) ofs in
        reorder_loop F Ss J (ST_Index (Es1 ! J)) ofs1 (Es1[J := (Es1 ! J)\<lparr>ST_Offset := ofs1\<rparr>]))
      else Some Es)"

declare find_hash_loop.simps [code] settle_loop.simps [code] find_table_hash.simps [code] reorder_loop.simps [code]

definition reorder_one :: "'p hash_family \<Rightarrow> 'p Subtable list \<Rightarrow> nat \<Rightarrow> Element list \<Rightarrow> Element list option" where
  "reorder_one F Ss J Es =
     (let s = ST_Index (Es ! J); ofs = Hash F (the (Key (Es ! J))) (ST_HParam (Ss ! s)) (ST_Max (Ss ! s)) in
      reorder_loop F Ss J s ofs (Es[J := (Es ! J)\<lparr>ST_Offset := ofs\<rparr>]))"

fun reorder :: "'p hash_family \<Rightarrow> 'p Subtable list \<Rightarrow> nat list \<Rightarrow> Element list \<Rightarrow> Element list option" where
  "reorder F Ss [] Es = Some Es"
| "reorder F Ss (J # Js) Es = Option.bind (reorder_one F Ss J Es) (reorder F Ss Js)"

fun process_all :: "'p hash_family \<Rightarrow> nat list \<Rightarrow> 'p Hash_Table \<Rightarrow> 'p Hash_Table option" where
  "process_all F [] T = Some T"
| "process_all F (s # ss) T =
     (if ST_Count (Subtables T ! s) > 1 then Option.bind (Process_Subtable F s T) (process_all F ss)
      else if ST_Count (Subtables T ! s) = 0 then process_all F ss (set_HParam s (Default_Hash_Parameters F) T)
      else process_all F ss T)"

definition Rehash_All :: "'p hash_family \<Rightarrow> string \<Rightarrow> 'p Hash_Table \<Rightarrow> 'p Hash_Table option" where
  "Rehash_All F K T =
     (let Es = put_last K (Elements T);
          T1 = T\<lparr>Elements := compact Es 0 (length Es - 1),
                 Info := (Info T)\<lparr>HParam := Default_Hash_Parameters F\<rparr>\<rparr> in
      Option.bind (find_table_hash F T1) (\<lambda>T2.
        let Ss = boundaries 0 (Subtables T2) in
        Option.bind (reorder F Ss [0..<Count (Info T2)] (Elements T2)) (\<lambda>Es.
          process_all F [0..<length Ss] (T2\<lparr>Subtables := Ss, Elements := Es\<rparr>))))"

section \<open>The index of a table\<close>

definition Initialize_HT :: "'p hash_family \<Rightarrow> 'p \<Rightarrow> nat \<Rightarrow> 'p Hash_Table" where
  "Initialize_HT F hp mx =
     (let h = mx + (mx + 9) div 10; n = h * 3 in
      \<lparr>Info = \<lparr>Count = 0, High = h, N_Subtables = n, HParam = hp\<rparr>,
       Elements = map (\<lambda>J. Empty\<lparr>Item_Index := J\<rparr>) [0..<15 * h + 1],
       Subtables = map (\<lambda>J. \<lparr>ST_First = 2 * J, ST_Last = 2 * J + 1, ST_Count = 0, ST_High = 1, ST_Max = 2, ST_HParam = hp\<rparr>) [0..<n]\<rparr>)"

text \<open>\<open>Lookup\<close> on the index gives the subtable and the offset of the only place where the key can be.\<close>

definition Lookup_HT :: "'p hash_family \<Rightarrow> 'p Hash_Table \<Rightarrow> string \<Rightarrow> nat \<times> nat \<times> bool" where
  "Lookup_HT F T K =
     (let s = Hash F K (HParam (Info T)) (N_Subtables (Info T));
          ST = Subtables T ! s;
          ofs = Hash F K (ST_HParam ST) (ST_Max ST);
          e = Elements T ! (ST_First ST + ofs) in
      (s, ofs, Key e = Some K \<and> Used e))"

datatype Next_Action = Reorder_Subtable | Reorder_Table | Do_Nothing | Insert_Item

text \<open>The entries that \<open>Set_Last\<close> adds to the array of subtables; \<open>Rehash_All\<close> writes all their components.\<close>

definition extend_HT :: "'p hash_family \<Rightarrow> 'p Hash_Table \<Rightarrow> 'p Hash_Table" where
  "extend_HT F T =
     (let c = Count (Info T) + 1; h = c + (c + 1) div 2; n = h * 3;
          filler = \<lparr>ST_First = 0, ST_Last = 0, ST_Count = 0, ST_High = 0, ST_Max = 0, ST_HParam = Default_Hash_Parameters F\<rparr> in
      T\<lparr>Info := (Info T)\<lparr>Count := c, High := h, N_Subtables := n\<rparr>,
        Elements := Elements T @ map (\<lambda>J. Empty\<lparr>Item_Index := J\<rparr>) [length (Elements T)..<15 * h + 1],
        Subtables := Subtables T @ replicate (n - length (Subtables T)) filler\<rparr>)"

text \<open>The assertion after a reorganization: the key is found.\<close>

definition find_inserted :: "'p hash_family \<Rightarrow> string \<Rightarrow> Next_Action \<Rightarrow> 'p Hash_Table \<Rightarrow> (nat \<times> nat \<times> Next_Action \<times> 'p Hash_Table) result" where
  "find_inserted F K a T = (let (s, ofs, Found) = Lookup_HT F T K in
     if Found then Inr (s, ofs, a, T) else Inl Assert_Failure)"

definition set_element :: "nat \<Rightarrow> (Element \<Rightarrow> Element) \<Rightarrow> 'p Hash_Table \<Rightarrow> 'p Hash_Table" where
  "set_element i f T = T\<lparr>Elements := (Elements T)[i := f (Elements T ! i)]\<rparr>"

definition count_key :: "nat \<Rightarrow> 'p Hash_Table \<Rightarrow> 'p Hash_Table" where
  "count_key s T = T\<lparr>Info := (Info T)\<lparr>Count := Count (Info T) + 1\<rparr>,
     Subtables := (Subtables T)[s := (Subtables T ! s)\<lparr>ST_Count := ST_Count (Subtables T ! s) + 1\<rparr>]\<rparr>"

definition Insert_HT :: "'p hash_family \<Rightarrow> string \<Rightarrow> 'p Hash_Table \<Rightarrow> (nat \<times> nat \<times> Next_Action \<times> 'p Hash_Table) result option" where
  "Insert_HT F K T =
     (if Count (Info T) = High (Info T)
      then map_option (find_inserted F K Reorder_Table) (Rehash_All F K (extend_HT F T))
      else let (s, ofs, Found) = Lookup_HT F T K in
        if Found then Some (Inr (s, ofs, Do_Nothing, T))
        else let Temp_Index = ST_First (Subtables T ! s) + ofs;
                 T1 = count_key s T;
                 e = Elements T1 ! Temp_Index in
          if ST_Count (Subtables T1 ! s) > ST_High (Subtables T1 ! s)
          then map_option (find_inserted F K Reorder_Table) (Rehash_All F K T1)
          else if Key e = None
          then Some (Inr (s, ofs, Insert_Item,
                 set_element Temp_Index (\<lambda>e. e\<lparr>Key := Some K, Used := True, ST_Index := s, ST_Offset := ofs\<rparr>) T1))
          else if Key e = Some K \<and> \<not> Used e
          then Some (Inr (s, ofs, Insert_Item, set_element Temp_Index (\<lambda>e. e\<lparr>Used := True\<rparr>) T1))
          else if \<not> Used e
          then Some (Inr (s, ofs, Insert_Item,
                 set_element Temp_Index (\<lambda>e. e\<lparr>Key := Some K, Used := True, ST_Index := s, ST_Offset := ofs\<rparr>) T1))
          else (case Add_Key_To_Subtable K s T1 of
              Inl x \<Rightarrow> Some (Inl x)
            | Inr T2 \<Rightarrow> map_option (find_inserted F K Reorder_Subtable) (Process_Subtable F s T2)))"

definition Delete_HT :: "'p hash_family \<Rightarrow> string \<Rightarrow> 'p Hash_Table \<Rightarrow> nat \<times> 'p Hash_Table" where
  "Delete_HT F K T = (let (s, ofs, Found) = Lookup_HT F T K; i = ST_First (Subtables T ! s) + ofs in
     if Found
     then (Item_Index (Elements T ! i),
           set_element i (\<lambda>e. e\<lparr>Used := False\<rparr>)
             (T\<lparr>Info := (Info T)\<lparr>Count := Count (Info T) - 1\<rparr>,
                Subtables := (Subtables T)[s := (Subtables T ! s)\<lparr>ST_Count := ST_Count (Subtables T ! s) - 1\<rparr>]\<rparr>))
     else (0, T))"

section \<open>Tables\<close>

definition Initialize :: "'p hash_family \<Rightarrow> 'p \<Rightarrow> nat \<Rightarrow> ('p, 'i) Table" where
  "Initialize F hp mx = (let h = Initialize_HT F hp mx in \<lparr>HTable = h, Items = replicate (15 * High (Info h) + 1) None\<rparr>)"

definition Lookup :: "'p hash_family \<Rightarrow> ('p, 'i) Table \<Rightarrow> string \<Rightarrow> 'i \<Rightarrow> 'i result" where
  "Lookup F T K Error_Value = (let (s, ofs, Found) = Lookup_HT F (HTable T) K in
     if Found
     then (case Items T ! Item_Index (Elements (HTable T) ! (ST_First (Subtables (HTable T) ! s) + ofs)) of
         None \<Rightarrow> Inl Constraint_Error
       | Some x \<Rightarrow> Inr x)
     else Inr Error_Value)"

definition Insert :: "'p hash_family \<Rightarrow> string \<Rightarrow> 'i \<Rightarrow> ('p, 'i) Table \<Rightarrow> ('p, 'i) Table result option" where
  "Insert F K V T = map_option (\<lambda>r. on_ok r (\<lambda>(s, ofs, To_Do, H).
     let Index = Item_Index (Elements H ! (ST_First (Subtables H ! s) + ofs));
         Is = (if To_Do = Reorder_Table \<and> length (Elements H) > length (Items T)
               then Items T @ replicate (15 * High (Info H) + 1 - length (Items T)) None else Items T) in
     if To_Do \<noteq> Do_Nothing
     then on_ok (check Assert_Failure (Is ! Index = None)) (\<lambda>_. Inr (T\<lparr>HTable := H, Items := Is[Index := Some V]\<rparr>))
     else Inr (T\<lparr>HTable := H, Items := Is\<rparr>))) (Insert_HT F K (HTable T))"

definition Delete :: "'p hash_family \<Rightarrow> string \<Rightarrow> ('p, 'i) Table \<Rightarrow> ('p, 'i) Table" where
  "Delete F K T = (let (Index, H) = Delete_HT F K (HTable T) in
     if Index \<noteq> 0 then T\<lparr>HTable := H, Items := (Items T)[Index := None]\<rparr> else T\<lparr>HTable := H\<rparr>)"

definition Is_Empty :: "('p, 'i) Table \<Rightarrow> bool" where
  "Is_Empty T \<longleftrightarrow> Count (Info (HTable T)) = 0"

text \<open>An iterator is a position in the array of elements.\<close>

fun next_used :: "Element list \<Rightarrow> nat list \<Rightarrow> nat option" where
  "next_used Es [] = None"
| "next_used Es (J # Js) = (if Used (Es ! J) then Some J else next_used Es Js)"

definition First :: "('p, 'i) Table \<Rightarrow> nat" where
  "First T = (let Es = Elements (HTable T) in case next_used Es [0..<length Es] of Some J \<Rightarrow> J | None \<Rightarrow> length Es)"

definition Last :: "('p, 'i) Table \<Rightarrow> nat \<Rightarrow> bool" where
  "Last T Position = (let Es = Elements (HTable T) in next_used Es [Position..<length Es] = None)"

definition Next :: "('p, 'i) Table \<Rightarrow> nat \<Rightarrow> nat" where
  "Next T Position = (let Es = Elements (HTable T) in case next_used Es [Position + 1..<length Es] of Some J \<Rightarrow> J | None \<Rightarrow> length Es)"

definition Value :: "('p, 'i) Table \<Rightarrow> nat \<Rightarrow> 'i option" where
  "Value T Position = Items T ! Item_Index (Elements (HTable T) ! Position)"

definition Key_At :: "('p, 'i) Table \<Rightarrow> nat \<Rightarrow> string option" where
  "Key_At T Position = Key (Elements (HTable T) ! Position)"

end
