(* ===== verification/Htable_Loops.thy ===== *)
theory Htable_Loops
  imports Perfect_Htables
begin

text \<open>
  The loops of \<open>Perfect_Htables\<close>: the search for hash functions, the compaction of the array and the rearrangement of a subtable.
  They only permute the elements, and those that move elements to their places end because
  each swap puts an element where it belongs.
\<close>

section \<open>Permutations by swaps\<close>

definition swapped :: "nat \<Rightarrow> nat \<Rightarrow> nat \<Rightarrow> nat" where
  "swapped a b i = (if i = a then b else if i = b then a else i)"

lemma swapped_simps [simp]: "swapped a b a = b" "swapped a b b = a" "i \<noteq> a \<Longrightarrow> i \<noteq> b \<Longrightarrow> swapped a b i = i"
  by (simp_all add: swapped_def)

lemma swapped_inj: "swapped a b i = swapped a b j \<longleftrightarrow> i = j"
  by (auto simp: swapped_def)

lemma swapped_in: "a \<in> R \<Longrightarrow> b \<in> R \<Longrightarrow> swapped a b i \<in> R \<longleftrightarrow> i \<in> R"
  by (auto simp: swapped_def)

lemma length_Swap [simp]: "length (Swap_Elements Es a b) = length Es"
  by (simp add: Swap_Elements_def)

lemma nth_Swap: "a < length Es \<Longrightarrow> b < length Es \<Longrightarrow> Swap_Elements Es a b ! i = Es ! swapped a b i"
  by (auto simp: Swap_Elements_def swapped_def nth_list_update)

lemma mset_Swap: "a < length Es \<Longrightarrow> b < length Es \<Longrightarrow> mset (map f (Swap_Elements Es a b)) = mset (map f Es)"
  by (simp add: Swap_Elements_def mset_swap)

lemma update_range_nth:
  "b \<le> length Es \<Longrightarrow> i < length Es \<Longrightarrow> update_range f a b Es ! i = (if a \<le> i \<and> i < b then f (Es ! i) else Es ! i)"
proof (induction b arbitrary: i)
  case (Suc b)
  show ?case
  proof (cases "a \<le> b")
    case True
    have len: "length (update_range f a b Es) = length Es" for f a b
      unfolding update_range_def by (induction b) auto
    have "update_range f a (Suc b) Es = (update_range f a b Es)[b := f (update_range f a b Es ! b)]"
      using True by (simp add: update_range_def)
    then show ?thesis
      using Suc True len by (auto simp: nth_list_update)
  qed (use Suc in \<open>auto simp: update_range_def\<close>)
qed (simp add: update_range_def)

lemma length_update_range [simp]: "length (update_range f a b Es) = length Es"
  unfolding update_range_def by (induction b) auto

text \<open>
  One swap of a loop that brings elements to their places. \<open>G e i\<close> says that \<open>i\<close> is a place for \<open>e\<close>; the element at \<open>J\<close> is
  moved to a place \<open>d\<close> of its own that no element holds with right.
\<close>

definition bad :: "(Element \<Rightarrow> nat \<Rightarrow> bool) \<Rightarrow> nat set \<Rightarrow> Element list \<Rightarrow> nat set" where
  "bad G R Es = {i \<in> R. Used (Es ! i) \<and> \<not> G (Es ! i) i}"

lemma bad_subset: "bad G R Es \<subseteq> R"
  by (auto simp: bad_def)

lemma bad_swap:
  assumes R: "finite R" "\<forall>i\<in>R. i < length Es" and J: "J \<in> R" "d \<in> R" "J \<noteq> d"
    and bad: "Used (Es ! J)" "\<not> G (Es ! J) J" "G (Es ! J) d" "\<not> (Used (Es ! d) \<and> G (Es ! d) d)"
  shows "card (bad G R (Swap_Elements Es J d)) < card (bad G R Es)"
    and "i \<noteq> J \<Longrightarrow> i \<notin> bad G R Es \<Longrightarrow> i \<notin> bad G R (Swap_Elements Es J d)"
proof -
  let ?Es = "Swap_Elements Es J d"
  have nth: "?Es ! i = Es ! swapped J d i" for i
    using R J by (intro nth_Swap) auto
  have keep: "i \<in> bad G R Es" if "i \<in> bad G R ?Es" "i \<noteq> J" for i
    using that bad J(3) by (cases "i = d") (auto simp: bad_def nth)
  show "i \<noteq> J \<Longrightarrow> i \<notin> bad G R Es \<Longrightarrow> i \<notin> bad G R ?Es"
    using keep by blast
  have "bad G R ?Es \<subset> bad G R Es"
  proof
    show "bad G R ?Es \<subseteq> bad G R Es"
      using keep bad J by (auto simp: bad_def)
    have "d \<notin> bad G R ?Es" "J \<in> bad G R ?Es \<longrightarrow> d \<in> bad G R Es"
      using bad by (auto simp: bad_def nth J)
    moreover have "J \<in> bad G R Es"
      using bad J by (simp add: bad_def)
    ultimately show "bad G R ?Es \<noteq> bad G R Es"
      by blast
  qed
  moreover have "finite (bad G R Es)"
    using R by (simp add: bad_def)
  ultimately show "card (bad G R ?Es) < card (bad G R Es)"
    by (simp add: psubset_card_mono)
qed

section \<open>One subtable\<close>

definition settled_at :: "nat \<Rightarrow> Element \<Rightarrow> nat \<Rightarrow> bool" where
  "settled_at base e i \<longleftrightarrow> i = base + ST_Offset e"

text \<open>The offsets of the elements in use of a range are different and within its size.\<close>

definition offsets_ok :: "nat \<Rightarrow> nat \<Rightarrow> Element list \<Rightarrow> bool" where
  "offsets_ok base m Es \<longleftrightarrow> base + m \<le> length Es
   \<and> (\<forall>i\<in>{base..<base + m}. Used (Es ! i) \<longrightarrow> ST_Offset (Es ! i) < m)
   \<and> (\<forall>i\<in>{base..<base + m}. \<forall>j\<in>{base..<base + m}. Used (Es ! i) \<and> Used (Es ! j) \<and> ST_Offset (Es ! i) = ST_Offset (Es ! j) \<longrightarrow> i = j)"

lemma offsets_okD:
  assumes "offsets_ok base m Es" "i \<in> {base..<base + m}" "Used (Es ! i)"
  shows "ST_Offset (Es ! i) < m" "j \<in> {base..<base + m} \<Longrightarrow> Used (Es ! j) \<Longrightarrow> ST_Offset (Es ! i) = ST_Offset (Es ! j) \<Longrightarrow> i = j"
  using assms unfolding offsets_ok_def by blast+

lemma offsets_ok_swap:
  assumes ok: "offsets_ok base m Es" and R: "J \<in> {base..<base + m}" "d \<in> {base..<base + m}"
  shows "offsets_ok base m (Swap_Elements Es J d)"
proof -
  have len: "J < length Es" "d < length Es"
    using ok R by (auto simp: offsets_ok_def)
  have "swapped J d i \<in> {base..<base + m}" if "i \<in> {base..<base + m}" for i
    using swapped_in [OF R] that by blast
  then show ?thesis
    using ok unfolding offsets_ok_def nth_Swap [OF len] length_Swap by (metis swapped_inj)
qed

text \<open>What a rearrangement within a range keeps.\<close>

definition rearranged :: "nat set \<Rightarrow> Element list \<Rightarrow> Element list \<Rightarrow> bool" where
  "rearranged R Es Es' \<longleftrightarrow> length Es' = length Es \<and> mset Es' = mset Es \<and> (\<forall>i. i \<notin> R \<longrightarrow> Es' ! i = Es ! i)
   \<and> (\<forall>i\<in>R. \<exists>j\<in>R. Es' ! i = Es ! j)"

lemma rearranged_refl [simp]: "rearranged R Es Es"
  by (auto simp: rearranged_def)

lemma rearranged_trans: "rearranged R Es Es1 \<Longrightarrow> rearranged R Es1 Es2 \<Longrightarrow> rearranged R Es Es2"
  unfolding rearranged_def by (metis (no_types, lifting))

lemma rearranged_Swap:
  "J \<in> R \<Longrightarrow> d \<in> R \<Longrightarrow> \<forall>i\<in>R. i < length Es \<Longrightarrow> rearranged R Es (Swap_Elements Es J d)"
  using mset_Swap [of J Es d id] swapped_in [of J R d]
  by (auto simp: rearranged_def nth_Swap swapped_def)

lemma settle_loop_ok:
  assumes "offsets_ok base m Es" "J \<in> {base..<base + m}"
  shows "\<exists>Es'. settle_loop base J Es = Some Es' \<and> rearranged {base..<base + m} Es Es' \<and> offsets_ok base m Es'
    \<and> J \<notin> bad (settled_at base) {base..<base + m} Es'
    \<and> (\<forall>i. i \<noteq> J \<longrightarrow> i \<notin> bad (settled_at base) {base..<base + m} Es \<longrightarrow> i \<notin> bad (settled_at base) {base..<base + m} Es')"
  using assms(1)
proof (induction "card (bad (settled_at base) {base..<base + m} Es)" arbitrary: Es rule: less_induct)
  case less
  let ?R = "{base..<base + m}" and ?d = "base + ST_Offset (Es ! J)"
  have R: "\<forall>i\<in>?R. i < length Es"
    using less.prems by (auto simp: offsets_ok_def)
  show ?case
  proof (cases "Used (Es ! J) \<and> J \<noteq> ?d")
    case False
    then have "settle_loop base J Es = Some Es"
      by (subst settle_loop.simps) (auto simp: Let_def)
    then show ?thesis
      using less.prems False by (auto simp: bad_def settled_at_def)
  next
    case True
    let ?Es = "Swap_Elements Es J ?d"
    have d: "?d \<in> ?R"
      using True offsets_okD(1) [OF less.prems assms(2)] by simp
    have "\<not> (Used (Es ! ?d) \<and> settled_at base (Es ! ?d) ?d)"
      using offsets_okD(2) [OF less.prems assms(2) _ d] True by (auto simp: settled_at_def)
    note step = bad_swap [OF _ R assms(2) d, of "settled_at base", OF _ _ _ _ _ this]
    have "card (bad (settled_at base) ?R ?Es) < card (bad (settled_at base) ?R Es)"
      using True by (intro step(1)) (auto simp: settled_at_def)
    moreover have keep: "i \<notin> bad (settled_at base) ?R ?Es" if "i \<noteq> J" "i \<notin> bad (settled_at base) ?R Es" for i
      using True that by (intro step(2)) (auto simp: settled_at_def)
    moreover have ok: "offsets_ok base m ?Es" and re: "rearranged ?R Es ?Es"
      using offsets_ok_swap [OF less.prems assms(2) d] rearranged_Swap [OF assms(2) d R] by auto
    ultimately obtain Es' where IH: "settle_loop base J ?Es = Some Es'" "rearranged ?R ?Es Es'" "offsets_ok base m Es'"
      "J \<notin> bad (settled_at base) ?R Es'" "\<forall>i. i \<noteq> J \<longrightarrow> i \<notin> bad (settled_at base) ?R ?Es \<longrightarrow> i \<notin> bad (settled_at base) ?R Es'"
      using less.hyps [of ?Es] by blast
    have "settle_loop base J Es = Some Es'"
      using True IH(1) by (subst settle_loop.simps) (simp add: Let_def)
    then show ?thesis
      using IH keep rearranged_trans [OF re IH(2)] by blast
  qed
qed

lemma settle_all_ok:
  assumes "offsets_ok base m Es" "set Js \<subseteq> {base..<base + m}"
  shows "\<exists>Es'. settle_all base Js Es = Some Es' \<and> rearranged {base..<base + m} Es Es' \<and> offsets_ok base m Es'
    \<and> bad (settled_at base) {base..<base + m} Es' \<subseteq> bad (settled_at base) {base..<base + m} Es - set Js"
  using assms
proof (induction Js arbitrary: Es)
  case (Cons J Js)
  obtain Es1 where one: "settle_loop base J Es = Some Es1" "rearranged {base..<base + m} Es Es1" "offsets_ok base m Es1"
    "J \<notin> bad (settled_at base) {base..<base + m} Es1"
    "\<forall>i. i \<noteq> J \<longrightarrow> i \<notin> bad (settled_at base) {base..<base + m} Es \<longrightarrow> i \<notin> bad (settled_at base) {base..<base + m} Es1"
    using settle_loop_ok [of base m Es J] Cons.prems by auto
  obtain Es' where "settle_all base Js Es1 = Some Es'" "rearranged {base..<base + m} Es1 Es'" "offsets_ok base m Es'"
    "bad (settled_at base) {base..<base + m} Es' \<subseteq> bad (settled_at base) {base..<base + m} Es1 - set Js"
    using Cons.IH [OF one(3)] Cons.prems(2) by auto
  moreover have "bad (settled_at base) {base..<base + m} Es1 \<subseteq> bad (settled_at base) {base..<base + m} Es - {J}"
    using one(4,5) by auto
  ultimately show ?case
    using one(1) rearranged_trans [OF one(2)] by (intro exI [of _ Es']) auto
qed simp

text \<open>The search for the hash function of a subtable, from the parameters that it starts with.\<close>

definition range_ok :: "nat \<Rightarrow> 'p Hash_Table \<Rightarrow> bool" where
  "range_ok s T \<longleftrightarrow> s < length (Subtables T) \<and> (let ST = Subtables T ! s in
     0 < ST_Max ST \<and> ST_Last ST = ST_First ST + ST_Max ST - 1 \<and> ST_First ST + ST_Max ST \<le> length (Elements T))"

definition sub_range :: "'p Subtable \<Rightarrow> nat set" where
  "sub_range ST = {ST_First ST..<ST_First ST + ST_Max ST}"

lemma set_HParam_sel [simp]:
  "Info (set_HParam s p T) = Info T" "Elements (set_HParam s p T) = Elements T"
  "length (Subtables (set_HParam s p T)) = length (Subtables T)"
  "s < length (Subtables T) \<Longrightarrow> Subtables (set_HParam s p T) ! s = (Subtables T ! s)\<lparr>ST_HParam := p\<rparr>"
  "t \<noteq> s \<Longrightarrow> Subtables (set_HParam s p T) ! t = Subtables T ! t"
  by (simp_all add: set_HParam_def)

lemma set_HParam_twice [simp]: "s < length (Subtables T) \<Longrightarrow> set_HParam s q (set_HParam s p T) = set_HParam s q T"
  by (simp add: set_HParam_def)

lemma set_HParam_same: "s < length (Subtables T) \<Longrightarrow> set_HParam s (ST_HParam (Subtables T ! s)) T = T"
  by (simp add: set_HParam_def list_update_same_conv)

lemma Rehash_sel [simp]:
  "Info (Rehash_Subtable F s T) = Info T" "Subtables (Rehash_Subtable F s T) = Subtables T"
  "length (Elements (Rehash_Subtable F s T)) = length (Elements T)"
  by (simp_all add: Rehash_Subtable_def Let_def)

lemma range_ok_pres [simp]:
  "range_ok s (set_HParam t p T) = range_ok s T" "range_ok s (Rehash_Subtable F t T) = range_ok s T"
proof -
  show "range_ok s (set_HParam t p T) = range_ok s T"
    by (cases "t = s"; cases "t < length (Subtables T)") (auto simp: range_ok_def Let_def set_HParam_def nth_list_update)
  show "range_ok s (Rehash_Subtable F t T) = range_ok s T"
    by (simp add: range_ok_def)
qed

lemma rehash_element_twice: "rehash_element F s ST (rehash_element F s ST' e) = rehash_element F s ST e"
  by (auto simp: rehash_element_def split: option.splits)

lemma Rehash_nth:
  assumes "range_ok s T" "i < length (Elements T)"
  shows "Elements (Rehash_Subtable F s T) ! i
    = (if i \<in> sub_range (Subtables T ! s) then rehash_element F s (Subtables T ! s) (Elements T ! i) else Elements T ! i)"
  using assms by (auto simp: Rehash_Subtable_def Let_def range_ok_def sub_range_def update_range_nth)

lemma Rehash_again:
  assumes r: "range_ok s T"
  shows "Rehash_Subtable F s (set_HParam s q (Rehash_Subtable F s T)) = Rehash_Subtable F s (set_HParam s q T)"
proof -
  have s: "s < length (Subtables T)"
    using r by (simp add: range_ok_def)
  have "Elements (Rehash_Subtable F s (set_HParam s q (Rehash_Subtable F s T))) = Elements (Rehash_Subtable F s (set_HParam s q T))"
    using r s by (intro nth_equalityI) (auto simp: Rehash_nth rehash_element_twice sub_range_def)
  moreover have "Subtables (set_HParam s q (Rehash_Subtable F s T)) = Subtables (set_HParam s q T)"
    by (simp add: set_HParam_def)
  ultimately show ?thesis
    by (intro Hash_Table.equality) simp_all
qed

lemma find_hash_loop_post:
  assumes "find_hash_loop F s T = Some T1" "range_ok s T"
  shows "\<exists>p. T1 = Rehash_Subtable F s (set_HParam s p T) \<and> Is_Injective s T1"
  using assms
proof (induction rule: find_hash_loop.raw_induct [rotated, consumes 1, case_names step])
  case (step loop F s T T1)
  let ?T1 = "Rehash_Subtable F s T"
  have s: "s < length (Subtables T)"
    using step(3) by (simp add: range_ok_def)
  show ?case
  proof (cases "Is_Injective s ?T1")
    case True
    then show ?thesis
      using step(2) set_HParam_same [OF s] by (auto simp: Let_def intro: exI [of _ "ST_HParam (Subtables T ! s)"])
  next
    case False
    then have "loop F s (set_HParam s (Next_Hash_Parameters F (ST_HParam (Subtables T ! s))) ?T1) = Some T1"
      using step(2) by (simp add: Let_def)
    from step(1) [OF this] step(3) obtain p where
      "T1 = Rehash_Subtable F s (set_HParam s p (set_HParam s (Next_Hash_Parameters F (ST_HParam (Subtables T ! s))) ?T1))" "Is_Injective s T1"
      by auto
    then show ?thesis
      using Rehash_again [OF step(3), of F p] s by auto
  qed
qed

lemma find_hash_loop_returns:
  "range_ok s T \<Longrightarrow> Is_Injective s (Rehash_Subtable F s (set_HParam s ((Next_Hash_Parameters F ^^ j) (ST_HParam (Subtables T ! s))) T))
    \<Longrightarrow> \<exists>T1. find_hash_loop F s T = Some T1"
proof (induction j arbitrary: T)
  case 0
  then show ?case
    by (subst find_hash_loop.simps) (auto simp: set_HParam_same range_ok_def Let_def)
next
  case (Suc j)
  let ?T1 = "Rehash_Subtable F s T" and ?p = "Next_Hash_Parameters F (ST_HParam (Subtables T ! s))"
  have s: "s < length (Subtables T)"
    using Suc.prems by (simp add: range_ok_def)
  have "\<exists>T2. find_hash_loop F s (set_HParam s ?p ?T1) = Some T2"
    using Suc.prems s by (intro Suc.IH) (simp_all add: Rehash_again funpow_Suc_right del: funpow.simps)
  then show ?case
    by (subst find_hash_loop.simps) (auto simp: Let_def)
qed

text \<open>The hash functions give a number within the size, as the specification of the package requires.\<close>

definition hash_ok :: "'p hash_family \<Rightarrow> bool" where
  "hash_ok F \<longleftrightarrow> (\<forall>k p n. 0 < n \<longrightarrow> Hash F k p n < n)"

lemma hash_okD: "hash_ok F \<Longrightarrow> 0 < n \<Longrightarrow> Hash F k p n < n"
  by (simp add: hash_ok_def)

text \<open>The part of an element that the rearrangements keep with it.\<close>

definition core :: "Element \<Rightarrow> string option \<times> bool \<times> nat" where
  "core e = (Key e, Used e, Item_Index e)"

lemma core_sel: "core e = core e' \<longleftrightarrow> Key e = Key e' \<and> Used e = Used e' \<and> Item_Index e = Item_Index e'"
  by (simp add: core_def)

lemma rehash_core [simp]:
  "Key (rehash_element F s ST e) = Key e" "Used (rehash_element F s ST e) = Used e" "Item_Index (rehash_element F s ST e) = Item_Index e"
  "core (rehash_element F s ST e) = core e"
  by (auto simp: rehash_element_def core_def split: option.splits)

text \<open>Elements keep their keys and items, within a range, and the rest of the array is as it was.\<close>

definition moved :: "nat set \<Rightarrow> Element list \<Rightarrow> Element list \<Rightarrow> bool" where
  "moved R Es Es' \<longleftrightarrow> length Es' = length Es \<and> mset (map core Es') = mset (map core Es) \<and> (\<forall>i. i \<notin> R \<longrightarrow> i < length Es \<longrightarrow> Es' ! i = Es ! i)
   \<and> (\<forall>i\<in>R. \<exists>j\<in>R. core (Es' ! i) = core (Es ! j))"

lemma rearranged_moved: "rearranged R Es Es' \<Longrightarrow> moved R Es Es'"
  unfolding rearranged_def moved_def by auto metis

lemma moved_trans: "moved R Es Es1 \<Longrightarrow> moved R Es1 Es2 \<Longrightarrow> moved R Es Es2"
  unfolding moved_def by (metis (no_types, lifting))

lemma moved_Rehash:
  assumes r: "range_ok s T"
  shows "moved (sub_range (Subtables T ! s)) (Elements T) (Elements (Rehash_Subtable F s T))"
proof -
  have c: "core (Elements (Rehash_Subtable F s T) ! i) = core (Elements T ! i)" if "i < length (Elements T)" for i
    using that r by (simp add: Rehash_nth)
  then have "map core (Elements (Rehash_Subtable F s T)) = map core (Elements T)"
    by (intro nth_equalityI) auto
  moreover have "i < length (Elements T)" if "i \<in> sub_range (Subtables T ! s)" for i
    using that r by (auto simp: range_ok_def sub_range_def Let_def)
  ultimately show ?thesis
    using r c unfolding moved_def by (auto simp: Rehash_nth)
qed

definition keyed :: "Element list \<Rightarrow> bool" where
  "keyed Es \<longleftrightarrow> (\<forall>e\<in>set Es. Used e \<longrightarrow> Key e \<noteq> None)"

lemma keyedD: "keyed Es \<Longrightarrow> i < length Es \<Longrightarrow> Used (Es ! i) \<Longrightarrow> \<exists>k. Key (Es ! i) = Some k"
  by (auto simp: keyed_def)

lemma keyed_core: "mset (map core Es') = mset (map core Es) \<Longrightarrow> keyed Es' = keyed Es"
proof -
  assume "mset (map core Es') = mset (map core Es)"
  then have "core ` set Es' = core ` set Es"
    by (metis list.set_map set_mset_mset)
  moreover have "keyed Es \<longleftrightarrow> (\<forall>c\<in>core ` set Es. fst (snd c) \<longrightarrow> fst c \<noteq> None)" for Es
    by (simp add: keyed_def core_def)
  ultimately show ?thesis
    by (simp only:)
qed

lemma rehashed_offset:
  assumes "range_ok s T" "keyed (Elements T)" "i \<in> sub_range (Subtables T ! s)" "Used (Elements T ! i)"
  shows "ST_Offset (Elements (Rehash_Subtable F s T) ! i)
    = Hash F (the (Key (Elements T ! i))) (ST_HParam (Subtables T ! s)) (ST_Max (Subtables T ! s))"
proof -
  have i: "i < length (Elements T)"
    using assms(1,3) by (auto simp: range_ok_def sub_range_def Let_def)
  then show ?thesis
    using assms Rehash_nth [OF assms(1) i, of F] keyedD [OF assms(2) i assms(4)] by (auto simp: rehash_element_def)
qed

lemma Is_Injective_iff:
  assumes "range_ok s T"
  shows "Is_Injective s T \<longleftrightarrow> (\<forall>i\<in>sub_range (Subtables T ! s). \<forall>j\<in>sub_range (Subtables T ! s).
    Used (Elements T ! i) \<and> Used (Elements T ! j) \<and> ST_Offset (Elements T ! i) = ST_Offset (Elements T ! j) \<longrightarrow> i = j)" (is "_ \<longleftrightarrow> ?P")
proof -
  let ?ST = "Subtables T ! s"
  have last: "Suc (ST_Last ?ST) = ST_First ?ST + ST_Max ?ST" "ST_Last ?ST < ST_First ?ST + ST_Max ?ST"
    using assms by (auto simp: range_ok_def Let_def)
  have "?P" if inj: "Is_Injective s T"
  proof (intro ballI impI)
    fix i j
    assume r: "i \<in> sub_range ?ST" "j \<in> sub_range ?ST"
      and eq: "Used (Elements T ! i) \<and> Used (Elements T ! j) \<and> ST_Offset (Elements T ! i) = ST_Offset (Elements T ! j)"
    have no: "\<not> (Used (Elements T ! a) \<and> Used (Elements T ! b) \<and> ST_Offset (Elements T ! a) = ST_Offset (Elements T ! b))"
      if "ST_First ?ST \<le> a" "a < b" "b < ST_First ?ST + ST_Max ?ST" for a b
      using inj that last by (auto simp: Is_Injective_def Let_def simp del: upt_Suc)
    show "i = j"
      using no [of i j] no [of j i] r eq by (auto simp: sub_range_def intro: linorder_cases [of i j])
  qed
  moreover have "Is_Injective s T" if ?P
    unfolding Is_Injective_def Let_def
  proof (intro ballI)
    fix a b
    assume "a \<in> set [ST_First ?ST..<ST_Last ?ST]" "b \<in> set [a + 1..<Suc (ST_Last ?ST)]"
    then have "a \<in> sub_range ?ST" "b \<in> sub_range ?ST" "a \<noteq> b"
      using last by (auto simp: sub_range_def simp del: upt_Suc)
    then show "\<not> (Used (Elements T ! a) \<and> Used (Elements T ! b) \<and> ST_Offset (Elements T ! a) = ST_Offset (Elements T ! b))"
      using that by blast
  qed
  ultimately show ?thesis
    by blast
qed

lemma Process_Subtable_found:
  assumes found: "Find_Hash_For_Subtable F s T = Some T1" and r: "range_ok s T" and F: "hash_ok F" and k: "keyed (Elements T)"
  shows "\<exists>T' p. Process_Subtable F s T = Some T' \<and> Subtables T' = Subtables (set_HParam s p T) \<and> Info T' = Info T
    \<and> moved (sub_range (Subtables T ! s)) (Elements T) (Elements T')
    \<and> (\<forall>i\<in>sub_range (Subtables T ! s). Used (Elements T' ! i) \<longrightarrow>
        i = ST_First (Subtables T ! s) + Hash F (the (Key (Elements T' ! i))) p (ST_Max (Subtables T ! s)))"
proof -
  let ?T0 = "set_HParam s (Default_Hash_Parameters F) T" and ?b = "ST_First (Subtables T ! s)" and ?m = "ST_Max (Subtables T ! s)"
  have s: "s < length (Subtables T)" and m: "0 < ?m" and l: "Suc (ST_Last (Subtables T ! s)) = ?b + ?m" "?b + ?m \<le> length (Elements T)"
    using r by (auto simp: range_ok_def Let_def)
  have f: "find_hash_loop F s ?T0 = Some T1"
    using found by (simp add: Find_Hash_For_Subtable_def)
  obtain p where T1: "T1 = Rehash_Subtable F s (set_HParam s p T)" and inj: "Is_Injective s T1"
    using find_hash_loop_post [OF f] r s by auto
  let ?Tp = "set_HParam s p T"
  have rp: "range_ok s ?Tp" "range_ok s T1"
    using r T1 by auto
  have sub: "Subtables ?Tp ! s = (Subtables T ! s)\<lparr>ST_HParam := p\<rparr>" "sub_range (Subtables ?Tp ! s) = sub_range (Subtables T ! s)"
    using s by (simp_all add: sub_range_def)
  have mv: "moved (sub_range (Subtables T ! s)) (Elements T) (Elements T1)"
    using moved_Rehash [OF rp(1), of F] sub T1 by simp
  have used: "Used (Elements T1 ! i) = Used (Elements T ! i)" "Key (Elements T1 ! i) = Key (Elements T ! i)" if "i \<in> sub_range (Subtables T ! s)" for i
    using that l Rehash_nth [OF rp(1), of i F] T1 sub by (auto simp: sub_range_def)
  have ofs: "ST_Offset (Elements T1 ! i) = Hash F (the (Key (Elements T1 ! i))) p ?m" if "i \<in> sub_range (Subtables T ! s)" "Used (Elements T1 ! i)" for i
    using rehashed_offset [OF rp(1) _ _ _, of i F] k that used sub T1 by simp
  have ok: "offsets_ok ?b ?m (Elements T1)"
    using inj Is_Injective_iff [OF rp(2)] sub T1 l ofs hash_okD [OF F m] by (auto simp: offsets_ok_def sub_range_def)
  obtain Es' where st: "settle_all ?b [?b..<?b + ?m] (Elements T1) = Some Es'" "rearranged {?b..<?b + ?m} (Elements T1) Es'"
      "bad (settled_at ?b) {?b..<?b + ?m} Es' \<subseteq> bad (settled_at ?b) {?b..<?b + ?m} (Elements T1) - set [?b..<?b + ?m]"
    using settle_all_ok [OF ok, of "[?b..<?b + ?m]"] by auto
  have run: "Process_Subtable F s T = Some (T1\<lparr>Elements := Es'\<rparr>)"
    using found st(1) sub T1 l by (simp add: Process_Subtable_def Let_def del: upt_Suc)
  have place: "i = ?b + Hash F (the (Key (Es' ! i))) p ?m" if i: "i \<in> sub_range (Subtables T ! s)" "Used (Es' ! i)" for i
  proof -
    have "i \<notin> bad (settled_at ?b) {?b..<?b + ?m} Es'"
      using st(3) bad_subset [of "settled_at ?b" "{?b..<?b + ?m}" "Elements T1"] unfolding set_upt by blast
    then have "i = ?b + ST_Offset (Es' ! i)"
      using i by (auto simp: bad_def settled_at_def sub_range_def)
    moreover obtain j where "j \<in> sub_range (Subtables T ! s)" "Es' ! i = Elements T1 ! j"
      using st(2) i unfolding rearranged_def sub_range_def by blast
    ultimately show ?thesis
      using ofs [of j] i(2) by simp
  qed
  show ?thesis
    using run T1 place moved_trans [OF mv rearranged_moved [OF st(2) [folded sub_range_def]]]
    by (intro exI [of _ "T1\<lparr>Elements := Es'\<rparr>"] exI [of _ p]) simp
qed

lemma Process_Subtable_post:
  assumes run: "Process_Subtable F s T = Some T'" and ok: "range_ok s T" "hash_ok F" "keyed (Elements T)"
  shows "\<exists>p. Subtables T' = Subtables (set_HParam s p T) \<and> Info T' = Info T \<and> moved (sub_range (Subtables T ! s)) (Elements T) (Elements T')
    \<and> (\<forall>i\<in>sub_range (Subtables T ! s). Used (Elements T' ! i) \<longrightarrow>
        i = ST_First (Subtables T ! s) + Hash F (the (Key (Elements T' ! i))) p (ST_Max (Subtables T ! s)))"
proof -
  obtain T1 where "Find_Hash_For_Subtable F s T = Some T1"
    using run by (auto simp: Process_Subtable_def split: bind_splits)
  from Process_Subtable_found [OF this ok] show ?thesis
    using run by auto
qed

section \<open>The elements in use at the front\<close>

lemma retreat_spec:
  "i1 < i2 \<Longrightarrow> i1 < retreat Es i1 i2 \<and> (\<forall>j. retreat Es i1 i2 < j \<and> j \<le> i2 \<longrightarrow> \<not> Used (Es ! j))
     \<and> (Used (Es ! retreat Es i1 i2) \<or> retreat Es i1 i2 = i1 + 1)"
proof (induction Es i1 i2 rule: retreat.induct)
  case (1 Es i1 i2)
  show ?case
  proof (cases "\<not> Used (Es ! i2) \<and> i1 + 1 < i2")
    case True
    then have r: "retreat Es i1 i2 = retreat Es i1 (i2 - 1)"
      by (subst retreat.simps) simp
    have IH: "i1 < retreat Es i1 (i2 - 1) \<and> (\<forall>j. retreat Es i1 (i2 - 1) < j \<and> j \<le> i2 - 1 \<longrightarrow> \<not> Used (Es ! j))
        \<and> (Used (Es ! retreat Es i1 (i2 - 1)) \<or> retreat Es i1 (i2 - 1) = i1 + 1)"
      by (rule 1(1)) (use True in auto)
    have "\<not> Used (Es ! j)" if "retreat Es i1 (i2 - 1) < j" "j \<le> i2" for j
      using that IH True by (cases "j = i2") auto
    then show ?thesis
      using IH r by simp
  next
    case False
    then have "retreat Es i1 i2 = i2"
      by (subst retreat.simps) auto
    then show ?thesis
      using False 1(2) by auto
  qed
qed

lemma compacted:
  assumes "\<forall>j < i. Used (Es ! j)" "\<forall>j. i < j \<and> j < length Es \<longrightarrow> \<not> Used (Es ! j)"
  shows "\<exists>c. \<forall>j < length Es. Used (Es ! j) \<longleftrightarrow> j < c"
proof (intro exI allI impI)
  fix j
  assume "j < length Es"
  then show "Used (Es ! j) \<longleftrightarrow> j < (if Used (Es ! i) then i + 1 else i)"
    using assms by (cases j i rule: linorder_cases) auto
qed

lemma compact_spec:
  assumes "i1 \<le> i2" "i2 < length Es" "\<forall>j < i1. Used (Es ! j)" "\<forall>j. i2 < j \<and> j < length Es \<longrightarrow> \<not> Used (Es ! j)"
  shows "length (compact Es i1 i2) = length Es \<and> mset (compact Es i1 i2) = mset Es
    \<and> (\<exists>c. \<forall>j < length Es. Used (compact Es i1 i2 ! j) \<longleftrightarrow> j < c)"
  using assms
proof (induction Es i1 i2 rule: compact.induct)
  case (1 Es i1 i2)
  show ?case
  proof (cases "i1 < i2")
    case False
    then have e: "compact Es i1 i2 = Es" "i1 = i2"
      using 1(3) by (subst compact.simps, simp_all)
    then show ?thesis
      using compacted [of i2 Es] 1(5,6) by simp
  next
    case lt: True
    show ?thesis
    proof (cases "Used (Es ! i1)")
      case True
      have "compact Es i1 i2 = compact Es (i1 + 1) i2"
        using lt True by (subst compact.simps) simp
      moreover have "\<forall>j < i1 + 1. Used (Es ! j)"
        using 1(5) True by (auto simp: less_Suc_eq)
      ultimately show ?thesis
        using 1(2) lt True 1(4,6) by simp
    next
      case False
      let ?r = "retreat Es i1 i2"
      have r: "i1 < ?r" "?r \<le> i2" "\<forall>j. ?r < j \<and> j \<le> i2 \<longrightarrow> \<not> Used (Es ! j)" "Used (Es ! ?r) \<or> ?r = i1 + 1"
        using retreat_spec [OF lt, of Es] retreat_le [of Es i1 i2] by auto
      have beyond: "\<not> Used (Es ! j)" if "?r < j" "j < length Es" for j
        using that r(3) 1(6) by (cases "j \<le> i2") auto
      show ?thesis
      proof (cases "Used (Es ! ?r)")
        case True
        let ?Es = "Swap_Elements Es i1 ?r"
        have e: "compact Es i1 i2 = compact ?Es (i1 + 1) ?r"
          using lt False True r(1) by (subst compact.simps) (simp add: Let_def)
        have nth: "?Es ! j = Es ! swapped i1 ?r j" for j
          using r 1(4) by (intro nth_Swap) auto
        have front: "\<forall>j < i1 + 1. Used (?Es ! j)"
          using 1(5) True r(1) by (auto simp: nth swapped_def less_Suc_eq)
        have rear: "\<forall>j. ?r < j \<and> j < length ?Es \<longrightarrow> \<not> Used (?Es ! j)"
          using beyond r(1) by (auto simp: nth swapped_def)
        have "length (compact ?Es (i1 + 1) ?r) = length ?Es \<and> mset (compact ?Es (i1 + 1) ?r) = mset ?Es
            \<and> (\<exists>c. \<forall>j < length ?Es. Used (compact ?Es (i1 + 1) ?r ! j) \<longleftrightarrow> j < c)"
          using 1(1) [OF lt False refl] True r 1(4) front rear by (simp add: Let_def)
        moreover have "mset ?Es = mset Es"
          using mset_Swap [of i1 Es ?r id] r 1(4) by simp
        ultimately show ?thesis
          using e by simp
      next
        case unused: False
        then have "?r = i1 + 1"
          using r(4) by simp
        then have e: "compact Es i1 i2 = Es"
          using lt False unused by (subst compact.simps) (simp add: Let_def compact.simps)
        have "\<not> Used (Es ! j)" if "i1 < j" "j < length Es" for j
          using beyond [OF _ that(2)] unused that(1) \<open>?r = i1 + 1\<close> by (cases "j = i1 + 1") auto
        then show ?thesis
          using e compacted [of i1 Es] 1(5) by simp
      qed
    qed
  qed
qed

definition used_count :: "Element list \<Rightarrow> nat" where
  "used_count Es = length (filter Used Es)"

lemma used_count_core: "mset (map core Es') = mset (map core Es) \<Longrightarrow> used_count Es' = used_count Es"
proof -
  assume eq: "mset (map core Es') = mset (map core Es)"
  have "used_count Es = size (filter_mset (\<lambda>c. fst (snd c)) (mset (map core Es)))" for Es
    unfolding used_count_def by (simp add: core_def filter_mset_image_mset flip: mset_filter)
  then show ?thesis
    using eq by simp
qed

lemma used_count_card: "used_count Es = card {i. i < length Es \<and> Used (Es ! i)}"
  unfolding used_count_def by (simp add: length_filter_conv_card)

lemma front_count:
  assumes "\<forall>j < length Es. Used (Es ! j) \<longleftrightarrow> j < c" "j < length Es"
  shows "Used (Es ! j) \<longleftrightarrow> j < used_count Es"
proof -
  have "{i. i < length Es \<and> Used (Es ! i)} = {..<min c (length Es)}"
    using assms(1) by auto
  then have "used_count Es = min c (length Es)"
    by (simp add: used_count_card)
  then show ?thesis
    using assms by auto
qed

section \<open>The distribution over the subtables\<close>

text \<open>The number of elements that a hash function of the table sends to a subtable, and the room that they need.\<close>

definition load :: "'p hash_family \<Rightarrow> 'p \<Rightarrow> nat \<Rightarrow> nat \<Rightarrow> Element list \<Rightarrow> nat \<Rightarrow> nat" where
  "load F p n c Es s = card {J. J < c \<and> Hash F (the (Key (Es ! J))) p n = s}"

definition room :: "nat \<Rightarrow> nat" where
  "room c = (if c = 0 then 2 else 2 * (2 * c) * (2 * c - 1))"

lemma room_pos: "0 < room c" "2 * c \<le> room c" "c \<le> room c" "2 * max 1 (2 * c) * (max 1 (2 * c) - 1) \<le> room c"
  by (cases c; simp add: room_def)+

text \<open>What a reorganization keeps while it looks for a hash function.\<close>

definition same_keys :: "'p Hash_Table \<Rightarrow> 'p Hash_Table \<Rightarrow> bool" where
  "same_keys T T' \<longleftrightarrow> map core (Elements T') = map core (Elements T) \<and> length (Subtables T') = length (Subtables T)
   \<and> Count (Info T') = Count (Info T) \<and> High (Info T') = High (Info T) \<and> N_Subtables (Info T') = N_Subtables (Info T)"

lemma same_keys_refl [simp]: "same_keys T T"
  by (simp add: same_keys_def)

lemma same_keys_trans: "same_keys T T1 \<Longrightarrow> same_keys T1 T2 \<Longrightarrow> same_keys T T2"
  by (simp add: same_keys_def)

lemma map_core_nth: "map core Es' = map core Es \<Longrightarrow> i < length Es \<Longrightarrow> core (Es' ! i) = core (Es ! i)"
  by (metis length_map nth_map)

lemma same_keys_length: "same_keys T T' \<Longrightarrow> length (Elements T') = length (Elements T)"
  unfolding same_keys_def by (metis length_map)

lemma same_keys_core: "same_keys T T' \<Longrightarrow> i < length (Elements T) \<Longrightarrow> core (Elements T' ! i) = core (Elements T ! i)"
  using map_core_nth unfolding same_keys_def by blast

lemma load_core:
  "map core Es' = map core Es \<Longrightarrow> c \<le> length Es \<Longrightarrow> load F p n c Es' = load F p n c Es"
proof -
  assume eq: "map core Es' = map core Es" and c: "c \<le> length Es"
  have "Key (Es' ! J) = Key (Es ! J)" if "J < c" for J
    using that c eq by (metis core_sel length_map less_le_trans nth_map)
  then show ?thesis
    by (auto simp: load_def fun_eq_iff intro!: arg_cong [where f = card])
qed

text \<open>The state after the loops of one attempt.\<close>

definition distributed :: "'p hash_family \<Rightarrow> 'p Hash_Table \<Rightarrow> bool" where
  "distributed F T \<longleftrightarrow>
     (\<forall>J < Count (Info T). ST_Index (Elements T ! J) = Hash F (the (Key (Elements T ! J))) (HParam (Info T)) (N_Subtables (Info T)))
   \<and> (\<forall>s < length (Subtables T). let ST = Subtables T ! s; l = load F (HParam (Info T)) (N_Subtables (Info T)) (Count (Info T)) (Elements T) s in
        ST_Count ST = l \<and> ST_HParam ST = Default_Hash_Parameters F \<and> ST_Max ST = room l \<and> ST_High ST = max 1 (2 * l))"

lemma distribute_fold:
  assumes F: "hash_ok F" and n: "N_Subtables (Info T) = length (Subtables T)" "0 < length (Subtables T)"
    and c: "c \<le> length (Elements T)" and z: "\<forall>s < length (Subtables T). ST_Count (Subtables T ! s) = 0"
  shows "let T' = fold (distribute_one F) [0..<c] T in
     Info T' = Info T \<and> length (Subtables T') = length (Subtables T) \<and> map core (Elements T') = map core (Elements T)
   \<and> (\<forall>J < c. ST_Index (Elements T' ! J) = Hash F (the (Key (Elements T ! J))) (HParam (Info T)) (N_Subtables (Info T)))
   \<and> (\<forall>s < length (Subtables T). Subtables T' ! s
        = (Subtables T ! s)\<lparr>ST_Count := load F (HParam (Info T)) (N_Subtables (Info T)) c (Elements T) s\<rparr>)"
  using c
proof (induction c)
  case 0
  then show ?case
    using z by (simp add: load_def)
next
  case (Suc c)
  let ?T = "fold (distribute_one F) [0..<c] T"
  let ?h = "\<lambda>J. Hash F (the (Key (Elements T ! J))) (HParam (Info T)) (N_Subtables (Info T))"
  let ?load = "load F (HParam (Info T)) (N_Subtables (Info T))"
  have IH: "Info ?T = Info T" "length (Subtables ?T) = length (Subtables T)" "map core (Elements ?T) = map core (Elements T)"
    "\<forall>J < c. ST_Index (Elements ?T ! J) = ?h J"
    "\<forall>s < length (Subtables T). Subtables ?T ! s = (Subtables T ! s)\<lparr>ST_Count := ?load c (Elements T) s\<rparr>"
    using Suc by (simp_all add: Let_def)
  have len: "length (Elements ?T) = length (Elements T)"
    using IH(3) by (metis length_map)
  have key: "Key (Elements ?T ! c) = Key (Elements T ! c)"
    using map_core_nth [OF IH(3), of c] Suc.prems by (simp add: core_sel)
  have hlt: "?h c < length (Subtables T)"
    using hash_okD [OF F] n by simp
  have step: "fold (distribute_one F) [0..<Suc c] T = ?T\<lparr>Elements := (Elements ?T)[c := (Elements ?T ! c)\<lparr>ST_Index := ?h c\<rparr>],
      Subtables := (Subtables ?T)[?h c := (Subtables ?T ! ?h c)\<lparr>ST_Count := ST_Count (Subtables ?T ! ?h c) + 1\<rparr>]\<rparr>"
    using IH(1) key by (simp add: distribute_one_def Let_def)
  have load: "?load (Suc c) (Elements T) s = (if s = ?h c then ?load c (Elements T) s + 1 else ?load c (Elements T) s)" for s
  proof -
    have fin: "finite {J. J < c \<and> ?h J = s}" by simp
    have "{J. J < Suc c \<and> ?h J = s} = (if s = ?h c then insert c {J. J < c \<and> ?h J = s} else {J. J < c \<and> ?h J = s})"
      by (auto simp: less_Suc_eq)
    then show ?thesis
      using fin by (simp add: load_def)
  qed
  have "map core ((Elements ?T)[c := (Elements ?T ! c)\<lparr>ST_Index := ?h c\<rparr>]) = map core (Elements T)"
    using IH(3) map_update_unchanged [of core "\<lambda>e. e\<lparr>ST_Index := ?h c\<rparr>" "Elements ?T" c] by (simp add: core_def [abs_def])
  then show ?case
    unfolding step Let_def using IH load hlt Suc.prems len
    by (auto simp: nth_list_update less_Suc_eq)
qed

lemma distribute_post:
  assumes F: "hash_ok F" and n: "N_Subtables (Info T) = length (Subtables T)" "0 < length (Subtables T)"
    and c: "Count (Info T) \<le> length (Elements T)"
  shows "distributed F (distribute F T)" "same_keys T (distribute F T)" "HParam (Info (distribute F T)) = HParam (Info T)"
    "Max_Sum (distribute F T) = (\<Sum>s<length (Subtables T). room (load F (HParam (Info T)) (N_Subtables (Info T)) (Count (Info T)) (Elements T) s))"
proof -
  let ?T1 = "T\<lparr>Subtables := map (reset_subtable F) (Subtables T)\<rparr>"
  let ?T2 = "fold (distribute_one F) [0..<Count (Info T)] ?T1"
  let ?load = "load F (HParam (Info T)) (N_Subtables (Info T)) (Count (Info T)) (Elements T)"
  have raw: "let T' = ?T2 in Info T' = Info ?T1 \<and> length (Subtables T') = length (Subtables ?T1) \<and> map core (Elements T') = map core (Elements ?T1)
   \<and> (\<forall>J < Count (Info T). ST_Index (Elements T' ! J) = Hash F (the (Key (Elements ?T1 ! J))) (HParam (Info ?T1)) (N_Subtables (Info ?T1)))
   \<and> (\<forall>s < length (Subtables ?T1). Subtables T' ! s
        = (Subtables ?T1 ! s)\<lparr>ST_Count := load F (HParam (Info ?T1)) (N_Subtables (Info ?T1)) (Count (Info T)) (Elements ?T1) s\<rparr>)"
    by (rule distribute_fold) (use assms in \<open>auto simp: reset_subtable_def\<close>)
  have two: "Info ?T2 = Info T" "length (Subtables ?T2) = length (Subtables T)" "map core (Elements ?T2) = map core (Elements T)"
    "\<forall>J < Count (Info T). ST_Index (Elements ?T2 ! J) = Hash F (the (Key (Elements T ! J))) (HParam (Info T)) (N_Subtables (Info T))"
    "\<forall>s < length (Subtables T). Subtables ?T2 ! s = (reset_subtable F (Subtables T ! s))\<lparr>ST_Count := ?load s\<rparr>"
    using raw by (simp_all add: Let_def)
  have D: "distribute F T = ?T2\<lparr>Subtables := map size_subtable (Subtables ?T2)\<rparr>"
    by (simp add: distribute_def Let_def)
  have len: "length (Elements ?T2) = length (Elements T)"
    using two(3) by (metis length_map)
  have key: "Key (Elements ?T2 ! J) = Key (Elements T ! J)" if "J < length (Elements T)" for J
    using map_core_nth [OF two(3) that] by (simp add: core_sel)
  have load: "load F (HParam (Info T)) (N_Subtables (Info T)) (Count (Info T)) (Elements ?T2) = ?load"
    by (rule load_core [OF two(3) c])
  have sub: "size_subtable (Subtables ?T2 ! s) = (Subtables T ! s)\<lparr>ST_Count := ?load s, ST_HParam := Default_Hash_Parameters F,
      ST_High := max 1 (2 * ?load s), ST_Max := room (?load s)\<rparr>" if "s < length (Subtables T)" for s
    using two(5) that by (simp add: size_subtable_def reset_subtable_def room_def Let_def)
  show "distributed F (distribute F T)"
    using two(1,2,4) load key c by (auto simp: D distributed_def Let_def sub)
  show "same_keys T (distribute F T)" "HParam (Info (distribute F T)) = HParam (Info T)"
    using two by (simp_all add: D same_keys_def)
  have "map ST_Max (Subtables (distribute F T)) = map (\<lambda>s. room (?load s)) [0..<length (Subtables T)]"
    using two(2) by (intro nth_equalityI) (auto simp: D sub)
  then show "Max_Sum (distribute F T) = (\<Sum>s<length (Subtables T). room (?load s))"
    by (simp add: Max_Sum_def interv_sum_list_conv_sum_set_nat lessThan_atLeast0)
qed

text \<open>The search for the hash function of the table.\<close>

definition table_ok :: "'p Hash_Table \<Rightarrow> bool" where
  "table_ok T \<longleftrightarrow> N_Subtables (Info T) = length (Subtables T) \<and> 0 < length (Subtables T) \<and> Count (Info T) \<le> length (Elements T)"

definition with_HParam :: "'p \<Rightarrow> 'p Hash_Table \<Rightarrow> 'p Hash_Table" where
  "with_HParam p T = T\<lparr>Info := (Info T)\<lparr>HParam := p\<rparr>\<rparr>"

lemma with_HParam_sel [simp]:
  "HParam (Info (with_HParam p T)) = p" "Count (Info (with_HParam p T)) = Count (Info T)" "High (Info (with_HParam p T)) = High (Info T)"
  "N_Subtables (Info (with_HParam p T)) = N_Subtables (Info T)" "Elements (with_HParam p T) = Elements T" "Subtables (with_HParam p T) = Subtables T"
  by (simp_all add: with_HParam_def)

lemma same_keys_HParam: "same_keys T (with_HParam p T)" "table_ok (with_HParam p T) = table_ok T"
  by (simp_all add: same_keys_def table_ok_def)

lemma table_ok_keys: "same_keys T T' \<Longrightarrow> table_ok T' = table_ok T"
  using same_keys_length [of T T'] by (simp add: table_ok_def same_keys_def)

definition table_load :: "'p hash_family \<Rightarrow> 'p \<Rightarrow> 'p Hash_Table \<Rightarrow> nat" where
  "table_load F p T = (\<Sum>s<length (Subtables T). room (load F p (N_Subtables (Info T)) (Count (Info T)) (Elements T) s))"

lemma table_load_keys: "same_keys T T' \<Longrightarrow> table_ok T \<Longrightarrow> table_load F p T' = table_load F p T"
  using load_core [of "Elements T'" "Elements T" "Count (Info T)" F p] by (simp add: table_load_def same_keys_def table_ok_def)

lemma distribute_ok:
  assumes "hash_ok F" "table_ok T"
  shows "distributed F (distribute F T)" "same_keys T (distribute F T)" "HParam (Info (distribute F T)) = HParam (Info T)"
    "Max_Sum (distribute F T) = table_load F (HParam (Info T)) T"
  using assms distribute_post [of F T] by (simp_all add: table_ok_def table_load_def)

lemma find_table_hash_post:
  assumes "find_table_hash F T = Some T'" "hash_ok F" "table_ok T"
  shows "distributed F T' \<and> same_keys T T' \<and> Max_Sum T' \<le> 44 * High (Info T') div 3"
  using assms
proof (induction rule: find_table_hash.raw_induct [rotated, consumes 1, case_names step])
  case (step loop F T T')
  let ?T1 = "distribute F T"
  note one = distribute_ok [OF step(3,4)]
  show ?case
  proof (cases "Max_Sum ?T1 \<le> 44 * High (Info ?T1) div 3")
    case True
    then show ?thesis
      using step(2) one by (simp add: Let_def)
  next
    case False
    let ?T2 = "with_HParam (Next_Hash_Parameters F (HParam (Info ?T1))) ?T1"
    have "loop F ?T2 = Some T'"
      using step(2) False by (simp add: Let_def with_HParam_def)
    moreover have "table_ok ?T2"
      using step(4) table_ok_keys [OF one(2)] by (simp add: same_keys_HParam)
    ultimately have "distributed F T' \<and> same_keys ?T2 T' \<and> Max_Sum T' \<le> 44 * High (Info T') div 3"
      using step(1) step(3) by blast
    then show ?thesis
      using same_keys_trans [OF same_keys_trans [OF one(2) same_keys_HParam(1)]] by blast
  qed
qed

lemma find_table_hash_returns:
  assumes "hash_ok F" "table_ok T" "table_load F ((Next_Hash_Parameters F ^^ j) (HParam (Info T))) T \<le> 44 * High (Info T) div 3"
  shows "\<exists>T'. find_table_hash F T = Some T'"
  using assms(2,3)
proof (induction j arbitrary: T)
  case 0
  note one = distribute_ok [OF assms(1) 0(1)]
  have "Max_Sum (distribute F T) \<le> 44 * High (Info (distribute F T)) div 3"
    using 0(2) one(2,4) by (simp add: same_keys_def)
  then show ?case
    by (subst find_table_hash.simps) (simp add: Let_def)
next
  case (Suc j)
  let ?T1 = "distribute F T"
  let ?T2 = "with_HParam (Next_Hash_Parameters F (HParam (Info ?T1))) ?T1"
  note one = distribute_ok [OF assms(1) Suc.prems(1)]
  have keys: "same_keys T ?T2"
    using same_keys_trans [OF one(2) same_keys_HParam(1)] .
  have "\<exists>T'. find_table_hash F ?T2 = Some T'"
  proof (rule Suc.IH)
    show "table_ok ?T2"
      using table_ok_keys [OF keys] Suc.prems(1) by simp
    show "table_load F ((Next_Hash_Parameters F ^^ j) (HParam (Info ?T2))) ?T2 \<le> 44 * High (Info ?T2) div 3"
      using Suc.prems(2) table_load_keys [OF keys Suc.prems(1)] keys one(3)
      by (simp add: funpow_Suc_right same_keys_def del: funpow.simps)
  qed
  then show ?case
    by (subst find_table_hash.simps) (simp add: Let_def with_HParam_def)
qed

section \<open>Boundaries\<close>

lemma length_boundaries [simp]: "length (boundaries i Ss) = length Ss"
  by (induction i Ss rule: boundaries.induct) auto

lemma boundaries_nth:
  "s < length Ss \<Longrightarrow> boundaries i Ss ! s = (Ss ! s)\<lparr>ST_First := i + sum_list (map ST_Max (take s Ss)),
     ST_Last := i + sum_list (map ST_Max (take s Ss)) + ST_Max (Ss ! s) - 1\<rparr>"
proof (induction i Ss arbitrary: s rule: boundaries.induct)
  case (2 i ST Ss)
  then show ?case
    by (cases s) (auto simp: add.assoc)
qed simp

text \<open>The subtables are disjoint ranges, in their order, below a bound.\<close>

definition layout :: "'p Subtable list \<Rightarrow> nat \<Rightarrow> bool" where
  "layout Ss m \<longleftrightarrow> (\<forall>s < length Ss. 0 < ST_Max (Ss ! s) \<and> ST_Last (Ss ! s) = ST_First (Ss ! s) + ST_Max (Ss ! s) - 1
      \<and> ST_First (Ss ! s) + ST_Max (Ss ! s) \<le> m)
   \<and> (\<forall>s t. s < t \<and> t < length Ss \<longrightarrow> ST_First (Ss ! s) + ST_Max (Ss ! s) \<le> ST_First (Ss ! t))"

lemma boundaries_layout:
  assumes pos: "\<forall>ST\<in>set Ss. 0 < ST_Max ST" and m: "sum_list (map ST_Max Ss) \<le> m"
  shows "layout (boundaries 0 Ss) m"
proof -
  have upto: "sum_list (map ST_Max (take s Ss)) + ST_Max (Ss ! s) = sum_list (map ST_Max (take (Suc s) Ss))" if "s < length Ss" for s
    using that by (simp add: take_Suc_conv_app_nth)
  have mono: "sum_list (map ST_Max (take s Ss)) \<le> sum_list (map ST_Max (take t Ss))" if "s \<le> t" for s t
  proof -
    have "take t Ss = take s Ss @ take (t - s) (drop s Ss)"
      using that by (metis le_add_diff_inverse take_add)
    then show ?thesis
      by simp
  qed
  have "sum_list (map ST_Max (take t Ss)) \<le> m" for t
    using mono [of t "max t (length Ss)"] m by simp
  then show ?thesis
    using pos upto mono by (auto simp: layout_def boundaries_nth)
qed

lemma layout_disjoint:
  assumes "layout Ss m" "s < length Ss" "t < length Ss" "i \<in> sub_range (Ss ! s)" "i \<in> sub_range (Ss ! t)"
  shows "s = t"
proof (rule ccontr)
  assume "s \<noteq> t"
  then consider "s < t" | "t < s" by linarith
  then show False
    using assms by cases (fastforce simp: layout_def sub_range_def)+
qed

end
