(* ===== verification/Htable_Reorder.thy ===== *)
theory Htable_Reorder
  imports Htable_Loops
begin

text \<open>
  The second half of \<open>Rehash_All\<close>: the loop that moves every element to its subtable, and the treatment of the subtables
  one after the other.
\<close>

section \<open>The rearrangement of the whole array\<close>

definition home :: "'p hash_family \<Rightarrow> 'p Subtable list \<Rightarrow> Element \<Rightarrow> nat" where
  "home F Ss e = (let ST = Ss ! ST_Index e in Hash F (the (Key e)) (ST_HParam ST) (ST_Max ST))"

text \<open>A place for an element: in its subtable, and in the only place for its key when it is alone there.\<close>

definition at_home :: "'p hash_family \<Rightarrow> 'p Subtable list \<Rightarrow> Element \<Rightarrow> nat \<Rightarrow> bool" where
  "at_home F Ss e i \<longleftrightarrow> (let ST = Ss ! ST_Index e in
     i \<in> sub_range ST \<and> (ST_Count ST = 1 \<longrightarrow> i = home F Ss e + ST_First ST))"

definition full :: "Element \<Rightarrow> (string option \<times> bool \<times> nat) \<times> nat" where
  "full e = (core e, ST_Index e)"

lemma full_sel: "full e = full e' \<longleftrightarrow> core e = core e' \<and> ST_Index e = ST_Index e'"
  by (simp add: full_def)

lemma full_offset [simp]: "full (e\<lparr>ST_Offset := x\<rparr>) = full e" "Used (e\<lparr>ST_Offset := x\<rparr>) = Used e"
  "home F Ss (e\<lparr>ST_Offset := x\<rparr>) = home F Ss e" "at_home F Ss (e\<lparr>ST_Offset := x\<rparr>) i = at_home F Ss e i"
  by (simp_all add: full_def core_def home_def at_home_def)

definition members :: "Element list \<Rightarrow> nat \<Rightarrow> nat set" where
  "members Es s = {i. i < length Es \<and> Used (Es ! i) \<and> ST_Index (Es ! i) = s}"

lemma members_finite [simp]: "finite (members Es s)"
  by (simp add: members_def)

lemma members_card: "card (members Es s) = size (filter_mset (\<lambda>c. fst (snd (fst c)) \<and> snd c = s) (mset (map full Es)))"
proof -
  have "card (members Es s) = length (filter (\<lambda>e. Used e \<and> ST_Index e = s) Es)"
    by (simp add: members_def length_filter_conv_card)
  then show ?thesis
    by (simp add: full_def core_def filter_mset_image_mset flip: mset_filter)
qed

definition reorder_inv :: "'p hash_family \<Rightarrow> 'p Subtable list \<Rightarrow> Element list \<Rightarrow> bool" where
  "reorder_inv F Ss Es \<longleftrightarrow> hash_ok F \<and> layout Ss (length Es) \<and> (\<forall>c\<in>set (map full Es). fst (snd (fst c)) \<longrightarrow> snd c < length Ss)
   \<and> (\<forall>s < length Ss. ST_Count (Ss ! s) = card (members Es s) \<and> ST_Count (Ss ! s) \<le> ST_Max (Ss ! s))"

lemma reorder_inv_full: "mset (map full Es') = mset (map full Es) \<Longrightarrow> reorder_inv F Ss Es' = reorder_inv F Ss Es"
proof -
  assume eq: "mset (map full Es') = mset (map full Es)"
  then have "length Es' = length Es" "set (map full Es') = set (map full Es)"
    by (metis length_map size_mset) (metis eq set_mset_mset)
  then show ?thesis
    unfolding reorder_inv_def members_card eq by simp
qed

lemma reorder_invD:
  assumes "reorder_inv F Ss Es" "i < length Es" "Used (Es ! i)"
  shows "ST_Index (Es ! i) < length Ss" "i \<in> members Es (ST_Index (Es ! i))"
    "home F Ss (Es ! i) + ST_First (Ss ! ST_Index (Es ! i)) \<in> sub_range (Ss ! ST_Index (Es ! i))"
proof -
  have "full (Es ! i) \<in> set (map full Es)"
    using assms(2) by simp
  then show s: "ST_Index (Es ! i) < length Ss"
    using assms by (fastforce simp: reorder_inv_def full_def core_def)
  show "i \<in> members Es (ST_Index (Es ! i))"
    using assms(2,3) by (simp add: members_def)
  show "home F Ss (Es ! i) + ST_First (Ss ! ST_Index (Es ! i)) \<in> sub_range (Ss ! ST_Index (Es ! i))"
    using assms(1) s by (auto simp: reorder_inv_def home_def Let_def sub_range_def layout_def dest: hash_okD)
qed

lemma sub_range_length: "reorder_inv F Ss Es \<Longrightarrow> s < length Ss \<Longrightarrow> i \<in> sub_range (Ss ! s) \<Longrightarrow> i < length Es"
  by (fastforce simp: reorder_inv_def layout_def sub_range_def)

lemma free_place_append:
  "\<exists>i\<in>set xs. \<not> (Used (Es ! i) \<and> s = ST_Index (Es ! i))
    \<Longrightarrow> \<exists>d\<in>set xs. free_place Es s (xs @ ys) = Some d \<and> \<not> (Used (Es ! d) \<and> s = ST_Index (Es ! d))"
  by (induction xs) auto

text \<open>A subtable that has a member outside its range has a free place within.\<close>

lemma free_place_found:
  assumes inv: "reorder_inv F Ss Es" and J: "J < length Es" "Used (Es ! J)" and s: "ST_Index (Es ! J) = s" and out: "J \<notin> sub_range (Ss ! s)"
  shows "\<exists>d\<in>sub_range (Ss ! s). free_place Es s [ST_First (Ss ! s)..<length Es] = Some d \<and> \<not> (Used (Es ! d) \<and> s = ST_Index (Es ! d))"
proof -
  let ?a = "ST_First (Ss ! s)" and ?m = "ST_Max (Ss ! s)"
  have sl: "s < length Ss"
    using reorder_invD(1) [OF inv J] s by simp
  have b: "?a + ?m \<le> length Es" "card (members Es s) \<le> ?m"
    using inv sl by (auto simp: reorder_inv_def layout_def)
  have "\<exists>i\<in>set [?a..<?a + ?m]. \<not> (Used (Es ! i) \<and> s = ST_Index (Es ! i))"
  proof (rule ccontr)
    assume "\<not> (\<exists>i\<in>set [?a..<?a + ?m]. \<not> (Used (Es ! i) \<and> s = ST_Index (Es ! i)))"
    then have all: "Used (Es ! i) \<and> ST_Index (Es ! i) = s" if "i \<in> sub_range (Ss ! s)" for i
      using that by (auto simp: sub_range_def)
    have "i \<in> members Es s" if "i \<in> insert J (sub_range (Ss ! s))" for i
      using that all [of i] J s b by (auto simp: members_def) (simp add: sub_range_def)
    then have "card (insert J (sub_range (Ss ! s))) \<le> card (members Es s)"
      by (intro card_mono [OF members_finite] subsetI)
    then show False
      using out b by (simp add: sub_range_def)
  qed
  from free_place_append [OF this, of "[?a + ?m..<length Es]"]
  obtain d where d: "d \<in> set [?a..<?a + ?m]" "free_place Es s ([?a..<?a + ?m] @ [?a + ?m..<length Es]) = Some d"
    "\<not> (Used (Es ! d) \<and> s = ST_Index (Es ! d))"
    by blast
  have "[?a..<?a + ?m] @ [?a + ?m..<length Es] = [?a..<length Es]"
    using b(1) by (metis le_add1 le_Suc_ex upt_add_eq_append)
  then show ?thesis
    using d by (intro bexI [of _ d]) (auto simp: sub_range_def)
qed

lemma misplaced_at_home:
  assumes "reorder_inv F Ss Es" "J < length Es" "Used (Es ! J)"
  shows "misplaced Ss (ST_Index (Es ! J)) (home F Ss (Es ! J)) J \<longleftrightarrow> \<not> at_home F Ss (Es ! J) J"
  using reorder_invD(1) [OF assms] assms(1)
  by (fastforce simp: misplaced_def at_home_def Let_def sub_range_def reorder_inv_def layout_def)

text \<open>The place that the loop chooses is one for the element, and nothing is there with right.\<close>

definition chosen :: "Element list \<Rightarrow> 'p Subtable list \<Rightarrow> nat \<Rightarrow> nat \<Rightarrow> nat option" where
  "chosen Es Ss s ofs = (if ST_Count (Ss ! s) = 1 then Some (ofs + ST_First (Ss ! s)) else free_place Es s [ST_First (Ss ! s)..<length Es])"

lemma chosen_ok:
  assumes inv: "reorder_inv F Ss Es" and J: "J < length Es" "Used (Es ! J)" "\<not> at_home F Ss (Es ! J) J"
  shows "\<exists>d. chosen Es Ss (ST_Index (Es ! J)) (home F Ss (Es ! J)) = Some d \<and> d < length Es \<and> d \<noteq> J \<and> at_home F Ss (Es ! J) d
    \<and> \<not> (Used (Es ! d) \<and> at_home F Ss (Es ! d) d)"
proof -
  obtain s where sJ: "ST_Index (Es ! J) = s" by blast
  have s: "s < length Ss"
    using reorder_invD(1) [OF inv J(1,2)] sJ by simp
  have lay: "layout Ss (length Es)"
    using inv by (simp add: reorder_inv_def)
  have other: "ST_Index (Es ! d) = s" if "d \<in> sub_range (Ss ! s)" "Used (Es ! d)" "at_home F Ss (Es ! d) d" for d
  proof -
    have "d < length Es"
      by (rule sub_range_length [OF inv s that(1)])
    then show ?thesis
      using layout_disjoint [OF lay reorder_invD(1) [OF inv _ that(2)] s _ that(1)] that(3) by (simp add: at_home_def Let_def)
  qed
  show ?thesis
  proof (cases "ST_Count (Ss ! s) = 1")
    case True
    let ?d = "home F Ss (Es ! J) + ST_First (Ss ! s)"
    have d: "?d \<in> sub_range (Ss ! s)"
      using reorder_invD(3) [OF inv J(1,2)] sJ by simp
    have dl: "?d < length Es"
      by (rule sub_range_length [OF inv s d])
    have ne: "?d \<noteq> J"
      using J(3) d True sJ by (auto simp: at_home_def Let_def)
    have "card (members Es s) = 1"
      using inv s True by (simp add: reorder_inv_def)
    then have "\<not> (Used (Es ! ?d) \<and> at_home F Ss (Es ! ?d) ?d)"
    proof (rule contrapos_pn)
      assume "Used (Es ! ?d) \<and> at_home F Ss (Es ! ?d) ?d"
      then have "{J, ?d} \<subseteq> members Es s"
        using other [OF d] dl J(1,2) sJ by (auto simp: members_def)
      from card_mono [OF members_finite this] show "card (members Es s) \<noteq> 1"
        using ne by simp
    qed
    then show ?thesis
      unfolding sJ using True d dl ne by (intro exI [of _ ?d]) (simp add: chosen_def at_home_def Let_def sJ)
  next
    case False
    then have out: "J \<notin> sub_range (Ss ! s)"
      using J(3) sJ by (simp add: at_home_def Let_def)
    obtain d where d: "d \<in> sub_range (Ss ! s)" "free_place Es s [ST_First (Ss ! s)..<length Es] = Some d"
        "\<not> (Used (Es ! d) \<and> s = ST_Index (Es ! d))"
      using free_place_found [OF inv J(1,2) sJ out] by blast
    have "d \<noteq> J" "\<not> (Used (Es ! d) \<and> at_home F Ss (Es ! d) d)"
      using d out other [OF d(1)] by auto
    then show ?thesis
      unfolding sJ using False d sub_range_length [OF inv s d(1)] by (intro exI [of _ d]) (simp add: chosen_def at_home_def Let_def sJ)
  qed
qed

lemma bad_offset: "bad (at_home F Ss) R (Es[J := (Es ! J)\<lparr>ST_Offset := x\<rparr>]) = bad (at_home F Ss) R Es"
  by (cases "J < length Es") (auto simp: bad_def nth_list_update list_update_beyond)

lemma full_offset_update: "map full (Es[J := (Es ! J)\<lparr>ST_Offset := x\<rparr>]) = map full Es"
  by (rule map_update_unchanged) simp

lemma reorder_loop_ok:
  assumes "reorder_inv F Ss Es" "J < length Es" "ST_Index (Es ! J) = s" "Used (Es ! J) \<Longrightarrow> ofs = home F Ss (Es ! J)"
  shows "\<exists>Es'. reorder_loop F Ss J s ofs Es = Some Es' \<and> length Es' = length Es \<and> mset (map full Es') = mset (map full Es)
    \<and> J \<notin> bad (at_home F Ss) {..<length Es} Es'
    \<and> (\<forall>i. i \<noteq> J \<longrightarrow> i \<notin> bad (at_home F Ss) {..<length Es} Es \<longrightarrow> i \<notin> bad (at_home F Ss) {..<length Es} Es')
    \<and> (\<forall>i < length Es. i \<noteq> J \<longrightarrow> Used (Es ! i) \<longrightarrow> Used (Es' ! i))"
  using assms
proof (induction "card (bad (at_home F Ss) {..<length Es} Es)" arbitrary: Es s ofs rule: less_induct)
  case less
  let ?R = "{..<length Es}" and ?G = "at_home F Ss"
  note inv = less.prems(1) and J = less.prems(2) and s = less.prems(3) and ofs = less.prems(4)
  show ?case
  proof (cases "Used (Es ! J) \<and> \<not> ?G (Es ! J) J")
    case False
    then have "\<not> (misplaced Ss s ofs J \<and> Used (Es ! J))"
      using misplaced_at_home [OF inv J] ofs s by auto
    then have "reorder_loop F Ss J s ofs Es = Some Es"
      by (subst reorder_loop.simps) auto
    then show ?thesis
      using False by (auto simp: bad_def)
  next
    case True
    have o: "ofs = home F Ss (Es ! J)"
      using True ofs by simp
    obtain d where d: "chosen Es Ss s ofs = Some d" "d < length Es" "d \<noteq> J" "?G (Es ! J) d" "\<not> (Used (Es ! d) \<and> ?G (Es ! d) d)"
      using chosen_ok [OF inv J] True s o by auto
    let ?Es1 = "Swap_Elements Es J d"
    let ?ofs = "offset_of F Ss (?Es1 ! J) ofs"
    let ?Es2 = "?Es1[J := (?Es1 ! J)\<lparr>ST_Offset := ?ofs\<rparr>]"
    note sw = bad_swap [of ?R Es J d ?G]
    have less': "card (bad ?G ?R ?Es2) < card (bad ?G ?R Es)"
      using sw(1) d J True by (simp add: bad_offset)
    have keep: "i \<notin> bad ?G ?R ?Es2" if "i \<noteq> J" "i \<notin> bad ?G ?R Es" for i
      using sw(2) d J True that by (simp add: bad_offset)
    have ms: "mset (map full ?Es2) = mset (map full Es)"
      unfolding full_offset_update by (rule mset_Swap [OF J d(2)])
    have used: "Used (?Es2 ! i)" if "i < length Es" "i \<noteq> J" "Used (Es ! i)" for i
      using that True d(3) nth_Swap [OF J d(2), of i] by (auto simp: swapped_def)
    have "\<exists>Es'. reorder_loop F Ss J (ST_Index (?Es1 ! J)) ?ofs ?Es2 = Some Es' \<and> length Es' = length ?Es2 \<and> mset (map full Es') = mset (map full ?Es2)
      \<and> J \<notin> bad ?G {..<length ?Es2} Es' \<and> (\<forall>i. i \<noteq> J \<longrightarrow> i \<notin> bad ?G {..<length ?Es2} ?Es2 \<longrightarrow> i \<notin> bad ?G {..<length ?Es2} Es')
      \<and> (\<forall>i < length ?Es2. i \<noteq> J \<longrightarrow> Used (?Es2 ! i) \<longrightarrow> Used (Es' ! i))"
    proof (rule less.hyps)
      show "card (bad ?G {..<length ?Es2} ?Es2) < card (bad ?G ?R Es)"
        using less' by simp
      show "reorder_inv F Ss ?Es2"
        using reorder_inv_full [OF ms, of F Ss] inv by simp
      show "J < length ?Es2" "ST_Index (?Es2 ! J) = ST_Index (?Es1 ! J)"
        using J by simp_all
      show "?ofs = home F Ss (?Es2 ! J)" if "Used (?Es2 ! J)"
        using that J by (simp add: offset_of_def home_def Let_def)
    qed
    then obtain Es' where IH: "reorder_loop F Ss J (ST_Index (?Es1 ! J)) ?ofs ?Es2 = Some Es'" "length Es' = length Es"
      "mset (map full Es') = mset (map full Es)" "J \<notin> bad ?G ?R Es'"
      "\<forall>i. i \<noteq> J \<longrightarrow> i \<notin> bad ?G ?R ?Es2 \<longrightarrow> i \<notin> bad ?G ?R Es'" "\<forall>i < length Es. i \<noteq> J \<longrightarrow> Used (?Es2 ! i) \<longrightarrow> Used (Es' ! i)"
      unfolding ms by auto
    have "misplaced Ss s ofs J \<and> Used (Es ! J)"
      using misplaced_at_home [OF inv J] True s o by simp
    then have "reorder_loop F Ss J s ofs Es = Some Es'"
      using d(1) IH(1) by (subst reorder_loop.simps) (simp add: chosen_def Let_def split: if_splits)
    then show ?thesis
      using IH keep used by (intro exI [of _ Es']) blast
  qed
qed

lemma reorder_one_ok:
  assumes "reorder_inv F Ss Es" "J < length Es"
  shows "\<exists>Es'. reorder_one F Ss J Es = Some Es' \<and> length Es' = length Es \<and> mset (map full Es') = mset (map full Es)
    \<and> J \<notin> bad (at_home F Ss) {..<length Es} Es'
    \<and> (\<forall>i. i \<noteq> J \<longrightarrow> i \<notin> bad (at_home F Ss) {..<length Es} Es \<longrightarrow> i \<notin> bad (at_home F Ss) {..<length Es} Es')
    \<and> (\<forall>i < length Es. i \<noteq> J \<longrightarrow> Used (Es ! i) \<longrightarrow> Used (Es' ! i))"
proof -
  let ?ofs = "home F Ss (Es ! J)"
  let ?Es = "Es[J := (Es ! J)\<lparr>ST_Offset := ?ofs\<rparr>]"
  have inv: "reorder_inv F Ss ?Es"
    using assms(1) reorder_inv_full [of ?Es Es F Ss] by (simp only: full_offset_update)
  have "\<exists>Es'. reorder_loop F Ss J (ST_Index (Es ! J)) ?ofs ?Es = Some Es' \<and> length Es' = length ?Es \<and> mset (map full Es') = mset (map full ?Es)
    \<and> J \<notin> bad (at_home F Ss) {..<length ?Es} Es'
    \<and> (\<forall>i. i \<noteq> J \<longrightarrow> i \<notin> bad (at_home F Ss) {..<length ?Es} ?Es \<longrightarrow> i \<notin> bad (at_home F Ss) {..<length ?Es} Es')
    \<and> (\<forall>i < length ?Es. i \<noteq> J \<longrightarrow> Used (?Es ! i) \<longrightarrow> Used (Es' ! i))"
    using inv assms(2) by (intro reorder_loop_ok) simp_all
  then show ?thesis
    unfolding bad_offset full_offset_update by (auto simp: reorder_one_def home_def Let_def)
qed

lemma reorder_ok:
  assumes "reorder_inv F Ss Es" "\<forall>J\<in>set Js. J < length Es"
  shows "\<exists>Es'. reorder F Ss Js Es = Some Es' \<and> length Es' = length Es \<and> mset (map full Es') = mset (map full Es)
    \<and> bad (at_home F Ss) {..<length Es} Es' \<subseteq> bad (at_home F Ss) {..<length Es} Es - set Js"
  using assms
proof (induction Js arbitrary: Es)
  case (Cons J Js)
  let ?bad = "bad (at_home F Ss) {..<length Es}"
  obtain Es1 where one: "reorder_one F Ss J Es = Some Es1" "length Es1 = length Es" "mset (map full Es1) = mset (map full Es)"
    "J \<notin> ?bad Es1" "\<forall>i. i \<noteq> J \<longrightarrow> i \<notin> ?bad Es \<longrightarrow> i \<notin> ?bad Es1"
    using reorder_one_ok [OF Cons.prems(1), of J] Cons.prems(2) by auto
  have inv: "reorder_inv F Ss Es1"
    using Cons.prems(1) reorder_inv_full [OF one(3), of F Ss] by simp
  obtain Es' where "reorder F Ss Js Es1 = Some Es'" "length Es' = length Es" "mset (map full Es') = mset (map full Es)"
    "?bad Es' \<subseteq> ?bad Es1 - set Js"
    using Cons.IH [OF inv] Cons.prems(2) one(2,3) by auto
  moreover have "?bad Es1 \<subseteq> ?bad Es - {J}"
    using one(4,5) by auto
  ultimately show ?case
    using one(1) by (intro exI [of _ Es']) auto
qed simp

section \<open>Keys in their subtables\<close>

definition subtable_of :: "'p hash_family \<Rightarrow> 'p Hash_Table \<Rightarrow> string \<Rightarrow> nat" where
  "subtable_of F T k = Hash F k (HParam (Info T)) (N_Subtables (Info T))"

text \<open>Every key in use is in the range of its subtable, not necessarily at its place there.\<close>

definition in_subtables :: "'p hash_family \<Rightarrow> 'p Hash_Table \<Rightarrow> bool" where
  "in_subtables F T \<longleftrightarrow> hash_ok F \<and> N_Subtables (Info T) = length (Subtables T) \<and> 0 < length (Subtables T)
   \<and> layout (Subtables T) (length (Elements T)) \<and> keyed (Elements T)
   \<and> (\<forall>i < length (Elements T). Used (Elements T ! i) \<longrightarrow> i \<in> sub_range (Subtables T ! subtable_of F T (the (Key (Elements T ! i)))))"

definition placed_in :: "'p hash_family \<Rightarrow> 'p Hash_Table \<Rightarrow> nat \<Rightarrow> bool" where
  "placed_in F T s \<longleftrightarrow> (\<forall>i\<in>sub_range (Subtables T ! s). Used (Elements T ! i) \<longrightarrow>
     i = ST_First (Subtables T ! s) + Hash F (the (Key (Elements T ! i))) (ST_HParam (Subtables T ! s)) (ST_Max (Subtables T ! s)))"

lemma in_subtablesD:
  assumes "in_subtables F T"
  shows "subtable_of F T k < length (Subtables T)" "s < length (Subtables T) \<Longrightarrow> range_ok s T"
    "i < length (Elements T) \<Longrightarrow> Used (Elements T ! i) \<Longrightarrow> s < length (Subtables T)
       \<Longrightarrow> i \<in> sub_range (Subtables T ! s) \<Longrightarrow> subtable_of F T (the (Key (Elements T ! i))) = s"
proof -
  show sub: "subtable_of F T k < length (Subtables T)" for k
    using assms by (simp add: in_subtables_def subtable_of_def hash_ok_def)
  show "s < length (Subtables T) \<Longrightarrow> range_ok s T"
    using assms by (simp add: in_subtables_def range_ok_def layout_def Let_def)
  show "i < length (Elements T) \<Longrightarrow> Used (Elements T ! i) \<Longrightarrow> s < length (Subtables T)
       \<Longrightarrow> i \<in> sub_range (Subtables T ! s) \<Longrightarrow> subtable_of F T (the (Key (Elements T ! i))) = s"
    using assms sub by (auto simp: in_subtables_def intro: layout_disjoint)
qed

lemma sub_range_less: "in_subtables F T \<Longrightarrow> s < length (Subtables T) \<Longrightarrow> i \<in> sub_range (Subtables T ! s) \<Longrightarrow> i < length (Elements T)"
  by (fastforce simp: in_subtables_def layout_def sub_range_def)

lemma sub_range_HParam: "sub_range (Subtables (set_HParam s p T) ! t) = sub_range (Subtables T ! t)"
  by (cases "s = t"; cases "s < length (Subtables T)") (simp_all add: sub_range_def set_HParam_def list_update_beyond)

lemma layout_HParam: "layout (Subtables (set_HParam s p T)) m = layout (Subtables T) m"
proof -
  have "ST_First (Subtables (set_HParam s p T) ! t) = ST_First (Subtables T ! t)" "ST_Last (Subtables (set_HParam s p T) ! t) = ST_Last (Subtables T ! t)"
    "ST_Max (Subtables (set_HParam s p T) ! t) = ST_Max (Subtables T ! t)" for t
    by (cases "s = t"; cases "s < length (Subtables T)"; simp add: set_HParam_def list_update_beyond)+
  then show ?thesis
    by (simp add: layout_def)
qed

text \<open>What the treatment of one subtable keeps.\<close>

definition only_params :: "'p Hash_Table \<Rightarrow> 'p Hash_Table \<Rightarrow> bool" where
  "only_params T T' \<longleftrightarrow> Info T' = Info T \<and> mset (map core (Elements T')) = mset (map core (Elements T))
   \<and> map (\<lambda>ST. ST\<lparr>ST_HParam := undefined\<rparr>) (Subtables T') = map (\<lambda>ST. ST\<lparr>ST_HParam := undefined\<rparr>) (Subtables T)"

lemma only_params_trans: "only_params T T1 \<Longrightarrow> only_params T1 T2 \<Longrightarrow> only_params T T2"
  by (simp add: only_params_def)

lemma only_params_refl [simp]: "only_params T T"
  by (simp add: only_params_def)

lemma only_params_HParam: "only_params T (set_HParam s p T)"
proof -
  have "map (\<lambda>ST. ST\<lparr>ST_HParam := undefined\<rparr>) ((Subtables T)[s := (Subtables T ! s)\<lparr>ST_HParam := p\<rparr>])
      = map (\<lambda>ST. ST\<lparr>ST_HParam := undefined\<rparr>) (Subtables T)"
    by (rule map_update_unchanged) simp
  then show ?thesis
    by (simp add: only_params_def) (simp add: set_HParam_def)
qed

lemma Process_Subtable_step:
  assumes run: "Process_Subtable F s T = Some T'" and ok: "in_subtables F T" and s: "s < length (Subtables T)"
  shows "in_subtables F T'" "placed_in F T' s" "t < length (Subtables T) \<Longrightarrow> t \<noteq> s \<Longrightarrow> placed_in F T t \<Longrightarrow> placed_in F T' t" "only_params T T'"
    "i < length (Elements T) \<Longrightarrow> i \<notin> sub_range (Subtables T ! s) \<Longrightarrow> Elements T' ! i = Elements T ! i"
proof -
  have F: "hash_ok F" and k: "keyed (Elements T)"
    using ok by (simp_all add: in_subtables_def)
  obtain p where p: "Subtables T' = Subtables (set_HParam s p T)" "Info T' = Info T"
    "moved (sub_range (Subtables T ! s)) (Elements T) (Elements T')"
    "\<forall>i\<in>sub_range (Subtables T ! s). Used (Elements T' ! i) \<longrightarrow>
        i = ST_First (Subtables T ! s) + Hash F (the (Key (Elements T' ! i))) p (ST_Max (Subtables T ! s))"
    using Process_Subtable_post [OF run in_subtablesD(2) [OF ok s] F k] by blast
  have len: "length (Elements T') = length (Elements T)" and ms: "mset (map core (Elements T')) = mset (map core (Elements T))"
    using p(3) by (simp_all add: moved_def)
  show "i < length (Elements T) \<Longrightarrow> i \<notin> sub_range (Subtables T ! s) \<Longrightarrow> Elements T' ! i = Elements T ! i"
    using p(3) by (simp add: moved_def)
  show "only_params T T'"
    using only_params_HParam [of T s p] p(1,2) ms by (simp add: only_params_def)
  show "placed_in F T' s"
    using p(4) s unfolding placed_in_def p(1) sub_range_HParam by simp
  have sub: "subtable_of F T' = subtable_of F T"
    by (simp add: subtable_of_def p(2) fun_eq_iff)
  have "i \<in> sub_range (Subtables T' ! subtable_of F T' (the (Key (Elements T' ! i))))"
    if i: "i < length (Elements T')" "Used (Elements T' ! i)" for i
  proof (cases "i \<in> sub_range (Subtables T ! s)")
    case True
    then obtain j where j: "j \<in> sub_range (Subtables T ! s)" "core (Elements T' ! i) = core (Elements T ! j)"
      using p(3) by (auto simp: moved_def)
    then have "subtable_of F T (the (Key (Elements T' ! i))) = s"
      using in_subtablesD(3) [OF ok sub_range_less [OF ok s j(1)] _ s j(1)] i(2) by (simp add: core_sel)
    then show ?thesis
      unfolding p(1) sub_range_HParam sub using True by simp
  next
    case False
    then have "Elements T' ! i = Elements T ! i"
      using p(3) i(1) len by (simp add: moved_def)
    then show ?thesis
      unfolding p(1) sub_range_HParam sub using ok i len by (simp add: in_subtables_def)
  qed
  then show "in_subtables F T'"
    using ok p(1,2) len keyed_core [OF ms] by (simp add: in_subtables_def layout_HParam)
  show "placed_in F T' t" if t: "t < length (Subtables T)" "t \<noteq> s" "placed_in F T t"
    unfolding placed_in_def p(1) sub_range_HParam
  proof (intro ballI impI)
    fix i
    assume i: "i \<in> sub_range (Subtables T ! t)" "Used (Elements T' ! i)"
    have "i \<notin> sub_range (Subtables T ! s)"
      using layout_disjoint [OF _ t(1) s i(1)] t(2) ok by (auto simp: in_subtables_def)
    then have "Elements T' ! i = Elements T ! i"
      using p(3) sub_range_less [OF ok t(1) i(1)] by (simp add: moved_def)
    then show "i = ST_First (Subtables (set_HParam s p T) ! t) + Hash F (the (Key (Elements T' ! i)))
        (ST_HParam (Subtables (set_HParam s p T) ! t)) (ST_Max (Subtables (set_HParam s p T) ! t))"
      using t i by (simp add: placed_in_def)
  qed
qed

lemma only_params_nth:
  assumes "only_params T T'" "s < length (Subtables T)"
  shows "ST_First (Subtables T' ! s) = ST_First (Subtables T ! s)" "ST_Max (Subtables T' ! s) = ST_Max (Subtables T ! s)"
    "ST_Count (Subtables T' ! s) = ST_Count (Subtables T ! s)" "ST_High (Subtables T' ! s) = ST_High (Subtables T ! s)"
    "ST_Last (Subtables T' ! s) = ST_Last (Subtables T ! s)" "length (Subtables T') = length (Subtables T)"
    "sub_range (Subtables T' ! s) = sub_range (Subtables T ! s)"
proof -
  let ?f = "\<lambda>ST. ST\<lparr>ST_HParam := undefined\<rparr>"
  have eq: "map ?f (Subtables T') = map ?f (Subtables T)"
    using assms(1) by (simp add: only_params_def)
  show len: "length (Subtables T') = length (Subtables T)"
    using arg_cong [OF eq, of length] by simp
  have "?f (Subtables T' ! s) = ?f (Subtables T ! s)"
    using arg_cong [OF eq, of "\<lambda>xs. xs ! s"] assms(2) len by simp
  then show "ST_First (Subtables T' ! s) = ST_First (Subtables T ! s)" "ST_Max (Subtables T' ! s) = ST_Max (Subtables T ! s)"
    "ST_Count (Subtables T' ! s) = ST_Count (Subtables T ! s)" "ST_High (Subtables T' ! s) = ST_High (Subtables T ! s)"
    "ST_Last (Subtables T' ! s) = ST_Last (Subtables T ! s)"
    by (metis Subtable.select_convs Subtable.surjective Subtable.update_convs(6))+
  then show "sub_range (Subtables T' ! s) = sub_range (Subtables T ! s)"
    by (simp add: sub_range_def)
qed

lemma only_params_length: "only_params T T' \<Longrightarrow> length (Subtables T') = length (Subtables T) \<and> length (Elements T') = length (Elements T)"
  unfolding only_params_def by (metis length_map size_mset)

lemma in_subtables_HParam: "in_subtables F (set_HParam s p T) = in_subtables F T"
  by (simp add: in_subtables_def layout_HParam sub_range_HParam subtable_of_def)

text \<open>What the last loop of \<open>Rehash_All\<close> relies on for a subtable with at most one element.\<close>

definition ready :: "'p hash_family \<Rightarrow> 'p Hash_Table \<Rightarrow> nat \<Rightarrow> bool" where
  "ready F T s \<longleftrightarrow> (ST_Count (Subtables T ! s) = 1 \<longrightarrow> placed_in F T s)
   \<and> (ST_Count (Subtables T ! s) = 0 \<longrightarrow> (\<forall>i\<in>sub_range (Subtables T ! s). \<not> Used (Elements T ! i)))"

lemma process_all_post:
  assumes "process_all F ss T = Some T'" "in_subtables F T" "distinct ss" "\<forall>s\<in>set ss. s < length (Subtables T) \<and> ready F T s"
    "\<forall>s < length (Subtables T). s \<notin> set ss \<longrightarrow> placed_in F T s"
  shows "in_subtables F T' \<and> (\<forall>s < length (Subtables T). placed_in F T' s) \<and> only_params T T'"
  using assms
proof (induction ss arbitrary: T)
  case (Cons s ss)
  note ok = Cons.prems(2)
  have s: "s < length (Subtables T)" and r: "ready F T s"
    using Cons.prems(4) by auto
  obtain T1 where T1: "process_all F ss T1 = Some T'" "in_subtables F T1" "placed_in F T1 s" "only_params T T1"
    and keep: "\<And>t. t < length (Subtables T) \<Longrightarrow> t \<noteq> s \<Longrightarrow> placed_in F T t \<Longrightarrow> placed_in F T1 t"
    and same: "\<And>i. i < length (Elements T) \<Longrightarrow> i \<notin> sub_range (Subtables T ! s) \<Longrightarrow> Elements T1 ! i = Elements T ! i"
  proof (cases "ST_Count (Subtables T ! s) > 1")
    case True
    then obtain T1 where "Process_Subtable F s T = Some T1" "process_all F ss T1 = Some T'"
      using Cons.prems(1) by (auto split: bind_splits)
    then show ?thesis
      using that [of T1] Process_Subtable_step [OF _ ok s, of T1] by blast
  next
    case False
    show ?thesis
    proof (cases "ST_Count (Subtables T ! s) = 0")
      case True
      let ?T1 = "set_HParam s (Default_Hash_Parameters F) T"
      have "placed_in F ?T1 s"
        using r True unfolding placed_in_def ready_def sub_range_HParam by simp
      moreover have "placed_in F ?T1 t" if "t \<noteq> s" "placed_in F T t" for t
        using that unfolding placed_in_def sub_range_HParam by simp
      ultimately show ?thesis
        using that [of ?T1] Cons.prems(1) True ok by (simp add: in_subtables_HParam only_params_HParam)
    next
      case one: False
      then have "placed_in F T s"
        using False r by (simp add: ready_def)
      then show ?thesis
        using that [of T] Cons.prems(1) False one ok by simp
    qed
  qed
  have len: "length (Subtables T1) = length (Subtables T)"
    using only_params_length [OF T1(4)] by simp
  have "ready F T1 t" if t: "t \<in> set ss" for t
  proof -
    have tl: "t < length (Subtables T)" "t \<noteq> s" "ready F T t"
      using Cons.prems(3,4) t by auto
    note p = only_params_nth [OF T1(4) tl(1)]
    have "\<not> Used (Elements T1 ! i)" if "ST_Count (Subtables T ! t) = 0" "i \<in> sub_range (Subtables T ! t)" for i
    proof -
      have "i \<notin> sub_range (Subtables T ! s)"
        using layout_disjoint [OF _ tl(1) s that(2)] tl(2) ok by (auto simp: in_subtables_def)
      then show ?thesis
        using same [OF sub_range_less [OF ok tl(1) that(2)]] tl(3) that by (simp add: ready_def)
    qed
    then show ?thesis
      using tl(3) keep [OF tl(1,2)] p(3,7) by (simp add: ready_def)
  qed
  then have "in_subtables F T' \<and> (\<forall>s < length (Subtables T1). placed_in F T' s) \<and> only_params T1 T'"
    using T1 Cons.prems(3,4,5) keep len by (intro Cons.IH) auto
  then show ?case
    using only_params_trans [OF T1(4)] len by auto
qed simp

end
