(* ===== verification/Htable_Map.thy ===== *)
theory Htable_Map
  imports Htable_Reorder
begin

text \<open>
  The perfect hash tables of \<open>Perfect_Htables\<close> implement maps from keys to items. The invariant says that the subtables
  are disjoint ranges of the elements and that each key in use is at its place.
\<close>

section \<open>The invariant\<close>

text \<open>The number of keys that belong to a subtable, which only depends on the keys and items of the elements.\<close>

definition key_count :: "'p hash_family \<Rightarrow> 'p Hash_Table \<Rightarrow> nat \<Rightarrow> nat" where
  "key_count F T s = size (filter_mset (\<lambda>c. fst (snd c) \<and> subtable_of F T (the (fst c)) = s) (mset (map core (Elements T))))"

lemma key_count_card:
  "key_count F T s = card {i. i < length (Elements T) \<and> Used (Elements T ! i) \<and> subtable_of F T (the (Key (Elements T ! i))) = s}"
proof -
  have "key_count F T s = length (filter (\<lambda>e. Used e \<and> subtable_of F T (the (Key e)) = s) (Elements T))"
    by (simp add: key_count_def core_def filter_mset_image_mset flip: mset_filter)
  then show ?thesis
    by (simp add: length_filter_conv_card)
qed

text \<open>The size of a subtable is enough for as many keys as it may hold before the next reorganization.\<close>

definition sized :: "'p Subtable \<Rightarrow> bool" where
  "sized ST \<longleftrightarrow> ST_High ST \<le> ST_Max ST \<and> 2 * ST_High ST * (ST_High ST - 1) \<le> ST_Max ST"

definition ht_ok :: "'p hash_family \<Rightarrow> 'p Hash_Table \<Rightarrow> bool" where
  "ht_ok F T \<longleftrightarrow> in_subtables F T \<and> (\<forall>s < length (Subtables T). placed_in F T s)
   \<and> layout (Subtables T) (44 * High (Info T) div 3) \<and> length (Elements T) = 15 * High (Info T) + 1
   \<and> (\<forall>s < length (Subtables T). ST_Count (Subtables T ! s) = key_count F T s \<and> sized (Subtables T ! s))
   \<and> Count (Info T) = used_count (Elements T) \<and> Count (Info T) \<le> High (Info T) \<and> N_Subtables (Info T) = 3 * High (Info T)
   \<and> mset (map Item_Index (Elements T)) = mset [0..<length (Elements T)]"

text \<open>What \<open>Rehash_All\<close> starts from: the key to be inserted is counted, and the last element is free for it.\<close>

definition rehash_pre :: "'p hash_family \<Rightarrow> 'p Hash_Table \<Rightarrow> bool" where
  "rehash_pre F T \<longleftrightarrow> hash_ok F \<and> N_Subtables (Info T) = length (Subtables T) \<and> 0 < length (Subtables T) \<and> keyed (Elements T)
   \<and> length (Elements T) = 15 * High (Info T) + 1 \<and> \<not> Used (last (Elements T)) \<and> Count (Info T) = used_count (Elements T) + 1
   \<and> Count (Info T) \<le> High (Info T) \<and> N_Subtables (Info T) = 3 * High (Info T)"

lemma put_last_facts:
  assumes "Es \<noteq> []" "\<not> Used (last Es)"
  shows "length (put_last K Es) = length Es" "keyed (put_last K Es) = keyed (butlast Es)"
    "used_count (put_last K Es) = used_count Es + 1" "put_last K Es \<noteq> []"
    "put_last K Es = butlast Es @ [(last Es)\<lparr>Key := Some K, Used := True\<rparr>]"
proof -
  show e: "put_last K Es = butlast Es @ [(last Es)\<lparr>Key := Some K, Used := True\<rparr>]"
    using assms(1) unfolding put_last_def by (metis append_butlast_last_id length_butlast list_update_length)
  show "length (put_last K Es) = length Es" "put_last K Es \<noteq> []"
    using assms(1) by (simp_all add: e)
  show "keyed (put_last K Es) = keyed (butlast Es)"
    by (auto simp: e keyed_def)
  have "filter Used Es = filter Used (butlast Es)"
    using assms by (metis append_Nil2 append_butlast_last_id filter.simps(1,2) filter_append)
  then show "used_count (put_last K Es) = used_count Es + 1"
    by (simp add: e used_count_def)
qed

lemma keyed_mset: "mset Es' = mset Es \<Longrightarrow> keyed Es' = keyed Es"
  by (metis keyed_def set_mset_mset)

lemma rehash_compact:
  assumes pre: "rehash_pre F T" and Es_def: "Es = compact (put_last K (Elements T)) 0 (length (put_last K (Elements T)) - 1)"
  shows "mset Es = mset (put_last K (Elements T))" "length Es = length (Elements T)" "keyed Es"
    "j < length Es \<Longrightarrow> Used (Es ! j) \<longleftrightarrow> j < Count (Info T)"
proof -
  let ?P = "put_last K (Elements T)"
  have ne: "Elements T \<noteq> []" "\<not> Used (last (Elements T))"
    using pre by (auto simp: rehash_pre_def)
  note P = put_last_facts [OF ne, of K]
  have c: "length Es = length ?P" "mset Es = mset ?P" "\<exists>c. \<forall>j < length ?P. Used (Es ! j) \<longleftrightarrow> j < c"
  proof -
    have "length (compact ?P 0 (length ?P - 1)) = length ?P \<and> mset (compact ?P 0 (length ?P - 1)) = mset ?P
        \<and> (\<exists>c. \<forall>j < length ?P. Used (compact ?P 0 (length ?P - 1) ! j) \<longleftrightarrow> j < c)"
      by (rule compact_spec) (use P(4) in auto)
    then show "length Es = length ?P" "mset Es = mset ?P" "\<exists>c. \<forall>j < length ?P. Used (Es ! j) \<longleftrightarrow> j < c"
      unfolding Es_def by blast+
  qed
  show "mset Es = mset ?P" "length Es = length (Elements T)"
    using c P(1) by simp_all
  have "keyed (butlast (Elements T))"
    using pre by (auto simp: rehash_pre_def keyed_def dest: in_set_butlastD)
  then show "keyed Es"
    using keyed_mset [OF c(2)] P(2) by simp
  have "used_count Es = used_count ?P"
    using c(2) by (intro used_count_core) (simp add: mset_map)
  then have "used_count Es = Count (Info T)"
    using P(3) pre by (simp add: rehash_pre_def)
  then show "j < length Es \<Longrightarrow> Used (Es ! j) \<longleftrightarrow> j < Count (Info T)"
    using c(1,3) front_count [of Es _ j] by auto
qed

text \<open>The table after the distribution, with the boundaries of its subtables, is fit for the rearrangement.\<close>

lemma rehash_reorder_inv:
  assumes d: "distributed F T" and F: "hash_ok F" and n: "N_Subtables (Info T) = length (Subtables T)" "0 < length (Subtables T)"
    and m: "Max_Sum T \<le> 44 * High (Info T) div 3" "length (Elements T) = 15 * High (Info T) + 1"
    and used: "\<And>j. j < length (Elements T) \<Longrightarrow> Used (Elements T ! j) \<longleftrightarrow> j < Count (Info T)" and c: "Count (Info T) \<le> length (Elements T)"
  shows "reorder_inv F (boundaries 0 (Subtables T)) (Elements T)" "layout (boundaries 0 (Subtables T)) (44 * High (Info T) div 3)"
    "s < length (Subtables T) \<Longrightarrow> ST_Count (boundaries 0 (Subtables T) ! s) = card (members (Elements T) s)
      \<and> ST_HParam (boundaries 0 (Subtables T) ! s) = Default_Hash_Parameters F
      \<and> sized (boundaries 0 (Subtables T) ! s) \<and> card (members (Elements T) s) \<le> ST_High (boundaries 0 (Subtables T) ! s)"
proof -
  let ?Ss = "boundaries 0 (Subtables T)"
  let ?load = "load F (HParam (Info T)) (N_Subtables (Info T)) (Count (Info T)) (Elements T)"
  have sub: "ST_Count (Subtables T ! s) = ?load s" "ST_HParam (Subtables T ! s) = Default_Hash_Parameters F"
    "ST_Max (Subtables T ! s) = room (?load s)" "ST_High (Subtables T ! s) = max 1 (2 * ?load s)" if "s < length (Subtables T)" for s
    using d that by (simp_all add: distributed_def Let_def)
  have idx: "ST_Index (Elements T ! J) = Hash F (the (Key (Elements T ! J))) (HParam (Info T)) (N_Subtables (Info T))" if "J < Count (Info T)" for J
    using d that by (simp add: distributed_def)
  have mem: "members (Elements T) s = {J. J < Count (Info T) \<and> Hash F (the (Key (Elements T ! J))) (HParam (Info T)) (N_Subtables (Info T)) = s}" for s
    using used idx c by (auto simp: members_def)
  have "\<forall>ST\<in>set (Subtables T). 0 < ST_Max ST"
    using sub(3) room_pos(1) by (auto simp: in_set_conv_nth)
  then show lay: "layout ?Ss (44 * High (Info T) div 3)"
    using boundaries_layout m(1) by (simp add: Max_Sum_def)
  have "44 * High (Info T) div 3 \<le> length (Elements T)"
    using m(2) by simp
  then have lay': "layout ?Ss (length (Elements T))"
    using lay unfolding layout_def by (meson le_trans)
  show one: "ST_Count (?Ss ! s) = card (members (Elements T) s) \<and> ST_HParam (?Ss ! s) = Default_Hash_Parameters F \<and> sized (?Ss ! s) \<and> card (members (Elements T) s) \<le> ST_High (?Ss ! s)"
    if "s < length (Subtables T)" for s
  proof -
    have "card (members (Elements T) s) = ?load s"
      by (simp add: mem load_def)
    then show ?thesis
      using sub [OF that] that room_pos(1,2,4) [of "?load s"] by (simp add: boundaries_nth sized_def Suc_le_eq)
  qed
  have "ST_Index e < length ?Ss" if e: "e \<in> set (Elements T)" "Used e" for e
  proof -
    obtain J where "J < length (Elements T)" "e = Elements T ! J"
      using e(1) by (metis in_set_conv_nth)
    then show ?thesis
      using idx [of J] used [of J] e(2) n hash_okD [OF F] by simp
  qed
  then have "\<forall>c\<in>set (map full (Elements T)). fst (snd (fst c)) \<longrightarrow> snd c < length ?Ss"
    by (auto simp: full_def core_def)
  moreover have "ST_Count (?Ss ! s) \<le> ST_Max (?Ss ! s)" if "s < length (Subtables T)" for s
    using sub [OF that] that room_pos(3) by (simp add: boundaries_nth)
  ultimately show "reorder_inv F ?Ss (Elements T)"
    using F lay' one by (simp add: reorder_inv_def)
qed

lemma mset_full_core: "mset (map full Es') = mset (map full Es) \<Longrightarrow> mset (map core Es') = mset (map core Es)"
proof -
  assume "mset (map full Es') = mset (map full Es)"
  then have "image_mset fst (mset (map full Es')) = image_mset fst (mset (map full Es))"
    by simp
  moreover have "image_mset fst (mset (map full Es)) = mset (map core Es)" for Es
    by (simp add: full_def [abs_def] flip: mset_map) (simp add: comp_def)
  ultimately show ?thesis
    by simp
qed

text \<open>After the rearrangement every key is in its subtable, and alone keys are at their places.\<close>

lemma rehash_reordered:
  assumes inv: "reorder_inv F Ss Es" and home: "bad (at_home F Ss) {..<length Es} Es = {}"
    and n: "N_Subtables I = length Ss" "0 < length Ss" and k: "keyed Es"
    and idx: "\<forall>c\<in>set (map full Es). fst (snd (fst c)) \<longrightarrow> snd c = Hash F (the (fst (fst c))) (HParam I) (N_Subtables I)"
  defines "T \<equiv> \<lparr>Info = I, Elements = Es, Subtables = Ss\<rparr>"
  shows "in_subtables F T" "s < length Ss \<Longrightarrow> ready F T s"
proof -
  have F: "hash_ok F" and lay: "layout Ss (length Es)"
    using inv by (simp_all add: reorder_inv_def)
  have st: "ST_Index (Es ! i) = subtable_of F T (the (Key (Es ! i)))" "at_home F Ss (Es ! i) i" if "i < length Es" "Used (Es ! i)" for i
  proof -
    have "full (Es ! i) \<in> set (map full Es)"
      using that(1) by simp
    then show "ST_Index (Es ! i) = subtable_of F T (the (Key (Es ! i)))"
      using bspec [OF idx, of "full (Es ! i)"] that(2) by (simp add: full_def core_def subtable_of_def T_def)
    show "at_home F Ss (Es ! i) i"
      using home that by (auto simp: bad_def)
  qed
  then show in_sub: "in_subtables F T"
    using F n lay k by (auto simp: in_subtables_def T_def at_home_def Let_def)
  assume s: "s < length Ss"
  have mem: "ST_Count (Ss ! s) = card (members Es s)"
    using inv s by (simp add: reorder_inv_def)
  have own: "ST_Index (Es ! i) = s" if "i \<in> sub_range (Ss ! s)" "Used (Es ! i)" for i
    using in_subtablesD(3) [OF in_sub, of i s] sub_range_less [OF in_sub, of s i] st(1) [of i] that s by (simp add: T_def)
  have l: "i < length Es" if "i \<in> sub_range (Ss ! s)" for i
    using sub_range_less [OF in_sub, of s i] that s by (simp add: T_def)
  have "placed_in F T s" if "ST_Count (Ss ! s) = 1"
  proof -
    have "i = ST_First (Ss ! s) + Hash F (the (Key (Es ! i))) (ST_HParam (Ss ! s)) (ST_Max (Ss ! s))"
      if i: "i \<in> sub_range (Ss ! s)" "Used (Es ! i)" for i
    proof -
      have "home F Ss (Es ! i) + ST_First (Ss ! s) = i"
        using st(2) [OF l [OF i(1)] i(2)] own [OF i] \<open>ST_Count (Ss ! s) = 1\<close> by (simp add: at_home_def Let_def)
      then show ?thesis
        using own [OF i] by (simp add: home_def Let_def add.commute)
    qed
    then show ?thesis
      by (simp add: placed_in_def T_def)
  qed
  moreover have "\<not> Used (Es ! i)" if "ST_Count (Ss ! s) = 0" "i \<in> sub_range (Ss ! s)" for i
  proof
    assume "Used (Es ! i)"
    then have "i \<in> members Es s"
      using own [OF that(2)] l [OF that(2)] by (simp add: members_def)
    then show False
      using that(1) mem by auto
  qed
  ultimately show "ready F T s"
    by (auto simp: ready_def T_def)
qed

text \<open>The state before the last loop of \<open>Rehash_All\<close>.\<close>

lemma distributed_full:
  assumes d: "distributed F T" and used: "\<And>j. j < length (Elements T) \<Longrightarrow> Used (Elements T ! j) \<longleftrightarrow> j < Count (Info T)"
    and ms: "mset (map full Es) = mset (map full (Elements T))"
  shows "\<forall>c\<in>set (map full Es). fst (snd (fst c)) \<longrightarrow> snd c = Hash F (the (fst (fst c))) (HParam (Info T)) (N_Subtables (Info T))"
proof
  fix c
  assume "c \<in> set (map full Es)"
  moreover have "set (map full Es) = set (map full (Elements T))"
    using ms by (metis set_mset_mset)
  ultimately obtain J where "J < length (Elements T)" "c = full (Elements T ! J)"
    by (auto simp: in_set_conv_nth)
  then show "fst (snd (fst c)) \<longrightarrow> snd c = Hash F (the (fst (fst c))) (HParam (Info T)) (N_Subtables (Info T))"
    using d used [of J] by (simp add: distributed_def full_def core_def)
qed

lemma rehash_stage:
  assumes pre: "rehash_pre F T" and T2: "find_table_hash F (T\<lparr>Elements := compact (put_last K (Elements T)) 0 (length (put_last K (Elements T)) - 1),
      Info := (Info T)\<lparr>HParam := Default_Hash_Parameters F\<rparr>\<rparr>) = Some T2"
  obtains T3 where "Rehash_All F K T = process_all F [0..<length (Subtables T3)] T3" "in_subtables F T3"
    "\<forall>s < length (Subtables T3). ready F T3 s \<and> ST_Count (Subtables T3 ! s) = key_count F T3 s \<and> sized (Subtables T3 ! s)
      \<and> key_count F T3 s \<le> ST_High (Subtables T3 ! s)"
    "mset (map core (Elements T3)) = mset (map core (put_last K (Elements T)))" "Info T3 = (Info T)\<lparr>HParam := HParam (Info T3)\<rparr>"
    "layout (Subtables T3) (44 * High (Info T) div 3)" "length (Subtables T3) = length (Subtables T)"
proof -
  let ?P = "put_last K (Elements T)"
  obtain Es1 where Es1: "Es1 = compact ?P 0 (length ?P - 1)" by blast
  note c = rehash_compact [OF pre Es1]
  let ?T1 = "T\<lparr>Elements := Es1, Info := (Info T)\<lparr>HParam := Default_Hash_Parameters F\<rparr>\<rparr>"
  have F: "hash_ok F" and pre': "N_Subtables (Info T) = length (Subtables T)" "0 < length (Subtables T)"
    "length (Elements T) = 15 * High (Info T) + 1" "Count (Info T) \<le> High (Info T)"
    using pre by (simp_all add: rehash_pre_def)
  have "table_ok ?T1"
    using c(2) pre' by (simp add: table_ok_def)
  from find_table_hash_post [OF T2 [folded Es1] F this]
  have d: "distributed F T2" and keys: "same_keys ?T1 T2" and mx: "Max_Sum T2 \<le> 44 * High (Info T2) div 3"
    by auto
  have i2: "Count (Info T2) = Count (Info T)" "High (Info T2) = High (Info T)" "N_Subtables (Info T2) = N_Subtables (Info T)"
    "length (Subtables T2) = length (Subtables T)" "length (Elements T2) = length (Elements T)" "map core (Elements T2) = map core Es1"
    using keys same_keys_length [OF keys] c(2) by (simp_all add: same_keys_def)
  have used2: "Used (Elements T2 ! j) \<longleftrightarrow> j < Count (Info T2)" if "j < length (Elements T2)" for j
    using c(2,4) i2 that map_core_nth [OF i2(6), of j] by (simp add: core_sel)
  let ?Ss = "boundaries 0 (Subtables T2)"
  have r: "reorder_inv F ?Ss (Elements T2)" "layout ?Ss (44 * High (Info T2) div 3)"
    "\<And>s. s < length (Subtables T2) \<Longrightarrow> ST_Count (?Ss ! s) = card (members (Elements T2) s)
      \<and> ST_HParam (?Ss ! s) = Default_Hash_Parameters F \<and> sized (?Ss ! s) \<and> card (members (Elements T2) s) \<le> ST_High (?Ss ! s)"
    using rehash_reorder_inv [OF d F _ _ mx _ used2] i2 pre' by auto
  obtain Es3 where Es3: "reorder F ?Ss [0..<Count (Info T2)] (Elements T2) = Some Es3" "length Es3 = length (Elements T2)"
    "mset (map full Es3) = mset (map full (Elements T2))"
    "bad (at_home F ?Ss) {..<length (Elements T2)} Es3 \<subseteq> bad (at_home F ?Ss) {..<length (Elements T2)} (Elements T2) - set [0..<Count (Info T2)]"
    using reorder_ok [OF r(1), of "[0..<Count (Info T2)]"] i2 pre' by auto
  have home: "bad (at_home F ?Ss) {..<length Es3} Es3 = {}"
    using Es3(2,4) used2 by (auto simp: bad_def)
  have inv3: "reorder_inv F ?Ss Es3"
    using reorder_inv_full [OF Es3(3), of F ?Ss] r(1) by simp
  have ms3: "mset (map core Es3) = mset (map core ?P)"
    using mset_full_core [OF Es3(3)] i2(6) c(1) by (simp add: mset_map)
  have k3: "keyed Es3"
    using keyed_core [of Es3 "Elements T2"] mset_full_core [OF Es3(3)] keyed_core [of "Elements T2" Es1] i2(6) c(3) by simp
  have idx: "\<forall>c\<in>set (map full Es3). fst (snd (fst c)) \<longrightarrow> snd c = Hash F (the (fst (fst c))) (HParam (Info T2)) (N_Subtables (Info T2))"
    by (rule distributed_full [OF d used2 Es3(3)])
  obtain T3 where T3: "T3 = \<lparr>Info = Info T2, Elements = Es3, Subtables = ?Ss\<rparr>" by blast
  have in3: "in_subtables F T3" "\<And>s. s < length (Subtables T3) \<Longrightarrow> ready F T3 s"
    using rehash_reordered [OF inv3 home _ _ k3 idx] i2 pre' by (auto simp: T3)
  have "process_all F [0..<length ?Ss] (T2\<lparr>Subtables := ?Ss, Elements := Es3\<rparr>) = process_all F [0..<length ?Ss] T3"
    by (cases T2) (simp add: T3)
  then have run: "Rehash_All F K T = process_all F [0..<length (Subtables T3)] T3"
    using T2 Es3(1) by (simp add: Rehash_All_def Let_def T3)
  have "ST_Count (Subtables T3 ! s) = key_count F T3 s" if s: "s < length (Subtables T3)" for s
  proof -
    have "ST_Count (Subtables T3 ! s) = card (members Es3 s)"
      using inv3 s by (simp add: reorder_inv_def T3)
    also have "members Es3 s = {i. i < length (Elements T3) \<and> Used (Elements T3 ! i) \<and> subtable_of F T3 (the (Key (Elements T3 ! i))) = s}"
      using idx by (auto simp: members_def subtable_of_def full_def core_def T3)
    finally show ?thesis
      by (simp add: key_count_card)
  qed
  moreover have "Info T3 = (Info T)\<lparr>HParam := HParam (Info T3)\<rparr>"
    using i2 by (intro Table_Info.equality) (simp_all add: T3)
  ultimately show ?thesis
    using that [OF run in3(1)] in3(2) ms3 r(2,3) i2 by (simp add: T3)
qed

lemma Rehash_All_post:
  assumes run: "Rehash_All F K T = Some T'" and pre: "rehash_pre F T" and it: "mset (map Item_Index (Elements T)) = mset [0..<length (Elements T)]"
  shows "ht_ok F T'" "mset (map core (Elements T')) = mset (map core (put_last K (Elements T)))" "Info T' = (Info T)\<lparr>HParam := HParam (Info T')\<rparr>"
proof -
  let ?P = "put_last K (Elements T)"
  obtain T2 where T2: "find_table_hash F (T\<lparr>Elements := compact ?P 0 (length ?P - 1), Info := (Info T)\<lparr>HParam := Default_Hash_Parameters F\<rparr>\<rparr>) = Some T2"
    using run by (auto simp: Rehash_All_def Let_def split: bind_splits)
  obtain T3 where T3: "Rehash_All F K T = process_all F [0..<length (Subtables T3)] T3" "in_subtables F T3"
    "\<forall>s < length (Subtables T3). ready F T3 s \<and> ST_Count (Subtables T3 ! s) = key_count F T3 s \<and> sized (Subtables T3 ! s)
      \<and> key_count F T3 s \<le> ST_High (Subtables T3 ! s)"
    "mset (map core (Elements T3)) = mset (map core ?P)" "Info T3 = (Info T)\<lparr>HParam := HParam (Info T3)\<rparr>"
    "layout (Subtables T3) (44 * High (Info T) div 3)" "length (Subtables T3) = length (Subtables T)"
    using rehash_stage [OF pre T2] by blast
  have "process_all F [0..<length (Subtables T3)] T3 = Some T'"
    using run T3(1) by simp
  from process_all_post [OF this T3(2)] T3(3)
  have in4: "in_subtables F T'" "\<forall>s < length (Subtables T3). placed_in F T' s" and par: "only_params T3 T'"
    by auto
  have i4: "Info T' = Info T3" "mset (map core (Elements T')) = mset (map core ?P)"
    using par T3(4) by (simp_all add: only_params_def)
  have i3: "High (Info T3) = High (Info T)" "N_Subtables (Info T3) = N_Subtables (Info T)" "Count (Info T3) = Count (Info T)"
    by (subst T3(5), simp)+
  show "mset (map core (Elements T')) = mset (map core ?P)"
    by (rule i4)
  show "Info T' = (Info T)\<lparr>HParam := HParam (Info T')\<rparr>"
    using i4(1) T3(5) by simp
  have ne: "Elements T \<noteq> []" "\<not> Used (last (Elements T))" and pre': "length (Elements T) = 15 * High (Info T) + 1" "Count (Info T) \<le> High (Info T)"
    "N_Subtables (Info T) = 3 * High (Info T)" "Count (Info T) = used_count (Elements T) + 1"
    using pre by (auto simp: rehash_pre_def)
  have len4: "length (Subtables T') = length (Subtables T3)" "length (Elements T') = length (Elements T)"
    using only_params_length [OF par] arg_cong [OF i4(2), of size] put_last_facts(1) [OF ne] by simp_all
  have "layout (Subtables T') (44 * High (Info T') div 3)"
    using T3(6) only_params_nth [OF par] len4 i4(1) i3 by (simp add: layout_def)
  moreover have "used_count (Elements T') = Count (Info T')"
    using used_count_core [OF i4(2)] put_last_facts(3) [OF ne] pre'(4) i4(1) i3 by simp
  moreover have "mset (map Item_Index (Elements T')) = mset [0..<length (Elements T')]"
  proof -
    have "image_mset (snd \<circ> snd) (mset (map core (Elements T'))) = image_mset (snd \<circ> snd) (mset (map core ?P))"
      using i4(2) by simp
    then have "mset (map Item_Index (Elements T')) = mset (map Item_Index ?P)"
      by (simp add: core_def [abs_def] image_mset.compositionality comp_def)
    also have "map Item_Index ?P = map Item_Index (Elements T)"
      unfolding put_last_def using ne(1) by (simp add: last_conv_nth map_update_unchanged [of Item_Index "\<lambda>e. e\<lparr>Key := Some K, Used := True\<rparr>"])
    finally show ?thesis
      using it len4 by simp
  qed
  moreover have "ST_Count (Subtables T' ! s) = key_count F T' s \<and> sized (Subtables T' ! s)" if s: "s < length (Subtables T')" for s
  proof -
    have "key_count F T' s = key_count F T3 s"
      using par by (simp add: key_count_def only_params_def subtable_of_def)
    then show ?thesis
      using only_params_nth [OF par] T3(3) s len4 by (simp add: sized_def)
  qed
  ultimately show "ht_ok F T'"
    using in4 len4 i4(1) i3 pre' by (simp add: ht_ok_def del: upt_Suc mset_upt)
qed

end
