(* ===== verification/Htable_Ops.thy ===== *)
theory Htable_Ops
  imports Htable_Map
begin

text \<open>
  The operations on the index of a table, under its invariant: what a look-up finds, that an insertion that returns adds exactly one
  element and keeps the invariant, that a deletion takes one away, and the two cases in which an insertion does not return.
\<close>

section \<open>Look-up\<close>

definition cores :: "'p Hash_Table \<Rightarrow> (string option \<times> bool \<times> nat) multiset" where
  "cores T = mset (map core (Elements T))"

definition place :: "'p hash_family \<Rightarrow> 'p Hash_Table \<Rightarrow> string \<Rightarrow> nat" where
  "place F T k = (let ST = Subtables T ! subtable_of F T k in ST_First ST + Hash F k (ST_HParam ST) (ST_Max ST))"

definition held :: "'p Hash_Table \<Rightarrow> string \<Rightarrow> bool" where
  "held T k \<longleftrightarrow> (\<exists>x. (Some k, True, x) \<in># cores T)"

lemma held_nth: "held T k \<longleftrightarrow> (\<exists>i < length (Elements T). Used (Elements T ! i) \<and> Key (Elements T ! i) = Some k)"
proof -
  have "held T k \<longleftrightarrow> (\<exists>e\<in>set (Elements T). Used e \<and> Key e = Some k)"
    by (simp add: held_def cores_def core_def image_iff) metis
  then show ?thesis
    by (metis in_set_conv_nth)
qed

lemma in_place:
  assumes "in_subtables F T"
  shows "place F T k \<in> sub_range (Subtables T ! subtable_of F T k)" "place F T k < length (Elements T)"
proof -
  have s: "subtable_of F T k < length (Subtables T)"
    by (rule in_subtablesD(1) [OF assms])
  then show "place F T k \<in> sub_range (Subtables T ! subtable_of F T k)"
    using assms by (auto simp: place_def Let_def sub_range_def in_subtables_def layout_def dest: hash_okD)
  then show "place F T k < length (Elements T)"
    by (rule sub_range_less [OF assms s])
qed

lemma ht_place:
  assumes ok: "ht_ok F T" and i: "i < length (Elements T)" "Used (Elements T ! i)" "Key (Elements T ! i) = Some k"
  shows "i = place F T k"
proof -
  have "in_subtables F T"
    using ok by (simp add: ht_ok_def)
  then have "i \<in> sub_range (Subtables T ! subtable_of F T k)" "subtable_of F T k < length (Subtables T)"
    using i in_subtablesD(1) by (auto simp: in_subtables_def)
  then show ?thesis
    using ok i unfolding ht_ok_def placed_in_def place_def Let_def by (metis option.sel)
qed

lemma Lookup_HT_spec:
  assumes "ht_ok F T"
  shows "Lookup_HT F T K = (subtable_of F T K, Hash F K (ST_HParam (Subtables T ! subtable_of F T K)) (ST_Max (Subtables T ! subtable_of F T K)), held T K)"
proof -
  have "in_subtables F T"
    using assms by (simp add: ht_ok_def)
  then have "Key (Elements T ! place F T K) = Some K \<and> Used (Elements T ! place F T K) \<longleftrightarrow> held T K"
    using in_place(2) [of F T K] ht_place [OF assms] by (auto simp: held_nth)
  then show ?thesis
    by (simp add: Lookup_HT_def Let_def subtable_of_def place_def)
qed

lemma place_add: "ST_First (Subtables T ! subtable_of F T K) + Hash F K (ST_HParam (Subtables T ! subtable_of F T K)) (ST_Max (Subtables T ! subtable_of F T K)) = place F T K"
  by (simp add: place_def Let_def)

section \<open>A key put into its subtable, or taken out\<close>

definition ht_base :: "'p hash_family \<Rightarrow> 'p Hash_Table \<Rightarrow> bool" where
  "ht_base F T \<longleftrightarrow> in_subtables F T
   \<and> layout (Subtables T) (44 * High (Info T) div 3) \<and> length (Elements T) = 15 * High (Info T) + 1
   \<and> (\<forall>s < length (Subtables T). ST_Count (Subtables T ! s) = key_count F T s \<and> sized (Subtables T ! s))
   \<and> Count (Info T) = used_count (Elements T) \<and> Count (Info T) \<le> High (Info T) \<and> N_Subtables (Info T) = 3 * High (Info T)
   \<and> mset (map Item_Index (Elements T)) = mset [0..<length (Elements T)]"

lemma ht_ok_base: "ht_ok F T \<longleftrightarrow> ht_base F T \<and> (\<forall>s < length (Subtables T). placed_in F T s)"
  by (auto simp: ht_ok_def ht_base_def)

definition recount :: "nat \<Rightarrow> nat \<Rightarrow> nat \<Rightarrow> 'p Hash_Table \<Rightarrow> 'p Hash_Table" where
  "recount s n c T = T\<lparr>Info := (Info T)\<lparr>Count := c\<rparr>, Subtables := (Subtables T)[s := (Subtables T ! s)\<lparr>ST_Count := n\<rparr>]\<rparr>"

lemma recount_sel [simp]:
  "Elements (recount s n c T) = Elements T" "HParam (Info (recount s n c T)) = HParam (Info T)"
  "N_Subtables (Info (recount s n c T)) = N_Subtables (Info T)" "High (Info (recount s n c T)) = High (Info T)"
  "Count (Info (recount s n c T)) = c" "length (Subtables (recount s n c T)) = length (Subtables T)"
  "subtable_of F (recount s n c T) = subtable_of F T"
  by (simp_all add: recount_def subtable_of_def fun_eq_iff)

lemma recount_subtable [simp]:
  "ST_First (Subtables (recount s n c T) ! t) = ST_First (Subtables T ! t)" "ST_Last (Subtables (recount s n c T) ! t) = ST_Last (Subtables T ! t)"
  "ST_Max (Subtables (recount s n c T) ! t) = ST_Max (Subtables T ! t)" "ST_High (Subtables (recount s n c T) ! t) = ST_High (Subtables T ! t)"
  "ST_HParam (Subtables (recount s n c T) ! t) = ST_HParam (Subtables T ! t)"
  "t < length (Subtables T) \<Longrightarrow> ST_Count (Subtables (recount s n c T) ! t) = (if t = s then n else ST_Count (Subtables T ! t))"
  "sub_range (Subtables (recount s n c T) ! t) = sub_range (Subtables T ! t)" "sized (Subtables (recount s n c T) ! t) = sized (Subtables T ! t)"
  by (cases "s = t"; cases "s < length (Subtables T)"; simp add: recount_def sub_range_def sized_def list_update_beyond)+

lemma recount_pred [simp]:
  "layout (Subtables (recount s n c T)) m = layout (Subtables T) m" "in_subtables F (recount s n c T) = in_subtables F T"
  "placed_in F (recount s n c T) t = placed_in F T t" "key_count F (recount s n c T) t = key_count F T t" "place F (recount s n c T) k = place F T k"
  by (simp_all add: layout_def in_subtables_def placed_in_def key_count_def place_def Let_def)

lemma recount_count_key: "count_key s T = recount s (ST_Count (Subtables T ! s) + 1) (Count (Info T) + 1) T"
  by (simp add: count_key_def recount_def)

lemma set_element_sel [simp]:
  "Info (set_element i f T) = Info T" "Subtables (set_element i f T) = Subtables T" "length (Elements (set_element i f T)) = length (Elements T)"
  "subtable_of F (set_element i f T) = subtable_of F T" "place F (set_element i f T) = place F T"
  "i < length (Elements T) \<Longrightarrow> Elements (set_element i f T) ! j = (if j = i then f (Elements T ! i) else Elements T ! j)"
  by (simp_all add: set_element_def subtable_of_def place_def fun_eq_iff nth_list_update)

lemma cores_set_element:
  assumes "i < length (Elements T)"
  obtains N where "cores T = add_mset (core (Elements T ! i)) N" "cores (set_element i f T) = add_mset (core (f (Elements T ! i))) N"
proof
  have "mset (map core (Elements T)) = add_mset (core (Elements T ! i)) (mset (map core (Elements T)) - {#core (Elements T ! i)#})"
    using assms by simp
  then show "cores T = add_mset (core (Elements T ! i)) (cores T - {#core (Elements T ! i)#})"
    by (simp only: cores_def)
  show "cores (set_element i f T) = add_mset (core (f (Elements T ! i))) (cores T - {#core (Elements T ! i)#})"
    using assms by (simp add: cores_def set_element_def mset_update map_update)
qed

text \<open>The counts and the item indices of a table, from its cores.\<close>

lemma used_count_cores: "used_count (Elements T) = size (filter_mset (\<lambda>c. fst (snd c)) (cores T))"
  unfolding used_count_def cores_def by (simp add: core_def filter_mset_image_mset flip: mset_filter)

lemma key_count_cores: "key_count F T s = size (filter_mset (\<lambda>c. fst (snd c) \<and> subtable_of F T (the (fst c)) = s) (cores T))"
  by (simp add: key_count_def cores_def)

lemma items_cores: "mset (map Item_Index (Elements T)) = image_mset (\<lambda>c. snd (snd c)) (cores T)"
  by (simp add: cores_def core_def image_mset.compositionality comp_def)

lemma keyed_cores: "keyed (Elements T) \<longleftrightarrow> (\<forall>c\<in>#cores T. fst (snd c) \<longrightarrow> fst c \<noteq> None)"
  by (simp add: keyed_def core_def cores_def)

lemma ht_base_cores:
  "ht_base F T \<longleftrightarrow> in_subtables F T
   \<and> layout (Subtables T) (44 * High (Info T) div 3) \<and> length (Elements T) = 15 * High (Info T) + 1
   \<and> (\<forall>s < length (Subtables T). ST_Count (Subtables T ! s) = size (filter_mset (\<lambda>c. fst (snd c) \<and> subtable_of F T (the (fst c)) = s) (cores T))
        \<and> sized (Subtables T ! s))
   \<and> Count (Info T) = size (filter_mset (\<lambda>c. fst (snd c)) (cores T)) \<and> Count (Info T) \<le> High (Info T) \<and> N_Subtables (Info T) = 3 * High (Info T)
   \<and> image_mset (\<lambda>c. snd (snd c)) (cores T) = mset [0..<length (Elements T)]"
  unfolding ht_base_def used_count_cores key_count_cores items_cores by simp

text \<open>A free element of the subtable of a key receives the key.\<close>

lemma put_key:
  assumes ok: "ht_base F T" and s: "s = subtable_of F T K" and p: "p \<in> sub_range (Subtables T ! s)" "\<not> Used (Elements T ! p)"
    and room: "Count (Info T) < High (Info T)" and f: "core (f (Elements T ! p)) = (Some K, True, Item_Index (Elements T ! p))"
  defines "T' \<equiv> set_element p f (count_key s T)"
  shows "ht_base F T'" "t < length (Subtables T) \<Longrightarrow> t \<noteq> s \<Longrightarrow> placed_in F T t \<Longrightarrow> placed_in F T' t"
    "\<exists>c N. cores T' = add_mset (Some K, True, Item_Index (Elements T ! p)) N \<and> cores T = add_mset (c, False, Item_Index (Elements T ! p)) N"
    "p = place F T K \<Longrightarrow> placed_in F T s \<Longrightarrow> placed_in F T' s"
proof -
  let ?x = "Item_Index (Elements T ! p)"
  have in_sub: "in_subtables F T"
    using ok by (simp add: ht_base_def)
  have sl: "s < length (Subtables T)"
    unfolding s by (rule in_subtablesD(1) [OF in_sub])
  have pl: "p < length (Elements T)"
    by (rule sub_range_less [OF in_sub sl p(1)])
  have fk: "Key (f (Elements T ! p)) = Some K" "Used (f (Elements T ! p))"
    using f by (simp_all add: core_def)
  obtain N where N: "cores (count_key s T) = add_mset (core (Elements T ! p)) N" "cores T' = add_mset (core (f (Elements T ! p))) N"
    using cores_set_element [of p "count_key s T" f] pl unfolding T'_def by (auto simp: recount_count_key)
  have cT: "cores T = add_mset (Key (Elements T ! p), False, ?x) N" "cores T' = add_mset (Some K, True, ?x) N"
    using N p(2) f by (simp_all add: recount_count_key cores_def core_def)
  then show "\<exists>c N. cores T' = add_mset (Some K, True, ?x) N \<and> cores T = add_mset (c, False, ?x) N"
    by blast
  have nth: "Elements T' ! j = (if j = p then f (Elements T ! p) else Elements T ! j)" for j
    using pl by (simp add: T'_def recount_count_key)
  have sel [simp]: "length (Elements T') = length (Elements T)" "length (Subtables T') = length (Subtables T)"
      "subtable_of F T' = subtable_of F T" "N_Subtables (Info T') = N_Subtables (Info T)" "High (Info T') = High (Info T)"
      "Count (Info T') = Count (Info T) + 1" "sub_range (Subtables T' ! t) = sub_range (Subtables T ! t)"
      "layout (Subtables T') m = layout (Subtables T) m" "sized (Subtables T' ! t) = sized (Subtables T ! t)"
      "ST_Max (Subtables T' ! t) = ST_Max (Subtables T ! t)"
      "ST_First (Subtables T' ! t) = ST_First (Subtables T ! t)" "ST_HParam (Subtables T' ! t) = ST_HParam (Subtables T ! t)" for t m
    by (simp_all add: T'_def recount_count_key)
  have "keyed (Elements T)"
    using in_sub by (simp add: in_subtables_def)
  then have "keyed (Elements T')"
    unfolding keyed_cores cT by auto
  then have "in_subtables F T'"
    using in_sub p(1) fk unfolding in_subtables_def by (simp add: nth s)
  moreover have "ST_Count (Subtables T' ! t) = (if t = s then ST_Count (Subtables T ! t) + 1 else ST_Count (Subtables T ! t))"
    if "t < length (Subtables T)" for t
    using that by (simp add: T'_def recount_count_key)
  ultimately show "ht_base F T'"
    using ok room s unfolding ht_base_cores cT by (auto simp del: upt_Suc mset_upt)
  show "placed_in F T' t" if t: "t < length (Subtables T)" "t \<noteq> s" "placed_in F T t" for t
  proof -
    have "p \<notin> sub_range (Subtables T ! t)"
      using layout_disjoint [OF _ t(1) sl _ p(1)] t(2) ok by (auto simp: ht_base_def)
    then show ?thesis
      using t(3) unfolding placed_in_def by (auto simp: nth)
  qed
  show "placed_in F T' s" if "p = place F T K" "placed_in F T s"
    using that(2) unfolding placed_in_def by (auto simp: nth fk) (simp add: that(1) place_def Let_def s)
qed

text \<open>A key is marked as deleted.\<close>

lemma drop_key:
  assumes ok: "ht_ok F T" and K: "held T K"
  defines "s \<equiv> subtable_of F T K" and "p \<equiv> place F T K"
  defines "T' \<equiv> set_element p (\<lambda>e. e\<lparr>Used := False\<rparr>) (recount s (ST_Count (Subtables T ! s) - 1) (Count (Info T) - 1) T)"
  shows "ht_ok F T'"
    "\<exists>N. cores T = add_mset (Some K, True, Item_Index (Elements T ! p)) N \<and> cores T' = add_mset (Some K, False, Item_Index (Elements T ! p)) N"
proof -
  let ?x = "Item_Index (Elements T ! p)"
  have base: "ht_base F T" and placed: "t < length (Subtables T) \<Longrightarrow> placed_in F T t" and in_sub: "in_subtables F T" for t
    using ok by (simp_all add: ht_ok_base ht_base_def del: upt_Suc mset_upt)
  have pl: "p < length (Elements T)" "Used (Elements T ! p)" "Key (Elements T ! p) = Some K"
    using K ht_place [OF ok] unfolding held_nth p_def by blast+
  let ?R = "recount s (ST_Count (Subtables T ! s) - 1) (Count (Info T) - 1) T"
  obtain N where N: "cores ?R = add_mset (core (Elements T ! p)) N" "cores T' = add_mset (core ((Elements T ! p)\<lparr>Used := False\<rparr>)) N"
    using cores_set_element [of p ?R "\<lambda>e. e\<lparr>Used := False\<rparr>"] pl unfolding T'_def by auto
  have cT: "cores T = add_mset (Some K, True, ?x) N" "cores T' = add_mset (Some K, False, ?x) N"
    using N pl by (simp_all add: cores_def core_def)
  then show "\<exists>N. cores T = add_mset (Some K, True, ?x) N \<and> cores T' = add_mset (Some K, False, ?x) N"
    by blast
  have nth: "Elements T' ! j = (if j = p then (Elements T ! p)\<lparr>Used := False\<rparr> else Elements T ! j)" for j
    using pl by (simp add: T'_def)
  have sel [simp]: "length (Elements T') = length (Elements T)" "length (Subtables T') = length (Subtables T)"
      "subtable_of F T' = subtable_of F T" "N_Subtables (Info T') = N_Subtables (Info T)" "High (Info T') = High (Info T)"
      "Count (Info T') = Count (Info T) - 1" "sub_range (Subtables T' ! t) = sub_range (Subtables T ! t)"
      "layout (Subtables T') m = layout (Subtables T) m" "sized (Subtables T' ! t) = sized (Subtables T ! t)"
      "ST_Max (Subtables T' ! t) = ST_Max (Subtables T ! t)"
      "ST_First (Subtables T' ! t) = ST_First (Subtables T ! t)" "ST_HParam (Subtables T' ! t) = ST_HParam (Subtables T ! t)" for t m
    by (simp_all add: T'_def)
  have "keyed (Elements T)"
    using in_sub by (simp add: in_subtables_def)
  then have "keyed (Elements T')"
    unfolding keyed_cores cT by auto
  then have "in_subtables F T'"
    using in_sub unfolding in_subtables_def by (simp add: nth)
  moreover have "ST_Count (Subtables T' ! t) = (if t = s then ST_Count (Subtables T ! t) - 1 else ST_Count (Subtables T ! t))"
    if "t < length (Subtables T)" for t
    using that by (simp add: T'_def)
  ultimately have "ht_base F T'"
    using base unfolding ht_base_cores cT by (auto simp: s_def simp del: upt_Suc mset_upt)
  moreover have "placed_in F T' t" if "t < length (Subtables T)" for t
    using placed [OF that] unfolding placed_in_def by (auto simp: nth)
  ultimately show "ht_ok F T'"
    by (simp add: ht_ok_base)
qed

section \<open>Insertion into the index\<close>

text \<open>What an insertion does to the keys and items: one element, possibly a new one, receives the key.\<close>

definition fresh :: "nat \<Rightarrow> nat \<Rightarrow> (string option \<times> bool \<times> nat) multiset" where
  "fresh a b = mset (map (\<lambda>J. (None, False, J)) [a..<b])"

definition inserted :: "string \<Rightarrow> nat \<Rightarrow> 'p Hash_Table \<Rightarrow> 'p Hash_Table \<Rightarrow> bool" where
  "inserted K x T T' \<longleftrightarrow> length (Elements T) \<le> length (Elements T')
   \<and> (\<exists>c N. cores T' = add_mset (Some K, True, x) N \<and> cores T + fresh (length (Elements T)) (length (Elements T')) = add_mset (c, False, x) N)"

lemma fresh_empty [simp]: "fresh a a = {#}"
  by (simp add: fresh_def)

lemma inserted_at:
  assumes ok: "ht_ok F T'" and ins: "inserted K x T T'"
  shows "held T' K" "Item_Index (Elements T' ! place F T' K) = x"
proof -
  have mem: "(Some K, True, x) \<in># cores T'"
    using ins by (auto simp: inserted_def)
  then show "held T' K"
    by (auto simp: held_def)
  obtain i where "i < length (Elements T')" "core (Elements T' ! i) = (Some K, True, x)"
    using mem by (auto simp: cores_def in_set_conv_nth)
  then show "Item_Index (Elements T' ! place F T' K) = x"
    using ht_place [OF ok, of i K] by (simp add: core_def)
qed

lemma held_unique:
  assumes ok: "ht_ok F T" and "cores T = add_mset (Some K, True, x) N"
  shows "(Some K, True, y) \<notin># N"
proof
  assume y: "(Some K, True, y) \<in># N"
  let ?I = "{i. i < length (Elements T) \<and> Key (Elements T ! i) = Some K \<and> Used (Elements T ! i)}"
  have "size (filter_mset (\<lambda>c. fst c = Some K \<and> fst (snd c)) (cores T)) = card ?I"
    by (simp add: cores_def core_def filter_mset_image_mset length_filter_conv_card flip: mset_filter)
  moreover have "?I \<subseteq> {place F T K}"
    using ht_place [OF ok] by blast
  from card_mono [OF _ this] have "card ?I \<le> 1"
    by simp
  ultimately have "size (filter_mset (\<lambda>c. fst c = Some K \<and> fst (snd c)) (cores T)) \<le> 1"
    by simp
  moreover obtain N' where "N = add_mset (Some K, True, y) N'"
    using y by (metis insert_DiffM)
  ultimately show False
    using assms(2) by simp
qed

lemma rehash_inserted:
  assumes run: "Rehash_All F K T = Some T'" and pre: "rehash_pre F T" and it: "mset (map Item_Index (Elements T)) = mset [0..<length (Elements T)]"
  shows "ht_ok F T'" "inserted K (Item_Index (last (Elements T))) T T'" "length (Elements T') = length (Elements T)"
proof -
  note post = Rehash_All_post [OF run pre it]
  show "ht_ok F T'"
    by (rule post(1))
  have ne: "Elements T \<noteq> []" "\<not> Used (last (Elements T))"
    using pre by (auto simp: rehash_pre_def)
  let ?l = "last (Elements T)" and ?N = "mset (map core (butlast (Elements T)))"
  have "cores T = mset (map core (butlast (Elements T) @ [?l]))"
    using ne(1) by (simp add: cores_def)
  then have cT: "cores T = add_mset (Key ?l, False, Item_Index ?l) ?N"
    using ne(2) by (simp add: core_def)
  have cT': "cores T' = add_mset (Some K, True, Item_Index ?l) ?N"
    using post(2) put_last_facts(5) [OF ne, of K] by (simp add: cores_def core_def)
  show "length (Elements T') = length (Elements T)"
    using arg_cong [OF post(2), of size] put_last_facts(1) [OF ne] by simp
  then show "inserted K (Item_Index ?l) T T'"
    using cT cT' unfolding inserted_def by auto
qed

lemma ht_last_unused: "ht_ok F T \<Longrightarrow> \<not> Used (last (Elements T))"
proof
  assume ok: "ht_ok F T" and u: "Used (last (Elements T))"
  let ?n = "15 * High (Info T)"
  have len: "length (Elements T) = ?n + 1" and in_sub: "in_subtables F T" and lay: "layout (Subtables T) (44 * High (Info T) div 3)"
    using ok by (simp_all add: ht_ok_def del: upt_Suc mset_upt)
  have "last (Elements T) = Elements T ! ?n"
    using len by (metis One_nat_def add_diff_cancel_right' last_conv_nth length_0_conv nat.simps(3) add_Suc_right add_0_right)
  then have "?n \<in> sub_range (Subtables T ! subtable_of F T (the (Key (Elements T ! ?n))))"
    using in_sub u len by (auto simp: in_subtables_def)
  then show False
    using lay in_subtablesD(1) [OF in_sub, of "the (Key (Elements T ! ?n))"] by (fastforce simp: layout_def sub_range_def)
qed

text \<open>The two ways in which an insertion reaches \<open>Rehash_All\<close>: the table is full, or the subtable is.\<close>

lemma extend_pre:
  assumes ok: "ht_ok F T" and full: "Count (Info T) = High (Info T)"
  shows "rehash_pre F (extend_HT F T)" "mset (map Item_Index (Elements (extend_HT F T))) = mset [0..<length (Elements (extend_HT F T))]"
    "cores (extend_HT F T) = cores T + fresh (length (Elements T)) (length (Elements (extend_HT F T)))"
    "length (Elements T) < length (Elements (extend_HT F T))"
proof -
  let ?T = "extend_HT F T" and ?c = "Count (Info T) + 1"
  let ?h = "?c + (?c + 1) div 2"
  let ?E = "map (\<lambda>J. Empty\<lparr>Item_Index := J\<rparr>) [length (Elements T)..<15 * ?h + 1]"
  have old: "length (Elements T) = 15 * High (Info T) + 1" "N_Subtables (Info T) = length (Subtables T)" "N_Subtables (Info T) = 3 * High (Info T)"
    "Count (Info T) = used_count (Elements T)" "keyed (Elements T)" "hash_ok F" "mset (map Item_Index (Elements T)) = mset [0..<length (Elements T)]"
    using ok by (simp_all add: ht_ok_def in_subtables_def del: upt_Suc mset_upt)
  have h: "High (Info T) < ?h"
    using full by simp
  have E: "Elements ?T = Elements T @ ?E" "?E \<noteq> []" "\<forall>e\<in>set ?E. e = Empty\<lparr>Item_Index := Item_Index e\<rparr>"
    using h old(1) by (auto simp: extend_HT_def Let_def Empty_def simp del: upt_Suc)
  have S: "N_Subtables (Info ?T) = 3 * ?h" "length (Subtables ?T) = 3 * ?h" "High (Info ?T) = ?h" "Count (Info ?T) = ?c"
    using h old(2,3) by (simp_all add: extend_HT_def Let_def)
  have len: "length (Elements ?T) = 15 * ?h + 1"
    using h old(1) by (simp add: E(1) del: upt_Suc)
  then show "length (Elements T) < length (Elements ?T)"
    using h old(1) by simp
  have unused: "\<not> Used e" if "e \<in> set ?E" for e
    using that by (auto simp: Empty_def simp del: upt_Suc)
  have "\<not> Used (last (Elements ?T))"
    using unused [OF last_in_set [OF E(2)]] E(2) by (simp add: E(1) del: upt_Suc)
  moreover have "used_count (Elements ?T) = used_count (Elements T)"
    using unused by (simp add: used_count_def E(1) filter_empty_conv del: upt_Suc)
  moreover have "keyed (Elements ?T)"
    using unused old(5) unfolding keyed_def E(1) by auto
  ultimately show "rehash_pre F ?T"
    using S len old(4,6) h by (simp add: rehash_pre_def)
  have "map Item_Index ?E = [length (Elements T)..<length (Elements ?T)]"
    by (simp add: len comp_def del: upt_Suc)
  then have "mset (map Item_Index (Elements ?T)) = mset ([0..<length (Elements T)] @ [length (Elements T)..<length (Elements ?T)])"
    using old(7) by (simp only: E(1) map_append mset_append)
  also have "[0..<length (Elements T)] @ [length (Elements T)..<length (Elements ?T)] = [0..<length (Elements ?T)]"
    using \<open>length (Elements T) < length (Elements ?T)\<close> by (metis le_add_diff_inverse less_imp_le upt_add_eq_append zero_le)
  finally show "mset (map Item_Index (Elements ?T)) = mset [0..<length (Elements ?T)]" .
  have "map core ?E = map (\<lambda>J. (None, False, J)) [length (Elements T)..<length (Elements ?T)]"
    by (simp add: len comp_def core_def Empty_def del: upt_Suc)
  then show "cores ?T = cores T + fresh (length (Elements T)) (length (Elements ?T))"
    by (simp only: cores_def fresh_def E(1) map_append mset_append)
qed

lemma count_pre:
  assumes ok: "ht_ok F T" and room: "Count (Info T) < High (Info T)"
  shows "rehash_pre F (count_key s T)"
  using ok room ht_last_unused [OF ok]
  by (simp add: rehash_pre_def recount_count_key ht_ok_def in_subtables_def del: upt_Suc mset_upt)

text \<open>The free place that \<open>Add_Key_To_Subtable\<close> looks for.\<close>

lemma add_key_loop_ok:
  "\<exists>J\<in>set Js. \<not> Used (Es ! J) \<Longrightarrow> keyed Es \<Longrightarrow> \<forall>J\<in>set Js. J < length Es
    \<Longrightarrow> \<exists>J\<in>set Js. \<not> Used (Es ! J) \<and> add_key_loop K Js Es = Inr (Es[J := (Es ! J)\<lparr>Key := Some K, Used := True\<rparr>])"
  by (induction Js) (auto dest: keyedD)

lemma free_element:
  assumes ok: "ht_base F T" and s: "s < length (Subtables T)" and c: "ST_Count (Subtables T ! s) < ST_High (Subtables T ! s)"
  shows "\<exists>J\<in>sub_range (Subtables T ! s). \<not> Used (Elements T ! J)"
proof (rule ccontr)
  assume all: "\<not> (\<exists>J\<in>sub_range (Subtables T ! s). \<not> Used (Elements T ! J))"
  have in_sub: "in_subtables F T"
    using ok by (simp add: ht_base_def)
  let ?M = "{i. i < length (Elements T) \<and> Used (Elements T ! i) \<and> subtable_of F T (the (Key (Elements T ! i))) = s}"
  have "sub_range (Subtables T ! s) \<subseteq> ?M"
    using all sub_range_less [OF in_sub s] in_subtablesD(3) [OF in_sub _ _ s] by blast
  then have "card (sub_range (Subtables T ! s)) \<le> card ?M"
    by (intro card_mono) simp_all
  then show False
    using ok s c by (fastforce simp: ht_base_def key_count_card sub_range_def sized_def simp del: upt_Suc mset_upt)
qed

lemma Add_Key_ok:
  assumes ok: "ht_base F T" and s: "s < length (Subtables T)" and c: "ST_Count (Subtables T ! s) < ST_High (Subtables T ! s)"
  shows "\<exists>J\<in>sub_range (Subtables T ! s). \<not> Used (Elements T ! J)
    \<and> Add_Key_To_Subtable K s (count_key s T) = Inr (set_element J (\<lambda>e. e\<lparr>Key := Some K, Used := True\<rparr>) (count_key s T))"
proof -
  have in_sub: "in_subtables F T"
    using ok by (simp add: ht_base_def)
  then have k: "keyed (Elements T)"
    by (simp add: in_subtables_def)
  let ?ST = "Subtables T ! s"
  have r: "set [ST_First ?ST..<Suc (ST_Last ?ST)] = sub_range ?ST"
    using in_subtablesD(2) [OF in_sub s] by (auto simp: range_ok_def Let_def sub_range_def simp del: upt_Suc)
  have "\<exists>J\<in>set [ST_First ?ST..<Suc (ST_Last ?ST)]. \<not> Used (Elements T ! J)
      \<and> add_key_loop K [ST_First ?ST..<Suc (ST_Last ?ST)] (Elements T) = Inr ((Elements T)[J := (Elements T ! J)\<lparr>Key := Some K, Used := True\<rparr>])"
    by (rule add_key_loop_ok) (use r free_element [OF assms] k sub_range_less [OF in_sub s] in \<open>simp_all del: upt_Suc\<close>)
  then show ?thesis
    unfolding r by (auto simp: Add_Key_To_Subtable_def recount_count_key set_element_def simp del: upt_Suc)
qed

lemma Process_base:
  assumes run: "Process_Subtable F s T = Some T'" and ok: "ht_base F T" and s: "s < length (Subtables T)"
    and others: "\<And>t. t < length (Subtables T) \<Longrightarrow> t \<noteq> s \<Longrightarrow> placed_in F T t"
  shows "ht_ok F T'" "cores T' = cores T"
proof -
  have in_sub: "in_subtables F T"
    using ok by (simp add: ht_base_def)
  note p = Process_Subtable_step [OF run in_sub s]
  note len = only_params_length [OF p(4)]
  have eq: "Info T' = Info T" "cores T' = cores T"
    using p(4) by (simp_all add: only_params_def cores_def)
  show "cores T' = cores T"
    by (rule eq)
  have "subtable_of F T' = subtable_of F T"
    by (simp add: subtable_of_def eq fun_eq_iff)
  moreover have "layout (Subtables T') m = layout (Subtables T) m" for m
    using len by (simp add: layout_def only_params_nth [OF p(4)])
  ultimately have "ht_base F T'"
    using ok p(1) len only_params_nth [OF p(4)] unfolding ht_base_cores eq by (simp add: sized_def del: upt_Suc mset_upt)
  moreover have "placed_in F T' t" if "t < length (Subtables T')" for t
    using that p(2,3) others len by (cases "t = s") auto
  ultimately show "ht_ok F T'"
    by (simp add: ht_ok_base)
qed

definition answer :: "'p hash_family \<Rightarrow> string \<Rightarrow> Next_Action \<Rightarrow> 'p Hash_Table \<Rightarrow> nat \<times> nat \<times> Next_Action \<times> 'p Hash_Table" where
  "answer F K a T = (let s = subtable_of F T K in (s, Hash F K (ST_HParam (Subtables T ! s)) (ST_Max (Subtables T ! s)), a, T))"

lemma find_inserted_ok: "ht_ok F T \<Longrightarrow> held T K \<Longrightarrow> find_inserted F K a T = Inr (answer F K a T)"
  by (simp add: find_inserted_def Lookup_HT_spec answer_def Let_def)

lemma insert_in_place:
  assumes ok: "ht_ok F T" and new: "\<not> Used (Elements T ! place F T K)" and room: "Count (Info T) < High (Info T)"
    and f: "core (f (Elements T ! place F T K)) = (Some K, True, Item_Index (Elements T ! place F T K))"
  defines "T' \<equiv> set_element (place F T K) f (count_key (subtable_of F T K) T)"
  shows "ht_ok F T'" "inserted K (Item_Index (Elements T ! place F T K)) T T'" "answer F K a T' = (subtable_of F T K,
     Hash F K (ST_HParam (Subtables T ! subtable_of F T K)) (ST_Max (Subtables T ! subtable_of F T K)), a, T')"
proof -
  have base: "ht_base F T" and in_sub: "in_subtables F T" and placed: "t < length (Subtables T) \<Longrightarrow> placed_in F T t" for t
    using ok by (simp_all add: ht_ok_base ht_base_def del: upt_Suc mset_upt)
  have sl: "subtable_of F T K < length (Subtables T)"
    by (rule in_subtablesD(1) [OF in_sub])
  note put = put_key [where f = f, OF base refl in_place(1) [OF in_sub] new room f, folded T'_def]
  have len: "length (Subtables T') = length (Subtables T)" "length (Elements T') = length (Elements T)"
    by (simp_all add: T'_def recount_count_key)
  have "placed_in F T' t" if "t < length (Subtables T)" for t
    using that put(2,4) placed sl by (cases "t = subtable_of F T K") auto
  then show "ht_ok F T'"
    using put(1) len by (simp add: ht_ok_base)
  show "inserted K (Item_Index (Elements T ! place F T K)) T T'"
    using put(3) len by (simp add: inserted_def)
  show "answer F K a T' = (subtable_of F T K,
     Hash F K (ST_HParam (Subtables T ! subtable_of F T K)) (ST_Max (Subtables T ! subtable_of F T K)), a, T')"
    by (simp add: answer_def Let_def T'_def recount_count_key)
qed

lemma insert_reordered:
  assumes ok: "ht_ok F T" and room: "Count (Info T) < High (Info T)"
    and c: "ST_Count (Subtables T ! subtable_of F T K) < ST_High (Subtables T ! subtable_of F T K)"
  shows "\<exists>T2 x. Add_Key_To_Subtable K (subtable_of F T K) (count_key (subtable_of F T K) T) = Inr T2
    \<and> (\<forall>T'. Process_Subtable F (subtable_of F T K) T2 = Some T' \<longrightarrow> ht_ok F T' \<and> inserted K x T T' \<and> length (Elements T') = length (Elements T))"
proof -
  let ?s = "subtable_of F T K"
  have base: "ht_base F T" and in_sub: "in_subtables F T" and placed: "t < length (Subtables T) \<Longrightarrow> placed_in F T t" for t
    using ok by (simp_all add: ht_ok_base ht_base_def del: upt_Suc mset_upt)
  have sl: "?s < length (Subtables T)"
    by (rule in_subtablesD(1) [OF in_sub])
  let ?f = "\<lambda>e. e\<lparr>Key := Some K, Used := True\<rparr>"
  obtain J where J: "J \<in> sub_range (Subtables T ! ?s)" "\<not> Used (Elements T ! J)"
      "Add_Key_To_Subtable K ?s (count_key ?s T) = Inr (set_element J ?f (count_key ?s T))"
    using Add_Key_ok [OF base sl c] by blast
  let ?T2 = "set_element J ?f (count_key ?s T)"
  have core: "core (?f (Elements T ! J)) = (Some K, True, Item_Index (Elements T ! J))"
    by (simp add: core_def)
  note put = put_key [where f = ?f, OF base refl J(1,2) room core]
  have "ht_ok F T' \<and> inserted K (Item_Index (Elements T ! J)) T T' \<and> length (Elements T') = length (Elements T)"
    if run: "Process_Subtable F ?s ?T2 = Some T'" for T'
  proof -
    have "ht_ok F T'" "cores T' = cores ?T2"
      using Process_base [OF run put(1)] put(2) placed sl by (simp_all add: recount_count_key)
    moreover have "length (Elements T') = length (Elements T)"
      using arg_cong [OF \<open>cores T' = cores ?T2\<close>, of size] by (simp add: cores_def recount_count_key)
    ultimately show ?thesis
      using put(3) by (simp add: inserted_def)
  qed
  then show ?thesis
    using J(3) by blast
qed

lemma Insert_HT_held:
  assumes "ht_ok F T" "held T K" "Count (Info T) < High (Info T)"
  shows "Insert_HT F K T = Some (Inr (answer F K Do_Nothing T))"
  using assms by (simp add: Insert_HT_def Lookup_HT_spec answer_def Let_def)

text \<open>The outcome of an insertion of a new key.\<close>

definition insert_post :: "'p hash_family \<Rightarrow> string \<Rightarrow> 'p Hash_Table \<Rightarrow> (nat \<times> nat \<times> Next_Action \<times> 'p Hash_Table) result \<Rightarrow> bool" where
  "insert_post F K T r \<longleftrightarrow> (\<exists>a T' x. r = Inr (answer F K a T') \<and> a \<noteq> Do_Nothing \<and> ht_ok F T' \<and> inserted K x T T'
     \<and> (length (Elements T) < length (Elements T') \<longrightarrow> a = Reorder_Table))"

lemma insert_postI:
  assumes "ht_ok F T'" "inserted K x T T'" "a \<noteq> Do_Nothing" "length (Elements T) < length (Elements T') \<longrightarrow> a = Reorder_Table"
  shows "insert_post F K T (Inr (answer F K a T'))" "insert_post F K T (find_inserted F K a T')"
  using assms find_inserted_ok [OF assms(1) inserted_at(1) [OF assms(1,2)]] by (auto simp: insert_post_def)

lemma Insert_HT_new:
  assumes ok: "ht_ok F T" and new: "\<not> held T K" and run: "Insert_HT F K T = Some r"
  shows "insert_post F K T r"
proof (cases "Count (Info T) = High (Info T)")
  case True
  then obtain T' where T': "Rehash_All F K (extend_HT F T) = Some T'" "r = find_inserted F K Reorder_Table T'"
    using run by (auto simp: Insert_HT_def)
  note pre = extend_pre [OF ok True]
  note ins = rehash_inserted [OF T'(1) pre(1,2)]
  have "inserted K (Item_Index (last (Elements (extend_HT F T)))) T T'"
    using ins(2,3) pre(3,4) by (simp add: inserted_def)
  then show ?thesis
    using insert_postI(2) [OF ins(1)] T'(2) by simp
next
  case False
  let ?s = "subtable_of F T K" and ?p = "place F T K"
  let ?ofs = "Hash F K (ST_HParam (Subtables T ! ?s)) (ST_Max (Subtables T ! ?s))" and ?T1 = "count_key (subtable_of F T K) T"
  have room: "Count (Info T) < High (Info T)" and in_sub: "in_subtables F T" and
    it: "mset (map Item_Index (Elements T)) = mset [0..<length (Elements T)]"
    using ok False by (simp_all add: ht_ok_def del: upt_Suc mset_upt)
  have sl: "?s < length (Subtables T)"
    by (rule in_subtablesD(1) [OF in_sub])
  have e: "Elements ?T1 = Elements T" "ST_Count (Subtables ?T1 ! ?s) = ST_Count (Subtables T ! ?s) + 1"
    "ST_High (Subtables ?T1 ! ?s) = ST_High (Subtables T ! ?s)" "cores ?T1 = cores T"
    using sl by (simp_all add: recount_count_key cores_def)
  note run' = run [unfolded Insert_HT_def Let_def Lookup_HT_spec [OF ok], simplified False new if_False prod.case place_add e simp_thms]
  have direct: "insert_post F K T r" if "r = Inr (?s, ?ofs, Insert_Item, set_element ?p f ?T1)" "\<not> Used (Elements T ! ?p)"
      "core (f (Elements T ! ?p)) = (Some K, True, Item_Index (Elements T ! ?p))" for f
  proof -
    note at = insert_in_place [where f = f, OF ok that(2) room that(3)]
    show ?thesis
      using insert_postI(1) [OF at(1,2), of Insert_Item] at(3) [of Insert_Item] that(1) e(1) by simp
  qed
  consider (full) "ST_Count (Subtables T ! ?s) + 1 > ST_High (Subtables T ! ?s)"
    | (free) "\<not> ST_Count (Subtables T ! ?s) + 1 > ST_High (Subtables T ! ?s)" "Key (Elements T ! ?p) = None"
    | (same) "\<not> ST_Count (Subtables T ! ?s) + 1 > ST_High (Subtables T ! ?s)" "Key (Elements T ! ?p) = Some K" "\<not> Used (Elements T ! ?p)"
    | (dead) "\<not> ST_Count (Subtables T ! ?s) + 1 > ST_High (Subtables T ! ?s)" "Key (Elements T ! ?p) \<noteq> None" "Key (Elements T ! ?p) \<noteq> Some K"
        "\<not> Used (Elements T ! ?p)"
    | (taken) "\<not> ST_Count (Subtables T ! ?s) + 1 > ST_High (Subtables T ! ?s)" "Key (Elements T ! ?p) \<noteq> None" "Used (Elements T ! ?p)"
    by blast
  then show ?thesis
  proof cases
    case full
    then obtain T' where T': "Rehash_All F K ?T1 = Some T'" "r = find_inserted F K Reorder_Table T'"
      using run' by auto
    note ins = rehash_inserted [OF T'(1) count_pre [OF ok room] it [folded e(1)]]
    have "inserted K (Item_Index (last (Elements ?T1))) T T'"
      using ins(2) e by (simp add: inserted_def)
    then show ?thesis
      using insert_postI(2) [OF ins(1)] T'(2) by simp
  next
    case free
    have unused: "\<not> Used (Elements T ! ?p)"
      using in_sub keyedD [OF _ in_place(2) [OF in_sub]] free(2) by (fastforce simp: in_subtables_def)
    show ?thesis
      by (rule direct [OF _ unused, of "\<lambda>e. e\<lparr>Key := Some K, Used := True, ST_Index := ?s, ST_Offset := ?ofs\<rparr>"])
        (use run' free in \<open>auto simp: core_def\<close>)
  next
    case same
    show ?thesis
      by (rule direct [OF _ same(3), of "\<lambda>e. e\<lparr>Used := True\<rparr>"]) (use run' same in \<open>auto simp: core_def\<close>)
  next
    case dead
    show ?thesis
      by (rule direct [OF _ dead(4), of "\<lambda>e. e\<lparr>Key := Some K, Used := True, ST_Index := ?s, ST_Offset := ?ofs\<rparr>"])
        (use run' dead in \<open>auto simp: core_def\<close>)
  next
    case taken
    obtain T2 x where T2: "Add_Key_To_Subtable K ?s ?T1 = Inr T2"
      "\<And>T'. Process_Subtable F ?s T2 = Some T' \<Longrightarrow> ht_ok F T' \<and> inserted K x T T' \<and> length (Elements T') = length (Elements T)"
      using insert_reordered [OF ok room, of K] taken(1) by auto
    obtain T' where T': "Process_Subtable F ?s T2 = Some T'" "r = find_inserted F K Reorder_Subtable T'"
      using run' taken T2(1) by auto
    then show ?thesis
      using insert_postI(2) [of F T' K x T Reorder_Subtable] T2(2) by simp
  qed
qed

text \<open>Two keys that every hash function sends to the same place cannot both be in a table.\<close>

lemma collision_free:
  assumes ok: "ht_ok F T" and k: "held T k" "held T k'" and eq: "Hash F k = Hash F k'"
  shows "k = k'"
proof -
  have "place F T k = place F T k'"
    by (simp add: place_def subtable_of_def eq)
  moreover have "Key (Elements T ! place F T k) = Some k" if "held T k" for k
    using that ht_place [OF ok] unfolding held_nth by metis
  ultimately show ?thesis
    using k by (metis option.inject)
qed

lemma inserted_held:
  assumes "inserted K x T T'" "held T k"
  shows "held T' k"
proof -
  obtain y c N where "(Some k, True, y) \<in># cores T" "cores T' = add_mset (Some K, True, x) N"
    "cores T + fresh (length (Elements T)) (length (Elements T')) = add_mset (c, False, x) N"
    using assms by (auto simp: inserted_def held_def)
  then have "(Some k, True, y) \<in># add_mset (c, False, x) N"
    by (metis union_iff)
  then show ?thesis
    using \<open>cores T' = _\<close> by (auto simp: held_def)
qed

lemma Insert_collision_diverges:
  assumes ok: "ht_ok F T" and new: "\<not> held T K" and other: "held T k" and eq: "Hash F K = Hash F k"
  shows "Insert_HT F K T = None"
proof (cases "Insert_HT F K T")
  case (Some r)
  obtain T' x where T': "ht_ok F T'" "inserted K x T T'"
    using Insert_HT_new [OF ok new Some] by (auto simp: insert_post_def)
  then have "K = k"
    using collision_free [OF T'(1) inserted_at(1) [OF T'] inserted_held [OF T'(2) other] eq] by simp
  then show ?thesis
    using new other by simp
qed

text \<open>A full table is extended before the key is looked up: the insertion of a key that it holds does not return.\<close>

lemma Insert_full_diverges:
  assumes ok: "ht_ok F T" and full: "Count (Info T) = High (Info T)" and K: "held T K"
  shows "Insert_HT F K T = None"
proof (cases "Rehash_All F K (extend_HT F T)")
  case None
  then show ?thesis
    using full by (simp add: Insert_HT_def)
next
  case (Some T')
  note pre = extend_pre [OF ok full]
  note ins = rehash_inserted [OF Some pre(1,2)]
  obtain x c N where N: "cores T' = add_mset (Some K, True, x) N" "cores (extend_HT F T) = add_mset (c, False, x) N"
    using ins(2,3) by (auto simp: inserted_def)
  obtain y where "(Some K, True, y) \<in># cores (extend_HT F T)"
    using K unfolding held_def pre(3) by auto
  then have "(Some K, True, y) \<in># N"
    using N(2) by simp
  then show ?thesis
    using held_unique [OF ins(1) N(1)] by blast
qed

end
