(* ===== verification/Htables.thy ===== *)
theory Htables
  imports Htable_Ops
begin

text \<open>
  The tables that the clients of PolyORB.Utils.HTables.Perfect see implement finite maps from strings: \<open>Lookup\<close>,
  \<open>Insert\<close> and \<open>Delete\<close> are the operations of maps, as long as no new key collides with one of the table under every
  hash function and no key of a full table is inserted again.
\<close>

section \<open>The map that a table holds\<close>

definition contents :: "('p, 'i) Table \<Rightarrow> string \<Rightarrow> 'i option" where
  "contents T k = (case find (\<lambda>e. Used e \<and> Key e = Some k) (Elements (HTable T)) of
     None \<Rightarrow> None
   | Some e \<Rightarrow> Items T ! Item_Index e)"

text \<open>Every key in use has an item; the elements that are not in use have none.\<close>

definition filled :: "('p, 'i) Table \<Rightarrow> bool" where
  "filled T \<longleftrightarrow> length (Items T) = length (Elements (HTable T)) \<and> (\<forall>(k, u, x)\<in>#cores (HTable T). u \<longrightarrow> Items T ! x \<noteq> None)"

definition clean :: "('p, 'i) Table \<Rightarrow> bool" where
  "clean T \<longleftrightarrow> (\<forall>(k, u, x)\<in>#cores (HTable T). \<not> u \<longrightarrow> Items T ! x = None)"

definition tbl_ok :: "'p hash_family \<Rightarrow> ('p, 'i) Table \<Rightarrow> bool" where
  "tbl_ok F T \<longleftrightarrow> ht_ok F (HTable T) \<and> filled T"

lemma contents_iff:
  assumes "ht_ok F (HTable T)"
  shows "contents T k = Some v \<longleftrightarrow> (\<exists>x. (Some k, True, x) \<in># cores (HTable T) \<and> Items T ! x = Some v)"
proof -
  let ?Es = "Elements (HTable T)"
  have same: "e = e'" if "e \<in> set ?Es" "Used e" "Key e = Some k" "e' \<in> set ?Es" "Used e'" "Key e' = Some k" for e e'
    using that ht_place [OF assms] by (metis in_set_conv_nth)
  have mem: "(Some k, True, x) \<in># cores (HTable T) \<longleftrightarrow> (\<exists>e\<in>set ?Es. Used e \<and> Key e = Some k \<and> Item_Index e = x)" for x
    by (simp add: cores_def core_def image_iff) metis
  show ?thesis
  proof (cases "find (\<lambda>e. Used e \<and> Key e = Some k) ?Es")
    case None
    then have "\<not> (Used e \<and> Key e = Some k)" if "e \<in> set ?Es" for e
      using that by (auto simp: find_None_iff)
    then show ?thesis
      unfolding contents_def None mem by auto
  next
    case (Some e)
    then have "e \<in> set ?Es" "Used e" "Key e = Some k"
      by (auto simp: find_Some_iff)
    then have "(\<exists>e'\<in>set ?Es. Used e' \<and> Key e' = Some k \<and> Item_Index e' = x) \<longleftrightarrow> x = Item_Index e" for x
      using same by blast
    then show ?thesis
      by (simp add: contents_def Some mem)
  qed
qed

lemma contents_held:
  assumes "tbl_ok F T"
  shows "contents T k = None \<longleftrightarrow> \<not> held (HTable T) k"
proof -
  have "contents T k \<noteq> None \<longleftrightarrow> held (HTable T) k"
    using assms contents_iff [of F T k] by (fastforce simp: tbl_ok_def filled_def held_def)
  then show ?thesis
    by blast
qed

lemma item_indices:
  assumes "ht_ok F T"
  shows "(k, u, x) \<in># cores T \<Longrightarrow> x < length (Elements T)" "cores T = add_mset (k, u, x) N \<Longrightarrow> (k', u', x') \<in># N \<Longrightarrow> x' \<noteq> x"
proof -
  have all: "image_mset (\<lambda>c. snd (snd c)) (cores T) = mset [0..<length (Elements T)]"
    using assms unfolding ht_ok_base ht_base_cores by blast
  show "x < length (Elements T)" if "(k, u, x) \<in># cores T"
  proof -
    have "x \<in># image_mset (\<lambda>c. snd (snd c)) (cores T)"
      using that by force
    then show ?thesis
      unfolding all by simp
  qed
  show "x' \<noteq> x" if N: "cores T = add_mset (k, u, x) N" "(k', u', x') \<in># N"
  proof
    assume "x' = x"
    obtain N' where "N = add_mset (k', u', x') N'"
      using N(2) by (metis insert_DiffM)
    then have "count (mset [0..<length (Elements T)]) x \<ge> 2"
      using N(1) \<open>x' = x\<close> unfolding all [symmetric] by simp
    moreover have "count (mset [0..<length (Elements T)]) x \<le> 1"
      using distinct_count_atmost_1 [of "[0..<length (Elements T)]"] by simp
    ultimately show False
      by simp
  qed
qed

section \<open>The operations\<close>

lemma Lookup_contents:
  assumes "tbl_ok F T"
  shows "Lookup F T K d = Inr (case contents T K of None \<Rightarrow> d | Some v \<Rightarrow> v)"
proof -
  have ok: "ht_ok F (HTable T)"
    using assms by (simp add: tbl_ok_def)
  show ?thesis
  proof (cases "held (HTable T) K")
    case False
    then show ?thesis
      using contents_held [OF assms, of K] by (simp add: Lookup_def Lookup_HT_spec [OF ok])
  next
    case True
    then obtain x where x: "(Some K, True, x) \<in># cores (HTable T)"
      by (auto simp: held_def)
    then obtain v where v: "Items T ! x = Some v"
      using assms by (fastforce simp: tbl_ok_def filled_def)
    then have "contents T K = Some v"
      using contents_iff [OF ok] x by blast
    moreover have "Item_Index (Elements (HTable T) ! place F (HTable T) K) = x"
    proof -
      obtain i where "i < length (Elements (HTable T))" "core (Elements (HTable T) ! i) = (Some K, True, x)"
        using x by (auto simp: cores_def in_set_conv_nth)
      then show ?thesis
        using ht_place [OF ok, of i K] by (simp add: core_def)
    qed
    ultimately show ?thesis
      using True v by (simp add: Lookup_def Lookup_HT_spec [OF ok] place_add)
  qed
qed

text \<open>The items after an insertion: the array grows with the elements, and the place of the new key is free in a clean table.\<close>

lemma extended_items:
  assumes ok: "tbl_ok F T" and cl: "clean T" and c: "(k, u, y) \<in># cores (HTable T) + fresh (length (Items T)) m"
  shows "(Items T @ replicate (m - length (Items T)) None) ! y \<noteq> None \<longleftrightarrow> u"
proof (cases "(k, u, y) \<in># cores (HTable T)")
  case True
  have "y < length (Items T)"
    using item_indices(1) [OF _ True, of F] ok by (simp add: tbl_ok_def filled_def)
  then show ?thesis
    using True ok cl by (auto simp: nth_append tbl_ok_def filled_def clean_def)
next
  case False
  then have "(k, u, y) \<in># fresh (length (Items T)) m"
    using c by simp
  then show ?thesis
    by (auto simp: fresh_def nth_append)
qed

lemma insert_items:
  fixes T :: "('p, 'i) Table" and V :: 'i
  assumes ok: "tbl_ok F T" and ht: "ht_ok F H" and ins: "inserted K x (HTable T) H" and cl: "clean T"
  defines "Is \<equiv> Items T @ replicate (length (Elements H) - length (Items T)) None"
  defines "T' \<equiv> T\<lparr>HTable := H, Items := Is[x := Some V]\<rparr>"
  shows "Is ! x = None" "tbl_ok F T'" "clean T'" "contents T' = (contents T)(K \<mapsto> V)"
proof -
  let ?n = "length (Elements (HTable T))" and ?m = "length (Elements H)"
  obtain c N where N: "cores H = add_mset (Some K, True, x) N" "cores (HTable T) + fresh ?n ?m = add_mset (c, False, x) N" and le: "?n \<le> ?m"
    using ins by (auto simp: inserted_def)
  have lenI: "length (Items T) = ?n" and old: "ht_ok F (HTable T)"
    using ok by (simp_all add: tbl_ok_def filled_def)
  have len: "length Is = ?m"
    using le lenI by (simp add: Is_def)
  have x: "x < ?m"
    using item_indices(1) [OF ht] N(1) by (metis union_single_eq_member)
  have whole: "Is ! y \<noteq> None \<longleftrightarrow> u" if "(k, u, y) \<in># cores (HTable T) + fresh ?n ?m" for k u y
    using extended_items [OF ok cl, of k u y ?m] that lenI by (simp add: Is_def)
  show free: "Is ! x = None"
    using whole [of c False x] N(2) by simp
  have other: "y \<noteq> x" "Is[x := Some V] ! y \<noteq> None \<longleftrightarrow> u" if "(k, u, y) \<in># N" for k u y
  proof -
    show "y \<noteq> x"
      by (rule item_indices(2) [OF ht N(1) that])
    then show "Is[x := Some V] ! y \<noteq> None \<longleftrightarrow> u"
      using whole [of k u y] N(2) that by simp
  qed
  show ok': "tbl_ok F T'"
    using ht x len other(2) by (auto simp: tbl_ok_def filled_def T'_def N(1))
  show "clean T'"
    using other(2) by (fastforce simp: clean_def T'_def N(1))
  have "contents T' k = Some v \<longleftrightarrow> ((contents T)(K \<mapsto> V)) k = Some v" for k v
  proof -
    have htT': "ht_ok F (HTable T')"
      using ok' by (simp add: tbl_ok_def)
    have "contents T' k = Some v \<longleftrightarrow> (\<exists>y. (Some k, True, y) \<in># add_mset (Some K, True, x) N \<and> Is[x := Some V] ! y = Some v)"
      unfolding contents_iff [OF htT'] by (simp add: T'_def N(1))
    also have "\<dots> \<longleftrightarrow> (if k = K then v = V else \<exists>y. (Some k, True, y) \<in># N \<and> Is ! y = Some v)"
    proof -
      have "Is[x := Some V] ! y = Is ! y" if "(Some k, u, y) \<in># N" for u y
        using other(1) [of "Some k" u y] that by simp
      then show ?thesis
        using held_unique [OF ht N(1)] x len by auto
    qed
    also have "(\<exists>y. (Some k, True, y) \<in># N \<and> Is ! y = Some v) \<longleftrightarrow> (\<exists>y. (Some k, True, y) \<in># cores (HTable T) \<and> Items T ! y = Some v)"
    proof -
      have "(Some k, True, y) \<in># N \<longleftrightarrow> (Some k, True, y) \<in># cores (HTable T)" for y
      proof -
        have "(Some k, True, y) \<in># add_mset (c, False, x) N \<longleftrightarrow> (Some k, True, y) \<in># cores (HTable T) + fresh ?n ?m"
          by (simp only: N(2))
        then show ?thesis
          by (auto simp: fresh_def)
      qed
      moreover have "Is ! y = Items T ! y" if "(Some k, True, y) \<in># cores (HTable T)" for y
        using item_indices(1) [OF old that] lenI by (simp add: Is_def nth_append)
      ultimately show ?thesis
        by auto
    qed
    finally show ?thesis
      using contents_iff [OF old, of k v] by auto
  qed
  then show "contents T' = (contents T)(K \<mapsto> V)"
    by (metis (no_types, lifting) ext not_Some_eq)
qed

lemma Insert_contents:
  assumes ok: "tbl_ok F T" and cl: "clean T" and nf: "contents T K = None \<or> Count (Info (HTable T)) < High (Info (HTable T))"
    and run: "Insert F K V T = Some r"
  shows "\<exists>T'. r = Inr T' \<and> tbl_ok F T' \<and> clean T' \<and> contents T' = (if contents T K = None then (contents T)(K \<mapsto> V) else contents T)"
proof (cases "held (HTable T) K")
  case True
  have ht: "ht_ok F (HTable T)"
    using ok by (simp add: tbl_ok_def)
  have "r = Inr T"
    using run Insert_HT_held [OF ht True] nf contents_held [OF ok] True by (simp add: Insert_def answer_def Let_def)
  then show ?thesis
    using ok cl contents_held [OF ok, of K] True by (intro exI [of _ T]) auto
next
  case False
  have ht: "ht_ok F (HTable T)" and lenI: "length (Items T) = length (Elements (HTable T))"
    using ok by (simp_all add: tbl_ok_def filled_def)
  obtain r' where r': "Insert_HT F K (HTable T) = Some r'"
    using run by (auto simp: Insert_def)
  obtain a H x where H: "r' = Inr (answer F K a H)" "a \<noteq> Do_Nothing" "ht_ok F H" "inserted K x (HTable T) H"
      "length (Elements (HTable T)) < length (Elements H) \<longrightarrow> a = Reorder_Table"
    using Insert_HT_new [OF ht False r'] by (auto simp: insert_post_def)
  let ?Is = "Items T @ replicate (length (Elements H) - length (Items T)) None"
  note it = insert_items(1) [OF ok H(3,4) cl] insert_items(2-4) [OF ok H(3,4) cl, of V]
  have lenH: "length (Elements H) = 15 * High (Info H) + 1" "length (Items T) \<le> length (Elements H)"
    using H(3,4) lenI by (simp_all add: ht_ok_def inserted_def)
  have Is: "(if a = Reorder_Table \<and> length (Elements H) > length (Items T)
      then Items T @ replicate (15 * High (Info H) + 1 - length (Items T)) None else Items T) = ?Is"
    using lenH H(5) lenI by auto
  have "r = Inr (T\<lparr>HTable := H, Items := ?Is[x := Some V]\<rparr>)"
    using run it(1) H(2) inserted_at(2) [OF H(3,4)] Is unfolding Insert_def r' H(1) by (simp add: answer_def Let_def place_add)
  then show ?thesis
    using it contents_held [OF ok, of K] False by auto
qed

text \<open>A deletion; the item with the index 0 is not freed.\<close>

lemma Delete_HT_spec:
  assumes "ht_ok F T"
  shows "Delete_HT F K T = (let s = subtable_of F T K; p = place F T K in if held T K
     then (Item_Index (Elements T ! p), set_element p (\<lambda>e. e\<lparr>Used := False\<rparr>) (recount s (ST_Count (Subtables T ! s) - 1) (Count (Info T) - 1) T))
     else (0, T))"
  unfolding Delete_HT_def Lookup_HT_spec [OF assms] by (simp add: Let_def place_add recount_def)

lemma Delete_contents:
  assumes ok: "tbl_ok F T"
  shows "tbl_ok F (Delete F K T)" "contents (Delete F K T) = (contents T)(K := None)"
    "clean T \<Longrightarrow> (Some K, True, 0) \<notin># cores (HTable T) \<Longrightarrow> clean (Delete F K T)"
proof -
  have ht: "ht_ok F (HTable T)" and lenI: "length (Items T) = length (Elements (HTable T))"
    using ok by (simp_all add: tbl_ok_def filled_def)
  have "tbl_ok F (Delete F K T) \<and> contents (Delete F K T) = (contents T)(K := None)
    \<and> (clean T \<longrightarrow> (Some K, True, 0) \<notin># cores (HTable T) \<longrightarrow> clean (Delete F K T))"
  proof (cases "held (HTable T) K")
    case False
    then have "Delete F K T = T"
      by (simp add: Delete_def Delete_HT_spec [OF ht] Let_def)
    then show ?thesis
      using ok contents_held [OF ok, of K] False by (simp add: fun_upd_idem)
  next
    case True
    obtain p s where ps: "p = place F (HTable T) K" "s = subtable_of F (HTable T) K" by blast
    obtain x where xdef: "x = Item_Index (Elements (HTable T) ! p)" by blast
    obtain H where Hdef: "H = set_element p (\<lambda>e. e\<lparr>Used := False\<rparr>)
        (recount s (ST_Count (Subtables (HTable T) ! s) - 1) (Count (Info (HTable T)) - 1) (HTable T))" by blast
    note drop = drop_key [OF ht True, folded ps, folded Hdef xdef]
    obtain N where N: "cores (HTable T) = add_mset (Some K, True, x) N" "cores H = add_mset (Some K, False, x) N"
      using drop(2) by blast
    have D: "Delete F K T = T\<lparr>HTable := H, Items := (if x \<noteq> 0 then (Items T)[x := None] else Items T)\<rparr>"
      using True by (simp add: Delete_def Delete_HT_spec [OF ht] Let_def Hdef flip: ps xdef)
    have lenH: "length (Elements H) = length (Elements (HTable T))"
      by (simp add: Hdef)
    have x: "x < length (Items T)"
      using item_indices(1) [OF ht, of "Some K" True x] N(1) lenI by simp
    have other: "y \<noteq> x" if "(k, u, y) \<in># N" for k u y
      by (rule item_indices(2) [OF ht N(1) that])
    have "\<exists>v. (Items T)[x := None] ! y = Some v" "\<exists>v. Items T ! y = Some v" if "(k, True, y) \<in># N" for k y
      using that other [of k True y] ok by (fastforce simp: tbl_ok_def filled_def N)+
    then have ok': "tbl_ok F (Delete F K T)"
      using drop(1) lenI lenH by (auto simp: tbl_ok_def filled_def D N)
    have "contents (Delete F K T) k = Some v \<longleftrightarrow> ((contents T)(K := None)) k = Some v" for k v
    proof -
      have htD: "ht_ok F (HTable (Delete F K T))"
        using ok' by (simp add: tbl_ok_def)
      have "contents (Delete F K T) k = Some v \<longleftrightarrow> (\<exists>y. (Some k, True, y) \<in># N \<and> Items T ! y = Some v)"
      proof -
        have "(Items T)[x := None] ! y = Items T ! y" if "(Some k, True, y) \<in># N" for y
          using other [OF that] by simp
        then show ?thesis
          unfolding contents_iff [OF htD] by (auto simp: D N)
      qed
      moreover have "contents T k = Some v \<longleftrightarrow> (\<exists>y. (Some k, True, y) \<in># add_mset (Some K, True, x) N \<and> Items T ! y = Some v)"
        unfolding contents_iff [OF ht] by (simp add: N)
      ultimately show ?thesis
        using held_unique [OF ht N(1)] by auto
    qed
    then have "contents (Delete F K T) = (contents T)(K := None)"
      by (metis (no_types, lifting) ext not_Some_eq)
    moreover have "clean (Delete F K T)" if "clean T" "(Some K, True, 0) \<notin># cores (HTable T)"
      using that x other N(1) by (fastforce simp: clean_def D N)
    ultimately show ?thesis
      using ok' by blast
  qed
  then show "tbl_ok F (Delete F K T)" "contents (Delete F K T) = (contents T)(K := None)"
    "clean T \<Longrightarrow> (Some K, True, 0) \<notin># cores (HTable T) \<Longrightarrow> clean (Delete F K T)"
    by blast+
qed

text \<open>An initial table.\<close>

lemma Initialize_HT_ok:
  assumes F: "hash_ok F" and mx: "0 < mx"
  shows "ht_ok F (Initialize_HT F hp mx)" "cores (Initialize_HT F hp mx) = fresh 0 (length (Elements (Initialize_HT F hp mx)))"
    "Count (Info (Initialize_HT F hp mx)) = 0"
proof -
  let ?T = "Initialize_HT F hp mx" and ?h = "mx + (mx + 9) div 10"
  have h: "0 < ?h"
    using mx by simp
  have sel: "Info ?T = \<lparr>Count = 0, High = ?h, N_Subtables = ?h * 3, HParam = hp\<rparr>" "length (Elements ?T) = 15 * ?h + 1" "length (Subtables ?T) = ?h * 3"
    "Elements ?T = map (\<lambda>J. Empty\<lparr>Item_Index := J\<rparr>) [0..<15 * ?h + 1]"
    by (simp_all add: Initialize_HT_def Let_def del: upt_Suc)
  have sub: "Subtables ?T ! s = \<lparr>ST_First = 2 * s, ST_Last = 2 * s + 1, ST_Count = 0, ST_High = 1, ST_Max = 2, ST_HParam = hp\<rparr>" if "s < ?h * 3" for s
    using that by (simp add: Initialize_HT_def Let_def)
  have unused: "\<not> Used (Elements ?T ! i)" if "i < 15 * ?h + 1" for i
    using that by (simp add: sel(4) Empty_def del: upt_Suc)
  have "keyed (Elements ?T)"
    unfolding keyed_def using unused sel(2) by (metis in_set_conv_nth)
  moreover have lay: "layout (Subtables ?T) m" if "6 * ?h \<le> m" for m
    using that by (auto simp: layout_def sel sub)
  ultimately have "in_subtables F ?T"
    using F h unused by (simp add: in_subtables_def sel)
  moreover have "placed_in F ?T s" if "s < ?h * 3" for s
    using that unused h by (auto simp: placed_in_def sub sub_range_def)
  moreover have "key_count F ?T s = 0" "used_count (Elements ?T) = 0" for s
    using unused by (auto simp: key_count_card used_count_card sel(2))
  moreover have "map Item_Index (Elements ?T) = [0..<length (Elements ?T)]"
    unfolding sel(2) sel(4) by (simp add: comp_def del: upt_Suc)
  ultimately show "ht_ok F ?T"
    using lay [of "44 * ?h div 3"] by (simp add: ht_ok_def sel(1-3) sub sized_def del: upt_Suc mset_upt)
  show "cores ?T = fresh 0 (length (Elements ?T))"
    unfolding cores_def fresh_def sel(2) sel(4) by (simp add: comp_def core_def Empty_def del: upt_Suc mset_upt)
  show "Count (Info ?T) = 0"
    by (simp add: sel)
qed

lemma Initialize_ok:
  assumes "hash_ok F" "0 < mx"
  shows "tbl_ok F (Initialize F hp mx)" "clean (Initialize F hp mx)" "contents (Initialize F hp mx) = Map.empty"
proof -
  let ?T = "Initialize F hp mx" and ?H = "Initialize_HT F hp mx"
  have T: "HTable ?T = ?H" "Items ?T = replicate (15 * High (Info ?H) + 1) None"
    by (simp_all add: Initialize_def Let_def)
  note H = Initialize_HT_ok [OF assms, of hp]
  have len: "length (Elements ?H) = 15 * High (Info ?H) + 1"
    using H(1) by (simp add: ht_ok_def)
  show ok: "tbl_ok F ?T" and "clean ?T"
    using H(1,2) len by (auto simp: tbl_ok_def filled_def clean_def T fresh_def simp del: upt_Suc replicate_Suc)
  have "\<not> held ?H k" for k
    by (auto simp: held_def H(2) fresh_def)
  then show "contents ?T = Map.empty"
    by (intro ext) (simp add: contents_held [OF ok] T(1))
qed

end
