(* ===== verification/Htable_Search.thy ===== *)
theory Htable_Search
  imports Htables
begin

text \<open>
  The searches of the perfect hash tables end when the class of hash functions is rich enough. The specification of the
  package asks for a universal class; what the searches need of it is that for every set of keys some function of the class
  that they reach spreads the keys over the subtables, and that some function is injective on the keys of a subtable.
\<close>

section \<open>Rich classes of hash functions\<close>

definition nth_param :: "'p hash_family \<Rightarrow> nat \<Rightarrow> 'p" where
  "nth_param F j = (Next_Hash_Parameters F ^^ j) (Default_Hash_Parameters F)"

definition separates :: "'p hash_family \<Rightarrow> bool" where
  "separates F \<longleftrightarrow> (\<forall>ks m. distinct ks \<and> 0 < m \<and> 2 * length ks * (length ks - 1) \<le> m
     \<longrightarrow> (\<exists>j. inj_on (\<lambda>k. Hash F k (nth_param F j) m) (set ks)))"

definition spreads :: "'p hash_family \<Rightarrow> bool" where
  "spreads F \<longleftrightarrow> (\<forall>ks h. distinct ks \<and> 0 < h \<and> length ks \<le> h
     \<longrightarrow> (\<exists>j. (\<Sum>s<3 * h. room (length (filter (\<lambda>k. Hash F k (nth_param F j) (3 * h) = s) ks))) \<le> 44 * h div 3))"

text \<open>No key is in use twice.\<close>

definition unique :: "Element list \<Rightarrow> bool" where
  "unique Es \<longleftrightarrow> (\<forall>i < length Es. \<forall>j < length Es. Used (Es ! i) \<and> Used (Es ! j) \<and> Key (Es ! i) = Key (Es ! j) \<longrightarrow> i = j)"

lemma unique_distinct:
  assumes "keyed Es"
  shows "unique Es \<longleftrightarrow> distinct (map (\<lambda>e. the (Key e)) (filter Used Es))"
  using assms
proof (induction Es)
  case (Cons e Es)
  have "unique (e # Es) \<longleftrightarrow> unique Es \<and> (Used e \<longrightarrow> (\<forall>e'\<in>set Es. Used e' \<longrightarrow> Key e' \<noteq> Key e))"
  proof (intro iffI conjI impI ballI notI)
    assume u: "unique (e # Es)"
    then show "unique Es"
      unfolding unique_def by (metis Suc_inject Suc_less_eq length_Cons nth_Cons_Suc)
    fix e'
    assume "Used e" "e' \<in> set Es" "Used e'" "Key e' = Key e"
    then obtain i where "i < length Es" "Es ! i = e'"
      by (metis in_set_conv_nth)
    then show False
      using u \<open>Used e\<close> \<open>Used e'\<close> \<open>Key e' = Key e\<close> unfolding unique_def
      by (metis Suc_less_eq length_Cons nth_Cons_0 nth_Cons_Suc nat.distinct(1) zero_less_Suc)
  next
    assume u: "unique Es \<and> (Used e \<longrightarrow> (\<forall>e'\<in>set Es. Used e' \<longrightarrow> Key e' \<noteq> Key e))"
    then show "unique (e # Es)"
      unfolding unique_def by (auto simp: nth_Cons split: nat.splits)
  qed
  moreover have "Key e' = Key e \<longleftrightarrow> the (Key e') = the (Key e)" if "e' \<in> set Es" "Used e" "Used e'" for e'
    using that Cons.prems by (auto simp: keyed_def)
  ultimately show ?case
    using Cons by (auto simp: keyed_def)
qed (simp add: unique_def)

lemma unique_core: "mset (map core Es') = mset (map core Es) \<Longrightarrow> keyed Es \<Longrightarrow> unique Es' = unique Es"
proof -
  assume eq: "mset (map core Es') = mset (map core Es)" and k: "keyed Es"
  have "mset (map (\<lambda>e. the (Key e)) (filter Used Es)) = image_mset (\<lambda>c. the (fst c)) (filter_mset (\<lambda>c. fst (snd c)) (mset (map core Es)))" for Es
    by (simp add: core_def filter_mset_image_mset image_mset.compositionality comp_def mset_filter)
  then have "mset (map (\<lambda>e. the (Key e)) (filter Used Es')) = mset (map (\<lambda>e. the (Key e)) (filter Used Es))"
    using eq by simp
  then show ?thesis
    using unique_distinct keyed_core [OF eq] k by (metis mset_eq_imp_distinct_iff)
qed

lemma ht_unique: "ht_ok F T \<Longrightarrow> unique (Elements T)"
  unfolding unique_def by (metis ht_ok_def ht_place in_subtables_def keyedD)

section \<open>One subtable\<close>

lemma Find_Hash_returns:
  assumes sep: "separates F" and ok: "in_subtables F T" and s: "s < length (Subtables T)" and u: "unique (Elements T)"
    and m: "2 * key_count F T s * (key_count F T s - 1) \<le> ST_Max (Subtables T ! s)"
  shows "\<exists>T1. Find_Hash_For_Subtable F s T = Some T1"
proof -
  let ?ST = "Subtables T ! s" and ?I = "filter (\<lambda>i. Used (Elements T ! i)) [ST_First (Subtables T ! s)..<ST_First (Subtables T ! s) + ST_Max (Subtables T ! s)]"
  let ?ks = "map (\<lambda>i. the (Key (Elements T ! i))) ?I"
  have r: "range_ok s T" and k: "keyed (Elements T)"
    using ok in_subtablesD(2) [OF ok s] by (simp_all add: in_subtables_def)
  have I: "set ?I = {i. i < length (Elements T) \<and> Used (Elements T ! i) \<and> subtable_of F T (the (Key (Elements T ! i))) = s}"
    using in_subtablesD(3) [OF ok _ _ s] sub_range_less [OF ok s] ok by (auto simp: in_subtables_def sub_range_def)
  have inj: "inj_on (\<lambda>i. the (Key (Elements T ! i))) (set ?I)"
  proof (rule inj_onI)
    fix i j
    assume "i \<in> set ?I" "j \<in> set ?I" and eq: "the (Key (Elements T ! i)) = the (Key (Elements T ! j))"
    then have ij: "i < length (Elements T)" "Used (Elements T ! i)" "j < length (Elements T)" "Used (Elements T ! j)"
      unfolding I by auto
    then have "Key (Elements T ! i) = Key (Elements T ! j)"
      using eq keyedD [OF k ij(1,2)] keyedD [OF k ij(3,4)] by auto
    then show "i = j"
      using u ij unfolding unique_def by blast
  qed
  then have "distinct ?ks"
    by (simp add: distinct_map)
  moreover have "length ?ks = key_count F T s"
    unfolding key_count_card I [symmetric] by (simp add: distinct_card del: set_filter)
  moreover have "0 < ST_Max ?ST"
    using r by (simp add: range_ok_def Let_def)
  ultimately obtain j where j: "inj_on (\<lambda>k. Hash F k (nth_param F j) (ST_Max ?ST)) (set ?ks)"
    using sep m unfolding separates_def by metis
  let ?T0 = "set_HParam s (Default_Hash_Parameters F) T" and ?Tj = "set_HParam s (nth_param F j) T"
  have rj: "range_ok s ?Tj" "range_ok s (Rehash_Subtable F s ?Tj)"
    using r by simp_all
  have sub: "Subtables ?Tj ! s = ?ST\<lparr>ST_HParam := nth_param F j\<rparr>" "sub_range (Subtables ?Tj ! s) = sub_range ?ST"
    using s by (simp_all add: sub_range_def)
  have "Is_Injective s (Rehash_Subtable F s ?Tj)"
    unfolding Is_Injective_iff [OF rj(2)] Rehash_sel sub(2)
  proof (intro ballI impI)
    fix a b
    let ?E = "Elements (Rehash_Subtable F s ?Tj)"
    assume ab: "a \<in> sub_range ?ST" "b \<in> sub_range ?ST" and eq: "Used (?E ! a) \<and> Used (?E ! b) \<and> ST_Offset (?E ! a) = ST_Offset (?E ! b)"
    have used: "Used (Elements T ! a)" "Used (Elements T ! b)"
      using eq ab sub_range_less [OF ok s] Rehash_nth [OF rj(1), of _ F] by (auto simp: sub split: if_splits)
    then have "Hash F (the (Key (Elements T ! a))) (nth_param F j) (ST_Max ?ST) = Hash F (the (Key (Elements T ! b))) (nth_param F j) (ST_Max ?ST)"
      using eq ab rehashed_offset [OF rj(1), of _ F] k sub by simp
    moreover have "a \<in> set ?I" "b \<in> set ?I"
      using ab used by (simp_all add: sub_range_def)
    ultimately have "the (Key (Elements T ! a)) = the (Key (Elements T ! b))"
      by (intro inj_onD [OF j]) simp_all
    then show "a = b"
      by (rule inj_onD [OF inj _ \<open>a \<in> set ?I\<close> \<open>b \<in> set ?I\<close>])
  qed
  then show ?thesis
    unfolding Find_Hash_For_Subtable_def using find_hash_loop_returns [of s ?T0 F j] r s by (simp add: nth_param_def)
qed

definition fits :: "'p hash_family \<Rightarrow> 'p Hash_Table \<Rightarrow> nat \<Rightarrow> bool" where
  "fits F T s \<longleftrightarrow> 2 * key_count F T s * (key_count F T s - 1) \<le> ST_Max (Subtables T ! s)"

lemma Process_returns:
  assumes "separates F" "in_subtables F T" "s < length (Subtables T)" "unique (Elements T)" "fits F T s"
  shows "\<exists>T'. Process_Subtable F s T = Some T'"
proof -
  obtain T1 where "Find_Hash_For_Subtable F s T = Some T1"
    using Find_Hash_returns [OF assms(1-4)] assms(5) by (auto simp: fits_def)
  then show ?thesis
    using Process_Subtable_found [OF _ in_subtablesD(2) [OF assms(2,3)]] assms(2) by (fastforce simp: in_subtables_def)
qed

lemma sized_fits:
  assumes "sized (Subtables T ! s)" "key_count F T s \<le> ST_High (Subtables T ! s)"
  shows "fits F T s"
proof -
  let ?c = "key_count F T s" and ?h = "ST_High (Subtables T ! s)"
  have "2 * ?c * (?c - 1) \<le> 2 * ?h * (?h - 1)"
    using assms(2) by (intro mult_le_mono) simp_all
  then show ?thesis
    using assms(1) by (simp add: fits_def sized_def)
qed

lemma fits_params: "only_params T T' \<Longrightarrow> s < length (Subtables T) \<Longrightarrow> fits F T' s = fits F T s"
  using only_params_nth(2) [of T T' s] by (simp add: fits_def key_count_def only_params_def subtable_of_def)

lemma process_all_returns:
  assumes "separates F" "in_subtables F T" "unique (Elements T)" "\<forall>s\<in>set ss. s < length (Subtables T) \<and> fits F T s"
  shows "\<exists>T'. process_all F ss T = Some T'"
  using assms(2-)
proof (induction ss arbitrary: T)
  case (Cons s ss)
  have s: "s < length (Subtables T)" "fits F T s"
    using Cons.prems(3) by simp_all
  have later: "\<exists>T'. process_all F ss T1 = Some T'" if T1: "in_subtables F T1" "only_params T T1" for T1
  proof (rule Cons.IH [OF T1(1)])
    show "unique (Elements T1)"
      using unique_core [of "Elements T1" "Elements T"] T1(2) Cons.prems(1,2) by (simp add: only_params_def in_subtables_def)
    show "\<forall>s\<in>set ss. s < length (Subtables T1) \<and> fits F T1 s"
      using Cons.prems(3) fits_params [OF T1(2)] only_params_length [OF T1(2)] by simp
  qed
  obtain T1 where T1: "Process_Subtable F s T = Some T1"
    using Process_returns [OF assms(1) Cons.prems(1) s(1) Cons.prems(2) s(2)] by blast
  have "in_subtables F T1" "only_params T T1"
    using Process_Subtable_step [OF T1 Cons.prems(1) s(1)] by auto
  then show ?case
    using T1 later [of T1] later [of T] later [of "set_HParam s (Default_Hash_Parameters F) T"] Cons.prems(1)
    by (auto simp: in_subtables_HParam only_params_HParam)
qed simp

section \<open>The whole table\<close>

lemma used_front:
  assumes "\<And>j. j < length Es \<Longrightarrow> Used (Es ! j) \<longleftrightarrow> j < c"
  shows "filter Used Es = take c Es"
proof -
  have "filter Used (take c Es) = take c Es" "filter Used (drop c Es) = []"
    using assms by (auto simp: filter_id_conv filter_empty_conv in_set_conv_nth)
  then show ?thesis
    by (metis append_Nil2 append_take_drop_id filter_append)
qed

lemma find_table_hash_ends:
  assumes sp: "spreads F" and pre: "rehash_pre F T" and u: "unique (put_last K (Elements T))"
  shows "\<exists>T2. find_table_hash F (T\<lparr>Elements := compact (put_last K (Elements T)) 0 (length (put_last K (Elements T)) - 1),
      Info := (Info T)\<lparr>HParam := Default_Hash_Parameters F\<rparr>\<rparr>) = Some T2"
proof -
  let ?P = "put_last K (Elements T)"
  obtain Es where Es: "Es = compact ?P 0 (length ?P - 1)" by blast
  note c = rehash_compact [OF pre Es]
  let ?T = "T\<lparr>Elements := Es, Info := (Info T)\<lparr>HParam := Default_Hash_Parameters F\<rparr>\<rparr>" and ?c = "Count (Info T)" and ?h = "High (Info T)"
  let ?ks = "map (\<lambda>e. the (Key e)) (take ?c Es)"
  have pre': "N_Subtables (Info T) = length (Subtables T)" "0 < length (Subtables T)" "length (Elements T) = 15 * ?h + 1" "?c \<le> ?h"
    "N_Subtables (Info T) = 3 * ?h" "hash_ok F"
    using pre by (simp_all add: rehash_pre_def)
  have cl: "?c \<le> length Es"
    using c(2) pre' by simp
  have "keyed ?P"
    using keyed_mset [OF c(1)] c(3) by simp
  then have "unique Es"
    using unique_core [of Es ?P] u c(1) by simp
  then have "distinct ?ks"
    using unique_distinct [OF c(3)] used_front [of Es ?c] c(4) by simp
  then obtain j where j: "(\<Sum>s<3 * ?h. room (length (filter (\<lambda>k. Hash F k (nth_param F j) (3 * ?h) = s) ?ks))) \<le> 44 * ?h div 3"
    using sp [unfolded spreads_def, rule_format, of ?ks ?h] pre' cl by auto
  have "length (filter (\<lambda>k. Hash F k (nth_param F j) (3 * ?h) = s) ?ks) = load F (nth_param F j) (3 * ?h) ?c Es s" for s
    using cl by (simp add: load_def length_filter_conv_card del: filter_map) (metis (no_types, lifting) Collect_cong min.absorb2 nth_map nth_take length_take)
  then have "table_load F (nth_param F j) ?T \<le> 44 * ?h div 3"
    using j pre' by (simp add: table_load_def)
  then show ?thesis
    using find_table_hash_returns [of F ?T j] pre' cl by (simp add: table_ok_def nth_param_def Es)
qed

lemma Rehash_All_returns:
  assumes sp: "spreads F" "separates F" and pre: "rehash_pre F T" and u: "unique (put_last K (Elements T))"
  shows "\<exists>T'. Rehash_All F K T = Some T'"
proof -
  obtain T2 where T2: "find_table_hash F (T\<lparr>Elements := compact (put_last K (Elements T)) 0 (length (put_last K (Elements T)) - 1),
      Info := (Info T)\<lparr>HParam := Default_Hash_Parameters F\<rparr>\<rparr>) = Some T2"
    using find_table_hash_ends [OF sp(1) pre u] by blast
  obtain T3 where T3: "Rehash_All F K T = process_all F [0..<length (Subtables T3)] T3" "in_subtables F T3"
    "\<forall>s < length (Subtables T3). ready F T3 s \<and> ST_Count (Subtables T3 ! s) = key_count F T3 s \<and> sized (Subtables T3 ! s)
      \<and> key_count F T3 s \<le> ST_High (Subtables T3 ! s)"
    "mset (map core (Elements T3)) = mset (map core (put_last K (Elements T)))"
    using rehash_stage [OF pre T2] by blast
  have "unique (Elements T3)"
    using unique_core [OF T3(4)] u keyed_core [OF T3(4)] T3(2) by (simp add: in_subtables_def)
  moreover have "fits F T3 s" if "s < length (Subtables T3)" for s
    using T3(3) that by (intro sized_fits) simp_all
  ultimately show ?thesis
    unfolding T3(1) by (intro process_all_returns [OF sp(2) T3(2)]) simp_all
qed

section \<open>Insertion\<close>

lemma unique_put_last:
  assumes "keyed Es" "Es \<noteq> []" "\<not> Used (last Es)" "unique Es" "\<forall>e\<in>set Es. Used e \<longrightarrow> Key e \<noteq> Some K"
  shows "unique (put_last K Es)"
proof -
  have k: "keyed (put_last K Es)"
    using put_last_facts(2) [OF assms(2,3)] assms(1) by (auto simp: keyed_def dest: in_set_butlastD)
  have f: "filter Used Es = filter Used (butlast Es)"
    using assms(2,3) by (metis append_Nil2 append_butlast_last_id filter.simps(1,2) filter_append)
  have "filter Used (put_last K Es) = filter Used Es @ [(last Es)\<lparr>Key := Some K, Used := True\<rparr>]"
    unfolding put_last_facts(5) [OF assms(2,3)] f by simp
  moreover have "K \<notin> set (map (\<lambda>e. the (Key e)) (filter Used Es))"
    using assms(1,5) by (auto simp: keyed_def)
  ultimately show ?thesis
    using assms(1,4) by (simp add: unique_distinct k)
qed

lemma new_key: "\<not> held T K \<Longrightarrow> \<forall>e\<in>set (Elements T). Used e \<longrightarrow> Key e \<noteq> Some K"
  unfolding held_nth by (metis in_set_conv_nth)

lemma extended_unique:
  assumes ok: "ht_ok F T" and full: "Count (Info T) = High (Info T)" and new: "\<not> held T K"
  shows "unique (put_last K (Elements (extend_HT F T)))"
proof -
  have u: "unique (Elements T)"
    by (rule ht_unique [OF ok])
  have k: "keyed (Elements T)"
    using ok by (simp add: ht_ok_def in_subtables_def del: upt_Suc mset_upt)
  note pre = extend_pre [OF ok full]
  have ext: "e \<in> set (Elements (extend_HT F T)) \<Longrightarrow> Used e \<Longrightarrow> e \<in> set (Elements T)"
    "filter Used (Elements (extend_HT F T)) = filter Used (Elements T)" for e
    by (auto simp: extend_HT_def Let_def Empty_def filter_empty_conv simp del: upt_Suc)
  have "keyed (Elements (extend_HT F T))" "Elements (extend_HT F T) \<noteq> []" "\<not> Used (last (Elements (extend_HT F T)))"
    using pre(1) by (auto simp: rehash_pre_def)
  moreover from this have "unique (Elements (extend_HT F T))"
    using u k ext(2) by (simp add: unique_distinct)
  ultimately show ?thesis
    using new_key [OF new] ext(1) by (intro unique_put_last) blast+
qed

lemma Process_added_returns:
  assumes F: "separates F" and base: "ht_base F T" and u: "unique (Elements T)" and new: "\<not> held T K" and room: "Count (Info T) < High (Info T)"
    and c: "ST_Count (Subtables T ! subtable_of F T K) < ST_High (Subtables T ! subtable_of F T K)"
    and T2: "Add_Key_To_Subtable K (subtable_of F T K) (count_key (subtable_of F T K) T) = Inr T2"
  shows "\<exists>T''. Process_Subtable F (subtable_of F T K) T2 = Some T''"
proof -
  let ?s = "subtable_of F T K"
  have in_sub: "in_subtables F T"
    using base by (simp add: ht_base_def)
  have sl: "?s < length (Subtables T)"
    by (rule in_subtablesD(1) [OF in_sub])
  let ?f = "\<lambda>e. e\<lparr>Key := Some K, Used := True\<rparr>"
  obtain J where J: "J \<in> sub_range (Subtables T ! ?s)" "\<not> Used (Elements T ! J)" "T2 = set_element J ?f (count_key ?s T)"
    using Add_Key_ok [OF base sl c, of K] T2 by auto
  have core: "core (?f (Elements T ! J)) = (Some K, True, Item_Index (Elements T ! J))"
    by (simp add: core_def)
  have b2: "ht_base F T2"
    using put_key(1) [where f = ?f, OF base refl J(1,2) room core] J(3) by simp
  have Jl: "J < length (Elements T)"
    by (rule sub_range_less [OF in_sub sl J(1)])
  have l2: "length (Subtables T2) = length (Subtables T)" "length (Elements T2) = length (Elements T)"
    by (simp_all add: J(3) recount_count_key)
  have "unique (Elements T2)"
    using u new Jl unfolding unique_def held_nth J(3) by (auto simp: recount_count_key)
  moreover have "ST_Count (Subtables T2 ! ?s) = ST_Count (Subtables T ! ?s) + 1" "ST_High (Subtables T2 ! ?s) = ST_High (Subtables T ! ?s)"
    using sl by (simp_all add: J(3) recount_count_key)
  moreover have b2': "in_subtables F T2" "key_count F T2 ?s = ST_Count (Subtables T2 ! ?s)" "sized (Subtables T2 ! ?s)"
    using b2 sl l2 by (simp_all add: ht_base_def)
  ultimately show ?thesis
    using Process_returns [OF F b2'(1)] sized_fits [OF b2'(3)] sl l2 c b2'(2) by simp
qed

lemma Insert_HT_returns:
  assumes F: "spreads F" "separates F" and ok: "ht_ok F T" and K: "\<not> held T K \<or> Count (Info T) < High (Info T)"
  shows "\<exists>r. Insert_HT F K T = Some r"
proof (cases "held T K")
  case True
  then show ?thesis
    using Insert_HT_held [OF ok] K by simp
next
  case new: False
  have u: "unique (Elements T)" and in_sub: "in_subtables F T" and base: "ht_base F T"
    using ht_unique [OF ok] ok by (simp_all add: ht_ok_base ht_base_def del: upt_Suc mset_upt)
  have k: "keyed (Elements T)"
    using in_sub by (simp add: in_subtables_def)
  show ?thesis
  proof (cases "Count (Info T) = High (Info T)")
    case True
    show ?thesis
      using Rehash_All_returns [OF F extend_pre(1) [OF ok True]] extended_unique [OF ok True new] True by (auto simp: Insert_HT_def)
  next
    case False
    let ?s = "subtable_of F T K"
    have room: "Count (Info T) < High (Info T)"
      using ok False by (simp add: ht_ok_def del: upt_Suc mset_upt)
    have sl: "?s < length (Subtables T)"
      by (rule in_subtablesD(1) [OF in_sub])
    have "unique (put_last K (Elements T))"
      using unique_put_last [OF k _ ht_last_unused [OF ok] u new_key [OF new]] ok by (fastforce simp: ht_ok_def)
    then obtain T' where T': "Rehash_All F K (count_key ?s T) = Some T'"
      using Rehash_All_returns [OF F count_pre [OF ok room], of K] by (auto simp: recount_count_key)
    show ?thesis
      using T' False new sl Process_added_returns [OF F(2) base u new room]
      by (auto simp: Insert_HT_def Lookup_HT_spec [OF ok] Let_def recount_count_key split: sum.splits)
  qed
qed

section \<open>A rich class\<close>

text \<open>
  The requirements on the hash functions can be met: the digits of a number in base \<open>n\<close> are any function into the numbers below
  \<open>n\<close>, and each key is given the position of its digit.
\<close>

fun key_number :: "string \<Rightarrow> nat" where
  "key_number [] = 0"
| "key_number (c # cs) = 1 + of_char c + 256 * key_number cs"

definition digit_hashes :: "nat hash_family" where
  "digit_hashes = \<lparr>Default_Hash_Parameters = 0, Hash = \<lambda>k p n. (p div n ^ key_number k) mod n, Next_Hash_Parameters = Suc\<rparr>"

lemma key_number_inj: "key_number k = key_number k' \<Longrightarrow> k = k'"
proof (induction k arbitrary: k')
  case Nil
  then show ?case
    by (cases k') auto
next
  case (Cons c cs)
  then obtain c' cs' where k': "k' = c' # cs'"
    by (cases k') auto
  have "of_char c + 256 * key_number cs = of_char c' + 256 * key_number cs'"
    using Cons.prems k' by simp
  then have "(of_char c + 256 * key_number cs) mod 256 = (of_char c' + 256 * key_number cs') mod 256"
    "(of_char c + 256 * key_number cs) div 256 = (of_char c' + 256 * key_number cs') div 256"
    by simp_all
  then have "(of_char c :: nat) = of_char c'" "key_number cs = key_number cs'"
    by simp_all
  then show ?case
    using Cons.IH k' by simp
qed

lemma digits_any: "\<forall>i. g i < n \<Longrightarrow> \<exists>p :: nat. \<forall>i < N. (p div n ^ i) mod n = g i"
proof (induction N arbitrary: g)
  case (Suc N)
  obtain p where p: "\<forall>i < N. (p div n ^ i) mod n = g (Suc i)"
    using Suc.IH [of "\<lambda>i. g (Suc i)"] Suc.prems by blast
  have n: "0 < n" "g 0 < n"
    using Suc.prems gr_zeroI by fastforce+
  have "((g 0 + n * p) div n ^ i) mod n = g i" if "i < Suc N" for i
  proof (cases i)
    case (Suc j)
    have "(g 0 + n * p) div n ^ Suc j = p div n ^ j"
      using n by (simp add: div_mult2_eq)
    then show ?thesis
      using p that Suc by simp
  qed (use n in \<open>simp\<close>)
  then show ?case
    by blast
qed simp

lemma digit_hashes_any:
  assumes "0 < n" "\<forall>k\<in>set ks. g k < n"
  shows "\<exists>j. \<forall>k\<in>set ks. Hash digit_hashes k (nth_param digit_hashes j) n = g k"
proof -
  let ?g = "\<lambda>i. if \<exists>k\<in>set ks. key_number k = i then g (THE k. k \<in> set ks \<and> key_number k = i) else 0"
  have the: "(THE k. k \<in> set ks \<and> key_number k = key_number k') = k'" if "k' \<in> set ks" for k'
    using that key_number_inj by (intro the_equality) auto
  have "\<forall>i. ?g i < n"
    using assms the by auto
  then obtain p where p: "\<forall>i < Suc (Max (key_number ` set ks)). (p div n ^ i) mod n = ?g i"
    using digits_any [of ?g n] by blast
  have param: "nth_param digit_hashes j = j" for j
    by (induction j) (simp_all add: nth_param_def digit_hashes_def)
  have "(p div n ^ key_number k) mod n = g k" if "k \<in> set ks" for k
    using p that the [OF that] by (auto simp: less_Suc_eq_le)
  then show ?thesis
    by (intro exI [of _ p], simp add: param, simp add: digit_hashes_def)
qed

lemma index_of_distinct:
  assumes "distinct ks"
  shows "\<exists>g. (\<forall>i < length ks. g (ks ! i) = i) \<and> (\<forall>k\<in>set ks. g k < length ks) \<and> inj_on g (set ks)"
proof -
  let ?g = "\<lambda>k. THE i. i < length ks \<and> ks ! i = k"
  have g: "?g (ks ! i) = i" if "i < length ks" for i
    using that assms by (intro the_equality) (auto simp: nth_eq_iff_index_eq)
  then have "\<forall>k\<in>set ks. ?g k < length ks" "inj_on ?g (set ks)"
    by (auto simp: in_set_conv_nth inj_on_def)
  then show ?thesis
    using g by (intro exI [of _ ?g] conjI) (assumption | simp)+
qed

lemma digit_hashes_ok: "hash_ok digit_hashes"
  by (simp add: hash_ok_def digit_hashes_def)

lemma digit_hashes_separate: "separates digit_hashes"
  unfolding separates_def
proof (intro allI impI)
  fix ks :: "string list" and m
  assume ks: "distinct ks \<and> 0 < m \<and> 2 * length ks * (length ks - 1) \<le> m"
  have "length ks \<le> m"
  proof (cases "length ks \<le> 1")
    case False
    then have "length ks * 1 \<le> 2 * length ks * (length ks - 1)"
      by (intro mult_le_mono) simp_all
    also have "\<dots> \<le> m"
      using ks by blast
    finally show ?thesis
      by simp
  qed (use ks in \<open>simp\<close>)
  obtain g where g: "\<forall>i < length ks. g (ks ! i) = i" "\<forall>k\<in>set ks. g k < length ks" "inj_on g (set ks)"
    using index_of_distinct [OF conjunct1 [OF ks]] by blast
  have "g k < m" if "k \<in> set ks" for k
    using bspec [OF g(2) that] \<open>length ks \<le> m\<close> by linarith
  then obtain j where "\<forall>k\<in>set ks. Hash digit_hashes k (nth_param digit_hashes j) m = g k"
    using digit_hashes_any [of m ks g] ks by auto
  then show "\<exists>j. inj_on (\<lambda>k. Hash digit_hashes k (nth_param digit_hashes j) m) (set ks)"
    using g(3) by (intro exI [of _ j]) (simp add: inj_on_def)
qed

lemma digit_hashes_spread: "spreads digit_hashes"
  unfolding spreads_def
proof (intro allI impI)
  fix ks :: "string list" and h
  assume ks: "distinct ks \<and> 0 < h \<and> length ks \<le> h"
  obtain g where g: "\<forall>i < length ks. g (ks ! i) = i" "\<forall>k\<in>set ks. g k < length ks" "inj_on g (set ks)"
    using index_of_distinct [OF conjunct1 [OF ks]] by blast
  have "g k < 3 * h" if "k \<in> set ks" for k
    using bspec [OF g(2) that] ks by linarith
  then have "\<forall>k\<in>set ks. g k < 3 * h"
    by blast
  then obtain j where j: "\<forall>k\<in>set ks. Hash digit_hashes k (nth_param digit_hashes j) (3 * h) = g k"
    using digit_hashes_any [of "3 * h" ks g] ks by auto
  have "room (length (filter (\<lambda>k. Hash digit_hashes k (nth_param digit_hashes j) (3 * h) = s) ks)) = (if s < length ks then 4 else 2)" for s
  proof -
    have "filter (\<lambda>k. Hash digit_hashes k (nth_param digit_hashes j) (3 * h) = s) ks = filter (\<lambda>k. g k = s) ks"
      using j by (intro filter_cong) auto
    moreover have "length (filter (\<lambda>k. g k = s) ks) = card {i. i < length ks \<and> i = s}"
      using g(1) by (auto simp: length_filter_conv_card intro: arg_cong [where f = card])
    moreover have "{i. i < length ks \<and> i = s} = (if s < length ks then {s} else {})"
      by auto
    ultimately show ?thesis
      by (simp add: room_def)
  qed
  then have "(\<Sum>s<3 * h. room (length (filter (\<lambda>k. Hash digit_hashes k (nth_param digit_hashes j) (3 * h) = s) ks)))
      = (\<Sum>s<3 * h. if s < length ks then 4 else 2)"
    by simp
  also have "\<dots> = 4 * length ks + 2 * (3 * h - length ks)"
  proof -
    have "{..<3 * h} \<inter> {s. s < length ks} = {..<length ks}" "{..<3 * h} \<inter> - {s. s < length ks} = {length ks..<3 * h}"
      using ks by auto
    then show ?thesis
      by (simp add: sum.If_cases)
  qed
  finally show "\<exists>j. (\<Sum>s<3 * h. room (length (filter (\<lambda>k. Hash digit_hashes k (nth_param digit_hashes j) (3 * h) = s) ks))) \<le> 44 * h div 3"
    using ks by (intro exI [of _ j]) linarith
qed

lemmas digit_hashes_rich = digit_hashes_ok digit_hashes_separate digit_hashes_spread

end
