(* ===== verification/Hfunctions.thy ===== *)
theory Hfunctions
  imports Object_Maps Htable_Search
begin

text \<open>
  The pseudo-random generator and the classes of hash functions that the tables of PolyORB are instantiated with:
  \<open>src/src/polyorb-utils-random.adb\<close>, \<open>polyorb-utils-hfunctions-hyper.adb\<close> and \<open>polyorb-utils-hfunctions-mul.adb\<close>.
  The generator is proved to be the published recurrence of MT19937, and \<open>Hash_Hyper\<close> the linear form of its specification.
\<close>

unbundle bit_operations_syntax

section \<open>PolyORB.Utils.Random\<close>

type_synonym Unsigned_Long = "32 word"

definition State_N :: nat where "State_N = 624"
definition Period_M :: nat where "Period_M = 397"
definition Invalid :: nat where "Invalid = State_N + 1"
definition Upper_Mask :: Unsigned_Long where "Upper_Mask = 0x80000000"
definition Lower_Mask :: Unsigned_Long where "Lower_Mask = 0x7FFFFFFF"
definition Default_Seed :: Unsigned_Long where "Default_Seed = 19650218"

record Generator =
  Vector_N :: "Unsigned_Long list"
  Condition :: nat
  Gen_Seed :: Unsigned_Long

text \<open>A generator as the declaration of an object creates it.\<close>

definition new_Generator :: Generator where
  "new_Generator = \<lparr>Vector_N = replicate (State_N + 1) 0, Condition = Invalid, Gen_Seed = Default_Seed\<rparr>"

definition Magic :: "Unsigned_Long \<Rightarrow> Unsigned_Long" where
  "Magic S = (if S AND 1 = 1 then 0x9908B0DF else 0)"

text \<open>The body of the three loops of \<open>Random\<close>: the element \<open>J\<close> from its successor and from the element \<open>L\<close>.\<close>

definition twist :: "nat \<Rightarrow> nat \<Rightarrow> nat \<Rightarrow> Unsigned_Long list \<Rightarrow> Unsigned_Long list" where
  "twist J J1 L V = (let S = (V ! J AND Upper_Mask) OR (V ! J1 AND Lower_Mask) in
     V[J := (V ! L XOR drop_bit 1 S) XOR Magic S])"

definition regenerate :: "Unsigned_Long list \<Rightarrow> Unsigned_Long list" where
  "regenerate V =
     (let V = fold (\<lambda>J. twist J (J + 1) (J + Period_M)) [0..<State_N - Period_M] V;
          V = fold (\<lambda>J. twist J (J + 1) (J + Period_M - State_N)) [State_N - Period_M..<State_N - 1] V in
      twist (State_N - 1) 0 (Period_M - 1) V)"

definition temper :: "Unsigned_Long \<Rightarrow> Unsigned_Long" where
  "temper S =
     (let S = S XOR drop_bit 11 S;
          S = S XOR (push_bit 7 S AND 0x9D2C5680);
          S = S XOR (push_bit 15 S AND 0xEFC60000) in
      S XOR drop_bit 18 S)"

definition Random :: "Generator \<Rightarrow> (Unsigned_Long \<times> Generator) result" where
  "Random G =
     on_ok (if Condition G \<ge> State_N
            then if Condition G = Invalid then Inl Program_Error else Inr (G\<lparr>Vector_N := regenerate (Vector_N G), Condition := 0\<rparr>)
            else Inr G) (\<lambda>G.
       Inr (temper (Vector_N G ! Condition G), G\<lparr>Condition := Condition G + 1\<rparr>))"

definition knuth :: "nat \<Rightarrow> Unsigned_Long \<Rightarrow> Unsigned_Long" where
  "knuth J p = 1812433253 * (p XOR drop_bit 30 p) + of_nat J"

definition Reset :: "Generator \<Rightarrow> Unsigned_Long \<Rightarrow> Generator" where
  "Reset G s =
     G\<lparr>Gen_Seed := s,
       Vector_N := fold (\<lambda>J V. V[J := knuth J (V ! (J - 1)) AND 0xFFFFFFFF]) [1..<State_N + 1] ((Vector_N G)[0 := s AND 0xFFFFFFFF]),
       Condition := State_N\<rparr>"

section \<open>PolyORB.Utils.HFunctions.Hyper\<close>

record Hash_Hyper_Parameters =
  Seed :: Unsigned_Long
  Prime :: nat

text \<open>Division by zero raises the exception of the language.\<close>

definition mod_check :: "int \<Rightarrow> nat \<Rightarrow> int result" where
  "mod_check a n = (if n = 0 then Inl Constraint_Error else Inr (a mod int n))"

fun hyper_loop :: "nat \<Rightarrow> string \<Rightarrow> int \<Rightarrow> Generator \<Rightarrow> int result" where
  "hyper_loop p [] Result G = Inr Result"
| "hyper_loop p (c # S) Result G =
     on_ok (Random G) (\<lambda>(r, G). on_ok (mod_check (Result + uint r * of_char c) p) (\<lambda>Result. hyper_loop p S Result G))"

definition Hash_Hyper :: "string \<Rightarrow> Unsigned_Long \<Rightarrow> nat \<Rightarrow> nat \<Rightarrow> nat result" where
  "Hash_Hyper S s p Size =
     on_ok (hyper_loop p S 0 (Reset new_Generator s)) (\<lambda>Result. on_ok (mod_check Result Size) (\<lambda>r. Inr (nat r)))"

definition Hyper_Hash :: "string \<Rightarrow> Hash_Hyper_Parameters \<Rightarrow> nat \<Rightarrow> nat result" where
  "Hyper_Hash S Param Size = Hash_Hyper S (Seed Param) (Prime Param) Size"

definition Hyper_Default_Hash_Parameters :: Hash_Hyper_Parameters where
  "Hyper_Default_Hash_Parameters = \<lparr>Seed = 42, Prime = 17771\<rparr>"

definition Hyper_Next_Hash_Parameters :: "Hash_Hyper_Parameters \<Rightarrow> Hash_Hyper_Parameters result" where
  "Hyper_Next_Hash_Parameters Param =
     on_ok (Hyper_Hash (Long_Long_Image (uint (Seed Param))) Param (nat Integer_Last)) (\<lambda>h.
       Inr \<lparr>Seed = of_nat h, Prime = Prime Param\<rparr>)"

section \<open>PolyORB.Utils.HFunctions.Mul\<close>

record Hash_Mul_Parameters =
  Mul_K :: nat
  Mul_Prime :: nat

fun mul_loop :: "nat \<Rightarrow> nat \<Rightarrow> string \<Rightarrow> int \<Rightarrow> int result" where
  "mul_loop k p [] Result = Inr Result"
| "mul_loop k p (c # S) Result = on_ok (mod_check (Result * 65599 + of_char c * int k) p) (mul_loop k p S)"

definition Hash_Mul :: "string \<Rightarrow> nat \<Rightarrow> nat \<Rightarrow> nat \<Rightarrow> nat result" where
  "Hash_Mul S k p Size = on_ok (mul_loop k p S 0) (\<lambda>Result. on_ok (mod_check Result Size) (\<lambda>r. Inr (nat r)))"

definition Mul_Hash :: "string \<Rightarrow> Hash_Mul_Parameters \<Rightarrow> nat \<Rightarrow> nat result" where
  "Mul_Hash S Param Size = Hash_Mul S (Mul_K Param) (Mul_Prime Param) Size"

definition Mul_Default_Hash_Parameters :: Hash_Mul_Parameters where
  "Mul_Default_Hash_Parameters = \<lparr>Mul_K = 1, Mul_Prime = 1777771\<rparr>"

definition Mul_Next_Hash_Parameters :: "Hash_Mul_Parameters \<Rightarrow> Hash_Mul_Parameters result" where
  "Mul_Next_Hash_Parameters Param =
     (if Mul_Prime Param = 0 then Inl Constraint_Error
      else Inr \<lparr>Mul_K = 1 + Mul_K Param mod Mul_Prime Param, Mul_Prime = Mul_Prime Param\<rparr>)"

section \<open>The generator computes MT19937\<close>

text \<open>The sequence of Matsumoto and Nishimura, as one recurrence.\<close>

definition mt_step :: "Unsigned_Long \<Rightarrow> Unsigned_Long \<Rightarrow> Unsigned_Long \<Rightarrow> Unsigned_Long" where
  "mt_step x x1 xm = (let y = (x AND 0x80000000) OR (x1 AND 0x7FFFFFFF) in
     xm XOR (drop_bit 1 y XOR (if odd y then 0x9908B0DF else 0)))"

function mt :: "Unsigned_Long \<Rightarrow> nat \<Rightarrow> Unsigned_Long" where
  "mt s n = (if n = 0 then s
     else if n < 624 then 1812433253 * (mt s (n - 1) XOR drop_bit 30 (mt s (n - 1))) + of_nat n
     else mt_step (mt s (n - 624)) (mt s (n - 623)) (mt s (n - 227)))"
  by pat_completeness auto
termination by (relation "measure snd") auto

declare mt.simps [simp del]

lemma mt_next: "mt s (n + 624) = mt_step (mt s n) (mt s (n + 1)) (mt s (n + 397))"
  by (subst mt.simps) (simp add: add.commute)

lemma and_full: "(w :: Unsigned_Long) AND 0xFFFFFFFF = w"
proof -
  have "(0xFFFFFFFF :: Unsigned_Long) = - 1"
    by simp
  then show ?thesis
    by (metis and.right_neutral)
qed

lemma Magic_odd: "Magic S = (if odd S then 0x9908B0DF else 0)"
  by (simp add: Magic_def and_one_eq odd_iff_mod_2_eq_one)

lemma length_twist [simp]: "length (twist J J1 k V) = length V"
  by (simp add: twist_def Let_def)

lemma twist_nth: "J < length V \<Longrightarrow> twist J J1 k V ! i = (if i = J then mt_step (V ! J) (V ! J1) (V ! k) else V ! i)"
  by (simp add: twist_def mt_step_def Magic_odd Upper_Mask_def Lower_Mask_def Let_def nth_list_update xor.assoc)

text \<open>The vector while the block \<open>b\<close> is replaced by the next one, up to \<open>J\<close>.\<close>

definition half_way :: "Unsigned_Long \<Rightarrow> nat \<Rightarrow> nat \<Rightarrow> Unsigned_Long list \<Rightarrow> bool" where
  "half_way s b J V \<longleftrightarrow> length V = 625 \<and> (\<forall>i < 624. V ! i = mt s (if i < J then b + 624 + i else b + i))"

lemma half_way_twist:
  assumes h: "half_way s b J V" and J: "J < 624"
    and J1: "J1 = (if J = 623 then 0 else J + 1)" and k: "k = (if J < 227 then J + 397 else J - 227)"
  shows "half_way s b (J + 1) (twist J J1 k V)"
proof -
  have len: "length V = 625" and old: "\<And>i. i < 624 \<Longrightarrow> V ! i = mt s (if i < J then b + 624 + i else b + i)"
    using h by (auto simp: half_way_def)
  have "V ! J = mt s (b + J)" "V ! J1 = mt s (b + J + 1)" "V ! k = mt s (b + J + 397)"
    using old [of J] old [of J1] old [of k] J unfolding J1 k by (auto simp: ac_simps split: if_splits)
  then have "mt_step (V ! J) (V ! J1) (V ! k) = mt s (b + 624 + J)"
    using mt_next [of s "b + J"] by (simp add: ac_simps)
  then show ?thesis
    using old len J by (auto simp: half_way_def twist_nth less_Suc_eq)
qed

lemma half_way_fold:
  assumes "half_way s b a V" "a \<le> c" "c \<le> 624"
    and "\<And>J. a \<le> J \<Longrightarrow> J < c \<Longrightarrow> f J = twist J (if J = 623 then 0 else J + 1) (if J < 227 then J + 397 else J - 227)"
  shows "half_way s b c (fold f [a..<c] V)"
  using assms(2,3,4)
proof (induction "c - a" arbitrary: c)
  case 0
  then show ?case
    using assms(1) by simp
next
  case (Suc d)
  then obtain e where e: "c = Suc e" "a \<le> e"
    by (metis diff_is_0_eq' le_Suc_eq nat.distinct(1) not0_implies_Suc le_zero_eq)
  have "half_way s b e (fold f [a..<e] V)"
    using Suc e by (intro Suc.hyps(1)) auto
  then show ?case
    using half_way_twist [of s b e "fold f [a..<e] V"] Suc.prems(2,3) e by simp
qed

lemma regenerate_next:
  assumes "half_way s b 0 V"
  shows "half_way s (b + 624) 0 (regenerate V)"
proof -
  let ?V1 = "fold (\<lambda>J. twist J (J + 1) (J + Period_M)) [0..<State_N - Period_M] V"
  let ?V2 = "fold (\<lambda>J. twist J (J + 1) (J + Period_M - State_N)) [State_N - Period_M..<State_N - 1] ?V1"
  have "half_way s b (State_N - Period_M) ?V1"
    by (rule half_way_fold [OF assms]) (simp_all add: State_N_def Period_M_def)
  then have "half_way s b (State_N - 1) ?V2"
    by (rule half_way_fold) (simp_all add: State_N_def Period_M_def)
  then have "half_way s b (State_N - 1 + 1) (twist (State_N - 1) 0 (Period_M - 1) ?V2)"
    by (rule half_way_twist) (simp_all add: State_N_def Period_M_def)
  then show ?thesis
    by (simp add: half_way_def regenerate_def Let_def State_N_def ac_simps)
qed

text \<open>The generator before its call number \<open>n\<close>, counted from 0.\<close>

definition at_call :: "Unsigned_Long \<Rightarrow> nat \<Rightarrow> Generator \<Rightarrow> bool" where
  "at_call s n G \<longleftrightarrow> (\<exists>b. half_way s b 0 (Vector_N G) \<and> Condition G \<le> 624 \<and> b + Condition G = 624 + n)"

lemma Reset_fold:
  assumes "length V = 625" "V ! 0 = s" "j \<le> 624"
  shows "length (fold (\<lambda>J V. V[J := knuth J (V ! (J - 1)) AND 0xFFFFFFFF]) [1..<j + 1] V) = 625
    \<and> (\<forall>i \<le> j. i < 624 \<longrightarrow> fold (\<lambda>J V. V[J := knuth J (V ! (J - 1)) AND 0xFFFFFFFF]) [1..<j + 1] V ! i = mt s i)"
  using assms(3)
proof (induction j)
  case 0
  then show ?case
    using assms by (simp add: mt.simps)
next
  case (Suc j)
  let ?V = "fold (\<lambda>J V. V[J := knuth J (V ! (J - 1)) AND 0xFFFFFFFF]) [1..<j + 1] V"
  have IH: "length ?V = 625" "\<forall>i \<le> j. i < 624 \<longrightarrow> ?V ! i = mt s i"
    using Suc by simp_all
  have step: "fold (\<lambda>J V. V[J := knuth J (V ! (J - 1)) AND 0xFFFFFFFF]) [1..<Suc j + 1] V = ?V[Suc j := knuth (Suc j) (?V ! j)]"
    by (simp add: and_full)
  have "knuth (Suc j) (?V ! j) = mt s (Suc j)" if "Suc j < 624"
    using IH(2) that by (subst mt.simps) (simp add: knuth_def)
  then show ?case
    unfolding step using IH Suc.prems by (auto simp: nth_list_update le_Suc_eq)
qed

lemma Reset_at_call:
  assumes "length (Vector_N G) = 625"
  shows "at_call s 0 (Reset G s)"
proof -
  have "half_way s 0 0 (Vector_N (Reset G s))"
    using Reset_fold [of "(Vector_N G)[0 := s AND 0xFFFFFFFF]" s 624] assms
    by (simp add: half_way_def Reset_def State_N_def and_full del: upt_Suc)
  then show ?thesis
    by (auto simp: at_call_def Reset_def State_N_def)
qed

lemma Random_at_call:
  assumes "at_call s n G"
  shows "\<exists>G'. Random G = Inr (temper (mt s (624 + n)), G') \<and> at_call s (Suc n) G'"
proof -
  obtain b where b: "half_way s b 0 (Vector_N G)" "Condition G \<le> 624" "b + Condition G = 624 + n"
    using assms by (auto simp: at_call_def)
  show ?thesis
  proof (cases "Condition G = 624")
    case True
    let ?V = "regenerate (Vector_N G)"
    have V: "half_way s (b + 624) 0 ?V"
      by (rule regenerate_next [OF b(1)])
    then have "?V ! 0 = mt s (b + 624)"
      by (simp add: half_way_def)
    moreover have "at_call s (Suc n) (G\<lparr>Vector_N := ?V, Condition := 1\<rparr>)"
      using V b(3) True by (auto simp: at_call_def add.commute intro: exI [of _ "b + 624"])
    ultimately show ?thesis
      using True b(3) by (simp add: Random_def State_N_def Invalid_def add.commute)
  next
    case False
    then have "Vector_N G ! Condition G = mt s (b + Condition G)" "Condition G < 624"
      using b by (simp_all add: half_way_def)
    moreover have "at_call s (Suc n) (G\<lparr>Condition := Condition G + 1\<rparr>)"
      using b \<open>Condition G < 624\<close> by (auto simp: at_call_def intro: exI [of _ b])
    ultimately show ?thesis
      using b(3) by (simp add: Random_def State_N_def)
  qed
qed

text \<open>Successive calls.\<close>

fun draws :: "nat \<Rightarrow> Generator \<Rightarrow> (Unsigned_Long list \<times> Generator) result" where
  "draws 0 G = Inr ([], G)"
| "draws (Suc k) G = on_ok (Random G) (\<lambda>(r, G). on_ok (draws k G) (\<lambda>(rs, G). Inr (r # rs, G)))"

lemma draws_at_call:
  "at_call s n G \<Longrightarrow> \<exists>G'. draws k G = Inr (map (\<lambda>i. temper (mt s (624 + i))) [n..<n + k], G')"
proof (induction k arbitrary: n G)
  case (Suc k)
  obtain G1 where G1: "Random G = Inr (temper (mt s (624 + n)), G1)" "at_call s (Suc n) G1"
    using Random_at_call [OF Suc.prems] by blast
  obtain G' where "draws k G1 = Inr (map (\<lambda>i. temper (mt s (624 + i))) [Suc n..<Suc n + k], G')"
    using Suc.IH [OF G1(2)] by blast
  moreover have "[n..<n + Suc k] = n # [Suc n..<Suc n + k]"
    by (simp add: upt_conv_Cons del: upt_Suc)
  ultimately show ?case
    using G1(1) by simp
qed simp

text \<open>
  Property C8. The pseudo-random generator is MT19937: the numbers that successive calls of \<open>Random\<close> return after \<open>Reset\<close>
  are the tempered terms of the published recurrence, from the term 624 on, although the vector is renewed in place by
  three loops every 624 calls; without \<open>Reset\<close> the first call raises \<open>Program_Error\<close>.
\<close>

theorem Random_is_MT19937:
  assumes "length (Vector_N G) = 625"
  shows "Random new_Generator = Inl Program_Error
    \<and> (\<exists>G'. draws k (Reset G s) = Inr (map (\<lambda>i. temper (mt s (624 + i))) [0..<k], G'))"
  using draws_at_call [OF Reset_at_call [OF assms], where k = k] by (simp add: Random_def new_Generator_def Invalid_def)

theorem Random_is_MT19937_witness:
  "Random new_Generator = Inl Program_Error
    \<and> (\<exists>G'. draws 2000 (Reset new_Generator 5489) = Inr (map (\<lambda>i. temper (mt 5489 (624 + i))) [0..<2000], G'))"
  by (rule Random_is_MT19937) (simp add: new_Generator_def State_N_def)

section \<open>The linear form of Hash_Hyper\<close>

definition weight :: "Unsigned_Long \<Rightarrow> nat \<Rightarrow> int" where
  "weight s i = uint (temper (mt s (624 + i)))"

lemma hyper_loop_sum:
  assumes "at_call s n G" "0 < p" "0 \<le> R" "R < int p"
  shows "hyper_loop p S R G = Inr ((R + (\<Sum>i<length S. weight s (n + i) * of_char (S ! i))) mod int p)"
  using assms
proof (induction S arbitrary: n G R)
  case (Cons c S)
  obtain G1 where G1: "Random G = Inr (temper (mt s (624 + n)), G1)" "at_call s (Suc n) G1"
    using Random_at_call [OF Cons.prems(1)] by blast
  let ?R = "(R + weight s n * of_char c) mod int p"
  have "hyper_loop p S ?R G1 = Inr ((?R + (\<Sum>i<length S. weight s (Suc n + i) * of_char (S ! i))) mod int p)"
    using Cons.IH [OF G1(2) Cons.prems(2)] Cons.prems(2) by simp
  then have "hyper_loop p (c # S) R G = Inr ((?R + (\<Sum>i<length S. weight s (Suc n + i) * of_char (S ! i))) mod int p)"
    using G1(1) Cons.prems(2) by (simp add: mod_check_def weight_def)
  moreover have "(\<Sum>i<length (c # S). weight s (n + i) * of_char ((c # S) ! i))
      = weight s n * of_char c + (\<Sum>i<length S. weight s (Suc n + i) * of_char (S ! i))"
    by (simp only: length_Cons sum.lessThan_Suc_shift) simp
  ultimately show ?case
    by (simp add: mod_add_left_eq add.assoc)
qed simp

lemma Hash_Hyper_sum:
  "Hash_Hyper S s p Size = (if p = 0 \<and> S \<noteq> [] \<or> Size = 0 then Inl Constraint_Error
     else Inr (nat ((\<Sum>i<length S. weight s i * of_char (S ! i)) mod int p mod int Size)))"
proof -
  have at: "at_call s 0 (Reset new_Generator s)"
    by (rule Reset_at_call) (simp add: new_Generator_def State_N_def)
  show ?thesis
  proof (cases "p = 0")
    case True
    then show ?thesis
      using Random_at_call [OF at] by (cases S) (auto simp: Hash_Hyper_def mod_check_def)
  next
    case False
    then show ?thesis
      using hyper_loop_sum [OF at, of p 0 S] by (simp add: Hash_Hyper_def mod_check_def)
  qed
qed

text \<open>A character NUL at the end of a string changes no hash value.\<close>

lemma Hash_Hyper_NUL:
  assumes "0 < p"
  shows "Hash_Hyper (S @ [CHR 0x00]) s p Size = Hash_Hyper S s p Size"
  using assms by (simp add: Hash_Hyper_sum nth_append cong: sum.cong_simp)

text \<open>
  The instance of the tables: an exception of a hash function stands for itself in the code; the tables call the functions with
  positive sizes, and the prime number is the same for all parameters that they reach.
\<close>

definition hyper_hashes :: "Hash_Hyper_Parameters hash_family" where
  "hyper_hashes = \<lparr>Default_Hash_Parameters = Hyper_Default_Hash_Parameters,
     Hash = \<lambda>k p n. (case Hyper_Hash k p n of Inr h \<Rightarrow> h | Inl _ \<Rightarrow> 0),
     Next_Hash_Parameters = \<lambda>p. (case Hyper_Next_Hash_Parameters p of Inr q \<Rightarrow> q | Inl _ \<Rightarrow> p)\<rparr>"

lemma hyper_hashes_ok: "hash_ok hyper_hashes"
  by (simp add: hash_ok_def hyper_hashes_def Hyper_Hash_def Hash_Hyper_sum nat_less_iff)

lemma hyper_same_prime: "Prime (Next_Hash_Parameters hyper_hashes p) = Prime p"
  by (auto simp: hyper_hashes_def Hyper_Next_Hash_Parameters_def on_ok_eq_Inr split: sum.splits)

lemma hyper_defined: "Hyper_Hash k (nth_param hyper_hashes j) (Suc n) = Inr (Hash hyper_hashes k (nth_param hyper_hashes j) (Suc n))"
proof -
  have "Prime (nth_param hyper_hashes j) = 17771"
    by (induction j) (simp_all add: nth_param_def hyper_same_prime, simp add: hyper_hashes_def Hyper_Default_Hash_Parameters_def)
  then show ?thesis
    by (simp add: hyper_hashes_def Hyper_Hash_def Hash_Hyper_sum)
qed

lemma hyper_trailing_NUL: "Hash hyper_hashes (S @ [CHR 0x00]) = Hash hyper_hashes S"
proof (intro ext)
  fix p n
  show "Hash hyper_hashes (S @ [CHR 0x00]) p n = Hash hyper_hashes S p n"
    using Hash_Hyper_NUL [of "Prime p" S "Seed p" n]
    by (cases "Prime p = 0") (simp_all add: hyper_hashes_def Hyper_Hash_def Hash_Hyper_sum [of _ _ 0])
qed

lemma hyper_not_separating: "\<not> separates hyper_hashes"
proof
  assume "separates hyper_hashes"
  then obtain j where "inj_on (\<lambda>k. Hash hyper_hashes k (nth_param hyper_hashes j) 4) (set [[], [CHR 0x00]])"
    unfolding separates_def by (elim allE [of _ "[[], [CHR 0x00]]"] allE [of _ 4]) auto
  then show False
    using hyper_trailing_NUL [of "[]"] by simp
qed

section \<open>The class Mul\<close>

lemma mul_loop_sum:
  "0 < p \<Longrightarrow> 0 \<le> R \<Longrightarrow> R < int p \<Longrightarrow>
   mul_loop k p S R = Inr ((R * 65599 ^ length S + (\<Sum>i<length S. of_char (S ! i) * int k * 65599 ^ (length S - Suc i))) mod int p)"
proof (induction S arbitrary: R)
  case (Cons c S)
  let ?R = "(R * 65599 + of_char c * int k) mod int p" and ?sum = "\<Sum>i<length S. of_char (S ! i) * int k * 65599 ^ (length S - Suc i)"
  have "mul_loop k p (c # S) R = Inr ((?R * 65599 ^ length S + ?sum) mod int p)"
    using Cons by (simp add: mod_check_def)
  moreover have "(?R * 65599 ^ length S + ?sum) mod int p = ((R * 65599 + of_char c * int k) * 65599 ^ length S + ?sum) mod int p"
    by (intro mod_add_cong refl mod_mult_left_eq)
  moreover have "(\<Sum>i<length (c # S). of_char ((c # S) ! i) * int k * 65599 ^ (length (c # S) - Suc i)) = of_char c * int k * 65599 ^ length S + ?sum"
    by (simp only: length_Cons sum.lessThan_Suc_shift) simp
  ultimately show ?case
    by (simp add: algebra_simps)
qed simp

lemma Hash_Mul_sum:
  assumes "0 < p" "0 < Size"
  shows "Hash_Mul S k p Size = Inr (nat ((\<Sum>i<length S. of_char (S ! i) * int k * 65599 ^ (length S - Suc i)) mod int p mod int Size))"
  using assms mul_loop_sum [of p 0 k S] by (simp add: Hash_Mul_def mod_check_def)

end
