(* ===== verification/Htable_Clients.thy ===== *)
theory Htable_Clients
  imports Hfunctions
begin

text \<open>
  The interface of the perfect hash tables, as their clients use it, and three clients: the dictionaries of
  \<open>src/src/polyorb-dynamic_dict.adb\<close>, the initial references of \<open>polyorb-initial_references.adb\<close> and the object maps for
  identifiers that the user assigns, \<open>polyorb-object_maps-user.adb\<close>. All three use the hash functions of \<open>hyper_hashes\<close>.
\<close>

section \<open>Iteration\<close>

lemma next_used_filter: "next_used Es xs = (case filter (\<lambda>i. Used (Es ! i)) xs of [] \<Rightarrow> None | J # Js \<Rightarrow> Some J)"
  by (induction xs) auto

lemma filter_upt_split:
  assumes "filter P [a..<n] = J # Js"
  shows "a \<le> J" "J < n" "P J" "filter P [J..<n] = J # Js"
proof -
  have "J \<in> set (filter P [a..<n])"
    using assms by simp
  then show r: "a \<le> J" "J < n" "P J"
    by auto
  have "[a..<n] = [a..<J] @ [J..<n]"
    using r upt_add_eq_append [of a J "n - J"] by simp
  then have split: "J # Js = filter P [a..<J] @ filter P [J..<n]"
    using assms by (metis filter_append)
  have "J \<notin> set (filter P [a..<J])"
    by simp
  then have "filter P [a..<J] = []"
    using split by (cases "filter P [a..<J]") (simp_all del: set_filter)
  then show "filter P [J..<n] = J # Js"
    using split by simp
qed

definition used_from :: "('p, 'i) Table \<Rightarrow> nat \<Rightarrow> nat list" where
  "used_from T pos = filter (\<lambda>i. Used (Elements (HTable T) ! i)) [pos..<length (Elements (HTable T))]"

lemma iterator_used:
  "Perfect_Htables.Last T pos \<longleftrightarrow> used_from T pos = []"
  "Perfect_Htables.First T = (case used_from T 0 of [] \<Rightarrow> length (Elements (HTable T)) | J # Js \<Rightarrow> J)"
  "Next T pos = (case used_from T (pos + 1) of [] \<Rightarrow> length (Elements (HTable T)) | J # Js \<Rightarrow> J)"
  by (simp_all add: Perfect_Htables.Last_def Perfect_Htables.First_def Next_def Let_def next_used_filter used_from_def split: list.splits)

lemma Next_greater:
  assumes "\<not> Perfect_Htables.Last T pos"
  shows "pos < length (Elements (HTable T))" "pos < Next T pos"
proof -
  show l: "pos < length (Elements (HTable T))"
    using assms by (cases "pos < length (Elements (HTable T))") (auto simp: iterator_used(1) used_from_def)
  show "pos < Next T pos"
  proof (cases "used_from T (pos + 1)")
    case (Cons J Js)
    then show ?thesis
      using filter_upt_split(1) [OF Cons [unfolded used_from_def]] by (simp add: iterator_used)
  qed (use l in \<open>simp add: iterator_used\<close>)
qed

text \<open>The positions that a loop \<open>while not Last (It) loop ... Next (It)\<close> visits.\<close>

function positions :: "('p, 'i) Table \<Rightarrow> nat \<Rightarrow> nat list" where
  "positions T pos = (if Perfect_Htables.Last T pos then [] else pos # positions T (Next T pos))"
  by pat_completeness auto
termination
proof (relation "measure (\<lambda>(T, pos). length (Elements (HTable T)) - pos)")
  fix T :: "('p, 'i) Table" and pos
  assume "\<not> Perfect_Htables.Last T pos"
  from Next_greater [OF this] show "((T, Next T pos), T, pos) \<in> measure (\<lambda>(T, pos). length (Elements (HTable T)) - pos)"
    by (simp add: diff_less_mono2)
qed simp

declare positions.simps [simp del]

text \<open>They are those of the elements in use, in their order.\<close>

lemma used_from_step: "used_from T (case used_from T pos of [] \<Rightarrow> length (Elements (HTable T)) | J # Js \<Rightarrow> J) = used_from T pos"
  by (auto simp: used_from_def filter_upt_split(4) split: list.splits)

lemma positions_used:
  assumes "pos < length (Elements (HTable T)) \<longrightarrow> Used (Elements (HTable T) ! pos)"
  shows "positions T pos = used_from T pos"
  using assms
proof (induction T pos rule: positions.induct)
  case (1 T pos)
  show ?case
  proof (cases "Perfect_Htables.Last T pos")
    case True
    then show ?thesis
      by (simp add: positions.simps [of T pos] iterator_used(1))
  next
    case False
    have l: "pos < length (Elements (HTable T))"
      by (rule Next_greater(1) [OF False])
    have "used_from T pos = pos # used_from T (pos + 1)"
      using l 1(2) by (simp add: used_from_def upt_conv_Cons del: upt_Suc)
    moreover have "used_from T (Next T pos) = used_from T (pos + 1)"
      unfolding iterator_used(3) by (rule used_from_step)
    moreover have "Used (Elements (HTable T) ! Next T pos)" if "Next T pos < length (Elements (HTable T))"
      using that filter_upt_split(3) [of _ "pos + 1"] unfolding iterator_used(3) used_from_def by (auto split: list.splits)
    ultimately show ?thesis
      using 1(1) [OF False] False by (simp add: positions.simps [of T pos])
  qed
qed

lemma positions_First: "positions T (Perfect_Htables.First T) = used_from T 0"
proof -
  have "Used (Elements (HTable T) ! Perfect_Htables.First T)" if "Perfect_Htables.First T < length (Elements (HTable T))"
    using that filter_upt_split(3) [of _ 0] unfolding iterator_used(2) used_from_def by (auto split: list.splits)
  then show ?thesis
    using positions_used [of "Perfect_Htables.First T" T] used_from_step [of T 0] by (simp add: iterator_used(2))
qed

text \<open>In a table that satisfies the invariant, each key is visited once, with its item.\<close>

lemma positions_contents:
  assumes ok: "tbl_ok F T"
  shows "\<forall>i\<in>set (used_from T 0). \<exists>k v. Key_At T i = Some k \<and> Value T i = Some v \<and> contents T k = Some v"
    "distinct (map (\<lambda>i. the (Key_At T i)) (used_from T 0))"
    "set (map (\<lambda>i. the (Key_At T i)) (used_from T 0)) = dom (contents T)"
proof -
  let ?Es = "Elements (HTable T)"
  have ht: "ht_ok F (HTable T)" and fill: "filled T"
    using ok by (simp_all add: tbl_ok_def)
  have k: "keyed ?Es"
    using ht by (simp add: ht_ok_def in_subtables_def)
  have mem: "i \<in> set (used_from T 0) \<longleftrightarrow> i < length ?Es \<and> Used (?Es ! i)" for i
    by (auto simp: used_from_def)
  show one: "\<forall>i\<in>set (used_from T 0). \<exists>k v. Key_At T i = Some k \<and> Value T i = Some v \<and> contents T k = Some v"
  proof
    fix i
    assume "i \<in> set (used_from T 0)"
    then have i: "i < length ?Es" "Used (?Es ! i)"
      by (simp_all add: mem)
    obtain key where key: "Key (?Es ! i) = Some key"
      using keyedD [OF k i] by blast
    have c: "(Some key, True, Item_Index (?Es ! i)) \<in># cores (HTable T)"
      using i key by (auto simp: cores_def core_def image_iff intro: bexI [of _ "?Es ! i"])
    then obtain v where "Items T ! Item_Index (?Es ! i) = Some v"
      using fill by (fastforce simp: filled_def)
    then show "\<exists>k v. Key_At T i = Some k \<and> Value T i = Some v \<and> contents T k = Some v"
      using key c contents_iff [OF ht, of key v] by (auto simp: Key_At_def Value_def)
  qed
  have inj: "inj_on (\<lambda>i. the (Key_At T i)) (set (used_from T 0))"
  proof (rule inj_onI)
    fix i j
    assume ij: "i \<in> set (used_from T 0)" "j \<in> set (used_from T 0)" "the (Key_At T i) = the (Key_At T j)"
    obtain key where key: "Key (?Es ! i) = Some key"
      using bspec [OF one ij(1)] by (auto simp: Key_At_def)
    obtain key' where key': "Key (?Es ! j) = Some key'"
      using bspec [OF one ij(2)] by (auto simp: Key_At_def)
    have "key' = key"
      using ij(3) key key' by (simp add: Key_At_def)
    then show "i = j"
      using ij(1,2) ht_place [OF ht _ _ key] ht_place [OF ht _ _ key'] by (simp add: mem)
  qed
  then show "distinct (map (\<lambda>i. the (Key_At T i)) (used_from T 0))"
    by (simp add: distinct_map used_from_def)
  show "set (map (\<lambda>i. the (Key_At T i)) (used_from T 0)) = dom (contents T)"
  proof (intro subset_antisym subsetI)
    fix key
    assume "key \<in> set (map (\<lambda>i. the (Key_At T i)) (used_from T 0))"
    then show "key \<in> dom (contents T)"
      using one by fastforce
  next
    fix key
    assume "key \<in> dom (contents T)"
    then have "held (HTable T) key"
      using contents_held [OF ok, of key] by auto
    then obtain i where "i < length ?Es" "Used (?Es ! i)" "Key (?Es ! i) = Some key"
      unfolding held_nth by blast
    then show "key \<in> set (map (\<lambda>i. the (Key_At T i)) (used_from T 0))"
      by (force simp: mem Key_At_def)
  qed
qed

section \<open>The interface of a table\<close>

text \<open>
  What the clients rely on: a look-up gives the item of a key, an insertion of a new key that returns adds it and only it,
  and an iteration visits the keys.
\<close>

locale string_table =
  fixes valid :: "'t \<Rightarrow> bool" and bindings :: "'t \<Rightarrow> string \<Rightarrow> 'i option"
    and lookup :: "'t \<Rightarrow> string \<Rightarrow> 'i \<Rightarrow> 'i result" and insertion :: "string \<Rightarrow> 'i \<Rightarrow> 't \<Rightarrow> 't result option"
    and visited :: "'t \<Rightarrow> string list"
  assumes lookup_binding: "valid t \<Longrightarrow> lookup t k d = Inr (case bindings t k of None \<Rightarrow> d | Some v \<Rightarrow> v)"
    and insert_binding: "valid t \<Longrightarrow> bindings t k = None \<Longrightarrow> insertion k v t = Some r
      \<Longrightarrow> \<exists>t'. r = Inr t' \<and> valid t' \<and> bindings t' = (bindings t)(k \<mapsto> v)"
    and visits: "valid t \<Longrightarrow> distinct (visited t) \<and> set (visited t) = dom (bindings t)"
begin

lemma insert_lookup:
  assumes "valid t" "bindings t k = None" "insertion k v t = Some r"
  shows "\<exists>t'. r = Inr t' \<and> valid t' \<and> lookup t' k d = Inr v \<and> (\<forall>k'. k' \<noteq> k \<longrightarrow> lookup t' k' d = lookup t k' d)"
  using insert_binding [OF assms] assms(1) by (auto simp: lookup_binding)

lemma visited_insert:
  assumes "valid t" "bindings t k = None" "insertion k v t = Some (Inr t')"
  shows "set (visited t') = insert k (set (visited t)) \<and> length (visited t') = Suc (length (visited t))"
proof -
  have t': "valid t'" "bindings t' = (bindings t)(k \<mapsto> v)"
    using insert_binding [OF assms] by auto
  then have "set (visited t') = insert k (set (visited t))"
    using visits assms(1) by simp
  moreover have "k \<notin> set (visited t)"
    using visits [OF assms(1)] assms(2) by auto
  ultimately have "card (set (visited t')) = Suc (card (set (visited t)))"
    by simp
  then have "length (visited t') = Suc (length (visited t))"
    using distinct_card [OF conjunct1 [OF visits [OF t'(1)]]] distinct_card [OF conjunct1 [OF visits [OF assms(1)]]] by simp
  then show ?thesis
    using \<open>set (visited t') = _\<close> by blast
qed

end

definition keys_visited :: "('p, 'i) Table \<Rightarrow> string list" where
  "keys_visited T = map (\<lambda>i. the (Key_At T i)) (positions T (Perfect_Htables.First T))"

interpretation perfect: string_table "\<lambda>T. tbl_ok F T \<and> clean T" contents "Lookup F" "Insert F" keys_visited for F :: "'p hash_family"
proof unfold_locales
  show "Lookup F T k d = Inr (case contents T k of None \<Rightarrow> d | Some v \<Rightarrow> v)" if "tbl_ok F T \<and> clean T" for T :: "('p, 'i) Table" and k d
    by (rule Lookup_contents [OF conjunct1 [OF that]])
  show "\<exists>T'. r = Inr T' \<and> (tbl_ok F T' \<and> clean T') \<and> contents T' = (contents T)(k \<mapsto> v)"
    if "tbl_ok F T \<and> clean T" "contents T k = None" "Insert F k v T = Some r" for T :: "('p, 'i) Table" and k v r
    using Insert_contents [OF conjunct1 conjunct2 _ that(3)] that by auto
  show "distinct (keys_visited T) \<and> set (keys_visited T) = dom (contents T)" if "tbl_ok F T \<and> clean T" for T :: "('p, 'i) Table"
    unfolding keys_visited_def positions_First using positions_contents(2,3) [OF conjunct1 [OF that]] by blast
qed

section \<open>PolyORB.Dynamic_Dict\<close>

record 'v Dict =
  Dict_T :: "(Hash_Hyper_Parameters, 'v) Table option"
  T_Initialized :: bool

definition new_Dict :: "'v Dict" where
  "new_Dict = \<lparr>Dict_T = None, T_Initialized = False\<rparr>"

definition default_table :: "(Hash_Hyper_Parameters, 'v) Table" where
  "default_table = Initialize hyper_hashes (Default_Hash_Parameters hyper_hashes) Default_Max"

definition Ensure_Initialization :: "'v Dict \<Rightarrow> 'v Dict" where
  "Ensure_Initialization D = (if T_Initialized D then D else D\<lparr>Dict_T := Some default_table, T_Initialized := True\<rparr>)"

text \<open>A null table fails the access check.\<close>

definition the_table :: "'v Dict \<Rightarrow> (Hash_Hyper_Parameters, 'v) Table result" where
  "the_table D = (case Dict_T D of None \<Rightarrow> Inl Constraint_Error | Some t \<Rightarrow> Inr t)"

text \<open>The body of the loop of \<open>For_Each\<close> for the element at a position: its key and its item are read through accesses.\<close>

definition apply_at :: "(Hash_Hyper_Parameters, 'v) Table \<Rightarrow> (string \<Rightarrow> 'v \<Rightarrow> 's \<Rightarrow> 's) \<Rightarrow> nat \<Rightarrow> 's result \<Rightarrow> 's result" where
  "apply_at t Action pos r = on_ok r (\<lambda>w. case (Key_At t pos, Value t pos) of
     (Some k, Some v) \<Rightarrow> Inr (Action k v w)
   | _ \<Rightarrow> Inl Constraint_Error)"

definition For_Each :: "(string \<Rightarrow> 'v \<Rightarrow> 's \<Rightarrow> 's) \<Rightarrow> 's \<Rightarrow> 'v Dict \<Rightarrow> 's result \<times> 'v Dict" where
  "For_Each Action w D = (let D = Ensure_Initialization D in
     (on_ok (the_table D) (\<lambda>t. fold (apply_at t Action) (positions t (Perfect_Htables.First t)) (Inr w)), D))"

definition Dict_Lookup :: "string \<Rightarrow> 'v \<Rightarrow> 'v Dict \<Rightarrow> 'v result \<times> 'v Dict" where
  "Dict_Lookup K Default D = (let D = Ensure_Initialization D in
     (on_ok (the_table D) (\<lambda>t. Lookup hyper_hashes t K Default), D))"

definition Register :: "string \<Rightarrow> 'v \<Rightarrow> 'v Dict \<Rightarrow> 'v Dict result option" where
  "Register K V D = (let D = Ensure_Initialization D in
     case the_table D of
       Inl e \<Rightarrow> Some (Inl e)
     | Inr t \<Rightarrow> map_option (\<lambda>r. on_ok r (\<lambda>t'. Inr (D\<lparr>Dict_T := Some t'\<rparr>))) (Insert hyper_hashes K V t))"

definition Dict_Reset :: "'v Dict \<Rightarrow> 'v Dict result" where
  "Dict_Reset D = on_ok (the_table D) (\<lambda>_. Inr (D\<lparr>Dict_T := Some default_table\<rparr>))"

definition Unregister :: "string \<Rightarrow> 'v Dict \<Rightarrow> 'v Dict result" where
  "Unregister K D = (let D = Ensure_Initialization D in
     on_ok (the_table D) (\<lambda>t. Inr (D\<lparr>Dict_T := Some (Delete hyper_hashes K t)\<rparr>)))"

section \<open>PolyORB.Initial_References\<close>

text \<open>
  References are of an arbitrary type with a nil value; an allocator is an access to a function of another unit, and what such a
  function returns is the parameter \<open>call\<close>.
\<close>

record ('r, 'a) Initial_References =
  Referenced_Objects :: "(Hash_Hyper_Parameters, 'r) Table"
  Referenced_Allocators :: "(Hash_Hyper_Parameters, 'a option) Table"

definition References_Initialize :: "('r, 'a) Initial_References" where
  "References_Initialize = \<lparr>Referenced_Objects = default_table, Referenced_Allocators = default_table\<rparr>"

definition Register_Initial_Reference :: "string \<Rightarrow> 'r \<Rightarrow> ('r, 'a) Initial_References \<Rightarrow> ('r, 'a) Initial_References result option" where
  "Register_Initial_Reference Ident R S =
     map_option (\<lambda>r. on_ok r (\<lambda>t. Inr (S\<lparr>Referenced_Objects := t\<rparr>))) (Insert hyper_hashes Ident R (Referenced_Objects S))"

definition Register_Initial_Allocator :: "string \<Rightarrow> 'a option \<Rightarrow> ('r, 'a) Initial_References \<Rightarrow> ('r, 'a) Initial_References result option" where
  "Register_Initial_Allocator Ident A S =
     map_option (\<lambda>r. on_ok r (\<lambda>t. Inr (S\<lparr>Referenced_Allocators := t\<rparr>))) (Insert hyper_hashes Ident A (Referenced_Allocators S))"

definition Resolve_Initial_References :: "('r \<Rightarrow> bool) \<Rightarrow> 'r \<Rightarrow> ('a \<Rightarrow> 'r) \<Rightarrow> string \<Rightarrow> ('r, 'a) Initial_References \<Rightarrow> 'r result" where
  "Resolve_Initial_References Is_Nil Nil_Ref call Ident S =
     on_ok (Lookup hyper_hashes (Referenced_Objects S) Ident Nil_Ref) (\<lambda>Result.
       if \<not> Is_Nil Result then Inr Result
       else on_ok (Lookup hyper_hashes (Referenced_Allocators S) Ident None) (\<lambda>Allocator.
         case Allocator of Some f \<Rightarrow> Inr (call f) | None \<Rightarrow> Inr Nil_Ref))"

definition append_key :: "('p, 'i) Table \<Rightarrow> nat \<Rightarrow> string list result \<Rightarrow> string list result" where
  "append_key t pos r = on_ok r (\<lambda>Result. case Key_At t pos of Some k \<Rightarrow> Inr (Result @ [k]) | None \<Rightarrow> Inl Constraint_Error)"

definition List_Initial_Services :: "('r, 'a) Initial_References \<Rightarrow> string list result" where
  "List_Initial_Services S =
     (let R = fold (append_key (Referenced_Objects S)) (positions (Referenced_Objects S) (Perfect_Htables.First (Referenced_Objects S))) (Inr []) in
      fold (append_key (Referenced_Allocators S)) (positions (Referenced_Allocators S) (Perfect_Htables.First (Referenced_Allocators S))) R)"

section \<open>PolyORB.Object_Maps.User\<close>

type_synonym User_Object_Map = "(Hash_Hyper_Parameters, entry_access) Table"

definition User_Initialize :: User_Object_Map where
  "User_Initialize = default_table"

text \<open>An entry whose identifier is null fails the access check.\<close>

definition User_Add :: "entry_store \<Rightarrow> User_Object_Map \<Rightarrow> nat \<Rightarrow> User_Object_Map result option" where
  "User_Add st O_Map Obj = (case Oid (st ! Obj) of
     None \<Rightarrow> Some (Inl Constraint_Error)
   | Some u \<Rightarrow> Insert hyper_hashes (Id u) (Some Obj) O_Map)"

definition User_Get_By_Id :: "User_Object_Map \<Rightarrow> Unmarshalled_Oid \<Rightarrow> entry_access result" where
  "User_Get_By_Id O_Map Item = Lookup hyper_hashes O_Map (Id Item) None"

fun servant_scan :: "entry_store \<Rightarrow> User_Object_Map \<Rightarrow> nat option \<Rightarrow> nat list \<Rightarrow> entry_access result" where
  "servant_scan st O_Map Item [] = Inr None"
| "servant_scan st O_Map Item (pos # ps) = (case Value O_Map pos of
     None \<Rightarrow> Inl Constraint_Error
   | Some v \<Rightarrow>
       if \<not> Is_Null v \<and> Servant (st ! the v) = Item then Inr v
       else servant_scan st O_Map Item ps)"

definition User_Get_By_Servant :: "entry_store \<Rightarrow> User_Object_Map \<Rightarrow> nat option \<Rightarrow> entry_access result" where
  "User_Get_By_Servant st O_Map Item = servant_scan st O_Map Item (positions O_Map (Perfect_Htables.First O_Map))"

definition User_Remove_By_Id :: "User_Object_Map \<Rightarrow> Unmarshalled_Oid \<Rightarrow> (entry_access \<times> User_Object_Map) result" where
  "User_Remove_By_Id O_Map Item =
     on_ok (Lookup hyper_hashes O_Map (Id Item) None) (\<lambda>Old_Entry. Inr (Old_Entry, Delete hyper_hashes (Id Item) O_Map))"

section \<open>The first insertion\<close>

text \<open>The first insertion into a table needs no search.\<close>

lemma first_Insert_HT:
  fixes F :: "'p hash_family" and hp :: 'p
  assumes F: "hash_ok F" and mx: "0 < mx"
  defines "H \<equiv> Initialize_HT F hp mx"
  shows "\<exists>ofs f. Insert_HT F K H
    = Some (Inr (subtable_of F H K, ofs, Insert_Item, set_element (place F H K) f (count_key (subtable_of F H K) H)))"
proof -
  have ok: "tbl_ok F (Initialize F hp mx :: ('p, nat) Table)" "contents (Initialize F hp mx :: ('p, nat) Table) = Map.empty"
    by (rule Initialize_ok [OF F mx])+
  have ht: "ht_ok F H" "Count (Info H) = 0"
    unfolding H_def by (rule Initialize_HT_ok [OF F mx])+
  have in_sub: "in_subtables F H"
    using ht(1) by (simp add: ht_ok_def)
  let ?s = "subtable_of F H K"
  have s: "?s < length (Subtables H)" and p: "place F H K < length (Elements H)"
    using in_subtablesD(1) [OF in_sub] in_place(2) [OF in_sub] by auto
  have st: "ST_Count (Subtables H ! ?s) = 0" "ST_High (Subtables H ! ?s) = 1"
    using s by (simp_all add: H_def Initialize_HT_def Let_def)
  have key: "Key (Elements H ! place F H K) = None"
    using p by (simp add: H_def Initialize_HT_def Let_def Empty_def del: upt_Suc)
  have room: "Count (Info H) < High (Info H)"
    using ht(2) mx by (simp add: H_def Initialize_HT_def Let_def)
  have new: "\<not> held H K"
    using contents_held [OF ok(1), of K] ok(2) by (simp add: H_def Initialize_def Let_def)
  show ?thesis
    using room s st key by (simp add: Insert_HT_def Lookup_HT_spec [OF ht(1)] new Let_def recount_count_key place_add) blast
qed

lemma first_Insert_returns:
  fixes F :: "'p hash_family" and V :: 'i
  assumes F: "hash_ok F" and mx: "0 < mx"
  shows "\<exists>T'. Insert F K V (Initialize F hp mx) = Some (Inr T') \<and> tbl_ok F T' \<and> clean T' \<and> contents T' = [K \<mapsto> V]
    \<and> Count (Info (HTable T')) < High (Info (HTable T'))"
proof -
  let ?T = "Initialize F hp mx :: ('p, 'i) Table" and ?H = "Initialize_HT F hp mx"
  have ok: "tbl_ok F ?T" "clean ?T" "contents ?T = Map.empty"
    by (rule Initialize_ok [OF F mx])+
  have HT: "HTable ?T = ?H"
    by (simp add: Initialize_def Let_def)
  obtain ofs f where HK: "Insert_HT F K ?H
      = Some (Inr (subtable_of F ?H K, ofs, Insert_Item, set_element (place F ?H K) f (count_key (subtable_of F ?H K) ?H)))"
    using first_Insert_HT [OF F mx] by blast
  then obtain r where r: "Insert F K V ?T = Some r"
    by (auto simp: Insert_def HT)
  have "contents ?T K = None \<or> Count (Info (HTable ?T)) < High (Info (HTable ?T))"
    using ok(3) by simp
  from Insert_contents [OF ok(1,2) this r] obtain T' where T': "r = Inr T'" "tbl_ok F T'" "clean T'" "contents T' = [K \<mapsto> V]"
    using ok(3) by auto
  have "HTable T' = set_element (place F ?H K) f (count_key (subtable_of F ?H K) ?H)"
    using r HK T'(1) by (auto simp: Insert_def HT Let_def on_ok_eq_Inr split: if_splits)
  then have "Count (Info (HTable T')) < High (Info (HTable T'))"
    using mx by (simp add: count_key_def Initialize_HT_def Let_def)
  then show ?thesis
    using r T' by blast
qed

lemma default_table_ok: "tbl_ok hyper_hashes default_table" "clean default_table" "contents default_table = Map.empty"
  unfolding default_table_def by (rule Initialize_ok [OF hyper_hashes_ok], simp add: Default_Max_def)+

lemma default_Insert_returns:
  obtains T where "Insert hyper_hashes K V default_table = Some (Inr T)" "tbl_ok hyper_hashes T" "clean T" "contents T = [K \<mapsto> V]"
    "Count (Info (HTable T)) < High (Info (HTable T))"
  using first_Insert_returns [OF hyper_hashes_ok, of Default_Max K V "Default_Hash_Parameters hyper_hashes"]
  by (auto simp: default_table_def Default_Max_def)

section \<open>The user's object map\<close>

text \<open>
  The laws of an object map, for the identifiers of the user: they are the keys. A null item is never stored in the
  table, so that the invariant of the map is the one of the table.
\<close>

lemma Get_By_Id_contents: "tbl_ok hyper_hashes O_Map \<Longrightarrow> User_Get_By_Id O_Map u = Inr (case contents O_Map (Id u) of None \<Rightarrow> None | Some v \<Rightarrow> v)"
  by (simp add: User_Get_By_Id_def Lookup_contents)

lemma servant_scan_Some:
  "servant_scan st O_Map s ps = Inr (Some a) \<Longrightarrow> \<exists>pos\<in>set ps. Value O_Map pos = Some (Some a) \<and> Servant (st ! a) = s"
  by (induction ps) (auto simp: Is_Null_def split: option.splits if_splits)

interpretation user_map: object_map "tbl_ok hyper_hashes" "\<lambda>u. Some (Id u)" User_Get_By_Id User_Get_By_Servant User_Remove_By_Id
proof
  fix O_Map u e O_Map'
  assume ok: "tbl_ok hyper_hashes O_Map" and r: "User_Remove_By_Id O_Map u = Inr (e, O_Map')"
  then have D: "O_Map' = Delete hyper_hashes (Id u) O_Map" "User_Get_By_Id O_Map u = Inr e"
    by (auto simp: User_Remove_By_Id_def User_Get_By_Id_def on_ok_eq_Inr)
  note del = Delete_contents [OF ok, of "Id u"]
  have ok': "tbl_ok hyper_hashes O_Map'"
    using del(1) D(1) by simp
  have "User_Get_By_Id O_Map' v = (if Some (Id v) = Some (Id u) then Inr None else User_Get_By_Id O_Map v)" for v
    unfolding D(1) using del(2) by (simp add: Get_By_Id_contents [OF del(1)] Get_By_Id_contents [OF ok])
  then show "tbl_ok hyper_hashes O_Map' \<and> Some (Id u) \<noteq> None \<and> User_Get_By_Id O_Map u = Inr e \<and>
      (\<forall>v. User_Get_By_Id O_Map' v = (if Some (Id v) = Some (Id u) then Inr None else User_Get_By_Id O_Map v))"
    using ok' D(2) by blast
next
  fix O_Map st s a
  assume ok: "tbl_ok hyper_hashes O_Map" and g: "User_Get_By_Servant st O_Map s = Inr (Some a)"
  then obtain pos where pos: "pos \<in> set (used_from O_Map 0)" "Value O_Map pos = Some (Some a)" "Servant (st ! a) = s"
    using servant_scan_Some [of st O_Map s _ a] by (auto simp: User_Get_By_Servant_def positions_First)
  obtain k v where "Value O_Map pos = Some v" "contents O_Map k = Some v"
    using bspec [OF positions_contents(1) [OF ok] pos(1)] by blast
  then have "User_Get_By_Id O_Map (Create_Id k False 0 []) = Inr (Some a)"
    using pos(2) by (simp add: Get_By_Id_contents [OF ok] Create_Id_def)
  then show "Servant (st ! a) = s \<and> (\<exists>u. User_Get_By_Id O_Map u = Inr (Some a))"
    using pos(3) by blast
qed

text \<open>
  Property C36. The object map of the user policy, on a hash table: removing an identifier gives the entry that was found under it,
  makes the identifier unknown, keeps all other identifiers and keeps the table well-formed; a servant that had only this entry is not
  found any more; and an entry that is found for a servant has that servant and is registered under some identifier.
\<close>

theorem User_Remove_By_Id_correct:
  assumes "tbl_ok hyper_hashes M" "User_Remove_By_Id M u = Inr (e, M')"
  shows "tbl_ok hyper_hashes M' \<and> User_Get_By_Id M u = Inr e \<and> Is_Object_Id_In User_Get_By_Id M' u = Inr False
    \<and> (\<forall>v. Id v \<noteq> Id u \<longrightarrow> User_Get_By_Id M' v = User_Get_By_Id M v)
    \<and> ((\<forall>v a. User_Get_By_Id M v = Inr (Some a) \<and> Servant (st ! a) = s \<longrightarrow> Id v = Id u)
       \<longrightarrow> Is_Servant_In (User_Get_By_Servant st) M' s \<noteq> Inr True)
    \<and> (\<forall>a. User_Get_By_Servant st M s = Inr (Some a) \<longrightarrow> Servant (st ! a) = s \<and> (\<exists>v. User_Get_By_Id M v = Inr (Some a)))"
proof -
  have "Is_Servant_In (User_Get_By_Servant st) M' s \<noteq> Inr True"
    if "\<forall>v a. User_Get_By_Id M v = Inr (Some a) \<and> Servant (st ! a) = s \<longrightarrow> Id v = Id u"
    using that by (intro user_map.removed_servant_gone [OF assms]) blast
  then show ?thesis
    using user_map.removes [OF assms] user_map.removed_id_not_in [OF assms] user_map.finds [OF assms(1)] by simp
qed

theorem User_Remove_By_Id_correct_witness:
  "\<exists>M M'. User_Add [\<lparr>Oid = Some (Create_Id ''ab'' False 0 ''RootPOA''), Servant = Some 4\<rparr>] default_table 0 = Some (Inr M)
    \<and> User_Remove_By_Id M (Create_Id ''ab'' False 0 ''RootPOA'') = Inr (Some 0, M')
    \<and> Is_Object_Id_In User_Get_By_Id M' (Create_Id ''ab'' False 0 ''RootPOA'') = Inr False"
proof -
  let ?u = "Create_Id ''ab'' False 0 ''RootPOA''"
  obtain M where M: "Insert hyper_hashes ''ab'' (Some (0 :: nat)) default_table = Some (Inr M)" "tbl_ok hyper_hashes M"
      "contents M = [''ab'' \<mapsto> Some 0]"
    by (rule default_Insert_returns [of "''ab''" "Some (0 :: nat)"])
  have "User_Remove_By_Id M ?u = Inr (Some 0, Delete hyper_hashes ''ab'' M)"
    by (simp add: User_Remove_By_Id_def Lookup_contents [OF M(2)] M(3) Create_Id_def)
  then show ?thesis
    using User_Remove_By_Id_correct [OF M(2), of ?u] M(1)
    by (intro exI [of _ M] exI [of _ "Delete hyper_hashes ''ab'' M"]) (simp add: User_Add_def Create_Id_def)
qed

section \<open>Tables as maps\<close>



text \<open>
  Property C7. A deletion removes the key, and only it, from the map that the table holds: a look-up gives the error value afterwards, other keys
  keep their items, and a deletion of a key that is not there changes nothing. The item is freed unless it is the first of the array.
\<close>

theorem Delete_refines:
  assumes "tbl_ok F T"
  shows "tbl_ok F (Delete F K T) \<and> contents (Delete F K T) = (contents T)(K := None)
    \<and> Lookup F (Delete F K T) K d = Inr d \<and> (k \<noteq> K \<longrightarrow> Lookup F (Delete F K T) k d = Lookup F T k d)
    \<and> (clean T \<and> (Some K, True, 0) \<notin># cores (HTable T) \<longrightarrow> clean (Delete F K T))"
  using Delete_contents [OF assms, of K] Lookup_contents [OF assms, of k d] by (simp add: Lookup_contents)

theorem Delete_refines_witness:
  "Lookup digit_hashes (Delete digit_hashes ''key'' (Initialize digit_hashes 0 10 :: (nat, nat) Table)) ''key'' 3 = Inr 3"
  using Delete_refines [OF Initialize_ok(1) [OF digit_hashes_rich(1), of 10 0], of "''key''" "3 :: nat"] by simp

end
