(* ===== verification/Htable_Limits.thy ===== *)
theory Htable_Limits
  imports Htable_Clients
begin

text \<open>
  The limits of the tables, and what their clients can rely on: insertions that never return, items that a deletion does not free,
  a dictionary that is reset before it is used; the initial references as a map of names.
\<close>

section \<open>Insertions that never return\<close>

text \<open>A small class of hash functions to compute with: a multiple of the sum of the characters.\<close>

definition sum_hashes :: "nat hash_family" where
  "sum_hashes = \<lparr>Default_Hash_Parameters = 0, Hash = \<lambda>k p n. ((p + 1) * sum_list (map of_char k)) mod n, Next_Hash_Parameters = Suc\<rparr>"

lemma sum_hashes_ok: "hash_ok sum_hashes"
  by (simp add: hash_ok_def sum_hashes_def)

lemma full_table: "\<exists>T :: (nat, nat) Table. tbl_ok sum_hashes T \<and> Count (Info (HTable T)) = High (Info (HTable T)) \<and> contents T ''a'' = Some 1"
proof -
  let ?T = "Initialize sum_hashes 0 1 :: (nat, nat) Table"
  have T: "tbl_ok sum_hashes ?T" "clean ?T" "contents ?T = Map.empty"
    by (rule Initialize_ok [OF sum_hashes_ok], simp)+
  obtain T1 where T1: "Insert sum_hashes ''a'' 1 ?T = Some (Inr T1)" "tbl_ok sum_hashes T1" "clean T1" "contents T1 = [''a'' \<mapsto> 1]"
    using first_Insert_returns [OF sum_hashes_ok, of 1 "''a''" "1 :: nat" 0] by auto
  have "case Insert sum_hashes ''a'' 1 ?T of Some (Inr T1) \<Rightarrow>
      (case Insert sum_hashes ''b'' 2 T1 of Some (Inr T2) \<Rightarrow> Count (Info (HTable T2)) = High (Info (HTable T2)) | _ \<Rightarrow> False) | _ \<Rightarrow> False"
    by code_simp
  then obtain T2 where T2: "Insert sum_hashes ''b'' 2 T1 = Some (Inr T2)" "Count (Info (HTable T2)) = High (Info (HTable T2))"
    using T1(1) by (auto split: option.splits sum.splits)
  have "tbl_ok sum_hashes T2 \<and> contents T2 = (contents T1)(''b'' \<mapsto> 2)"
    using Insert_contents [OF T1(2,3) _ T2(1)] T1(4) by simp
  then show ?thesis
    using T2(2) T1(4) by auto
qed

text \<open>
  Inserting a key that a full table has already never returns, for any class of hash functions: the branch for a full
  table does not look the key up, so that two elements have the same key, and no hash function is injective on them.
\<close>

theorem Insert_full_never_returns:
  assumes "tbl_ok F T" "Count (Info (HTable T)) = High (Info (HTable T))" "contents T K \<noteq> None"
  shows "Insert F K V T = None"
proof -
  have "held (HTable T) K"
    using contents_held [OF assms(1), of K] assms(3) by blast
  then show ?thesis
    using Insert_full_diverges [of F "HTable T" K] assms(1,2) by (simp add: tbl_ok_def Insert_def)
qed

theorem Insert_full_never_returns_witness:
  "\<exists>T :: (nat, nat) Table. tbl_ok sum_hashes T \<and> Count (Info (HTable T)) = High (Info (HTable T)) \<and> contents T ''a'' = Some 1
    \<and> Insert sum_hashes ''a'' 3 T = None"
proof -
  obtain T :: "(nat, nat) Table"
    where T: "tbl_ok sum_hashes T" "Count (Info (HTable T)) = High (Info (HTable T))" "contents T ''a'' = Some 1"
    using full_table by blast
  then show ?thesis
    using Insert_full_never_returns [OF T(1,2), of "''a''" 3] by auto
qed

text \<open>
  Property C37. The class of hash functions that all the clients use ignores NUL characters at the end of a key. A table that holds
  a key therefore never returns from inserting the key with a NUL appended.
\<close>

theorem hyper_Insert_never_returns:
  assumes "tbl_ok hyper_hashes T" "contents T S \<noteq> None" "contents T (S @ [CHR 0x00]) = None"
  shows "Insert hyper_hashes (S @ [CHR 0x00]) V T = None"
proof -
  have "held (HTable T) S" "\<not> held (HTable T) (S @ [CHR 0x00])"
    using assms(2,3) contents_held [OF assms(1)] by auto
  then have "Insert_HT hyper_hashes (S @ [CHR 0x00]) (HTable T) = None"
    using assms(1) hyper_trailing_NUL by (intro Insert_collision_diverges) (auto simp: tbl_ok_def)
  then show ?thesis
    by (simp add: Insert_def)
qed

theorem hyper_Insert_never_returns_witness:
  "\<exists>T. Insert hyper_hashes ''NameService'' (1 :: nat) default_table = Some (Inr T)
    \<and> Insert hyper_hashes (''NameService'' @ [CHR 0x00]) 2 T = None"
proof -
  obtain T where T: "Insert hyper_hashes ''NameService'' (1 :: nat) default_table = Some (Inr T)"
      "tbl_ok hyper_hashes T" "contents T = [''NameService'' \<mapsto> 1]"
    by (rule default_Insert_returns)
  then show ?thesis
    using hyper_Insert_never_returns [OF T(2), of "''NameService''" 2] by auto
qed

section \<open>The item that is not freed\<close>

text \<open>
  \<open>Delete\<close> takes the index 0 for ``not found'', but 0 is the index of the first item. An element that has this item keeps it
  when its key is deleted, and inserting the key again fails the assertion that its item is free.
\<close>

lemma Delete_first_item:
  "\<exists>T1. Insert sum_hashes ''`'' (1 :: nat) (Initialize sum_hashes 0 1) = Some (Inr T1)
    \<and> Insert sum_hashes ''`'' 2 (Delete sum_hashes ''`'' T1) = Some (Inl Assert_Failure)"
proof -
  have "Option.bind (Insert sum_hashes ''`'' (1 :: nat) (Initialize sum_hashes 0 1)) (\<lambda>r. case r of
      Inr T1 \<Rightarrow> Insert sum_hashes ''`'' 2 (Delete sum_hashes ''`'' T1) | Inl e \<Rightarrow> None) = Some (Inl Assert_Failure)"
    by code_simp
  then obtain r where "Insert sum_hashes ''`'' (1 :: nat) (Initialize sum_hashes 0 1) = Some r"
      "(case r of Inr T1 \<Rightarrow> Insert sum_hashes ''`'' 2 (Delete sum_hashes ''`'' T1) | Inl e \<Rightarrow> None) = Some (Inl Assert_Failure)"
    by (auto simp: bind_eq_Some_conv)
  then show ?thesis
    by (cases r) auto
qed

section \<open>Dictionaries\<close>

text \<open>A dictionary is well-formed when its table is, once it is allocated.\<close>

definition dict_ok :: "'v Dict \<Rightarrow> bool" where
  "dict_ok D \<longleftrightarrow> (if T_Initialized D then (case Dict_T D of Some t \<Rightarrow> tbl_ok hyper_hashes t \<and> clean t | None \<Rightarrow> False) else True)"

text \<open>What it holds: nothing before it is initialized.\<close>

definition entries :: "'v Dict \<Rightarrow> string \<Rightarrow> 'v option" where
  "entries D = (if T_Initialized D then (case Dict_T D of Some t \<Rightarrow> contents t | None \<Rightarrow> Map.empty) else Map.empty)"

lemma Ensure_Initialization_ok:
  assumes "dict_ok D"
  obtains t where "Ensure_Initialization D = D\<lparr>Dict_T := Some t, T_Initialized := True\<rparr>" "tbl_ok hyper_hashes t" "clean t" "contents t = entries D"
proof (cases "T_Initialized D")
  case True
  then obtain t where t: "Dict_T D = Some t" "tbl_ok hyper_hashes t" "clean t"
    using assms by (auto simp: dict_ok_def split: option.splits)
  then have "Ensure_Initialization D = D\<lparr>Dict_T := Some t, T_Initialized := True\<rparr>"
    using True by (simp add: Ensure_Initialization_def)
  then show ?thesis
    using that t True by (simp add: entries_def)
next
  case False
  then show ?thesis
    by (intro that [of default_table]) (simp_all add: Ensure_Initialization_def entries_def default_table_ok)
qed

lemma Dict_Lookup_entries:
  assumes "dict_ok D"
  shows "fst (Dict_Lookup K d D) = Inr (case entries D K of None \<Rightarrow> d | Some v \<Rightarrow> v)" "dict_ok (snd (Dict_Lookup K d D))"
    "entries (snd (Dict_Lookup K d D)) = entries D"
  by (rule Ensure_Initialization_ok [OF assms];
      simp add: Dict_Lookup_def Let_def the_table_def Lookup_contents dict_ok_def entries_def)+

lemma Register_entries:
  assumes "dict_ok D" "entries D K = None" "Register K V D = Some r"
  shows "\<exists>D'. r = Inr D' \<and> dict_ok D' \<and> entries D' = (entries D)(K \<mapsto> V)"
proof -
  obtain t where t: "Ensure_Initialization D = D\<lparr>Dict_T := Some t, T_Initialized := True\<rparr>" "tbl_ok hyper_hashes t" "clean t" "contents t = entries D"
    by (rule Ensure_Initialization_ok [OF assms(1)])
  obtain q where q: "Insert hyper_hashes K V t = Some q" "r = on_ok q (\<lambda>t'. Inr (D\<lparr>T_Initialized := True, Dict_T := Some t'\<rparr>))"
    using assms(3) t(1) by (auto simp: Register_def Let_def the_table_def)
  have "\<exists>t'. q = Inr t' \<and> (tbl_ok hyper_hashes t' \<and> clean t') \<and> contents t' = (contents t)(K \<mapsto> V)"
    using t assms(2) q(1) by (intro perfect.insert_binding) simp_all
  then show ?thesis
    using q(2) t(4) by (auto simp: dict_ok_def entries_def)
qed

lemma first_Register: "\<exists>D. Register K V new_Dict = Some (Inr D) \<and> dict_ok D \<and> entries D = [K \<mapsto> V]"
  by (rule default_Insert_returns [of K V])
    (auto simp: Register_def new_Dict_def Ensure_Initialization_def Let_def the_table_def dict_ok_def entries_def)

lemma Unregister_entries:
  assumes "dict_ok D" and "\<And>t. Dict_T D = Some t \<Longrightarrow> (Some K, True, 0) \<notin># cores (HTable t)"
  shows "\<exists>D'. Unregister K D = Inr D' \<and> dict_ok D' \<and> entries D' = (entries D)(K := None)"
proof (cases "T_Initialized D")
  case True
  then obtain t where t: "Dict_T D = Some t" "tbl_ok hyper_hashes t" "clean t"
    using assms(1) by (auto simp: dict_ok_def split: option.splits)
  then show ?thesis
    using True assms(2) [OF t(1)] Delete_contents [OF t(2), of K]
    by (simp add: Unregister_def Ensure_Initialization_def Let_def the_table_def dict_ok_def entries_def)
next
  case False
  let ?t = "default_table :: (Hash_Hyper_Parameters, 'a) Table"
  have "\<not> held (HTable ?t) K"
    by (simp add: contents_held [of hyper_hashes ?t K, OF default_table_ok(1), symmetric] default_table_ok(3))
  then have "(Some K, True, 0) \<notin># cores (HTable ?t)"
    by (auto simp: held_def)
  then show ?thesis
    using False Delete_contents [of hyper_hashes ?t K, OF default_table_ok(1)]
    by (simp add: default_table_ok(2,3) Unregister_def Ensure_Initialization_def Let_def the_table_def dict_ok_def entries_def)
qed

text \<open>\<open>Reset\<close> does not ensure that the table is allocated: before any other operation it dereferences a null access.\<close>

lemma Dict_Reset_unused: "Dict_Reset new_Dict = Inl Constraint_Error"
  by (simp add: Dict_Reset_def the_table_def new_Dict_def)

lemma Dict_Reset_entries: "T_Initialized D \<Longrightarrow> dict_ok D \<Longrightarrow> \<exists>D'. Dict_Reset D = Inr D' \<and> dict_ok D' \<and> entries D' = Map.empty"
  by (intro exI [of _ "D\<lparr>Dict_T := Some default_table\<rparr>"])
    (auto simp: Dict_Reset_def the_table_def dict_ok_def entries_def default_table_ok split: option.splits)

text \<open>\<open>For_Each\<close> calls the action once for each entry.\<close>

definition bound_at :: "('p, 'v) Table \<Rightarrow> nat \<Rightarrow> string \<times> 'v" where
  "bound_at t i = (the (Key_At t i), the (Value t i))"

lemma fold_apply_at:
  "\<forall>i\<in>set ps. \<exists>k v. Key_At t i = Some k \<and> Value t i = Some v \<Longrightarrow>
   fold (apply_at t Action) ps (Inr w) = Inr (fold (\<lambda>(k, v). Action k v) (map (bound_at t) ps) w)"
  by (induction ps arbitrary: w) (auto simp: apply_at_def bound_at_def)

lemma map_of_bound:
  assumes "tbl_ok F t"
  shows "distinct (map fst (map (bound_at t) (used_from t 0)))" "map_of (map (bound_at t) (used_from t 0)) = contents t"
proof -
  note one = positions_contents(1) [OF assms] and keys = positions_contents(2,3) [OF assms]
  have fst_bound: "map fst (map (bound_at t) (used_from t 0)) = map (\<lambda>i. the (Key_At t i)) (used_from t 0)"
    by (simp add: bound_at_def)
  show d: "distinct (map fst (map (bound_at t) (used_from t 0)))"
    unfolding fst_bound by (rule keys(1))
  show "map_of (map (bound_at t) (used_from t 0)) = contents t"
  proof
    fix k
    show "map_of (map (bound_at t) (used_from t 0)) k = contents t k"
    proof (cases "contents t k")
      case None
      then have "k \<notin> fst ` set (map (bound_at t) (used_from t 0))"
        using keys(2) fst_bound by (metis domIff image_set)
      then show ?thesis
        using None by (simp add: map_of_eq_None_iff)
    next
      case (Some v)
      then have "k \<in> set (map (\<lambda>i. the (Key_At t i)) (used_from t 0))"
        using keys(2) by auto
      then obtain i where i: "i \<in> set (used_from t 0)" "k = the (Key_At t i)"
        by auto
      then have "bound_at t i = (k, v)"
        using bspec [OF one i(1)] Some by (auto simp: bound_at_def)
      then have "(k, v) \<in> set (map (bound_at t) (used_from t 0))"
        using i(1) by force
      then show ?thesis
        using map_of_is_SomeI [OF d] Some by simp
    qed
  qed
qed

lemma For_Each_entries:
  assumes "dict_ok D"
  shows "\<exists>kvs. fst (For_Each Action w D) = Inr (fold (\<lambda>(k, v). Action k v) kvs w) \<and> distinct (map fst kvs) \<and> map_of kvs = entries D"
proof -
  obtain t where t: "Ensure_Initialization D = D\<lparr>Dict_T := Some t, T_Initialized := True\<rparr>" "tbl_ok hyper_hashes t" "clean t" "contents t = entries D"
    by (rule Ensure_Initialization_ok [OF assms])
  have "\<forall>i\<in>set (used_from t 0). \<exists>k v. Key_At t i = Some k \<and> Value t i = Some v"
    using positions_contents(1) [OF t(2)] by blast
  then have "fst (For_Each Action w D) = Inr (fold (\<lambda>(k, v). Action k v) (map (bound_at t) (used_from t 0)) w)"
    using t(1) by (simp add: For_Each_def Let_def the_table_def positions_First fold_apply_at del: fold_map)
  then show ?thesis
    using map_of_bound [OF t(2)] t(4) by metis
qed

section \<open>Initial references\<close>

definition references_ok :: "('r, 'a) Initial_References \<Rightarrow> bool" where
  "references_ok S \<longleftrightarrow> (tbl_ok hyper_hashes (Referenced_Objects S) \<and> clean (Referenced_Objects S))
     \<and> (tbl_ok hyper_hashes (Referenced_Allocators S) \<and> clean (Referenced_Allocators S))"

lemma Initialize_references_ok: "references_ok References_Initialize"
  by (simp add: references_ok_def References_Initialize_def default_table_ok)

lemma fold_append_key:
  "\<forall>i\<in>set ps. \<exists>k. Key_At t i = Some k \<Longrightarrow> fold (append_key t) ps (Inr xs) = Inr (xs @ map (\<lambda>i. the (Key_At t i)) ps)"
  by (induction ps arbitrary: xs) (auto simp: append_key_def)

lemma fold_append_visited:
  assumes "tbl_ok F t"
  shows "fold (append_key t) (positions t (Perfect_Htables.First t)) (Inr xs) = Inr (xs @ keys_visited t)"
  unfolding keys_visited_def positions_First using positions_contents(1) [OF assms] by (intro fold_append_key) blast

lemma List_Initial_Services_visited:
  "references_ok S \<Longrightarrow> List_Initial_Services S = Inr (keys_visited (Referenced_Objects S) @ keys_visited (Referenced_Allocators S))"
  by (simp add: List_Initial_Services_def references_ok_def fold_append_visited [where F = hyper_hashes])

text \<open>
  Property C9. A reference that is registered under a new name can be resolved by that name, whether or not an allocator has the name too; the
  other names resolve as before; the name is listed once more, and the other names as before. The first registration after the
  initialization of the package returns.
\<close>

theorem registered_reference_resolves:
  fixes S :: "('r, 'a) Initial_References"
  assumes "references_ok S" "contents (Referenced_Objects S) Ident = None" "\<not> Is_Nil R"
    "Register_Initial_Reference Ident R S = Some r"
  shows "\<exists>S' L L'. r = Inr S' \<and> references_ok S' \<and> Resolve_Initial_References Is_Nil Nil_Ref call Ident S' = Inr R
    \<and> (\<forall>k. k \<noteq> Ident \<longrightarrow> Resolve_Initial_References Is_Nil Nil_Ref call k S' = Resolve_Initial_References Is_Nil Nil_Ref call k S)
    \<and> List_Initial_Services S = Inr L \<and> List_Initial_Services S' = Inr L' \<and> mset L' = add_mset Ident (mset L)
    \<and> Register_Initial_Reference Ident R (References_Initialize :: ('r, 'a) Initial_References) \<noteq> None"
proof -
  let ?O = "Referenced_Objects S"
  obtain q where q: "Insert hyper_hashes Ident R ?O = Some q" "r = on_ok q (\<lambda>t. Inr (S\<lparr>Referenced_Objects := t\<rparr>))"
    using assms(4) by (auto simp: Register_Initial_Reference_def)
  have v: "tbl_ok hyper_hashes ?O \<and> clean ?O"
    using assms(1) by (simp add: references_ok_def)
  obtain t where t: "q = Inr t" "tbl_ok hyper_hashes t \<and> clean t" "Lookup hyper_hashes t Ident Nil_Ref = Inr R"
      "\<forall>k. k \<noteq> Ident \<longrightarrow> Lookup hyper_hashes t k Nil_Ref = Lookup hyper_hashes ?O k Nil_Ref"
    using perfect.insert_lookup [OF v assms(2) q(1)] by blast
  have vis: "set (keys_visited t) = insert Ident (set (keys_visited ?O))" "length (keys_visited t) = Suc (length (keys_visited ?O))"
    using perfect.visited_insert [OF v assms(2)] q(1) t(1) by blast+
  have "distinct (keys_visited t)" "distinct (keys_visited ?O)" "Ident \<notin> set (keys_visited ?O)"
    using perfect.visits [OF t(2)] perfect.visits [OF v] assms(2) by auto
  then have ms: "mset (keys_visited t) = add_mset Ident (mset (keys_visited ?O))"
    using vis(1) set_eq_iff_mset_eq_distinct [of "Ident # keys_visited ?O" "keys_visited t"] by simp
  let ?S = "S\<lparr>Referenced_Objects := t\<rparr>"
  have ok: "references_ok ?S"
    using assms(1) t(2) by (simp add: references_ok_def)
  have first: "Register_Initial_Reference Ident R (References_Initialize :: ('r, 'a) Initial_References) \<noteq> None"
    by (rule default_Insert_returns [of Ident R]) (simp add: Register_Initial_Reference_def References_Initialize_def)
  let ?L = "keys_visited ?O @ keys_visited (Referenced_Allocators S)" and ?L' = "keys_visited t @ keys_visited (Referenced_Allocators S)"
  have resolve: "Resolve_Initial_References Is_Nil Nil_Ref call Ident ?S = Inr R"
    "\<forall>k. k \<noteq> Ident \<longrightarrow> Resolve_Initial_References Is_Nil Nil_Ref call k ?S = Resolve_Initial_References Is_Nil Nil_Ref call k S"
    using t(3,4) assms(3) by (simp_all add: Resolve_Initial_References_def cong: if_cong)
  have lists: "List_Initial_Services S = Inr ?L" "List_Initial_Services ?S = Inr ?L'" "mset ?L' = add_mset Ident (mset ?L)"
    using ms by (simp_all add: List_Initial_Services_visited assms(1) ok)
  show ?thesis
    by (rule exI [of _ ?S], rule exI [of _ ?L], rule exI [of _ ?L'], intro conjI resolve lists ok first) (simp add: q(2) t(1))
qed

theorem registered_reference_resolves_witness:
  "\<exists>S'. Register_Initial_Reference ''RootPOA'' (5 :: nat) (References_Initialize :: (nat, nat) Initial_References) = Some (Inr S')
    \<and> Resolve_Initial_References (\<lambda>r. r = 0) 0 id ''RootPOA'' S' = Inr 5"
proof -
  let ?I = "References_Initialize :: (nat, nat) Initial_References"
  obtain t where "Insert hyper_hashes ''RootPOA'' (5 :: nat) default_table = Some (Inr t)"
    by (rule default_Insert_returns)
  then have r: "Register_Initial_Reference ''RootPOA'' 5 ?I = Some (Inr (?I\<lparr>Referenced_Objects := t\<rparr>))"
    by (simp add: Register_Initial_Reference_def References_Initialize_def)
  have c: "contents (Referenced_Objects ?I) ''RootPOA'' = None"
    by (simp add: References_Initialize_def default_table_ok)
  show ?thesis
    using registered_reference_resolves [OF Initialize_references_ok c _ r, of "\<lambda>r. r = 0" 0 id] r by auto
qed

end
