(* ===== verification/Configuration_File.thy ===== *)
theory Configuration_File
  imports Htable_Limits
begin

text \<open>
  Configuration files: \<open>src/src/polyorb-utils-configuration_file.adb\<close>. A table maps a global key, the section in brackets and the
  name, to a pointer to its value; the strings that such pointers designate live in a store, so that a pointer that is used after
  its string was freed shows. A file is its text. The lists of sections and of their entries are sequences here.
\<close>

section \<open>Strings on the heap\<close>

type_synonym String_Ptr = "nat option"
type_synonym string_heap = "string option list"

definition new_String :: "string \<Rightarrow> string_heap \<Rightarrow> nat \<times> string_heap" where
  "new_String s h = (length h, h @ [Some s])"

definition free_String :: "String_Ptr \<Rightarrow> string_heap \<Rightarrow> string_heap" where
  "free_String p h = (case p of None \<Rightarrow> h | Some a \<Rightarrow> h[a := None])"

definition deref :: "String_Ptr \<Rightarrow> string_heap \<Rightarrow> string result" where
  "deref p h = (case p of
     None \<Rightarrow> Inl Constraint_Error
   | Some a \<Rightarrow> if a < length h then (case h ! a of None \<Rightarrow> Inl Erroneous_Access | Some s \<Rightarrow> Inr s) else Inl Erroneous_Access)"

record Configuration =
  Conf_Table :: "(Hash_Hyper_Parameters, String_Ptr) Table"
  Conf_Heap :: string_heap

definition Make_Global_Key :: "string \<Rightarrow> string \<Rightarrow> string" where
  "Make_Global_Key Sec K = ''['' @ Sec @ '']'' @ K"

section \<open>Results of operations that may not return\<close>

definition and_then :: "'a result option \<Rightarrow> ('a \<Rightarrow> 'b result option) \<Rightarrow> 'b result option" where
  "and_then r f = Option.bind r (\<lambda>x. case x of Inl e \<Rightarrow> Some (Inl e) | Inr y \<Rightarrow> f y)"

lemma and_then_simps [simp]: "and_then (Some (Inr y)) f = f y" "and_then (Some (Inl e)) f = Some (Inl e)" "and_then None f = None"
  by (simp_all add: and_then_def)

lemma and_then_eq_Inr [result_simps]: "and_then r f = Some (Inr y) \<longleftrightarrow> (\<exists>x. r = Some (Inr x) \<and> f x = Some (Inr y))"
  by (cases r) (auto simp: and_then_def split: sum.splits)

lemma and_then_assoc: "and_then (and_then r f) g = and_then r (\<lambda>x. and_then (f x) g)"
  by (cases r) (auto simp: and_then_def split: sum.split)

section \<open>Loading a file\<close>

definition new_Configuration :: "string_heap \<Rightarrow> Configuration" where
  "new_Configuration h = \<lparr>Conf_Table = default_table, Conf_Heap = h\<rparr>"

text \<open>The store and the insertion of \<open>K\<close> with a new string \<open>v\<close>.\<close>

definition insert_String :: "string \<Rightarrow> string \<Rightarrow> Configuration \<Rightarrow> Configuration result option" where
  "insert_String K v C = (let (a, h) = new_String v (Conf_Heap C) in
     map_option (\<lambda>r. on_ok r (\<lambda>t. Inr (C\<lparr>Conf_Table := t, Conf_Heap := h\<rparr>))) (Insert hyper_hashes K (Some a) (Conf_Table C)))"

definition assign_value :: "string \<Rightarrow> string \<Rightarrow> Configuration \<Rightarrow> Configuration result option" where
  "assign_value K v C = and_then (Some (Lookup hyper_hashes (Conf_Table C) K None)) (\<lambda>V.
     insert_String K v (if V \<noteq> None then C\<lparr>Conf_Heap := free_String V (Conf_Heap C)\<rparr> else C))"

text \<open>One round of the loop; the first component of the state is \<open>Current_Section\<close>.\<close>

definition load_line :: "string \<Rightarrow> string option \<times> Configuration \<Rightarrow> (string option \<times> Configuration) result option" where
  "load_line Line st = (let (Sec, C) = st; n = int (length Line) in
     if Line = [] then Some (Inr st)
     else if Line ! 0 = CHR ''#'' then Some (Inr st)
     else if Line ! 0 = CHR ''['' then
       (let Ket = Find 1 Line 1 (CHR '']'') in
        if Ket > n \<or> Ket = 2 \<or> Ket \<noteq> n then Some (Inl Constraint_Error)
        else Some (Inr (Some (take (nat (Ket - 2)) (drop 1 Line)), C)))
     else
       (let Eq = Find 1 Line 1 (CHR ''='') in
        case Sec of
          None \<Rightarrow> Some (Inl Constraint_Error)
        | Some s \<Rightarrow>
            if \<not> (2 \<le> Eq \<and> Eq \<le> n) then Some (Inl Constraint_Error)
            else and_then (assign_value (Make_Global_Key s (take (nat (Eq - 1)) Line)) (drop (nat Eq) Line) C)
              (\<lambda>C. Some (Inr (Sec, C)))))"

text \<open>\<open>Get_Line\<close> into a string of 1024 characters: the rest of a longer line is what the next call reads.\<close>

fun read_chunks :: "string \<Rightarrow> string list" where
  "read_chunks l = (if length l < 1024 then [l] else take 1024 l # read_chunks (drop 1024 l))"

declare read_chunks.simps [simp del]

fun text_lines :: "string \<Rightarrow> string list" where
  "text_lines [] = []"
| "text_lines (c # t) = (if c = CHR 0x0A then [] # text_lines t
     else (case text_lines t of [] \<Rightarrow> [[c]] | l # ls \<Rightarrow> (c # l) # ls))"

fun load_lines :: "string list \<Rightarrow> string option \<times> Configuration \<Rightarrow> (string option \<times> Configuration) result option" where
  "load_lines [] st = Some (Inr st)"
| "load_lines (l # ls) st = and_then (load_line l st) (load_lines ls)"

text \<open>What is read from the file system is the text of a regular file, if the name is one of a regular file.\<close>

definition Load_Configuration_Table :: "(string \<Rightarrow> string option) \<Rightarrow> string \<Rightarrow> Configuration \<Rightarrow> Configuration result option" where
  "Load_Configuration_Table regular_file Configuration_Filename C = (case regular_file Configuration_Filename of
     None \<Rightarrow> Some (Inr C)
   | Some t \<Rightarrow> and_then (load_lines (concat (map read_chunks (text_lines t))) (None, C)) (\<lambda>(Sec, C). Some (Inr C)))"

section \<open>The local configuration\<close>

definition Set_Conf :: "string \<Rightarrow> string \<Rightarrow> string \<Rightarrow> Configuration \<Rightarrow> Configuration result option" where
  "Set_Conf Sec K v C = and_then (Some (Lookup hyper_hashes (Conf_Table C) (Make_Global_Key Sec K) None)) (\<lambda>V.
     insert_String (Make_Global_Key Sec K) v
       (if V \<noteq> None then C\<lparr>Conf_Table := Delete hyper_hashes (Make_Global_Key Sec K) (Conf_Table C)\<rparr> else C))"

definition free_value :: "(Hash_Hyper_Parameters, String_Ptr) Table \<Rightarrow> nat \<Rightarrow> string_heap result \<Rightarrow> string_heap result" where
  "free_value t pos r = on_ok r (\<lambda>h. case Value t pos of Some p \<Rightarrow> Inr (free_String p h) | None \<Rightarrow> Inl Constraint_Error)"

definition Reset_Table :: "Configuration \<Rightarrow> Configuration result" where
  "Reset_Table C = (let t = Conf_Table C in
     on_ok (fold (free_value t) (positions t (Perfect_Htables.First t)) (Inr (Conf_Heap C))) (\<lambda>h. Inr (new_Configuration h)))"

text \<open>The package has a table and a list of sections; \<open>Reset\<close> empties both.\<close>

type_synonym section_entries = "(string \<times> string) list"
type_synonym sections_list = "(string \<times> section_entries) list"

definition Configuration_Reset :: "Configuration \<times> sections_list \<Rightarrow> (Configuration \<times> sections_list) result" where
  "Configuration_Reset S = on_ok (Reset_Table (fst S)) (\<lambda>C. Inr (C, []))"

text \<open>The loop over the entries of a section: all entries of that name are rewritten.\<close>

definition rewrite_entries :: "string \<Rightarrow> string \<Rightarrow> section_entries \<Rightarrow> section_entries" where
  "rewrite_entries N v es = map (\<lambda>(n, w). if n = N then (n, v) else (n, w)) es"

fun sections_loop :: "string \<Rightarrow> string \<Rightarrow> string \<Rightarrow> bool \<Rightarrow> sections_list \<Rightarrow> sections_list" where
  "sections_loop Sec N v Entry_Found [] = []"
| "sections_loop Sec N v Entry_Found ((s, es) # ss) =
     (if s = Sec
      then let Entry_Found = (Entry_Found \<or> N \<in> fst ` set es);
               es = rewrite_entries N v es in
           (s, if Entry_Found then es else es @ [(N, v)]) # sections_loop Sec N v Entry_Found ss
      else (s, es) # sections_loop Sec N v Entry_Found ss)"

definition Make_Global_List :: "string \<Rightarrow> String_Ptr \<Rightarrow> string_heap \<Rightarrow> sections_list \<Rightarrow> sections_list result" where
  "Make_Global_List K V h ss =
     (if K = [] then Inl Constraint_Error
      else if K ! 0 = CHR ''['' then
        (let Ket = Find 1 K 1 (CHR '']'') in
         if Ket > int (length K) \<or> Ket = 2 then Inl Constraint_Error
         else let Sec = take (nat (Ket - 2)) (drop 1 K); N = drop (nat Ket) K in
           on_ok (deref V h) (\<lambda>v.
             Inr (if Sec \<in> fst ` set ss then sections_loop Sec N v False ss else ss @ [(Sec, [(N, v)])])))
      else Inr ss)"

definition list_entry :: "Configuration \<Rightarrow> nat \<Rightarrow> sections_list result \<Rightarrow> sections_list result" where
  "list_entry C pos r = on_ok r (\<lambda>ss. case (Key_At (Conf_Table C) pos, Value (Conf_Table C) pos) of
     (Some k, Some p) \<Rightarrow> Make_Global_List k p (Conf_Heap C) ss
   | _ \<Rightarrow> Inl Constraint_Error)"

definition section_lines :: "string \<times> section_entries \<Rightarrow> string list" where
  "section_lines x = (let (s, es) = x in (''['' @ s @ '']'') # map (\<lambda>(n, v). n @ ''='' @ v) es)"

text \<open>The lines that \<open>Display\<close> puts on the standard output and \<open>Generate_Configuration_File\<close> into a file.\<close>

definition Display :: "Configuration \<Rightarrow> string list result" where
  "Display C = on_ok (fold (list_entry C) (positions (Conf_Table C) (Perfect_Htables.First (Conf_Table C))) (Inr []))
     (\<lambda>ss. Inr (concat (map section_lines ss)))"

definition put_lines :: "string list \<Rightarrow> string" where
  "put_lines ls = concat (map (\<lambda>l. l @ [CHR 0x0A]) ls)"

definition Generate_Configuration_File :: "Configuration \<Rightarrow> string result" where
  "Generate_Configuration_File C = on_ok (Display C) (\<lambda>ls. Inr (put_lines ls))"

section \<open>Well-formed configurations\<close>

definition conf_ok :: "Configuration \<Rightarrow> bool" where
  "conf_ok C \<longleftrightarrow> tbl_ok hyper_hashes (Conf_Table C) \<and> clean (Conf_Table C)
     \<and> (\<forall>K p. contents (Conf_Table C) K = Some p \<longrightarrow> (\<exists>s. deref p (Conf_Heap C) = Inr s))"

text \<open>The configuration as a map from global keys to values.\<close>

definition conf_map :: "Configuration \<Rightarrow> string \<Rightarrow> string option" where
  "conf_map C K = (case contents (Conf_Table C) K of
     None \<Rightarrow> None
   | Some p \<Rightarrow> (case deref p (Conf_Heap C) of Inr s \<Rightarrow> Some s | Inl e \<Rightarrow> None))"

lemma new_Configuration_ok: "conf_ok (new_Configuration h)" "conf_map (new_Configuration h) = Map.empty"
  by (auto simp: conf_ok_def conf_map_def new_Configuration_def default_table_ok)

lemma conf_map_None: "conf_ok C \<Longrightarrow> conf_map C K = None \<longleftrightarrow> contents (Conf_Table C) K = None"
  by (fastforce simp: conf_ok_def conf_map_def split: option.splits sum.splits)

lemma deref_append [simp]: "deref p h = Inr s \<Longrightarrow> deref p (h @ xs) = Inr s"
  by (auto simp: deref_def nth_append split: option.splits if_splits)

lemma deref_new [simp]: "deref (Some (length h)) (h @ [Some v]) = Inr v"
  by (simp add: deref_def)

lemma insert_String_new:
  assumes ok: "conf_ok C" and new: "conf_map C K = None" and run: "insert_String K v C = Some r"
  shows "\<exists>C'. r = Inr C' \<and> conf_ok C' \<and> conf_map C' = (conf_map C)(K \<mapsto> v)"
proof -
  let ?T = "Conf_Table C" and ?h = "Conf_Heap C"
  have v: "tbl_ok hyper_hashes ?T \<and> clean ?T" and none: "contents ?T K = None"
    using ok new conf_map_None [OF ok] by (simp_all add: conf_ok_def)
  obtain q where q: "Insert hyper_hashes K (Some (length ?h)) ?T = Some q"
      "r = on_ok q (\<lambda>t. Inr (C\<lparr>Conf_Table := t, Conf_Heap := ?h @ [Some v]\<rparr>))"
    using run by (auto simp: insert_String_def new_String_def)
  obtain t where t: "q = Inr t" "tbl_ok hyper_hashes t \<and> clean t" "contents t = (contents ?T)(K \<mapsto> Some (length ?h))"
    using perfect.insert_binding [OF v none q(1)] by blast
  let ?C = "C\<lparr>Conf_Table := t, Conf_Heap := ?h @ [Some v]\<rparr>"
  have "conf_ok ?C"
    using ok t by (auto simp: conf_ok_def) (metis deref_append)
  moreover have "conf_map ?C k = ((conf_map C)(K \<mapsto> v)) k" for k
  proof (cases "contents ?T k")
    case (Some p)
    then obtain s where "deref p ?h = Inr s"
      using ok by (auto simp: conf_ok_def)
    then show ?thesis
      using Some t(3) by (simp add: conf_map_def)
  qed (use t(3) in \<open>simp add: conf_map_def\<close>)
  ultimately show ?thesis
    using q(2) t(1) by auto
qed

lemma conf_Lookup:
  assumes "conf_ok C"
  shows "Lookup hyper_hashes (Conf_Table C) K None = Inr (case contents (Conf_Table C) K of None \<Rightarrow> None | Some p \<Rightarrow> p)"
  using assms by (simp add: Lookup_contents conf_ok_def)

text \<open>An assignment to a new key adds it.\<close>

lemma assign_value_new:
  assumes "conf_ok C" "conf_map C K = None" "assign_value K v C = Some r"
  shows "\<exists>C'. r = Inr C' \<and> conf_ok C' \<and> conf_map C' = (conf_map C)(K \<mapsto> v)"
  using insert_String_new [OF assms(1,2)] assms by (simp add: assign_value_def conf_Lookup conf_map_None)

text \<open>The next insertion does not extend the table.\<close>

definition has_room :: "Configuration \<Rightarrow> bool" where
  "has_room C \<longleftrightarrow> Count (Info (HTable (Conf_Table C))) < High (Info (HTable (Conf_Table C)))"

text \<open>An insertion of a key that a table has, and that is not full, changes nothing.\<close>

lemma Insert_again:
  assumes "tbl_ok F T" "contents T K \<noteq> None" "Count (Info (HTable T)) < High (Info (HTable T))"
  shows "Insert F K V T = Some (Inr T)"
proof -
  have "ht_ok F (HTable T)" "held (HTable T) K"
    using assms(1,2) contents_held [OF assms(1), of K] by (auto simp: tbl_ok_def)
  then show ?thesis
    using Insert_HT_held [of F "HTable T" K] assms(3) by (auto simp: Insert_def answer_def Let_def)
qed

section \<open>Lines\<close>

lemma Find_first: "c \<notin> set ys \<Longrightarrow> Find 1 (ys @ c # zs) 1 c = 1 + int (length ys)"
  using Find_split [of c ys 1 1 "[]" zs] by simp

lemma load_section_line:
  assumes "s \<noteq> []" "CHR '']'' \<notin> set s"
  shows "load_line (''['' @ s @ '']'') (Sec, C) = Some (Inr (Some s, C))"
proof -
  have "Find 1 (''['' @ s @ '']'') 1 (CHR '']'') = 2 + int (length s)"
    using Find_first [of "CHR '']''" "''['' @ s" "[]"] assms by simp
  then show ?thesis
    using assms by (simp add: load_line_def Let_def)
qed

lemma load_entry_line:
  assumes "n \<noteq> []" "CHR ''='' \<notin> set n" "hd n \<noteq> CHR ''#''" "hd n \<noteq> CHR ''[''"
  shows "load_line (n @ ''='' @ v) (Some s, C) = and_then (assign_value (Make_Global_Key s n) v C) (\<lambda>C. Some (Inr (Some s, C)))"
proof -
  have "Find 1 (n @ ''='' @ v) 1 (CHR ''='') = 1 + int (length n)"
    using Find_first [of "CHR ''=''" n v] assms by simp
  moreover have "(n @ ''='' @ v) ! 0 = hd n"
    using assms by (simp add: nth_append hd_conv_nth)
  ultimately show ?thesis
    using assms by (simp add: load_line_def Let_def nat_add_distrib Suc_le_eq)
qed

lemma load_lines_append: "load_lines (xs @ ys) st = and_then (load_lines xs st) (load_lines ys)"
proof (induction xs arbitrary: st)
  case (Cons l xs)
  then have "load_lines (xs @ ys) = (\<lambda>st. and_then (load_lines xs st) (load_lines ys))"
    by blast
  then show ?case
    by (simp add: and_then_assoc)
qed simp

lemma load_blank: "load_lines ([] # ls) = load_lines ls"
  by (simp add: fun_eq_iff load_line_def Let_def)

lemma load_chunks:
  assumes "length l \<le> 1024"
  shows "load_lines (read_chunks l @ ls) = load_lines (l # ls)"
proof (cases "length l = 1024")
  case True
  then have "read_chunks l = [l, []]"
    by (simp add: read_chunks.simps [of l] read_chunks.simps [of "[]"])
  then show ?thesis
    by (simp add: fun_eq_iff load_blank del: load_lines.simps) (simp add: load_blank)
qed (use assms in \<open>simp add: read_chunks.simps [of l]\<close>)

lemma load_read: "\<forall>l\<in>set ls. length l \<le> 1024 \<Longrightarrow> load_lines (concat (map read_chunks ls)) = load_lines ls"
proof (induction ls)
  case (Cons l ls)
  then have "load_lines (read_chunks l @ concat (map read_chunks ls)) = load_lines (l # concat (map read_chunks ls))"
    by (intro load_chunks) simp
  then show ?case
    using Cons by (simp add: fun_eq_iff)
qed simp

lemma text_lines_line: "CHR 0x0A \<notin> set l \<Longrightarrow> text_lines (l @ CHR 0x0A # t) = l # text_lines t"
  by (induction l) auto

lemma text_put: "\<forall>l\<in>set ls. CHR 0x0A \<notin> set l \<Longrightarrow> text_lines (put_lines ls) = ls"
  by (induction ls) (simp_all add: put_lines_def text_lines_line)

section \<open>Sections\<close>

type_synonym entry = "string \<times> string \<times> string"

text \<open>The entries of a list of sections, with their section; an entry of the table as one step of the listing.\<close>

definition flat :: "sections_list \<Rightarrow> entry list" where
  "flat ss = concat (map (\<lambda>(s, es). map (Pair s) es) ss)"

definition add_entry :: "entry \<Rightarrow> sections_list \<Rightarrow> sections_list" where
  "add_entry e ss = (let (s, n, v) = e in if s \<in> fst ` set ss then sections_loop s n v False ss else ss @ [(s, [(n, v)])])"

definition global :: "entry \<Rightarrow> string \<times> string" where
  "global e = (let (s, n, v) = e in (Make_Global_Key s n, v))"

lemma global_simp [simp]: "global (s, n, v) = (Make_Global_Key s n, v)"
  by (simp add: global_def)

lemma rewrite_fresh: "n \<notin> fst ` set es \<Longrightarrow> rewrite_entries n v es = es"
  unfolding rewrite_entries_def by (rule map_idI) force

lemma sections_loop_absent: "s \<notin> fst ` set ss \<Longrightarrow> sections_loop s n v b ss = ss"
  by (induction ss) auto

lemma flat_Cons [simp]: "flat ((s, es) # ss) = map (Pair s) es @ flat ss" "flat [] = []"
  by (simp_all add: flat_def)

lemma sections_loop_flat:
  assumes "distinct (map fst ss)" "s \<in> fst ` set ss" "(s, n) \<notin> (\<lambda>(s, n, v). (s, n)) ` set (flat ss)"
  shows "map fst (sections_loop s n v False ss) = map fst ss \<and> mset (flat (sections_loop s n v False ss)) = add_mset (s, n, v) (mset (flat ss))"
  using assms
proof (induction ss)
  case (Cons x ss)
  obtain s' es where x: "x = (s', es)"
    by (cases x)
  show ?case
  proof (cases "s' = s")
    case True
    have "n \<notin> fst ` set es"
      using Cons.prems(3) x True by force
    then show ?thesis
      using Cons.prems(1) x True by (simp add: rewrite_fresh sections_loop_absent)
  qed (use Cons x in auto)
qed simp

lemma add_entry_flat:
  assumes "distinct (map fst ss)" "(s, n) \<notin> (\<lambda>(s, n, v). (s, n)) ` set (flat ss)"
  shows "distinct (map fst (add_entry (s, n, v) ss))" "mset (flat (add_entry (s, n, v) ss)) = add_mset (s, n, v) (mset (flat ss))"
  using assms sections_loop_flat [OF assms(1) _ assms(2), of v] by (simp_all add: add_entry_def) (simp add: flat_def)

lemma fold_add_entry:
  assumes "distinct (map fst ss)" "distinct (map (\<lambda>(s, n, v). (s, n)) (flat ss @ es))"
  shows "mset (flat (fold add_entry es ss)) = mset (flat ss) + mset es"
  using assms
proof (induction es arbitrary: ss)
  case (Cons e es)
  obtain s n v where e: "e = (s, n, v)"
    by (cases e)
  have new: "(s, n) \<notin> (\<lambda>(s, n, v). (s, n)) ` set (flat ss)"
    using Cons.prems(2) e by auto
  note add = add_entry_flat [OF Cons.prems(1) new, of v]
  have "mset (map (\<lambda>(s, n, v). (s, n)) (flat (add_entry e ss) @ es)) = mset (map (\<lambda>(s, n, v). (s, n)) (flat ss @ e # es))"
    using add(2) e by simp
  then have "distinct (map (\<lambda>(s, n, v). (s, n)) (flat (add_entry e ss) @ es))"
    using Cons.prems(2) by (metis mset_eq_imp_distinct_iff)
  then show ?case
    using Cons.IH [of "add_entry e ss"] add e by simp
qed simp

text \<open>A key of a section without a closing bracket is taken apart as it was built.\<close>

lemma Make_Global_List_entry:
  assumes "s \<noteq> []" "CHR '']'' \<notin> set s" "deref p h = Inr v"
  shows "Make_Global_List (Make_Global_Key s n) p h ss = Inr (add_entry (s, n, v) ss)"
proof -
  have "Find 1 (''['' @ s @ '']'' @ n) 1 (CHR '']'') = 2 + int (length s)"
    using Find_first [of "CHR '']''" "''['' @ s" n] assms by simp
  then show ?thesis
    using assms by (simp add: Make_Global_List_def Make_Global_Key_def add_entry_def Let_def nat_add_distrib)
qed

section \<open>What is written is read back\<close>

text \<open>
  The sections, names and values that a file can hold. A name does not begin with a form feed, which the language takes for a page mark
  at the beginning of a line; the lines of a text as they are read here have none.
\<close>

definition section_ok :: "string \<Rightarrow> bool" where
  "section_ok s \<longleftrightarrow> s \<noteq> [] \<and> CHR '']'' \<notin> set s \<and> CHR 0x0A \<notin> set s \<and> length s \<le> 1022"

definition value_ok :: "string \<Rightarrow> string \<Rightarrow> bool" where
  "value_ok n v \<longleftrightarrow> n \<noteq> [] \<and> hd n \<noteq> CHR 0x0C \<and> CHR ''='' \<notin> set n \<and> hd n \<noteq> CHR ''#'' \<and> hd n \<noteq> CHR ''['' \<and> CHR 0x0A \<notin> set (n @ v)
     \<and> length n + length v < 1024"

definition entry_ok :: "entry \<Rightarrow> bool" where
  "entry_ok e \<longleftrightarrow> (let (s, n, v) = e in section_ok s \<and> value_ok n v)"

lemma load_entries:
  assumes "conf_ok C" "\<forall>(n, v)\<in>set es. value_ok n v" "distinct (map fst (map global (map (Pair s) es)))"
    "\<forall>(n, v)\<in>set es. conf_map C (Make_Global_Key s n) = None"
    "load_lines (map (\<lambda>(n, v). n @ ''='' @ v) es) (Some s, C) = Some r"
  shows "\<exists>C'. r = Inr (Some s, C') \<and> conf_ok C' \<and> conf_map C' = conf_map C ++ map_of (map global (map (Pair s) es))"
  using assms
proof (induction es arbitrary: C)
  case (Cons x es)
  obtain n v where x: "x = (n, v)"
    by (cases x)
  let ?K = "Make_Global_Key s n" and ?ls = "map (\<lambda>(n, v). n @ ''='' @ v) es" and ?m = "map_of (map global (map (Pair s) es))"
  have run: "and_then (assign_value ?K v C) (\<lambda>C. load_lines ?ls (Some s, C)) = Some r"
    using Cons.prems(2,5) x by (simp add: load_entry_line [unfolded append_Cons append_Nil] value_ok_def and_then_assoc)
  then obtain q where q: "assign_value ?K v C = Some q"
    by (cases "assign_value ?K v C") auto
  obtain C1 where C1: "q = Inr C1" "conf_ok C1" "conf_map C1 = (conf_map C)(?K \<mapsto> v)"
    using assign_value_new [OF Cons.prems(1) _ q] Cons.prems(4) x by auto
  have later: "\<forall>(n', v')\<in>set es. Make_Global_Key s n' \<noteq> ?K"
    using Cons.prems(3) x by force
  have "\<exists>C'. r = Inr (Some s, C') \<and> conf_ok C' \<and> conf_map C' = conf_map C1 ++ ?m"
    using Cons.prems(2-4) x later C1(3) run q C1(1) by (intro Cons.IH [OF C1(2)]) auto
  moreover have "?K \<notin> dom ?m"
    using Cons.prems(3) x by (simp add: dom_map_of_conv_image_fst image_image)
  then have "conf_map C1 ++ ?m = conf_map C ++ map_of (map global (map (Pair s) (x # es)))"
    unfolding C1(3) x by (auto simp: fun_eq_iff map_add_def split: option.splits)
  ultimately show ?case
    by metis
qed auto

lemma map_add_disjoint: "dom m1 \<inter> dom m2 = {} \<Longrightarrow> (m ++ m1) ++ m2 = m ++ (m2 ++ m1)"
  using map_add_comm [of m1 m2] by (metis map_add_assoc)

lemma load_sections:
  assumes "conf_ok C" "\<forall>e\<in>set (flat ss). entry_ok e" "\<forall>x\<in>set ss. snd x \<noteq> []" "distinct (map fst (map global (flat ss)))"
    "\<forall>e\<in>set (flat ss). conf_map C (fst (global e)) = None"
    "load_lines (concat (map section_lines ss)) (Sec, C) = Some r"
  shows "\<exists>Sec' C'. r = Inr (Sec', C') \<and> conf_ok C' \<and> conf_map C' = conf_map C ++ map_of (map global (flat ss))"
  using assms
proof (induction ss arbitrary: Sec C)
  case (Cons x ss)
  obtain s es where x: "x = (s, es)"
    by (cases x)
  let ?es = "map (\<lambda>(n, v). n @ ''='' @ v) es" and ?f = "map (Pair s) es"
  obtain n v where "(n, v) \<in> set es"
    using Cons.prems(3) x by (cases es) auto
  then have s: "section_ok s"
    using Cons.prems(2) x by (force simp: entry_ok_def)
  have "load_line (''['' @ s @ '']'') (Sec, C) = Some (Inr (Some s, C))"
    using s by (intro load_section_line) (simp_all add: section_ok_def)
  then have run: "and_then (load_lines ?es (Some s, C)) (load_lines (concat (map section_lines ss))) = Some r"
    using Cons.prems(6) x by (simp add: section_lines_def [of "(s, es)"] load_lines_append)
  then obtain q where q: "load_lines ?es (Some s, C) = Some q"
    by (cases "load_lines ?es (Some s, C)") auto
  have "\<exists>C1. q = Inr (Some s, C1) \<and> conf_ok C1 \<and> conf_map C1 = conf_map C ++ map_of (map global ?f)"
  proof (rule load_entries [OF Cons.prems(1) _ _ _ q])
    show "\<forall>(n, v)\<in>set es. value_ok n v" "\<forall>(n, v)\<in>set es. conf_map C (Make_Global_Key s n) = None"
      using Cons.prems(2,5) x by (simp_all add: entry_ok_def ball_Un split_def global_def)
  qed (use Cons.prems(4) x in simp)
  then obtain C1 where C1: "q = Inr (Some s, C1)" "conf_ok C1" "conf_map C1 = conf_map C ++ map_of (map global ?f)"
    by blast
  have dis: "set (map fst (map global ?f)) \<inter> set (map fst (map global (flat ss))) = {}"
    using Cons.prems(4) x by simp
  have "conf_map C1 (fst (global e)) = None" if "e \<in> set (flat ss)" for e
  proof -
    have "fst (global e) \<notin> dom (map_of (map global ?f))"
      using dis that unfolding dom_map_of_conv_image_fst by force
    then show ?thesis
      using Cons.prems(5) x that C1(3) by (auto simp: map_add_def domIff split: option.splits)
  qed
  then have "\<exists>Sec' C'. r = Inr (Sec', C') \<and> conf_ok C' \<and> conf_map C' = conf_map C1 ++ map_of (map global (flat ss))"
    using Cons.prems(2-4) x run q C1(1) by (intro Cons.IH [OF C1(2)]) auto
  moreover have "conf_map C1 ++ map_of (map global (flat ss)) = conf_map C ++ map_of (map global (flat (x # ss)))"
    unfolding C1(3) x using dis by (subst map_add_disjoint) (simp_all add: dom_map_of_conv_image_fst image_image)
  ultimately show ?case
    by simp
qed auto

text \<open>Two lists of pairs with the same elements and different keys are the same map.\<close>

lemma map_of_mset:
  assumes "mset xs = mset ys" "distinct (map fst xs)"
  shows "map_of xs = map_of ys" "distinct (map fst ys)"
proof -
  have "mset (map fst xs) = mset (map fst ys)"
    using assms(1) by simp
  then show d: "distinct (map fst ys)"
    using assms(2) mset_eq_imp_distinct_iff by blast
  have "set xs = set ys"
    using assms(1) mset_eq_setD by blast
  then show "map_of xs = map_of ys"
    using map_of_eq_Some_iff [OF assms(2)] map_of_eq_Some_iff [OF d] by (metis option.exhaust ext)
qed

text \<open>The entries of a table in the order of its elements, taken apart.\<close>

lemma listed_entry:
  assumes ok: "conf_ok C" and wf: "\<forall>K v. conf_map C K = Some v \<longrightarrow> (\<exists>s n. K = Make_Global_Key s n \<and> entry_ok (s, n, v))"
    and i: "i \<in> set (used_from (Conf_Table C) 0)"
  shows "\<exists>e. entry_ok e \<and> Key_At (Conf_Table C) i = Some (fst (global e)) \<and> conf_map C (fst (global e)) = Some (snd (global e))
    \<and> (\<forall>ss. list_entry C i (Inr ss) = Inr (add_entry e ss))"
proof -
  let ?T = "Conf_Table C"
  have tbl: "tbl_ok hyper_hashes ?T"
    using ok by (simp add: conf_ok_def)
  obtain k p where k: "Key_At ?T i = Some k" "Value ?T i = Some p" "contents ?T k = Some p"
    using bspec [OF positions_contents(1) [OF tbl] i] by blast
  obtain v where v: "deref p (Conf_Heap C) = Inr v"
    using ok k(3) by (auto simp: conf_ok_def)
  then have m: "conf_map C k = Some v"
    using k(3) by (simp add: conf_map_def)
  obtain s n where e: "k = Make_Global_Key s n" "entry_ok (s, n, v)"
    using wf m by blast
  then have "list_entry C i (Inr ss) = Inr (add_entry (s, n, v) ss)" for ss
    using k v by (simp add: list_entry_def Make_Global_List_entry entry_ok_def section_ok_def)
  then show ?thesis
    using e k(1) m by (intro exI [of _ "(s, n, v)"]) simp
qed

lemma listing:
  assumes ok: "conf_ok C" and wf: "\<forall>K v. conf_map C K = Some v \<longrightarrow> (\<exists>s n. K = Make_Global_Key s n \<and> entry_ok (s, n, v))"
  shows "\<exists>es. map_of (map global es) = conf_map C \<and> distinct (map fst (map global es)) \<and> (\<forall>e\<in>set es. entry_ok e)
    \<and> Display C = Inr (concat (map section_lines (fold add_entry es [])))"
proof -
  let ?T = "Conf_Table C"
  let ?is = "used_from ?T 0"
  have tbl: "tbl_ok hyper_hashes ?T"
    using ok by (simp add: conf_ok_def)
  have "\<forall>i\<in>set ?is. \<exists>e. entry_ok e \<and> Key_At ?T i = Some (fst (global e)) \<and> conf_map C (fst (global e)) = Some (snd (global e))
      \<and> (\<forall>ss. list_entry C i (Inr ss) = Inr (add_entry e ss))"
    using listed_entry [OF ok wf] by blast
  then obtain f where f: "\<And>i. i \<in> set ?is \<Longrightarrow> entry_ok (f i) \<and> Key_At ?T i = Some (fst (global (f i)))
      \<and> conf_map C (fst (global (f i))) = Some (snd (global (f i))) \<and> (\<forall>ss. list_entry C i (Inr ss) = Inr (add_entry (f i) ss))"
    by metis
  have "fold (list_entry C) is (Inr ss) = Inr (fold add_entry (map f is) ss)" if "set is \<subseteq> set ?is" for "is" ss
    using that f by (induction "is" arbitrary: ss) auto
  then have disp: "Display C = Inr (concat (map section_lines (fold add_entry (map f ?is) [])))"
    by (simp add: Display_def positions_First)
  have keys: "map fst (map global (map f ?is)) = map (\<lambda>i. the (Key_At ?T i)) ?is"
    using f by simp
  then have dist: "distinct (map fst (map global (map f ?is)))"
    using positions_contents(2) [OF tbl] by metis
  have "map_of (map global (map f ?is)) k = conf_map C k" for k
  proof (cases "conf_map C k")
    case None
    then have "k \<notin> set (map fst (map global (map f ?is)))"
      unfolding keys positions_contents(3) [OF tbl] using conf_map_None [OF ok] by auto
    then show ?thesis
      using None by (metis list.set_map map_of_eq_None_iff)
  next
    case (Some v)
    then have "k \<in> set (map fst (map global (map f ?is)))"
      unfolding keys positions_contents(3) [OF tbl] using conf_map_None [OF ok, of k] by auto
    then obtain i where "i \<in> set ?is" "fst (global (f i)) = k"
      by auto
    then show ?thesis
      using map_of_is_SomeI [OF dist, of k v] f [of i] Some by force
  qed
  then have "map_of (map global (map f ?is)) = conf_map C"
    by blast
  then show ?thesis
    using disp dist f by (intro exI [of _ "map f ?is"]) simp
qed

lemma sections_loop_full: "\<forall>x\<in>set ss. snd x \<noteq> [] \<Longrightarrow> \<forall>x\<in>set (sections_loop s n v b ss). snd x \<noteq> []"
  by (induction s n v b ss rule: sections_loop.induct) (auto simp: rewrite_entries_def Let_def)

lemma fold_add_entry_full: "\<forall>x\<in>set ss. snd x \<noteq> [] \<Longrightarrow> \<forall>x\<in>set (fold add_entry es ss). snd x \<noteq> []"
proof (induction es arbitrary: ss)
  case (Cons e es)
  have "\<forall>x\<in>set (add_entry e ss). snd x \<noteq> []"
    using Cons.prems sections_loop_full [OF Cons.prems] by (cases e) (simp add: add_entry_def)
  then show ?case
    using Cons.IH by simp
qed simp

text \<open>Lines that are short enough for \<open>Get_Line\<close>, and have no line break.\<close>

lemma lines_ok:
  assumes "\<forall>e\<in>set (flat ss). entry_ok e" "\<forall>x\<in>set ss. snd x \<noteq> []"
  shows "\<forall>l\<in>set (concat (map section_lines ss)). length l \<le> 1024 \<and> CHR 0x0A \<notin> set l"
  using assms
proof (induction ss)
  case (Cons x ss)
  obtain s es where x: "x = (s, es)"
    by (cases x)
  have es: "\<forall>(n, v)\<in>set es. value_ok n v \<and> section_ok s" "es \<noteq> []"
    using Cons.prems x by (simp_all add: entry_ok_def ball_Un split_def)
  then have "section_ok s"
    by (cases es) auto
  then have "\<forall>l\<in>set (section_lines x). length l \<le> 1024 \<and> CHR 0x0A \<notin> set l"
    using es(1) x by (auto simp: section_lines_def section_ok_def value_ok_def)
  then show ?case
    using Cons x by (simp add: ball_Un)
qed simp

text \<open>
  Property C10. A configuration that \<open>Set_Conf\<close> built and \<open>Generate_Configuration_File\<close> wrote into a file is read back by
  \<open>Load_Configuration_Table\<close>: the generation does not fail, and a load of the file into an empty table, when it returns, gives
  a well-formed table with the same values for the same keys. The names and values have to fit the syntax of the file.
\<close>

theorem configuration_roundtrip:
  assumes "conf_ok C" "\<forall>K v. conf_map C K = Some v \<longrightarrow> (\<exists>s n. K = Make_Global_Key s n \<and> entry_ok (s, n, v))"
  shows "\<exists>t. Generate_Configuration_File C = Inr t \<and>
    (\<forall>fs name h r. fs name = Some t \<and> Load_Configuration_Table fs name (new_Configuration h) = Some r
       \<longrightarrow> (\<exists>C'. r = Inr C' \<and> conf_ok C' \<and> conf_map C' = conf_map C))"
proof -
  obtain es where es: "map_of (map global es) = conf_map C" "distinct (map fst (map global es))" "\<forall>e\<in>set es. entry_ok e"
      "Display C = Inr (concat (map section_lines (fold add_entry es [])))"
    using listing [OF assms] by blast
  let ?ss = "fold add_entry es []"
  let ?ls = "concat (map section_lines ?ss)"
  have "map fst (map global es) = map (\<lambda>(s, n). Make_Global_Key s n) (map (\<lambda>(s, n, v). (s, n)) es)"
    by (simp add: split_def global_def)
  then have "distinct (map (\<lambda>(s, n, v). (s, n)) es)"
    using es(2) by (metis distinct_map)
  then have ms: "mset (flat ?ss) = mset es"
    using fold_add_entry [of "[]" es] by simp
  have full: "\<forall>x\<in>set ?ss. snd x \<noteq> []"
    by (rule fold_add_entry_full) simp
  have ok: "\<forall>e\<in>set (flat ?ss). entry_ok e"
    using es(3) mset_eq_setD [OF ms] by simp
  have m: "map_of (map global (flat ?ss)) = conf_map C" "distinct (map fst (map global (flat ?ss)))"
    using map_of_mset [of "map global es" "map global (flat ?ss)"] ms es(1,2) by simp_all
  have lines: "\<forall>l\<in>set ?ls. length l \<le> 1024 \<and> CHR 0x0A \<notin> set l"
    by (rule lines_ok [OF ok full])
  have loaded: "\<exists>C'. r = Inr C' \<and> conf_ok C' \<and> conf_map C' = conf_map C"
    if run: "fs name = Some (put_lines ?ls)" "Load_Configuration_Table fs name (new_Configuration h) = Some r" for fs name h r
  proof -
    have "and_then (load_lines ?ls (None, new_Configuration h)) (\<lambda>(Sec, C). Some (Inr C)) = Some r"
      using run lines by (simp add: Load_Configuration_Table_def text_put load_read del: set_concat)
    then obtain q where q: "load_lines ?ls (None, new_Configuration h) = Some q" "and_then (Some q) (\<lambda>(Sec, C). Some (Inr C)) = Some r"
      by (cases "load_lines ?ls (None, new_Configuration h)") auto
    obtain Sec C' where "q = Inr (Sec, C')" "conf_ok C'" "conf_map C' = conf_map (new_Configuration h) ++ map_of (map global (flat ?ss))"
      using load_sections [OF new_Configuration_ok(1) ok full m(2) _ q(1)] new_Configuration_ok(2) by auto
    then show ?thesis
      using q(2) m(1) new_Configuration_ok(2) by auto
  qed
  have "Generate_Configuration_File C = Inr (put_lines ?ls)"
    using es(4) by (simp add: Generate_Configuration_File_def)
  then show ?thesis
    using loaded by blast
qed

text \<open>A configuration with one entry, of which the load returns.\<close>

lemma Make_Global_Key_inject:
  assumes "CHR '']'' \<notin> set s" "CHR '']'' \<notin> set s'"
  shows "Make_Global_Key s n = Make_Global_Key s' n' \<longleftrightarrow> s = s' \<and> n = n'"
proof
  assume "Make_Global_Key s n = Make_Global_Key s' n'"
  then have eq: "s @ CHR '']'' # n = s' @ CHR '']'' # n'"
    by (simp add: Make_Global_Key_def)
  have tw: "takeWhile (\<lambda>c. c \<noteq> CHR '']'') (t @ CHR '']'' # m) = t" if "CHR '']'' \<notin> set t" for t m
    using that by (induction t) auto
  have "s = s'"
    using arg_cong [OF eq, of "takeWhile (\<lambda>c. c \<noteq> CHR '']'')"] tw assms by simp
  then show "s = s' \<and> n = n'"
    using eq by simp
qed simp

lemma first_assign:
  obtains C where "insert_String K v (new_Configuration h) = Some (Inr C)" "conf_ok C" "conf_map C = [K \<mapsto> v]"
    "has_room C"
proof -
  obtain t where t: "Insert hyper_hashes K (Some (length h)) default_table = Some (Inr t)"
      "Count (Info (HTable t)) < High (Info (HTable t))"
    by (rule default_Insert_returns [of K "Some (length h)"])
  then have r: "insert_String K v (new_Configuration h) = Some (Inr \<lparr>Conf_Table = t, Conf_Heap = h @ [Some v]\<rparr>)"
    by (simp add: insert_String_def new_String_def new_Configuration_def)
  then show thesis
    using insert_String_new [OF new_Configuration_ok(1) _ r] new_Configuration_ok(2) t(2) that by (auto simp: has_room_def)
qed

lemma no_value: "Lookup hyper_hashes (Conf_Table (new_Configuration h)) K None = Inr None"
  by (simp add: conf_Lookup new_Configuration_ok) (simp add: new_Configuration_def default_table_ok)

lemma Generate_one:
  assumes "conf_ok C" "conf_map C = [Make_Global_Key s n \<mapsto> v]" "entry_ok (s, n, v)"
  shows "Generate_Configuration_File C = Inr (put_lines [''['' @ s @ '']'', n @ ''='' @ v])"
proof -
  have "\<forall>K w. conf_map C K = Some w \<longrightarrow> (\<exists>s n. K = Make_Global_Key s n \<and> entry_ok (s, n, w))"
    using assms(2,3) by auto
  then obtain es where es: "map_of (map global es) = conf_map C" "distinct (map fst (map global es))" "\<forall>e\<in>set es. entry_ok e"
      "Display C = Inr (concat (map section_lines (fold add_entry es [])))"
    using listing [OF assms(1)] by blast
  have "e = (s, n, v)" if "e \<in> set es" for e
  proof -
    obtain s' n' v' where e: "e = (s', n', v')"
      by (cases e)
    have "map_of (map global es) (Make_Global_Key s' n') = Some v'"
      using map_of_is_SomeI [OF es(2)] that e by force
    then have "Make_Global_Key s' n' = Make_Global_Key s n \<and> v' = v"
      unfolding es(1) assms(2) by (simp split: if_splits)
    then show ?thesis
      using Make_Global_Key_inject [of s' s n' n] es(3) that e assms(3) by (force simp: entry_ok_def section_ok_def)
  qed
  then have "set es \<subseteq> {(s, n, v)}"
    by blast
  moreover have "es \<noteq> []"
    using fun_cong [OF es(1), of "Make_Global_Key s n"] assms(2) by auto
  ultimately have one: "set es = {(s, n, v)}"
    using subset_singletonD by fastforce
  have "distinct es"
    using es(2) by (simp add: distinct_map)
  then have "length es = 1"
    using one distinct_card [of es] by simp
  then have "es = [(s, n, v)]"
    using one by (cases es) auto
  then show ?thesis
    using es(4) by (simp add: Generate_Configuration_File_def add_entry_def section_lines_def)
qed

lemma Load_one:
  assumes "entry_ok (s, n, v)" "fs name = Some (put_lines [''['' @ s @ '']'', n @ ''='' @ v])"
  shows "\<exists>r. Load_Configuration_Table fs name (new_Configuration h) = Some r"
proof -
  let ?ls = "[''['' @ s @ '']'', n @ ''='' @ v]"
  have ok: "section_ok s" "value_ok n v"
    using assms(1) by (simp_all add: entry_ok_def)
  have "\<forall>l\<in>set ?ls. length l \<le> 1024 \<and> CHR 0x0A \<notin> set l"
    using ok by (auto simp: section_ok_def value_ok_def)
  then have "text_lines (put_lines ?ls) = ?ls" "load_lines (concat (map read_chunks ?ls)) = load_lines ?ls"
    by (blast intro: text_put load_read)+
  moreover have "load_line (''['' @ s @ '']'') (None, new_Configuration h) = Some (Inr (Some s, new_Configuration h))"
    using ok(1) by (intro load_section_line) (simp_all add: section_ok_def)
  moreover obtain C where "assign_value (Make_Global_Key s n) v (new_Configuration h) = Some (Inr C)"
    by (rule first_assign [of "Make_Global_Key s n" v h]) (simp add: assign_value_def no_value)
  then have "load_line (n @ ''='' @ v) (Some s, new_Configuration h) = Some (Inr (Some s, C))"
    using ok(2) by (subst load_entry_line) (simp_all add: value_ok_def)
  ultimately show ?thesis
    using assms(2) by (simp add: Load_Configuration_Table_def)
qed

theorem configuration_roundtrip_witness:
  "\<exists>C t C'. Set_Conf ''tasking'' ''max_threads'' ''8'' (new_Configuration []) = Some (Inr C) \<and> Generate_Configuration_File C = Inr t
    \<and> Load_Configuration_Table (\<lambda>_. Some t) ''polyorb.conf'' (new_Configuration []) = Some (Inr C')
    \<and> conf_map C' = [''[tasking]max_threads'' \<mapsto> ''8'']"
proof -
  let ?K = "Make_Global_Key ''tasking'' ''max_threads''"
  obtain C where C: "insert_String ?K ''8'' (new_Configuration []) = Some (Inr C)" "conf_ok C" "conf_map C = [?K \<mapsto> ''8'']"
    by (rule first_assign)
  have e: "entry_ok (''tasking'', ''max_threads'', ''8'')"
    by (simp add: entry_ok_def section_ok_def value_ok_def)
  have wf: "\<forall>K v. conf_map C K = Some v \<longrightarrow> (\<exists>s n. K = Make_Global_Key s n \<and> entry_ok (s, n, v))"
    using C(3) e by auto
  let ?t = "put_lines [''['' @ ''tasking'' @ '']'', ''max_threads'' @ ''='' @ ''8'']"
  have g: "Generate_Configuration_File C = Inr ?t"
    by (rule Generate_one [OF C(2,3) e])
  obtain r where r: "Load_Configuration_Table (\<lambda>_. Some ?t) ''polyorb.conf'' (new_Configuration []) = Some r"
    using Load_one [OF e, of "\<lambda>_. Some ?t" "''polyorb.conf''" "[]"] by blast
  obtain t where t: "Generate_Configuration_File C = Inr t" and load: "\<forall>fs name h r. fs name = Some t
      \<and> Load_Configuration_Table fs name (new_Configuration h) = Some r \<longrightarrow> (\<exists>C'. r = Inr C' \<and> conf_ok C' \<and> conf_map C' = conf_map C)"
    using configuration_roundtrip [OF C(2) wf] by (elim exE conjE) (rule that)
  have "t = ?t"
    using t g by simp
  then obtain C' where C': "r = Inr C'" "conf_map C' = conf_map C"
    using spec [OF spec [OF spec [OF spec [OF load, of "\<lambda>_. Some ?t"], of "''polyorb.conf''"], of "[]"], of r] r by blast
  show ?thesis
  proof (intro exI conjI)
    show "Set_Conf ''tasking'' ''max_threads'' ''8'' (new_Configuration []) = Some (Inr C)"
      by (simp add: Set_Conf_def no_value C(1))
    show "conf_map C' = [''[tasking]max_threads'' \<mapsto> ''8'']"
      using C'(2) C(3) by (simp add: Make_Global_Key_def)
  qed (rule g, use r C'(1) in simp)
qed

section \<open>Changing an entry\<close>

text \<open>
  \<open>Set_Conf\<close> deletes an entry before it inserts the new value. This works but for an entry with the first item of the table, which a
  deletion does not free.
\<close>

lemma Set_Conf_sets:
  assumes ok: "conf_ok C" and first: "(Some (Make_Global_Key Sec n), True, 0) \<notin># cores (HTable (Conf_Table C))"
    and run: "Set_Conf Sec n v C = Some r"
  shows "\<exists>C'. r = Inr C' \<and> conf_ok C' \<and> conf_map C' = (conf_map C)(Make_Global_Key Sec n \<mapsto> v)"
proof (cases "conf_map C (Make_Global_Key Sec n)")
  case None
  then show ?thesis
    using insert_String_new [OF ok] run by (simp add: Set_Conf_def conf_Lookup [OF ok] conf_map_None [OF ok])
next
  case (Some w)
  let ?K = "Make_Global_Key Sec n"
  let ?D = "C\<lparr>Conf_Table := Delete hyper_hashes ?K (Conf_Table C)\<rparr>"
  have tbl: "tbl_ok hyper_hashes (Conf_Table C)" "clean (Conf_Table C)"
    using ok by (simp_all add: conf_ok_def)
  obtain p where p: "contents (Conf_Table C) ?K = Some p" "\<exists>s. deref p (Conf_Heap C) = Inr s"
    using ok Some conf_map_None [OF ok, of ?K] by (auto simp: conf_ok_def)
  then have "p \<noteq> None"
    by (auto simp: deref_def split: option.splits)
  then have "insert_String ?K v ?D = Some r"
    using run p(1) by (simp add: Set_Conf_def conf_Lookup [OF ok])
  moreover have ct: "contents (Conf_Table ?D) = (contents (Conf_Table C))(?K := None)"
    using Delete_contents(2) [OF tbl(1)] by simp
  moreover have "conf_ok ?D"
    using ok first Delete_contents [OF tbl(1), of ?K] tbl(2) by (auto simp: conf_ok_def split: if_splits)
  moreover have "conf_map ?D = (conf_map C)(?K := None)"
    using ct by (simp add: fun_eq_iff conf_map_def split: option.split)
  ultimately show ?thesis
    using insert_String_new [of ?D ?K v r] by simp
qed

text \<open>
  \<open>Load_Configuration_Table\<close> frees the old value of a key before it inserts the new one, but the insertion of a key that is there does
  nothing: the table keeps the pointer to the freed string.
\<close>

lemma assign_again:
  assumes ok: "conf_ok C" and K: "conf_map C K = Some w" and room: "has_room C"
  shows "\<exists>a h. contents (Conf_Table C) K = Some (Some a) \<and> h ! a = None \<and> a < length h
    \<and> assign_value K v C = Some (Inr (C\<lparr>Conf_Heap := h\<rparr>))"
proof -
  obtain p where p: "contents (Conf_Table C) K = Some p" "\<exists>s. deref p (Conf_Heap C) = Inr s"
    using ok K conf_map_None [OF ok, of K] by (auto simp: conf_ok_def)
  then obtain a where a: "p = Some a" "a < length (Conf_Heap C)"
    by (auto simp: deref_def split: option.splits if_splits)
  let ?h = "(Conf_Heap C)[a := None] @ [Some v]"
  have "Insert hyper_hashes K x (Conf_Table C) = Some (Inr (Conf_Table C))" for x
    using ok p(1) room by (intro Insert_again) (auto simp: conf_ok_def has_room_def)
  then have "assign_value K v C = Some (Inr (C\<lparr>Conf_Heap := ?h\<rparr>))"
    using p(1) a(1) by (simp add: assign_value_def conf_Lookup [OF ok] insert_String_def new_String_def free_String_def)
  then show ?thesis
    using p(1) a by (intro exI [of _ a] exI [of _ ?h]) (simp add: nth_append)
qed

text \<open>A reset frees every value, does not fail, and leaves an empty configuration.\<close>

lemma fold_free_value:
  "\<forall>i\<in>set ps. \<exists>p. Value t i = Some p \<Longrightarrow> \<exists>h'. length h' = length h \<and> fold (free_value t) ps (Inr h) = Inr h'"
proof (induction ps arbitrary: h)
  case (Cons i ps)
  obtain p where "Value t i = Some p"
    using Cons.prems by auto
  then have "fold (free_value t) (i # ps) (Inr h) = fold (free_value t) ps (Inr (free_String p h))"
    by (simp add: free_value_def)
  moreover have "length (free_String p h) = length h"
    by (simp add: free_String_def split: option.splits)
  ultimately show ?case
    using Cons.IH [of "free_String p h"] Cons.prems by simp
qed simp

lemma Configuration_Reset_empties:
  assumes "conf_ok C"
  shows "\<exists>C'. Configuration_Reset (C, ss) = Inr (C', []) \<and> conf_ok C' \<and> conf_map C' = Map.empty"
proof -
  have "\<forall>i\<in>set (used_from (Conf_Table C) 0). \<exists>p. Value (Conf_Table C) i = Some p"
    using positions_contents(1) [of hyper_hashes "Conf_Table C"] assms by (fastforce simp: conf_ok_def)
  then obtain h where "fold (free_value (Conf_Table C)) (used_from (Conf_Table C) 0) (Inr (Conf_Heap C)) = Inr h"
    using fold_free_value by blast
  then show ?thesis
    using new_Configuration_ok [of h] by (simp add: Configuration_Reset_def Reset_Table_def Let_def positions_First)
qed

end
