(* ===== verification/Initialization.thy ===== *)
theory Initialization
  imports Ada_Utils
begin

text \<open>
  PolyORB.Initialization (\<open>src/src/polyorb-initialization.adb\<close>): modules register themselves, and
  \<open>Initialize_World\<close> checks them for conflicts, resolves the names of their dependencies and runs their
  initializers by a depth-first traversal; \<open>Shutdown_World\<close> runs the finalizers. The initializers and the
  finalizers are procedures of other units and act on the rest of the program, the type variable
  \<open>'w\<close>; so is the function that \<open>Get_Conf_Hook\<close> designates. An access to a module is an index into
  the allocated modules.
\<close>

section \<open>Switches in a configuration\<close>

text \<open>\<open>PolyORB.Utils.Strings.To_Boolean\<close>.\<close>

definition To_Boolean :: "string \<Rightarrow> bool result" where
  "To_Boolean V = (let VV = To_Lower V in
     case VV of [] \<Rightarrow> Inl Constraint_Error
     | c # _ \<Rightarrow>
       if c = CHR ''0'' \<or> c = CHR ''n'' then Inr False
       else if c = CHR ''1'' \<or> c = CHR ''y'' then Inr True
       else if c = CHR ''o'' then (if VV = ''off'' then Inr False else if VV = ''on'' then Inr True else Inl Constraint_Error)
       else if c = CHR ''d'' then (if VV = ''disable'' then Inr False else Inl Constraint_Error)
       else if c = CHR ''e'' then (if VV = ''enable'' then Inr True else Inl Constraint_Error)
       else if c = CHR ''f'' then (if VV = ''false'' then Inr False else Inl Constraint_Error)
       else if c = CHR ''t'' then (if VV = ''true'' then Inr True else Inl Constraint_Error)
       else Inl Constraint_Error)"

section \<open>Modules\<close>

text \<open>An exception with its message; the exceptions of the language's own checks have an empty one here.\<close>

type_synonym exception = "ada_error \<times> string"

record 'w Module_Info =
  Name :: string
  Provides :: "string list"
  Depends :: "string list"
  Conflicts :: "string list"
  Init :: "('w \<Rightarrow> (exception + unit) \<times> 'w) option"
  Implicit :: bool
  Shutdown :: "(bool \<Rightarrow> 'w \<Rightarrow> (exception + unit) \<times> 'w) option"

type_synonym Module_Access = nat

record Dependency =
  Target :: Module_Access
  Optional :: bool

text \<open>The variant part of a module: its description, or the name of a virtual module.\<close>

datatype 'w variant = Info "'w Module_Info" | Virtual_Name string

record 'w Module =
  Deps :: "Dependency list"
  Visited :: bool
  Initialized :: bool
  Deps_In_Progress :: bool
  variant_part :: "'w variant"

definition new_Module :: "'w variant \<Rightarrow> 'w Module" where
  "new_Module v = \<lparr>Deps = [], Visited = False, Initialized = False, Deps_In_Progress = False, variant_part = v\<rparr>"

text \<open>The calls that the package makes to the procedures of the modules, a history that the code does not read.\<close>

datatype module_call = Init_Call Module_Access | Shutdown_Call Module_Access bool

text \<open>
  The variables of the package: \<open>Init_Done\<close> is the code's \<open>Initialized\<close>, \<open>Allocated\<close> says whether
  \<open>Init_Info\<close> is not null; \<open>the_modules\<close> are the modules allocated so far.
\<close>

record 'w Init_State =
  Init_Done :: bool
  Allocated :: bool
  World :: "Module_Access list"
  Shutdown_Order :: "Module_Access list"
  Implicit_Deps :: "Dependency list"
  the_modules :: "'w Module list"
  world :: 'w
  calls :: "module_call list"

type_synonym 'w hook = "'w \<Rightarrow> (string \<Rightarrow> string \<Rightarrow> string \<Rightarrow> exception + string) option"

definition elaborated :: "'w \<Rightarrow> 'w Init_State" where
  "elaborated w = \<lparr>Init_Done = False, Allocated = False, World = [], Shutdown_Order = [], Implicit_Deps = [],
     the_modules = [], world = w, calls = []\<rparr>"

definition the_module :: "'w Init_State \<Rightarrow> Module_Access \<Rightarrow> 'w Module" where
  "the_module S M = the_modules S ! M"

definition update :: "Module_Access \<Rightarrow> ('w Module \<Rightarrow> 'w Module) \<Rightarrow> 'w Init_State \<Rightarrow> 'w Init_State" where
  "update M f S = S\<lparr>the_modules := (the_modules S)[M := f (the_modules S ! M)]\<rparr>"

fun is_virtual :: "'w variant \<Rightarrow> bool" where
  "is_virtual (Info i) = False"
| "is_virtual (Virtual_Name n) = True"

fun variant_name :: "'w variant \<Rightarrow> string" where
  "variant_name (Info i) = Name i"
| "variant_name (Virtual_Name n) = n"

abbreviation Virtual :: "'w Init_State \<Rightarrow> Module_Access \<Rightarrow> bool" where
  "Virtual S M \<equiv> is_virtual (variant_part (the_module S M))"

definition Module_Name :: "'w Init_State \<Rightarrow> Module_Access \<Rightarrow> string" where
  "Module_Name S M = variant_name (variant_part (the_module S M))"

definition Raise_Program_Error :: "string \<Rightarrow> exception + 'a" where
  "Raise_Program_Error Msg = Inl (Program_Error, Msg)"

definition unresolved_message :: "string \<Rightarrow> string \<Rightarrow> string" where
  "unresolved_message From Upon = ''Unresolved dependency: '' @ From @ '' -> '' @ Upon"

definition Raise_Unresolved_Dependency :: "string \<Rightarrow> string \<Rightarrow> exception + 'a" where
  "Raise_Unresolved_Dependency From Upon = Raise_Program_Error (unresolved_message From Upon)"

section \<open>Registration\<close>

text \<open>A loop over a list that the first exception leaves, with the state at that point.\<close>

fun for_each :: "('a \<Rightarrow> 's \<Rightarrow> (exception + unit) \<times> 's) \<Rightarrow> 'a list \<Rightarrow> 's \<Rightarrow> (exception + unit) \<times> 's" where
  "for_each f [] S = (Inr (), S)"
| "for_each f (x # xs) S = (case f x S of
     (Inl e, S1) \<Rightarrow> (Inl e, S1)
   | (Inr _, S1) \<Rightarrow> for_each f xs S1)"

lemma for_each_rule:
  assumes "for_each f xs S = (r, S')" "I S"
    and "\<And>x S r S'. x \<in> set xs \<Longrightarrow> I S \<Longrightarrow> f x S = (r, S') \<Longrightarrow> I S' \<and> R S S' \<and> (r = Inr () \<longrightarrow> P x S')"
    and "\<And>S. R S S" "\<And>S S1 S2. R S S1 \<Longrightarrow> R S1 S2 \<Longrightarrow> R S S2"
    and "\<And>x S S'. x \<in> set xs \<Longrightarrow> I S \<Longrightarrow> I S' \<Longrightarrow> R S S' \<Longrightarrow> P x S \<Longrightarrow> P x S'"
  shows "I S' \<and> R S S' \<and> (r = Inr () \<longrightarrow> (\<forall>x\<in>set xs. P x S'))"
  using assms
proof (induction xs arbitrary: S)
  case (Cons x xs)
  obtain q S1 where f: "f x S = (q, S1)" by fastforce
  have x: "I S1 \<and> R S S1 \<and> (q = Inr () \<longrightarrow> P x S1)"
    using Cons.prems(2,3) f by auto
  show ?case
  proof (cases q)
    case (Inl e)
    then show ?thesis
      using Cons.prems(1) f x by auto
  next
    case (Inr u)
    have "I S' \<and> R S1 S' \<and> (r = Inr () \<longrightarrow> (\<forall>x\<in>set xs. P x S'))"
    proof (rule Cons.IH)
      show "for_each f xs S1 = (r, S')"
        using Cons.prems(1) f Inr by simp
      show "I S' \<and> R S S' \<and> (r = Inr () \<longrightarrow> P x S')" if "x \<in> set xs" "I S" "f x S = (r, S')" for x S r S'
        using that by (intro Cons.prems(3)) auto
      show "P x S'" if "x \<in> set xs" "I S" "I S'" "R S S'" "P x S" for x S S'
        using that Cons.prems(6) by simp
    qed (use x Cons.prems(4,5) in auto)
    then show ?thesis
      using x Inr Cons.prems(5) Cons.prems(6) [of x S1 S'] by auto
  qed
qed auto

fun lookup_loop :: "'w Init_State \<Rightarrow> string \<Rightarrow> Module_Access list \<Rightarrow> Module_Access option" where
  "lookup_loop S N [] = None"
| "lookup_loop S N (M # Ms) = (if Module_Name S M = N then Some M else lookup_loop S N Ms)"

definition Lookup_Module :: "'w Init_State \<Rightarrow> string \<Rightarrow> Module_Access option" where
  "Lookup_Module S N = lookup_loop S N (World S)"

definition Check_Duplicate :: "'w Init_State \<Rightarrow> string \<Rightarrow> exception + unit" where
  "Check_Duplicate S N =
     (if Lookup_Module S N \<noteq> None then Raise_Program_Error (''Conflict: '' @ N @ '' already registered.'') else Inr ())"

text \<open>\<open>new Module\<close>: the access of a new module is the first that is not in use.\<close>

definition allocate :: "'w variant \<Rightarrow> 'w Init_State \<Rightarrow> Module_Access \<times> 'w Init_State" where
  "allocate v S = (length (the_modules S), S\<lparr>the_modules := the_modules S @ [new_Module v]\<rparr>)"

definition Register_Module :: "'w Module_Info \<Rightarrow> 'w Init_State \<Rightarrow> (exception + unit) \<times> 'w Init_State" where
  "Register_Module I S =
     (if Init_Done S then (Raise_Program_Error (''Initialization already done, cannot register '' @ Name I), S)
      else let S0 = (if Allocated S then S else S\<lparr>Allocated := True\<rparr>);
               (New_M, S1) = allocate (Info I) S0 in
        case Check_Duplicate S1 (Name I) of
          Inl e \<Rightarrow> (Inl e, S1)
        | Inr _ \<Rightarrow>
            let S2 = S1\<lparr>World := World S1 @ [New_M]\<rparr> in
            (Inr (), if Implicit I
                     then S2\<lparr>Implicit_Deps := Implicit_Deps S2 @ [\<lparr>Target = New_M, Optional = True\<rparr>]\<rparr>
                     else S2))"

section \<open>Conflicts\<close>

definition set_conflicts :: "string \<Rightarrow> 'w Module \<Rightarrow> 'w Module" where
  "set_conflicts N M = (case variant_part M of
       Info i \<Rightarrow> M\<lparr>variant_part := Info (i\<lparr>Conflicts := Conflicts i @ [N]\<rparr>)\<rparr>
     | Virtual_Name _ \<Rightarrow> M)"

definition prepend_dep :: "Dependency \<Rightarrow> 'w Module \<Rightarrow> 'w Module" where
  "prepend_dep D M = M\<lparr>Deps := D # Deps M\<rparr>"

text \<open>One name that the current module provides. An empty name has no last character.\<close>

definition register_alias :: "Module_Access \<Rightarrow> string \<Rightarrow> 'w Init_State \<Rightarrow> (exception + unit) \<times> 'w Init_State" where
  "register_alias Current N S =
     (if N = [] then (Inl (Constraint_Error, []), S)
      else let N' = (if last N = CHR ''!'' then butlast N else N);
               S1 = (if last N = CHR ''!'' then update Current (set_conflicts N') S else S) in
        case Lookup_Module S1 N' of
          Some V \<Rightarrow> (Inr (), update V (prepend_dep \<lparr>Target = Current, Optional = False\<rparr>) S1)
        | None \<Rightarrow>
            let (V, S2) = allocate (Virtual_Name N') S1 in
            case Check_Duplicate S2 N' of
              Inl e \<Rightarrow> (Inl e, S2)
            | Inr _ \<Rightarrow>
                (Inr (), update V (prepend_dep \<lparr>Target = Current, Optional = False\<rparr>) (S2\<lparr>World := World S2 @ [V]\<rparr>)))"

text \<open>
  The first loop walks the list while modules are appended to it; they are virtual, and the loop ends at the
  first virtual module, so that it runs over the real modules at the front of the list as it was.
\<close>

definition register_aliases :: "Module_Access \<Rightarrow> 'w Init_State \<Rightarrow> (exception + unit) \<times> 'w Init_State" where
  "register_aliases Current S = (case variant_part (the_module S Current) of
     Virtual_Name _ \<Rightarrow> (Inr (), S)
   | Info i \<Rightarrow> for_each (register_alias Current) (Provides i) S)"

definition register_loop :: "'w Init_State \<Rightarrow> (exception + unit) \<times> 'w Init_State" where
  "register_loop S = for_each register_aliases (takeWhile (\<lambda>M. \<not> Virtual S M) (World S)) S"

text \<open>One name of the conflicts list of the current module. A virtual module without providers has no first one.\<close>

definition check_conflict :: "'w Init_State \<Rightarrow> Module_Access \<Rightarrow> string \<Rightarrow> exception + unit" where
  "check_conflict S Current N = (case Lookup_Module S N of
     None \<Rightarrow> Inr ()
   | Some Conflicting \<Rightarrow>
       if Virtual S Conflicting
       then (case Deps (the_module S Conflicting) of
           [] \<Rightarrow> Inl (Erroneous_Access, [])
         | D # Ds \<Rightarrow>
             if Target D = Current \<and> Ds = [] then Inr ()
             else Raise_Program_Error (''Conflict between '' @ Module_Name S Current @ '' and ''
                    @ Module_Name S Conflicting @ '' provided by '' @ Module_Name S (Target D)))
       else Raise_Program_Error (''Conflict between '' @ Module_Name S Current @ '' and '' @ Module_Name S Conflicting))"

fun check_conflict_list :: "'w Init_State \<Rightarrow> Module_Access \<Rightarrow> string list \<Rightarrow> exception + unit" where
  "check_conflict_list S Current [] = Inr ()"
| "check_conflict_list S Current (N # Ns) = on_ok (check_conflict S Current N) (\<lambda>_. check_conflict_list S Current Ns)"

fun conflicts_loop :: "'w Init_State \<Rightarrow> Module_Access list \<Rightarrow> exception + unit" where
  "conflicts_loop S [] = Inr ()"
| "conflicts_loop S (Current # Ms) = (case variant_part (the_module S Current) of
     Virtual_Name _ \<Rightarrow> conflicts_loop S Ms
   | Info i \<Rightarrow> on_ok (check_conflict_list S Current (Conflicts i)) (\<lambda>_. conflicts_loop S Ms))"

definition Check_Conflicts :: "'w Init_State \<Rightarrow> (exception + unit) \<times> 'w Init_State" where
  "Check_Conflicts S = (case register_loop S of
     (Inl e, S1) \<Rightarrow> (Inl e, S1)
   | (Inr _, S1) \<Rightarrow> (conflicts_loop S1 (World S1), S1))"

section \<open>Dependencies\<close>

text \<open>A name in a list of dependencies: the module, and whether a question mark makes it optional.\<close>

definition optional_name :: "string \<Rightarrow> bool" where
  "optional_name N \<longleftrightarrow> N \<noteq> [] \<and> last N = CHR ''?''"

definition target_name :: "string \<Rightarrow> string" where
  "target_name N = (if optional_name N then butlast N else N)"

fun prepend_all :: "Module_Access \<Rightarrow> Dependency list \<Rightarrow> 'w Init_State \<Rightarrow> 'w Init_State" where
  "prepend_all Current [] S = S"
| "prepend_all Current (D # Ds) S = prepend_all Current Ds (update Current (prepend_dep D) S)"

definition resolve_name :: "Module_Access \<Rightarrow> bool \<Rightarrow> string \<Rightarrow> 'w Init_State \<Rightarrow> (exception + unit) \<times> 'w Init_State" where
  "resolve_name Current impl N S =
     (let S2 = \<lambda>S1. (if \<not> impl then prepend_all Current (Implicit_Deps S1) S1 else S1) in
      case Lookup_Module S (target_name N) of
        Some Dep_Module \<Rightarrow>
          (Inr (), S2 (update Current (prepend_dep \<lparr>Target = Dep_Module, Optional = optional_name N\<rparr>) S))
      | None \<Rightarrow>
          if \<not> optional_name N then (Raise_Unresolved_Dependency (Module_Name S Current) N, S)
          else (Inr (), S2 S))"

definition resolve_module :: "Module_Access \<Rightarrow> 'w Init_State \<Rightarrow> (exception + unit) \<times> 'w Init_State" where
  "resolve_module Current S = (case variant_part (the_module S Current) of
     Virtual_Name _ \<Rightarrow> (Inr (), S)
   | Info i \<Rightarrow> for_each (resolve_name Current (Implicit i)) (Depends i) S)"

definition Resolve_Dependencies :: "'w Init_State \<Rightarrow> (exception + unit) \<times> 'w Init_State" where
  "Resolve_Dependencies S = for_each resolve_module (World S) S"

section \<open>Initialization\<close>

text \<open>Whether the configuration, once it is available, enables a module.\<close>

definition module_enabled :: "'w hook \<Rightarrow> 'w \<Rightarrow> string \<Rightarrow> exception + bool" where
  "module_enabled H w N = (case H w of
     None \<Rightarrow> Inr True
   | Some g \<Rightarrow> on_ok (g ''modules'' N ''enable'')
       (\<lambda>V. case To_Boolean V of Inl e \<Rightarrow> Inl (e, []) | Inr b \<Rightarrow> Inr b))"

text \<open>The call of an initializer; a null one fails the access check.\<close>

definition call_Init :: "Module_Access \<Rightarrow> 'w Module_Info \<Rightarrow> 'w Init_State \<Rightarrow> (exception + unit) \<times> 'w Init_State" where
  "call_Init M i S = (case Init i of
     None \<Rightarrow> (Inl (Constraint_Error, []), S)
   | Some p \<Rightarrow> let (r, w) = p (world S) in (r, S\<lparr>world := w, calls := calls S @ [Init_Call M]\<rparr>))"

definition set_visited :: "Module_Access \<Rightarrow> 'w Init_State \<Rightarrow> 'w Init_State" where
  "set_visited M = update M (\<lambda>m. m\<lparr>Visited := True\<rparr>)"

definition set_initialized :: "Module_Access \<Rightarrow> bool \<Rightarrow> 'w Init_State \<Rightarrow> 'w Init_State" where
  "set_initialized M b = update M (\<lambda>m. m\<lparr>Initialized := b\<rparr>)"

definition set_in_progress :: "Module_Access \<Rightarrow> bool \<Rightarrow> 'w Init_State \<Rightarrow> 'w Init_State" where
  "set_in_progress M b = update M (\<lambda>m. m\<lparr>Deps_In_Progress := b\<rparr>)"

text \<open>
  What \<open>Visit\<close> does after the traversal of the dependencies. A module that is not enabled is left as it
  is. The result is \<open>Circular_Dependency_Detected\<close>, which is false here.
\<close>

definition Visit_module ::
    "'w hook \<Rightarrow> Module_Access \<Rightarrow> bool \<Rightarrow> 'w Init_State \<Rightarrow> (exception + bool) \<times> 'w Init_State" where
  "Visit_module H M One_Dep_Initialized S = (case module_enabled H (world S) (Module_Name S M) of
     Inl e \<Rightarrow> (Inl e, S)
   | Inr False \<Rightarrow> (Inr False, S)
   | Inr True \<Rightarrow> (case variant_part (the_module S M) of
         Virtual_Name _ \<Rightarrow> (Inr False, set_visited M (set_initialized M One_Dep_Initialized S))
       | Info i \<Rightarrow> (case call_Init M i S of
             (Inl e, S1) \<Rightarrow> (Inl e, S1)
           | (Inr _, S1) \<Rightarrow>
               let S2 = set_initialized M True S1;
                   S3 = (if Shutdown i \<noteq> None then S2\<lparr>Shutdown_Order := M # Shutdown_Order S2\<rparr> else S2) in
               (Inr False, set_visited M S3))))"

text \<open>How the loop over the dependencies ends: by the return for a cycle, or at its end with \<open>One_Dep_Initialized\<close>.\<close>

datatype loop_exit = Cycle_Found | Loop_End bool

text \<open>
  \<open>Visit\<close> and its loop. The first number bounds the depth of the recursion, and \<open>None\<close> is the value when it
  is exhausted, which the theorems below exclude. A module that is found in progress is reported
  by the name in its \<open>Info\<close>, a component that a virtual module does not have.
\<close>

fun Visit :: "'w hook \<Rightarrow> nat \<Rightarrow> Module_Access \<Rightarrow> 'w Init_State \<Rightarrow> ((exception + bool) \<times> 'w Init_State) option"
and Visit_deps :: "'w hook \<Rightarrow> nat \<Rightarrow> Module_Access \<Rightarrow> Dependency list \<Rightarrow> bool \<Rightarrow> 'w Init_State
       \<Rightarrow> ((exception + loop_exit) \<times> 'w Init_State) option" where
  "Visit H 0 M S = None"
| "Visit H (Suc n) M S =
     (if Deps_In_Progress (the_module S M)
      then Some (if Virtual S M then Inl (Constraint_Error, []) else Inr True, S)
      else case Visit_deps H n M (Deps (the_module S M)) False (set_in_progress M True S) of
          None \<Rightarrow> None
        | Some (Inl e, S1) \<Rightarrow> Some (Inl e, S1)
        | Some (Inr Cycle_Found, S1) \<Rightarrow> Some (Inr True, S1)
        | Some (Inr (Loop_End One_Dep_Initialized), S1) \<Rightarrow>
            Some (Visit_module H M One_Dep_Initialized (set_in_progress M False S1)))"
| "Visit_deps H n M [] One_Dep_Initialized S = Some (Inr (Loop_End One_Dep_Initialized), S)"
| "Visit_deps H n M (Dep # Ds) One_Dep_Initialized S =
     (if Visited (the_module S (Target Dep))
      then Visit_deps H n M Ds (Initialized (the_module S (Target Dep)) \<or> One_Dep_Initialized) S
      else case Visit H n (Target Dep) S of
          None \<Rightarrow> None
        | Some (Inl e, S1) \<Rightarrow> Some (Inl e, S1)
        | Some (Inr True, S1) \<Rightarrow> Some (Inr Cycle_Found, S1)
        | Some (Inr False, S1) \<Rightarrow>
            if \<not> (Optional Dep \<or> Virtual S1 M \<or> Initialized (the_module S1 (Target Dep)))
            then Some (Raise_Unresolved_Dependency (Module_Name S1 M) (Module_Name S1 (Target Dep)), S1)
            else Visit_deps H n M Ds (Initialized (the_module S1 (Target Dep)) \<or> One_Dep_Initialized) S1)"

text \<open>The depth of the recursion is at most the number of modules, and one more call finds a cycle.\<close>

definition depth_bound :: "'w Init_State \<Rightarrow> nat" where
  "depth_bound S = Suc (length (the_modules S))"

fun initializers_loop :: "'w hook \<Rightarrow> Module_Access list \<Rightarrow> 'w Init_State \<Rightarrow> ((exception + unit) \<times> 'w Init_State) option" where
  "initializers_loop H [] S = Some (Inr (), S)"
| "initializers_loop H (M # Ms) S =
     (if Visited (the_module S M) then initializers_loop H Ms S
      else case Visit H (depth_bound S) M S of
          None \<Rightarrow> None
        | Some (Inl e, S1) \<Rightarrow> Some (Inl e, S1)
        | Some (Inr True, S1) \<Rightarrow> Some (Raise_Program_Error ''Circular dependency detected'', S1)
        | Some (Inr False, S1) \<Rightarrow> initializers_loop H Ms S1)"

definition Run_Initializers :: "'w hook \<Rightarrow> 'w Init_State \<Rightarrow> ((exception + unit) \<times> 'w Init_State) option" where
  "Run_Initializers H S = initializers_loop H (World S) S"

definition Initialize_World :: "'w hook \<Rightarrow> 'w Init_State \<Rightarrow> ((exception + unit) \<times> 'w Init_State) option" where
  "Initialize_World H S =
     (if Init_Done S then Some (Raise_Program_Error ''Already initialized'', S)
      else if \<not> Allocated S then Some (Inr (), S\<lparr>Init_Done := True\<rparr>)
      else case Check_Conflicts S of
          (Inl e, S1) \<Rightarrow> Some (Inl e, S1)
        | (Inr _, S1) \<Rightarrow> (case Resolve_Dependencies S1 of
              (Inl e, S2) \<Rightarrow> Some (Inl e, S2)
            | (Inr _, S2) \<Rightarrow> (case Run_Initializers H S2 of
                  None \<Rightarrow> None
                | Some (Inl e, S3) \<Rightarrow> Some (Inl e, S3)
                | Some (Inr _, S3) \<Rightarrow> Some (Inr (), S3\<lparr>Init_Done := True\<rparr>))))"

definition Is_Initialized :: "'w Init_State \<Rightarrow> bool" where
  "Is_Initialized S = Init_Done S"

section \<open>Shutdown\<close>

text \<open>
  The modules in the list have a finalizer; one that is null would fail the access check. A finalizer that
  raises leaves the rest of the list for a later call. Without any registered module \<open>Init_Info\<close> is null.
\<close>

fun finalizers_loop :: "bool \<Rightarrow> Module_Access list \<Rightarrow> 'w Init_State \<Rightarrow> (exception + unit) \<times> 'w Init_State" where
  "finalizers_loop Wait [] S = (Inr (), S\<lparr>Shutdown_Order := []\<rparr>)"
| "finalizers_loop Wait (M # Ms) S =
     (let S0 = S\<lparr>Shutdown_Order := Ms\<rparr> in
      case variant_part (the_module S0 M) of
        Virtual_Name _ \<Rightarrow> (Inl (Constraint_Error, []), S0)
      | Info i \<Rightarrow> (case Shutdown i of
            None \<Rightarrow> (Inl (Constraint_Error, []), S0)
          | Some p \<Rightarrow> (case p Wait (world S0) of
                (Inl e, w) \<Rightarrow> (Inl e, S0\<lparr>world := w, calls := calls S0 @ [Shutdown_Call M Wait]\<rparr>)
              | (Inr _, w) \<Rightarrow> finalizers_loop Wait Ms (S0\<lparr>world := w, calls := calls S0 @ [Shutdown_Call M Wait]\<rparr>))))"

definition Shutdown_World :: "bool \<Rightarrow> 'w Init_State \<Rightarrow> (exception + unit) \<times> 'w Init_State" where
  "Shutdown_World Wait_For_Completion S =
     (if \<not> Allocated S then (Inl (Constraint_Error, []), S)
      else finalizers_loop Wait_For_Completion (Shutdown_Order S) S)"

section \<open>What the traversal leaves unchanged\<close>

definition static :: "'w Init_State \<Rightarrow> _" where
  "static S = (map (\<lambda>m. (Deps m, variant_part m)) (the_modules S), World S, Implicit_Deps S, Init_Done S, Allocated S)"

definition in_progress :: "'w Init_State \<Rightarrow> bool list" where
  "in_progress S = map Deps_In_Progress (the_modules S)"

abbreviation count :: "'w Init_State \<Rightarrow> nat" where
  "count S \<equiv> length (the_modules S)"

lemma the_module_update:
  "the_module (update k f S) m = (if m = k \<and> k < count S then f (the_module S k) else the_module S m)"
  by (auto simp: the_module_def update_def nth_list_update list_update_beyond)

lemma update_sel [simp]:
  "World (update k f S) = World S" "Implicit_Deps (update k f S) = Implicit_Deps S"
  "Init_Done (update k f S) = Init_Done S" "Allocated (update k f S) = Allocated S"
  "world (update k f S) = world S" "calls (update k f S) = calls S" "Shutdown_Order (update k f S) = Shutdown_Order S"
  "count (update k f S) = count S"
  by (simp_all add: update_def)

lemma the_module_upd [simp]:
  "the_module (S\<lparr>world := w\<rparr>) = the_module S" "the_module (S\<lparr>calls := c\<rparr>) = the_module S"
  "the_module (S\<lparr>Shutdown_Order := q\<rparr>) = the_module S" "the_module (S\<lparr>World := l\<rparr>) = the_module S"
  "the_module (S\<lparr>Implicit_Deps := d\<rparr>) = the_module S" "the_module (S\<lparr>Init_Done := b\<rparr>) = the_module S"
  "the_module (S\<lparr>Allocated := b\<rparr>) = the_module S"
  by (simp_all add: the_module_def fun_eq_iff)

lemma static_update:
  assumes "\<And>m. Deps (f m) = Deps m \<and> variant_part (f m) = variant_part m"
  shows "static (update k f S) = static S"
  by (simp add: static_def update_def map_update_unchanged assms)

lemma static_flags [simp]:
  "static (set_visited k S) = static S" "static (set_initialized k b S) = static S" "static (set_in_progress k b S) = static S"
  by (simp_all add: set_visited_def set_initialized_def set_in_progress_def static_update)

lemma static_other [simp]:
  "static (S\<lparr>world := w\<rparr>) = static S" "static (S\<lparr>calls := c\<rparr>) = static S" "static (S\<lparr>Shutdown_Order := q\<rparr>) = static S"
  by (simp_all add: static_def)

lemma in_progress_update:
  assumes "\<And>m. Deps_In_Progress (f m) = Deps_In_Progress m"
  shows "in_progress (update k f S) = in_progress S"
  by (simp add: in_progress_def update_def map_update_unchanged assms)

lemma in_progress_flags [simp]:
  "in_progress (set_visited k S) = in_progress S" "in_progress (set_initialized k b S) = in_progress S"
  "in_progress (S\<lparr>world := w\<rparr>) = in_progress S" "in_progress (S\<lparr>calls := c\<rparr>) = in_progress S"
  "in_progress (S\<lparr>Shutdown_Order := q\<rparr>) = in_progress S"
  by (simp_all add: set_visited_def set_initialized_def in_progress_update) (simp_all add: in_progress_def)

lemma in_progress_set: "in_progress (set_in_progress k b S) = (in_progress S)[k := b]"
  by (simp add: in_progress_def set_in_progress_def update_def map_update)

lemma static_count: "static S = static S' \<Longrightarrow> count S = count S'"
  by (drule arg_cong [where f = "\<lambda>x. length (fst x)"]) (simp add: static_def)

lemma static_nth:
  assumes "static S = static S'" "m < count S"
  shows "Deps (the_module S m) = Deps (the_module S' m) \<and> variant_part (the_module S m) = variant_part (the_module S' m)"
proof -
  have "map (\<lambda>m. (Deps m, variant_part m)) (the_modules S) ! m = map (\<lambda>m. (Deps m, variant_part m)) (the_modules S') ! m"
    using assms(1) by (simp add: static_def)
  then show ?thesis
    using assms static_count [OF assms(1)] by (simp add: the_module_def)
qed

lemma static_World: "static S = static S' \<Longrightarrow> World S = World S'"
  by (simp add: static_def)

lemma call_Init_static:
  "call_Init M i S = (r, S') \<Longrightarrow> static S' = static S \<and> in_progress S' = in_progress S"
  by (auto simp: call_Init_def split: option.splits prod.splits)

lemma Visit_module_static:
  "Visit_module H M b S = (r, S') \<Longrightarrow> static S' = static S \<and> in_progress S' = in_progress S"
  by (auto simp: Visit_module_def Let_def dest: call_Init_static
      split: sum.splits bool.splits variant.splits prod.splits if_splits)

section \<open>The traversal as a big-step relation\<close>

text \<open>
  One rule for each way in which \<open>Visit\<close> and its loop end, without the bound on the depth. The proofs
  about the traversal are rule inductions over it.
\<close>

inductive visits :: "'w hook \<Rightarrow> Module_Access \<Rightarrow> 'w Init_State \<Rightarrow> exception + bool \<Rightarrow> 'w Init_State \<Rightarrow> bool"
  and visits_deps :: "'w hook \<Rightarrow> Module_Access \<Rightarrow> Dependency list \<Rightarrow> bool \<Rightarrow> 'w Init_State
      \<Rightarrow> exception + loop_exit \<Rightarrow> 'w Init_State \<Rightarrow> bool"
  for H :: "'w hook" where
  busy: "Deps_In_Progress (the_module S M)
    \<Longrightarrow> visits H M S (if Virtual S M then Inl (Constraint_Error, []) else Inr True) S"
| failed: "\<not> Deps_In_Progress (the_module S M)
    \<Longrightarrow> visits_deps H M (Deps (the_module S M)) False (set_in_progress M True S) (Inl e) S1
    \<Longrightarrow> visits H M S (Inl e) S1"
| circular: "\<not> Deps_In_Progress (the_module S M)
    \<Longrightarrow> visits_deps H M (Deps (the_module S M)) False (set_in_progress M True S) (Inr Cycle_Found) S1
    \<Longrightarrow> visits H M S (Inr True) S1"
| finished: "\<not> Deps_In_Progress (the_module S M)
    \<Longrightarrow> visits_deps H M (Deps (the_module S M)) False (set_in_progress M True S) (Inr (Loop_End b)) S1
    \<Longrightarrow> Visit_module H M b (set_in_progress M False S1) = (r, S2)
    \<Longrightarrow> visits H M S r S2"
| loop_end: "visits_deps H M [] b S (Inr (Loop_End b)) S"
| known: "Visited (the_module S (Target D))
    \<Longrightarrow> visits_deps H M Ds (Initialized (the_module S (Target D)) \<or> b) S q S1
    \<Longrightarrow> visits_deps H M (D # Ds) b S q S1"
| dep_failed: "\<not> Visited (the_module S (Target D)) \<Longrightarrow> visits H (Target D) S (Inl e) S1
    \<Longrightarrow> visits_deps H M (D # Ds) b S (Inl e) S1"
| dep_circular: "\<not> Visited (the_module S (Target D)) \<Longrightarrow> visits H (Target D) S (Inr True) S1
    \<Longrightarrow> visits_deps H M (D # Ds) b S (Inr Cycle_Found) S1"
| unresolved: "\<not> Visited (the_module S (Target D)) \<Longrightarrow> visits H (Target D) S (Inr False) S1
    \<Longrightarrow> \<not> (Optional D \<or> Virtual S1 M \<or> Initialized (the_module S1 (Target D)))
    \<Longrightarrow> visits_deps H M (D # Ds) b S (Inl (Program_Error, unresolved_message (Module_Name S1 M) (Module_Name S1 (Target D)))) S1"
| resolved: "\<not> Visited (the_module S (Target D)) \<Longrightarrow> visits H (Target D) S (Inr False) S1
    \<Longrightarrow> Optional D \<or> Virtual S1 M \<or> Initialized (the_module S1 (Target D))
    \<Longrightarrow> visits_deps H M Ds (Initialized (the_module S1 (Target D)) \<or> b) S1 q S2
    \<Longrightarrow> visits_deps H M (D # Ds) b S q S2"

lemma Visit_visits:
  "Visit H k M S = Some (r, S') \<Longrightarrow> visits H M S r S'"
  "Visit_deps H k M Ds b S = Some (q, S') \<Longrightarrow> visits_deps H M Ds b S q S'"
proof (induction H k M S and H k M Ds b S arbitrary: r S' and q S' rule: Visit_Visit_deps.induct)
  case (2 H n M S)
  show ?case
  proof (cases "Deps_In_Progress (the_module S M)")
    case True
    then show ?thesis
      using 2(2) busy [of S M H] by (auto split: if_splits)
  next
    case False
    from 2(2) False obtain q S1 where V: "Visit_deps H n M (Deps (the_module S M)) False (set_in_progress M True S) = Some (q, S1)"
      by (auto split: option.splits)
    have IH: "visits_deps H M (Deps (the_module S M)) False (set_in_progress M True S) q S1"
      by (rule 2(1) [OF False V])
    show ?thesis
      using 2(2) False V IH by (auto split: sum.splits loop_exit.splits intro: failed circular finished)
  qed
next
  case (3 H n M b S)
  then show ?case
    by (auto intro: loop_end)
next
  case (4 H n M D Ds b S)
  show ?case
  proof (cases "Visited (the_module S (Target D))")
    case True
    then show ?thesis
      using 4(1,4) by (auto intro: known)
  next
    case False
    from 4(4) False obtain r S1 where V: "Visit H n (Target D) S = Some (r, S1)"
      by (auto split: option.splits)
    have IH: "visits H (Target D) S r S1"
      by (rule 4(2) [OF False V])
    show ?thesis
      using 4(3) [OF False V] 4(4) False V IH
      by (auto simp: Raise_Unresolved_Dependency_def Raise_Program_Error_def split: sum.splits bool.splits if_splits
          intro: dep_failed dep_circular unresolved resolved)
  qed
qed simp

lemma visits_static:
  "visits H M S r S' \<Longrightarrow> static S' = static S \<and> (r = Inr False \<longrightarrow> in_progress S' = in_progress S)"
  "visits_deps H M Ds b S q S' \<Longrightarrow> static S' = static S \<and> ((\<exists>b'. q = Inr (Loop_End b')) \<longrightarrow> in_progress S' = in_progress S)"
proof (induction rule: visits_visits_deps.inducts)
  case (finished S M b S1 r S2)
  have reset: "(in_progress S)[M := True, M := False] = in_progress S"
    using finished(1) by (cases "M < count S") (auto simp: in_progress_def the_module_def list_update_same_conv list_update_beyond)
  show ?case
    using finished Visit_module_static [OF finished(4)] reset by (auto simp: in_progress_set)
qed auto


section \<open>The traversal ends\<close>

definition deps_closed :: "'w Init_State \<Rightarrow> bool" where
  "deps_closed S \<longleftrightarrow> (\<forall>m < count S. \<forall>D \<in> set (Deps (the_module S m)). Target D < count S)"

lemma deps_closed_static: "static S' = static S \<Longrightarrow> deps_closed S' = deps_closed S"
  using static_count [of S' S] static_nth [of S' S] by (simp add: deps_closed_def)

lemma deps_closedD: "deps_closed S \<Longrightarrow> m < count S \<Longrightarrow> D \<in> set (Deps (the_module S m)) \<Longrightarrow> Target D < count S"
  by (simp add: deps_closed_def)

definition idle :: "bool list \<Rightarrow> nat set" where
  "idle p = {m. m < length p \<and> \<not> p ! m}"

lemma finite_idle [simp]: "finite (idle p)"
  by (simp add: idle_def)

lemma card_idle_mark: "m < length p \<Longrightarrow> \<not> p ! m \<Longrightarrow> card (idle p) = Suc (card (idle (p[m := True])))"
proof -
  assume m: "m < length p" "\<not> p ! m"
  then have "idle (p[m := True]) = idle p - {m}"
    by (auto simp: idle_def nth_list_update)
  moreover have "m \<in> idle p"
    using m by (simp add: idle_def)
  ultimately show ?thesis
    using card_Suc_Diff1 [of "idle p" m] by simp
qed

lemma in_progress_nth: "m < count S \<Longrightarrow> in_progress S ! m = Deps_In_Progress (the_module S m)"
  by (simp add: in_progress_def the_module_def)

lemma length_in_progress [simp]: "length (in_progress S) = count S"
  by (simp add: in_progress_def)

lemma count_flags [simp]:
  "count (set_visited k S) = count S" "count (set_initialized k b S) = count S" "count (set_in_progress k b S) = count S"
  by (simp_all add: set_visited_def set_initialized_def set_in_progress_def)

lemma Visit_returns:
  "deps_closed S \<Longrightarrow> M < count S \<Longrightarrow> card (idle (in_progress S)) < k \<Longrightarrow> \<exists>x. Visit H k M S = Some x"
  "deps_closed S \<Longrightarrow> \<forall>D\<in>set Ds. Target D < count S \<Longrightarrow> card (idle (in_progress S)) < k
     \<Longrightarrow> \<exists>x. Visit_deps H k M Ds b S = Some x"
proof (induction H k M S and H k M Ds b S rule: Visit_Visit_deps.induct)
  case (2 H n M S)
  show ?case
  proof (cases "Deps_In_Progress (the_module S M)")
    case False
    let ?S0 = "set_in_progress M True S"
    have "card (idle (in_progress S)) = Suc (card (idle (in_progress ?S0)))"
      using 2(3) False card_idle_mark [of M "in_progress S"] by (simp add: in_progress_set in_progress_nth)
    then have fuel: "card (idle (in_progress ?S0)) < n"
      using 2(4) by simp
    have closed: "deps_closed ?S0" "\<forall>D\<in>set (Deps (the_module S M)). Target D < count ?S0"
      using 2(2,3) deps_closed_static [of ?S0 S] by (auto dest: deps_closedD)
    obtain q S1 where "Visit_deps H n M (Deps (the_module S M)) False ?S0 = Some (q, S1)"
      using 2(1) [OF False closed fuel] by auto
    then show ?thesis
      using False by (auto split: sum.splits loop_exit.splits)
  qed auto
next
  case (4 H n M Dep Ds b S)
  show ?case
  proof (cases "Visited (the_module S (Target Dep))")
    case True
    then show ?thesis
      using 4(1,4-) by simp
  next
    case False
    obtain r S1 where V: "Visit H n (Target Dep) S = Some (r, S1)"
      using 4(2) [OF False 4(4) _ 4(6)] 4(5) by auto
    have st: "static S1 = static S"
      using visits_static(1) [OF Visit_visits(1) [OF V]] by simp
    show ?thesis
    proof (cases "r = Inr False")
      case True
      then have "in_progress S1 = in_progress S"
        using visits_static(1) [OF Visit_visits(1) [OF V]] by simp
      then show ?thesis
        using 4(3) [OF False V] 4(4-) False V True static_count [OF st] deps_closed_static [OF st]
        by (auto simp: Raise_Unresolved_Dependency_def)
    next
      case ne: False
      then show ?thesis
        using False V by (auto split: sum.splits)
    qed
  qed
qed auto

section \<open>Cycles\<close>

text \<open>The dependency relation, from a module to the modules that depend on it.\<close>

definition dep_rel :: "'w Init_State \<Rightarrow> (Module_Access \<times> Module_Access) set" where
  "dep_rel S = {(t, m). m < count S \<and> (\<exists>D \<in> set (Deps (the_module S m)). Target D = t)}"

lemma dep_rel_static: "static S' = static S \<Longrightarrow> dep_rel S' = dep_rel S"
  using static_count [of S' S] static_nth [of S' S] by (auto simp: dep_rel_def)

lemma static_flag_facts [simp]:
  "dep_rel (set_in_progress k b S) = dep_rel S" "deps_closed (set_in_progress k b S) = deps_closed S"
  by (rule dep_rel_static deps_closed_static, simp)+

lemma dep_relI: "m < count S \<Longrightarrow> D \<in> set (Deps (the_module S m)) \<Longrightarrow> (Target D, m) \<in> dep_rel S"
  by (auto simp: dep_rel_def)

lemma Visited_flags:
  "Visited (the_module (set_in_progress k b S) m) = Visited (the_module S m)"
  "Initialized (the_module (set_in_progress k b S) m) = Initialized (the_module S m)"
  "Visited (the_module (set_visited k S) m) = (Visited (the_module S m) \<or> m = k \<and> k < count S)"
  "Initialized (the_module (set_visited k S) m) = Initialized (the_module S m)"
  "Visited (the_module (set_initialized k b S) m) = Visited (the_module S m)"
  "Initialized (the_module (set_initialized k b S) m) = (if m = k \<and> k < count S then b else Initialized (the_module S m))"
  by (auto simp: set_in_progress_def set_visited_def set_initialized_def the_module_update)

lemma call_Init_same: "call_Init M i S = (r, S') \<Longrightarrow> the_modules S' = the_modules S \<and> Shutdown_Order S' = Shutdown_Order S"
  by (auto simp: call_Init_def split: option.splits prod.splits)

lemma call_Init_module: "call_Init M i S = (r, S') \<Longrightarrow> the_module S' = the_module S"
  using call_Init_same [of M i S r S'] by (simp add: the_module_def fun_eq_iff)

lemma Visit_module_Visited:
  "Visit_module H M b S = (r, S') \<Longrightarrow> m \<noteq> M
     \<Longrightarrow> Visited (the_module S' m) = Visited (the_module S m) \<and> Initialized (the_module S' m) = Initialized (the_module S m)"
  by (auto simp: Visit_module_def Let_def Visited_flags dest!: call_Init_module
      split: sum.splits bool.splits variant.splits prod.splits if_splits)

lemma Visit_module_circular: "Visit_module H M b S = (r, S') \<Longrightarrow> r \<noteq> Inr True"
  by (auto simp: Visit_module_def Let_def split: sum.splits bool.splits variant.splits prod.splits if_splits)

text \<open>A traversal that reports no cycle has only seen modules all of whose dependencies are well-founded.\<close>

definition settled :: "'w Init_State \<Rightarrow> bool" where
  "settled S \<longleftrightarrow> (\<forall>m < count S. Visited (the_module S m) \<longrightarrow> m \<in> Wellfounded.acc (dep_rel S))"

lemma settledD: "settled S \<Longrightarrow> m < count S \<Longrightarrow> Visited (the_module S m) \<Longrightarrow> m \<in> Wellfounded.acc (dep_rel S)"
  by (simp add: settled_def)

lemma settled_flag: "settled (set_in_progress k b S) = settled S"
  by (simp add: settled_def Visited_flags)

lemma acc_dep: "M < count S \<Longrightarrow> \<forall>D\<in>set (Deps (the_module S M)). Target D \<in> Wellfounded.acc (dep_rel S) \<Longrightarrow> M \<in> Wellfounded.acc (dep_rel S)"
  by (rule acc.accI) (auto simp: dep_rel_def)

lemma visits_settled:
  "visits H M S r S' \<Longrightarrow> deps_closed S \<Longrightarrow> M < count S \<Longrightarrow> settled S
     \<Longrightarrow> settled S' \<and> (r = Inr False \<longrightarrow> M \<in> Wellfounded.acc (dep_rel S))"
  "visits_deps H M Ds b S q S' \<Longrightarrow> deps_closed S \<Longrightarrow> \<forall>D\<in>set Ds. Target D < count S \<Longrightarrow> settled S
     \<Longrightarrow> settled S' \<and> ((\<exists>b'. q = Inr (Loop_End b')) \<longrightarrow> (\<forall>D\<in>set Ds. Target D \<in> Wellfounded.acc (dep_rel S)))"
proof (induction rule: visits_visits_deps.inducts)
  case (finished S M b S1 r S2)
  let ?S0 = "set_in_progress M True S"
  have st: "static S1 = static S" "static S2 = static S"
    using visits_static(2) [OF finished(2)] Visit_module_static [OF finished(4)] by simp_all
  note rel = dep_rel_static [OF st(1)] dep_rel_static [OF st(2)] static_count [OF st(1)] static_count [OF st(2)]
  have IH: "settled S1" "\<forall>D\<in>set (Deps (the_module S M)). Target D \<in> Wellfounded.acc (dep_rel S)"
    using finished(3,5-) by (auto simp: settled_flag dest: deps_closedD)
  then have acc: "M \<in> Wellfounded.acc (dep_rel S)"
    using finished(6) by (intro acc_dep)
  have "m \<in> Wellfounded.acc (dep_rel S)" if "m < count S" "Visited (the_module S2 m)" for m
  proof (cases "m = M")
    case False
    then show ?thesis
      using Visit_module_Visited [OF finished(4) False] that IH(1) rel by (simp add: settled_def Visited_flags)
  qed (simp add: acc)
  then show ?case
    using acc rel by (simp add: settled_def)
next
  case (resolved S D S1 M Ds b q S2)
  have st: "static S1 = static S"
    using visits_static(1) [OF \<open>visits H (Target D) S (Inr False) S1\<close>] by simp
  show ?case
    using resolved static_count [OF st] deps_closed_static [OF st] dep_rel_static [OF st] by simp
qed (auto simp: settled_flag dest: deps_closedD settledD)

text \<open>Conversely, a module that is found in progress lies on a cycle.\<close>

definition path_to :: "'w Init_State \<Rightarrow> Module_Access \<Rightarrow> bool" where
  "path_to S M \<longleftrightarrow> (\<forall>m < count S. Deps_In_Progress (the_module S m) \<longrightarrow> (M, m) \<in> (dep_rel S)\<^sup>+)"

lemma in_progress_the_module:
  "in_progress S' = in_progress S \<Longrightarrow> m < count S \<Longrightarrow> Deps_In_Progress (the_module S' m) = Deps_In_Progress (the_module S m)"
  by (metis in_progress_nth length_in_progress)

lemma path_to_same: "static S' = static S \<Longrightarrow> in_progress S' = in_progress S \<Longrightarrow> path_to S' M = path_to S M"
  using in_progress_the_module [of S' S] static_count [of S' S] by (simp add: path_to_def dep_rel_static [of S' S])

lemma Deps_In_Progress_flag:
  "Deps_In_Progress (the_module (set_in_progress k b S) m) = (if m = k \<and> k < count S then b else Deps_In_Progress (the_module S m))"
  by (simp add: set_in_progress_def the_module_update)

lemma visits_circular:
  "visits H M S r S' \<Longrightarrow> deps_closed S \<Longrightarrow> M < count S \<Longrightarrow> path_to S M \<Longrightarrow> r = Inr True
     \<Longrightarrow> \<not> acyclic (dep_rel S)"
  "visits_deps H M Ds b S q S' \<Longrightarrow> deps_closed S \<Longrightarrow> \<forall>D\<in>set Ds. Target D < count S \<and> path_to S (Target D)
     \<Longrightarrow> q = Inr Cycle_Found \<Longrightarrow> \<not> acyclic (dep_rel S)"
proof (induction rule: visits_visits_deps.inducts)
  case (busy S M)
  then show ?case
    by (auto simp: path_to_def acyclic_def)
next
  case (circular S M S1)
  let ?S0 = "set_in_progress M True S"
  have "path_to ?S0 (Target D)" if D: "D \<in> set (Deps (the_module S M))" for D
    using circular(5,6) dep_relI [OF _ D] 
    by (auto simp: path_to_def Deps_In_Progress_flag intro: trancl_into_trancl2)
  then show ?case
    using circular(3-5) by (auto dest: deps_closedD)
next
  case (finished S M b S1 r S2)
  then show ?case
    using Visit_module_circular by blast
next
  case (resolved S D S1 M Ds b q S2)
  have st: "static S1 = static S" "in_progress S1 = in_progress S"
    using visits_static(1) [OF \<open>visits H (Target D) S (Inr False) S1\<close>] by simp_all
  show ?case
    using resolved static_count [OF st(1)] deps_closed_static [OF st(1)] dep_rel_static [OF st(1)] path_to_same [OF st] by simp
qed auto

section \<open>The order of initialization\<close>

text \<open>
  A visit keeps the flags of the modules that have been visited before, and a module in progress
  does not become visited within it.
\<close>

definition keeps :: "'w Init_State \<Rightarrow> 'w Init_State \<Rightarrow> bool" where
  "keeps S S' \<longleftrightarrow> (\<forall>m < count S.
     (Visited (the_module S m) \<longrightarrow> Visited (the_module S' m) \<and> Initialized (the_module S' m) = Initialized (the_module S m))
   \<and> (Deps_In_Progress (the_module S m) \<and> \<not> Visited (the_module S m) \<longrightarrow> \<not> Visited (the_module S' m)))"

lemma keeps_refl [simp]: "keeps S S"
  by (simp add: keeps_def)

lemma keeps_trans: "keeps S S1 \<Longrightarrow> keeps S1 S2 \<Longrightarrow> static S1 = static S \<Longrightarrow> in_progress S1 = in_progress S \<Longrightarrow> keeps S S2"
  using static_count [of S1 S] in_progress_the_module [of S1 S] by (simp add: keeps_def)

lemma keepsD:
  "keeps S S' \<Longrightarrow> m < count S \<Longrightarrow> Visited (the_module S m)
    \<Longrightarrow> Visited (the_module S' m) \<and> Initialized (the_module S' m) = Initialized (the_module S m)"
  "keeps S S' \<Longrightarrow> m < count S \<Longrightarrow> Deps_In_Progress (the_module S m) \<Longrightarrow> \<not> Visited (the_module S m)
    \<Longrightarrow> \<not> Visited (the_module S' m)"
  by (simp_all add: keeps_def)

lemma visits_keeps:
  "visits H M S r S' \<Longrightarrow> deps_closed S \<Longrightarrow> M < count S \<Longrightarrow> \<not> Visited (the_module S M) \<Longrightarrow> keeps S S'"
  "visits_deps H M Ds b S q S' \<Longrightarrow> deps_closed S \<Longrightarrow> \<forall>D\<in>set Ds. Target D < count S \<Longrightarrow> keeps S S'"
proof (induction rule: visits_visits_deps.inducts)
  case (failed S M e S1)
  then have "keeps (set_in_progress M True S) S1"
    by (auto dest: deps_closedD)
  then show ?case
    using failed(1) by (auto simp: keeps_def Visited_flags Deps_In_Progress_flag)
next
  case (circular S M S1)
  then have "keeps (set_in_progress M True S) S1"
    by (auto dest: deps_closedD)
  then show ?case
    using circular(1) by (auto simp: keeps_def Visited_flags Deps_In_Progress_flag)
next
  case (finished S M b S1 r S2)
  then have k: "keeps (set_in_progress M True S) S1"
    by (auto dest: deps_closedD)
  show ?case
    unfolding keeps_def
  proof (intro allI impI)
    fix m
    assume m: "m < count S"
    show "(Visited (the_module S m) \<longrightarrow> Visited (the_module S2 m) \<and> Initialized (the_module S2 m) = Initialized (the_module S m))
       \<and> (Deps_In_Progress (the_module S m) \<and> \<not> Visited (the_module S m) \<longrightarrow> \<not> Visited (the_module S2 m))"
    proof (cases "m = M")
      case True
      then show ?thesis
        using finished by simp
    next
      case False
      then show ?thesis
        using k m Visit_module_Visited [OF finished(4) False]
        by (auto simp: keeps_def Visited_flags Deps_In_Progress_flag)
    qed
  qed
next
  case (resolved S D S1 M Ds b q S2)
  have st: "static S1 = static S" "in_progress S1 = in_progress S"
    using visits_static(1) [OF \<open>visits H (Target D) S (Inr False) S1\<close>] by simp_all
  show ?case
    using resolved static_count [OF st(1)] deps_closed_static [OF st(1)] keeps_trans [OF _ _ st, of S2] by simp
qed auto

text \<open>The modules whose initializers have been called, in the order of the calls.\<close>

fun init_called :: "module_call \<Rightarrow> Module_Access list" where
  "init_called (Init_Call M) = [M]"
| "init_called (Shutdown_Call M w) = []"

definition inits :: "'w Init_State \<Rightarrow> Module_Access list" where
  "inits S = concat (map init_called (calls S))"

text \<open>
  What a dependency stands for at the time of a call, where \<open>as\<close> are the modules called before.
  A real module has been initialized. A virtual module has been looked at, and it counts as initialized
  only if one of its providers has been initialized.
\<close>

definition up_before :: "'w Init_State \<Rightarrow> Module_Access list \<Rightarrow> Module_Access \<Rightarrow> bool" where
  "up_before S as t \<longleftrightarrow> Visited (the_module S t) \<and>
     (if Virtual S t then Initialized (the_module S t) \<longrightarrow> (\<exists>P\<in>set (Deps (the_module S t)). Target P \<in> set as)
      else Initialized (the_module S t) \<and> t \<in> set as)"

fun has_Shutdown :: "'w variant \<Rightarrow> bool" where
  "has_Shutdown (Info i) \<longleftrightarrow> Shutdown i \<noteq> None"
| "has_Shutdown (Virtual_Name n) \<longleftrightarrow> False"

definition stops :: "'w Init_State \<Rightarrow> Module_Access \<Rightarrow> bool" where
  "stops S m \<longleftrightarrow> Initialized (the_module S m) \<and> has_Shutdown (variant_part (the_module S m))"

definition ordered :: "'w Init_State \<Rightarrow> bool" where
  "ordered S \<longleftrightarrow>
     distinct (inits S)
   \<and> (\<forall>m\<in>set (inits S). m < count S \<and> \<not> Virtual S m)
   \<and> (\<forall>m < count S. Initialized (the_module S m) \<longrightarrow> Visited (the_module S m))
   \<and> (\<forall>m < count S. Visited (the_module S m) \<longrightarrow> up_before S (inits S) m)
   \<and> Shutdown_Order S = rev (filter (stops S) (inits S))
   \<and> (\<forall>as m bs. inits S = as @ m # bs \<longrightarrow> (\<forall>D\<in>set (Deps (the_module S m)). \<not> Optional D \<longrightarrow> up_before S as (Target D)))"

lemma orderedD: "ordered S \<Longrightarrow> m < count S \<Longrightarrow> Initialized (the_module S m) \<Longrightarrow> Visited (the_module S m)"
  by (simp add: ordered_def)

definition all_up :: "'w Init_State \<Rightarrow> bool" where
  "all_up S \<longleftrightarrow> (\<forall>m\<in>set (inits S). Initialized (the_module S m))"

definition providers_real :: "'w Init_State \<Rightarrow> bool" where
  "providers_real S \<longleftrightarrow> (\<forall>v < count S. Virtual S v \<longrightarrow> (\<forall>P\<in>set (Deps (the_module S v)). \<not> Virtual S (Target P)))"

lemma static_Virtual: "static S' = static S \<Longrightarrow> m < count S \<Longrightarrow> Virtual S' m = Virtual S m"
  using static_nth [of S' S m] static_count [of S' S] by simp

lemma static_Deps: "static S' = static S \<Longrightarrow> m < count S \<Longrightarrow> Deps (the_module S' m) = Deps (the_module S m)"
  using static_nth [of S' S m] static_count [of S' S] by simp

lemma up_before_step:
  assumes "up_before S as t" "t < count S" "static S' = static S" "set as \<subseteq> set as'"
    and "Visited (the_module S' t) = Visited (the_module S t)" "Initialized (the_module S' t) = Initialized (the_module S t)"
  shows "up_before S' as' t"
  using assms static_Virtual [OF assms(3,2)] static_Deps [OF assms(3,2)] unfolding up_before_def by (auto split: if_splits)

lemma ordered_step:
  assumes o: "ordered S" and st: "static S' = static S" and closed: "deps_closed S"
    and M: "M < count S" "\<not> Visited (the_module S M)" "M \<notin> set (inits S)"
    and others: "\<And>m. m \<noteq> M \<Longrightarrow> Visited (the_module S' m) = Visited (the_module S m) \<and> Initialized (the_module S' m) = Initialized (the_module S m)"
    and calls: "inits S' = inits S @ (if c then [M] else [])"
    and call: "c \<Longrightarrow> \<not> Virtual S M \<and> (\<forall>D\<in>set (Deps (the_module S M)). \<not> Optional D \<longrightarrow> up_before S (inits S) (Target D))"
    and flags: "Initialized (the_module S' M) \<Longrightarrow> Visited (the_module S' M)"
      "Visited (the_module S' M) \<Longrightarrow> up_before S' (inits S') M"
    and shut: "Shutdown_Order S' = (if c \<and> stops S' M then M # Shutdown_Order S else Shutdown_Order S)"
  shows "ordered S'"
proof -
  have cnt: "count S' = count S"
    by (rule static_count [OF st])
  have mono: "up_before S' as' t" if "up_before S as t" "t < count S" "set as \<subseteq> set as'" for as as' t
  proof (rule up_before_step [OF that(1,2) st that(3)])
    have "t \<noteq> M"
      using that(1) M by (auto simp: up_before_def)
    then show "Visited (the_module S' t) = Visited (the_module S t)" "Initialized (the_module S' t) = Initialized (the_module S t)"
      using others by auto
  qed
  have order: "up_before S' as (Target D)"
    if split: "inits S' = as @ m # bs" and D: "D \<in> set (Deps (the_module S' m))" "\<not> Optional D" for as m bs D
  proof (cases "c \<and> bs = []")
    case True
    then have "m = M" "as = inits S"
      using split calls by auto
    then have "up_before S (inits S) (Target D)" "Target D < count S"
      using call True D static_Deps [OF st M(1)] deps_closedD [OF closed M(1)] by auto
    then show ?thesis
      using mono \<open>as = inits S\<close> by auto
  next
    case False
    then obtain bs' where old: "inits S = as @ m # bs'"
      using split calls by (cases bs rule: rev_cases) (auto split: if_splits)
    then have m: "m < count S" "D \<in> set (Deps (the_module S m))"
      using o D static_Deps [OF st, of m] by (auto simp: ordered_def)
    then have "up_before S as (Target D)"
      using o old D(2) by (auto simp: ordered_def)
    then show ?thesis
      using mono deps_closedD [OF closed m] by auto
  qed
  have stops: "filter (stops S') (inits S) = filter (stops S) (inits S)"
  proof (rule filter_cong [OF refl])
    fix m
    assume m: "m \<in> set (inits S)"
    then have "m < count S" "m \<noteq> M"
      using o M by (auto simp: ordered_def)
    then show "stops S' m = stops S m"
      using others static_nth [OF st, of m] cnt by (simp add: stops_def)
  qed
  have "Shutdown_Order S' = rev (filter (stops S') (inits S'))"
    using o shut by (simp add: stops calls ordered_def)
  moreover have "\<forall>m < count S'. Visited (the_module S' m) \<longrightarrow> up_before S' (inits S') m"
  proof (intro allI impI)
    fix m
    assume "m < count S'" "Visited (the_module S' m)"
    then show "up_before S' (inits S') m"
      using flags mono [of "inits S" m "inits S'"] others [of m] o cnt calls by (cases "m = M") (auto simp: ordered_def)
  qed
  moreover have "\<forall>m\<in>set (inits S'). m < count S' \<and> \<not> Virtual S' m"
    using o calls call M static_Virtual [OF st] cnt by (auto simp: ordered_def)
  moreover have "\<forall>m < count S'. Initialized (the_module S' m) \<longrightarrow> Visited (the_module S' m)"
    using o others flags cnt unfolding ordered_def by metis
  ultimately show ?thesis
    using o M calls order by (auto simp: ordered_def)
qed

lemma inits_simps [simp]:
  "inits (update k f S) = inits S" "inits (S\<lparr>world := w\<rparr>) = inits S" "inits (S\<lparr>Shutdown_Order := q\<rparr>) = inits S"
  "inits (S\<lparr>calls := calls S @ [c]\<rparr>) = inits S @ init_called c"
  by (simp_all add: inits_def)

lemma inits_flags [simp]:
  "inits (set_visited k S) = inits S" "inits (set_initialized k b S) = inits S" "inits (set_in_progress k b S) = inits S"
  by (simp_all add: set_visited_def set_initialized_def set_in_progress_def)

lemma Shutdown_Order_flags [simp]:
  "Shutdown_Order (set_visited k S) = Shutdown_Order S" "Shutdown_Order (set_initialized k b S) = Shutdown_Order S"
  "Shutdown_Order (set_in_progress k b S) = Shutdown_Order S"
  by (simp_all add: set_visited_def set_initialized_def set_in_progress_def)

text \<open>How \<open>Visit_module\<close> can end, with the flags, the calls and the shutdown list that it leaves.\<close>

lemma Visit_module_cases:
  assumes "Visit_module H M b S = (r, S')" "M < count S"
  obtains (Unchanged) "S' = S" "r \<noteq> Inr True"
  | (Virtual_module) "Virtual S M" "r = Inr False" "S' = set_visited M (set_initialized M b S)"
  | (Raised) e w where "\<not> Virtual S M" "r = Inl e" "S' = S\<lparr>world := w, calls := calls S @ [Init_Call M]\<rparr>"
  | (Up) "\<not> Virtual S M" "r = Inr False" "inits S' = inits S @ [M]" "Visited (the_module S' M)" "Initialized (the_module S' M)"
      "Shutdown_Order S' = (if has_Shutdown (variant_part (the_module S M)) then M # Shutdown_Order S else Shutdown_Order S)"
proof (cases "module_enabled H (world S) (Module_Name S M) = Inr True")
  case False
  then have "S' = S \<and> r \<noteq> Inr True"
    using assms by (auto simp: Visit_module_def split: sum.splits bool.splits)
  then show ?thesis
    by (intro Unchanged) auto
next
  case en: True
  show ?thesis
  proof (cases "variant_part (the_module S M)")
    case (Virtual_Name n)
    then show ?thesis
      using en assms Virtual_module by (simp add: Visit_module_def)
  next
    case (Info i)
    show ?thesis
    proof (cases "Init i")
      case None
      then show ?thesis
        using en assms Info by (intro Unchanged) (auto simp: Visit_module_def call_Init_def)
    next
      case (Some p)
      obtain q w where p: "p (world S) = (q, w)" by fastforce
      show ?thesis
      proof (cases q)
        case (Inl e)
        then show ?thesis
          using en assms Info Some p by (intro Raised) (auto simp: Visit_module_def call_Init_def)
      next
        case (Inr u)
        then show ?thesis
          using en assms Info Some p
          by (intro Up) (auto simp: Visit_module_def call_Init_def Let_def Visited_flags inits_def [of "S\<lparr>world := w, calls := c\<rparr>" for c] inits_def [of S])
      qed
    qed
  qed
qed

lemma ordered_flag: "ordered (set_in_progress k b S) = ordered S"
proof -
  have up: "up_before (set_in_progress k b S) as t = up_before S as t" for as t
    by (auto simp: up_before_def Visited_flags set_in_progress_def the_module_update)
  have st: "stops (set_in_progress k b S) = stops S"
    by (auto simp: stops_def fun_eq_iff Visited_flags set_in_progress_def the_module_update)
  have "Deps (the_module (set_in_progress k b S) m) = Deps (the_module S m)"
    "Virtual (set_in_progress k b S) m = Virtual S m" for m
    by (auto simp: set_in_progress_def the_module_update)
  then show ?thesis
    by (simp add: ordered_def up st Visited_flags)
qed

lemma all_up_flag: "all_up (set_in_progress k b S) = all_up S"
  by (simp add: all_up_def Visited_flags)

lemma Visit_module_ordered:
  assumes vm: "Visit_module H M b S = (r, S')" and o: "ordered S" and up: "all_up S"
    and closed: "deps_closed S" and real: "providers_real S" and M: "M < count S" "\<not> Visited (the_module S M)"
    and deps: "\<not> Virtual S M \<Longrightarrow> \<forall>D\<in>set (Deps (the_module S M)). \<not> Optional D \<longrightarrow> Visited (the_module S (Target D))"
    and one: "b \<Longrightarrow> \<exists>D\<in>set (Deps (the_module S M)). Initialized (the_module S (Target D))"
  shows "ordered S' \<and> (\<forall>x. r = Inr x \<longrightarrow> all_up S')"
proof -
  have st: "static S' = static S"
    using Visit_module_static [OF vm] by simp
  have notin: "M \<notin> set (inits S)"
    using o up M by (auto simp: ordered_def all_up_def)
  note others = Visit_module_Visited [OF vm]
  have before: "up_before S (inits S) t" if "t < count S" "Visited (the_module S t)" for t
    using o that by (simp add: ordered_def)
  have deps': "\<not> Virtual S M \<and> (\<forall>D\<in>set (Deps (the_module S M)). \<not> Optional D \<longrightarrow> up_before S (inits S) (Target D))"
    if "\<not> Virtual S M"
    using deps [OF that] that before deps_closedD [OF closed M(1)] by auto
  note step = ordered_step [OF o st closed M notin others]
  from vm M(1) show ?thesis
  proof (cases rule: Visit_module_cases)
    case Unchanged
    then show ?thesis
      using o up by simp
  next
    case Virtual_module
    have "\<exists>P\<in>set (Deps (the_module S M)). Target P \<in> set (inits S)" if up_b: b
    proof -
      obtain D where D: "D \<in> set (Deps (the_module S M))" "Initialized (the_module S (Target D))"
        using one [OF up_b] by blast
      have t: "Target D < count S" "\<not> Virtual S (Target D)"
        using D real Virtual_module M closed by (auto simp: providers_real_def dest: deps_closedD)
      then have "up_before S (inits S) (Target D)"
        using before o D by (simp add: ordered_def)
      then show ?thesis
        using D t by (auto simp: up_before_def)
    qed
    moreover have "Visited (the_module S' M)" "Initialized (the_module S' M) = b" "inits S' = inits S"
      using Virtual_module(3) M(1) by (simp_all add: Visited_flags)
    ultimately have "up_before S' (inits S') M"
      using Virtual_module(1) static_Virtual [OF st M(1)] static_Deps [OF st M(1)] by (simp add: up_before_def)
    then have "ordered S'"
      using M(1) Virtual_module static_Virtual [OF st M(1)]
      by (intro step [where c = False]) (auto simp: Visited_flags)
    moreover have "all_up S'"
      using up notin Virtual_module(3) by (auto simp: all_up_def Visited_flags)
    ultimately show ?thesis
      by simp
  next
    case (Raised e w)
    have un: "\<not> Initialized (the_module S M)"
      using o M by (auto simp: ordered_def)
    have "ordered S'"
      using M(2) Raised deps' un by (intro step [where c = True]) (auto simp: stops_def inits_def)
    then show ?thesis
      using Raised by simp
  next
    case Up
    have "ordered S'"
      using Up deps' static_Virtual [OF st M(1)] static_nth [OF st] M(1) static_count [OF st]
      by (intro step [where c = True]) (auto simp: up_before_def stops_def)
    moreover have "all_up S'"
      using up Up others notin unfolding all_up_def by (metis Un_iff empty_iff insert_iff list.set set_append)
    ultimately show ?thesis
      by simp
  qed
qed

lemma providers_real_static: "static S' = static S \<Longrightarrow> deps_closed S \<Longrightarrow> providers_real S' = providers_real S"
  using static_count [of S' S] static_Virtual [of S' S] static_Deps [of S' S] by (simp add: providers_real_def) (metis deps_closedD)

lemma visits_ordered:
  "visits H M S r S' \<Longrightarrow> deps_closed S \<Longrightarrow> providers_real S \<Longrightarrow> M < count S \<Longrightarrow> \<not> Visited (the_module S M)
     \<Longrightarrow> ordered S \<Longrightarrow> all_up S \<Longrightarrow> ordered S' \<and> (\<forall>x. r = Inr x \<longrightarrow> all_up S')"
  "visits_deps H M Ds b S q S' \<Longrightarrow> deps_closed S \<Longrightarrow> providers_real S \<Longrightarrow> M < count S \<Longrightarrow> \<forall>D\<in>set Ds. Target D < count S
     \<Longrightarrow> ordered S \<Longrightarrow> all_up S \<Longrightarrow> ordered S' \<and> (\<forall>x. q = Inr x \<longrightarrow> all_up S')
       \<and> (\<forall>b'. q = Inr (Loop_End b') \<longrightarrow>
            (b' \<longrightarrow> b \<or> (\<exists>D\<in>set Ds. Initialized (the_module S' (Target D))))
          \<and> (\<not> Virtual S M \<longrightarrow> (\<forall>D\<in>set Ds. \<not> Optional D \<longrightarrow> Visited (the_module S' (Target D)))))"
proof (induction rule: visits_visits_deps.inducts)
  case (failed S M e S1)
  then show ?case
    by (auto simp: providers_real_static [of "set_in_progress M True S" S] ordered_flag all_up_flag dest: deps_closedD)
next
  case (circular S M S1)
  then show ?case
    by (auto simp: providers_real_static [of "set_in_progress M True S" S] ordered_flag all_up_flag dest: deps_closedD)
next
  case (finished S M b S1 r S2)
  let ?S0 = "set_in_progress M True S" and ?S1 = "set_in_progress M False S1"
  have st: "static S1 = static S" "static ?S1 = static S"
    using visits_static(2) [OF finished(2)] by simp_all
  have IH: "ordered S1" "all_up S1" "b \<Longrightarrow> \<exists>D\<in>set (Deps (the_module S M)). Initialized (the_module S1 (Target D))"
    "\<not> Virtual S M \<Longrightarrow> \<forall>D\<in>set (Deps (the_module S M)). \<not> Optional D \<longrightarrow> Visited (the_module S1 (Target D))"
    using finished static_Virtual [of ?S0 S M]
    by (auto simp: providers_real_static [of ?S0 S] ordered_flag all_up_flag dest: deps_closedD)
  have k: "keeps ?S0 S1"
    using finished by (intro visits_keeps(2)) (auto dest: deps_closedD)
  have "\<not> Visited (the_module S1 M)"
    using keepsD(2) [OF k, of M] finished by (auto simp: Visited_flags Deps_In_Progress_flag)
  then show ?case
    using finished IH st static_count [OF st(2)] static_Deps [OF st(2)] static_Virtual [OF st(2)]
      deps_closed_static [OF st(2)] providers_real_static [OF st(2)]
    by (intro Visit_module_ordered [OF finished(4)]) (auto simp: ordered_flag all_up_flag Visited_flags)
next
  case (known S D M Ds b q S1)
  have k: "keeps S S1"
    using known by (intro visits_keeps(2)) auto
  show ?case
    using known keepsD(1) [OF k, of "Target D"] by auto
next
  case (resolved S D S1 M Ds b q S2)
  have st: "static S1 = static S"
    using visits_static(1) [OF \<open>visits H (Target D) S (Inr False) S1\<close>] by simp
  note same = static_count [OF st] deps_closed_static [OF st] providers_real_static [OF st] static_Virtual [OF st]
  have o: "ordered S1" "all_up S1"
    using resolved by auto
  have k: "keeps S1 S2"
    using resolved same by (intro visits_keeps(2)) auto
  have up: "Initialized (the_module S2 (Target D)) \<and> Visited (the_module S2 (Target D))" if "Initialized (the_module S1 (Target D))"
    using that orderedD [OF o(1)] keepsD(1) [OF k, of "Target D"] resolved.prems(4) same(1) by simp
  have IH: "ordered S2" "\<forall>x. q = Inr x \<longrightarrow> all_up S2"
    "\<And>b'. q = Inr (Loop_End b') \<Longrightarrow> b' \<Longrightarrow> Initialized (the_module S1 (Target D)) \<or> b \<or> (\<exists>D\<in>set Ds. Initialized (the_module S2 (Target D)))"
    "\<And>b'. q = Inr (Loop_End b') \<Longrightarrow> \<not> Virtual S M \<Longrightarrow> \<forall>D\<in>set Ds. \<not> Optional D \<longrightarrow> Visited (the_module S2 (Target D))"
    using resolved.IH(4) [OF _ _ _ _ o] resolved.prems same by simp_all blast
  show ?case
    using IH up \<open>Optional D \<or> Virtual S1 M \<or> Initialized (the_module S1 (Target D))\<close> same(4) resolved.prems(3) by auto
qed auto

end
