(* ===== verification/Init_World.thy ===== *)
theory Init_World
  imports Initialization
begin

text \<open>
  The operations of \<open>src/src/polyorb-initialization.adb\<close> as a whole: the invariant of the package's data over every
  sequence of calls, and what a successful \<open>Initialize_World\<close> and a \<open>Shutdown_World\<close> have done.
\<close>

section \<open>The store of modules\<close>

text \<open>The invariant of the package's data: accesses designate modules, names are unique, providers are real modules.\<close>

definition deps_in_World :: "'w Init_State \<Rightarrow> bool" where
  "deps_in_World S \<longleftrightarrow> (\<forall>m < count S. \<forall>D\<in>set (Deps (the_module S m)). Target D \<in> set (World S))"

definition store_ok :: "'w Init_State \<Rightarrow> bool" where
  "store_ok S \<longleftrightarrow> deps_closed S \<and> providers_real S \<and> deps_in_World S
   \<and> (\<forall>m\<in>set (World S). m < count S) \<and> distinct (map (Module_Name S) (World S))
   \<and> (\<forall>m < count S. m \<in> set (World S) \<or> Deps (the_module S m) = [])
   \<and> (\<forall>m\<in>set (World S). Virtual S m \<longrightarrow> Deps (the_module S m) \<noteq> [])
   \<and> (\<forall>D\<in>set (Implicit_Deps S). Target D \<in> set (World S))
   \<and> (\<forall>m\<in>set (Shutdown_Order S). m < count S \<and> has_Shutdown (variant_part (the_module S m)))"

text \<open>What registration of aliases and resolution of names do to the store: they add virtual modules and dependencies.\<close>

fun same_variant :: "'w variant \<Rightarrow> 'w variant \<Rightarrow> bool" where
  "same_variant (Info i) (Info j) \<longleftrightarrow> (\<exists>c. j = i\<lparr>Conflicts := Conflicts i @ c\<rparr>)"
| "same_variant (Virtual_Name n) v \<longleftrightarrow> v = Virtual_Name n"
| "same_variant (Info i) (Virtual_Name n) \<longleftrightarrow> False"

lemma same_variant_refl [simp]: "same_variant v v"
  by (cases v) (auto intro: exI [of _ "[]"])

lemma same_variant_trans: "same_variant u v \<Longrightarrow> same_variant v w \<Longrightarrow> same_variant u w"
  by (cases u; cases v; cases w) auto

lemma same_variantD: "same_variant u v \<Longrightarrow> is_virtual v = is_virtual u \<and> variant_name v = variant_name u \<and> has_Shutdown v = has_Shutdown u"
  by (cases u; cases v) auto

definition extends :: "'w Init_State \<Rightarrow> 'w Init_State \<Rightarrow> bool" where
  "extends S S' \<longleftrightarrow> count S \<le> count S' \<and> (\<exists>vs. World S' = World S @ vs)
   \<and> Shutdown_Order S' = Shutdown_Order S \<and> Implicit_Deps S' = Implicit_Deps S \<and> Init_Done S' = Init_Done S
   \<and> Allocated S' = Allocated S \<and> world S' = world S \<and> calls S' = calls S
   \<and> (\<forall>m < count S. let x = the_module S m; y = the_module S' m in
        same_variant (variant_part x) (variant_part y) \<and> set (Deps x) \<subseteq> set (Deps y)
      \<and> Visited y = Visited x \<and> Initialized y = Initialized x \<and> Deps_In_Progress y = Deps_In_Progress x)
   \<and> (\<forall>m < count S'. count S \<le> m \<longrightarrow> \<not> Visited (the_module S' m) \<and> \<not> Initialized (the_module S' m) \<and> \<not> Deps_In_Progress (the_module S' m))"

lemma extends_refl [simp]: "extends S S"
  by (simp add: extends_def)

lemma extends_count: "extends S S' \<Longrightarrow> m < count S \<Longrightarrow> m < count S'"
  by (simp add: extends_def)

lemma extends_variant: "extends S S' \<Longrightarrow> m < count S \<Longrightarrow> same_variant (variant_part (the_module S m)) (variant_part (the_module S' m))"
  by (simp add: extends_def Let_def)

lemma extends_Virtual: "extends S S' \<Longrightarrow> m < count S \<Longrightarrow> Virtual S' m = Virtual S m"
  using same_variantD [OF extends_variant] by blast

lemma extends_Name: "extends S S' \<Longrightarrow> m < count S \<Longrightarrow> Module_Name S' m = Module_Name S m"
  unfolding Module_Name_def using same_variantD [OF extends_variant] by blast

lemma extends_Deps: "extends S S' \<Longrightarrow> m < count S \<Longrightarrow> D \<in> set (Deps (the_module S m)) \<Longrightarrow> D \<in> set (Deps (the_module S' m))"
  by (auto simp: extends_def Let_def)

lemma extends_World: "extends S S' \<Longrightarrow> m \<in> set (World S) \<Longrightarrow> m \<in> set (World S')"
  by (auto simp: extends_def)

lemma extends_trans: "extends S S1 \<Longrightarrow> extends S1 S2 \<Longrightarrow> extends S S2"
proof -
  assume e: "extends S S1" "extends S1 S2"
  have "same_variant (variant_part (the_module S m)) (variant_part (the_module S2 m))" if "m < count S" for m
    using same_variant_trans [OF extends_variant [OF e(1) that] extends_variant [OF e(2) extends_count [OF e(1) that]]] .
  moreover have "\<not> Visited (the_module S2 m) \<and> \<not> Initialized (the_module S2 m) \<and> \<not> Deps_In_Progress (the_module S2 m)"
    if "m < count S2" "count S \<le> m" for m
    using e that by (cases "m < count S1") (auto simp: extends_def Let_def)
  ultimately show ?thesis
    using e by (auto simp: extends_def Let_def subset_iff)
qed

lemma lookup_loop_Some: "lookup_loop S N Ms = Some m \<Longrightarrow> m \<in> set Ms \<and> Module_Name S m = N"
  by (induction Ms) (auto split: if_splits)

lemma lookup_loop_None: "lookup_loop S N Ms = None \<longleftrightarrow> N \<notin> Module_Name S ` set Ms"
  by (induction Ms) auto

lemma Lookup_Module_Some: "Lookup_Module S N = Some m \<Longrightarrow> m \<in> set (World S) \<and> Module_Name S m = N"
  by (simp add: Lookup_Module_def lookup_loop_Some)

lemma Lookup_Module_None: "Lookup_Module S N = None \<longleftrightarrow> N \<notin> Module_Name S ` set (World S)"
  by (simp add: Lookup_Module_def lookup_loop_None)

lemma lookup_loop_distinct:
  "distinct (map (Module_Name S) Ms) \<Longrightarrow> m \<in> set Ms \<Longrightarrow> lookup_loop S (Module_Name S m) Ms = Some m"
  by (induction Ms) force+

lemma Lookup_Module_unique: "store_ok S \<Longrightarrow> m \<in> set (World S) \<Longrightarrow> Lookup_Module S (Module_Name S m) = Some m"
  by (simp add: Lookup_Module_def lookup_loop_distinct store_ok_def)

lemma Lookup_extends:
  assumes "store_ok S'" "extends S S'" "Lookup_Module S N = Some m" "m < count S"
  shows "Lookup_Module S' N = Some m"
  using Lookup_Module_unique [OF assms(1), of m] Lookup_Module_Some [OF assms(3)] extends_World [OF assms(2)]
    extends_Name [OF assms(2,4)] by auto

lemma store_okD:
  assumes "store_ok S"
  shows "deps_closed S" "providers_real S" "m \<in> set (World S) \<Longrightarrow> m < count S"
  using assms by (auto simp: store_ok_def)

lemma update_prepend [simp]:
  "Virtual (update k (prepend_dep D) S) m = Virtual S m"
  "variant_part (the_module (update k (prepend_dep D) S) m) = variant_part (the_module S m)"
  "Deps (the_module (update k (prepend_dep D) S) m) = (if m = k \<and> k < count S then D # Deps (the_module S m) else Deps (the_module S m))"
  "Module_Name (update k (prepend_dep D) S) = Module_Name S"
  by (auto simp: the_module_update prepend_dep_def Module_Name_def fun_eq_iff)

lemma extends_prepend: "extends S (update k (prepend_dep D) S)"
  by (auto simp: extends_def Let_def the_module_update prepend_dep_def)

lemma store_ok_prepend:
  assumes ok: "store_ok S" and k: "k \<in> set (World S)" and D: "Target D \<in> set (World S)" "Virtual S k \<Longrightarrow> \<not> Virtual S (Target D)"
  shows "store_ok (update k (prepend_dep D) S)"
proof -
  have "Target D < count S"
    using store_okD(3) [OF ok D(1)] .
  then have "deps_closed (update k (prepend_dep D) S)" "providers_real (update k (prepend_dep D) S)" "deps_in_World (update k (prepend_dep D) S)"
    using ok D unfolding store_ok_def deps_closed_def providers_real_def deps_in_World_def by (auto simp del: update_prepend(1))
  then show ?thesis
    using ok k by (auto simp: store_ok_def)
qed

lemma update_conflicts [simp]:
  "Virtual (update k (set_conflicts N) S) m = Virtual S m"
  "Deps (the_module (update k (set_conflicts N) S) m) = Deps (the_module S m)"
  "has_Shutdown (variant_part (the_module (update k (set_conflicts N) S) m)) = has_Shutdown (variant_part (the_module S m))"
  "Module_Name (update k (set_conflicts N) S) = Module_Name S"
  by (auto simp: the_module_update set_conflicts_def Module_Name_def fun_eq_iff split: variant.splits)

lemma extends_conflicts: "extends S (update k (set_conflicts N) S)"
  by (auto simp: extends_def Let_def the_module_update set_conflicts_def split: variant.splits)

lemma store_ok_conflicts: "store_ok S \<Longrightarrow> store_ok (update k (set_conflicts N) S)"
  unfolding store_ok_def deps_closed_def providers_real_def deps_in_World_def by (auto simp del: update_conflicts(1) simp: update_conflicts(1))

text \<open>A new module at the end of the store.\<close>

definition with_module :: "'w variant \<Rightarrow> 'w Init_State \<Rightarrow> 'w Init_State" where
  "with_module v S = S\<lparr>the_modules := the_modules S @ [new_Module v]\<rparr>"

lemma allocate_with: "allocate v S = (count S, with_module v S)"
  by (simp add: allocate_def with_module_def)

lemma with_module_sel [simp]:
  "World (with_module v S) = World S" "Implicit_Deps (with_module v S) = Implicit_Deps S"
  "Init_Done (with_module v S) = Init_Done S" "Allocated (with_module v S) = Allocated S"
  "world (with_module v S) = world S" "calls (with_module v S) = calls S" "Shutdown_Order (with_module v S) = Shutdown_Order S"
  "count (with_module v S) = Suc (count S)"
  by (simp_all add: with_module_def)

lemma with_module_old [simp]: "m < count S \<Longrightarrow> the_module (with_module v S) m = the_module S m"
  by (simp add: with_module_def the_module_def nth_append)

lemma with_module_new [simp]: "the_module (with_module v S) (count S) = new_Module v"
  by (simp add: with_module_def the_module_def)

lemma new_Module_sel [simp]:
  "Deps (new_Module v) = []" "\<not> Visited (new_Module v)" "\<not> Initialized (new_Module v)" "\<not> Deps_In_Progress (new_Module v)"
  "variant_part (new_Module v) = v"
  by (simp_all add: new_Module_def)

lemma extends_with: "extends S (with_module v S)"
  by (auto simp: extends_def Let_def less_Suc_eq)

lemma names_with: "store_ok S \<Longrightarrow> distinct (map (Module_Name (with_module v S)) (World S))"
proof -
  assume ok: "store_ok S"
  have "map (Module_Name (with_module v S)) (World S) = map (Module_Name S) (World S)"
    using ok extends_Name [OF extends_with] by (auto simp: store_ok_def)
  then show ?thesis
    using ok unfolding store_ok_def by (simp only:)
qed

lemma store_ok_with:
  assumes ok: "store_ok S"
  shows "store_ok (with_module v S)"
proof -
  have "deps_closed (with_module v S)"
    using ok by (auto simp: store_ok_def deps_closed_def less_Suc_eq)
  moreover have "providers_real (with_module v S)"
    using ok by (auto simp: store_ok_def deps_closed_def providers_real_def less_Suc_eq)
  moreover have "deps_in_World (with_module v S)"
    using ok by (auto simp: store_ok_def deps_in_World_def less_Suc_eq)
  ultimately show ?thesis
    using ok names_with [OF ok, of v] by (auto simp: store_ok_def less_Suc_eq)
qed

text \<open>The virtual module that \<open>Check_Conflicts\<close> creates for a name, with its first provider.\<close>

lemma Module_Name_World_upd [simp]: "Module_Name (S\<lparr>World := l\<rparr>) = Module_Name S"
  by (simp add: Module_Name_def fun_eq_iff)

definition with_virtual :: "string \<Rightarrow> Module_Access \<Rightarrow> 'w Init_State \<Rightarrow> 'w Init_State" where
  "with_virtual N Current S = update (count S) (prepend_dep \<lparr>Target = Current, Optional = False\<rparr>)
     ((with_module (Virtual_Name N) S)\<lparr>World := World S @ [count S]\<rparr>)"

lemma extends_append_World: "extends S (S\<lparr>World := World S @ vs\<rparr>)"
  by (simp add: extends_def Let_def)

lemma extends_virtual: "extends S (with_virtual N Current S)"
  unfolding with_virtual_def
  by (rule extends_trans [OF extends_with extends_trans [OF extends_append_World [of "with_module (Virtual_Name N) S" "[count S]"]]])
    (simp add: extends_prepend)

lemma store_ok_virtual:
  assumes ok: "store_ok S" and c': "Current \<in> set (World S)" "\<not> Virtual S Current" and new: "Lookup_Module S N = None"
  shows "store_ok (with_virtual N Current S)"
proof -
  let ?S1 = "with_module (Virtual_Name N) S"
  have ok1: "store_ok ?S1"
    by (rule store_ok_with [OF ok])
  note c = store_okD(3) [OF ok c'(1)] c'(2)
  have "deps_in_World (with_virtual N Current S)"
    using ok1 c' by (auto simp: with_virtual_def store_ok_def deps_in_World_def)
  moreover
  have "N \<notin> Module_Name S ` set (World S)" "Module_Name ?S1 (count S) = N"
    using new by (simp_all add: Lookup_Module_None) (simp add: Module_Name_def)
  then have "distinct (map (Module_Name ?S1) (World S @ [count S]))"
    using ok names_with [OF ok, of "Virtual_Name N"] extends_Name [OF extends_with, of _ S "Virtual_Name N"]
    by (auto simp: store_ok_def)
  moreover have "deps_closed (with_virtual N Current S)"
    using ok1 c by (auto simp: with_virtual_def store_ok_def deps_closed_def)
  moreover have "providers_real (with_virtual N Current S)"
    using ok1 c by (auto simp: with_virtual_def store_ok_def providers_real_def)
  ultimately show ?thesis
    using ok1 by (auto simp: store_ok_def with_virtual_def)
qed

section \<open>Aliases and dependencies\<close>

definition exclusive_name :: "string \<Rightarrow> bool" where
  "exclusive_name N \<longleftrightarrow> N \<noteq> [] \<and> last N = CHR ''!''"

definition alias_name :: "string \<Rightarrow> string" where
  "alias_name N = (if exclusive_name N then butlast N else N)"

fun variant_conflicts :: "'w variant \<Rightarrow> string list" where
  "variant_conflicts (Info i) = Conflicts i"
| "variant_conflicts (Virtual_Name n) = []"

text \<open>The store says that a module provides a name: the module of that name has it as a provider.\<close>

definition provides :: "'w Init_State \<Rightarrow> Module_Access \<Rightarrow> string \<Rightarrow> bool" where
  "provides S m N \<longleftrightarrow> (\<exists>V. Lookup_Module S (alias_name N) = Some V
     \<and> \<lparr>Target = m, Optional = False\<rparr> \<in> set (Deps (the_module S V)))
   \<and> (exclusive_name N \<longrightarrow> alias_name N \<in> set (variant_conflicts (variant_part (the_module S m))))"

lemma Lookup_count: "store_ok S \<Longrightarrow> Lookup_Module S N = Some V \<Longrightarrow> V < count S"
  using Lookup_Module_Some store_okD(3) by blast

lemma same_variant_conflicts: "same_variant u v \<Longrightarrow> set (variant_conflicts u) \<subseteq> set (variant_conflicts v)"
  by (cases u; cases v) auto

lemma provides_extends:
  "store_ok S \<Longrightarrow> store_ok S' \<Longrightarrow> extends S S' \<Longrightarrow> m < count S \<Longrightarrow> provides S m N \<Longrightarrow> provides S' m N"
  unfolding provides_def
  using Lookup_extends [of S' S] Lookup_count [of S] extends_Deps [of S S'] same_variant_conflicts [OF extends_variant, of S S' m]
  by blast

lemma register_alias_ok:
  assumes run: "register_alias Current N S = (r, S')" and ok: "store_ok S"
    and c': "Current \<in> set (World S)" "\<not> Virtual S Current"
  shows "store_ok S' \<and> extends S S' \<and> (r = Inr () \<longrightarrow> provides S' Current N)"
proof (cases "N = []")
  case True
  then show ?thesis
    using run ok by (auto simp: register_alias_def)
next
  case False
  define S1 where "S1 = (if exclusive_name N then update Current (set_conflicts (alias_name N)) S else S)"
  let ?D = "\<lparr>Target = Current, Optional = False\<rparr>"
  note c = store_okD(3) [OF ok c'(1)] c'(2)
  have S1: "store_ok S1" "extends S S1" "Current < count S1" "\<not> Virtual S1 Current" "Current \<in> set (World S1)"
    using ok c c' by (auto simp: S1_def store_ok_conflicts extends_conflicts)
  have excl: "exclusive_name N \<longrightarrow> alias_name N \<in> set (variant_conflicts (variant_part (the_module S1 Current)))"
    using c by (auto simp: S1_def the_module_update set_conflicts_def split: variant.splits)
  have run1: "register_alias Current N S = (case Lookup_Module S1 (alias_name N) of
          Some V \<Rightarrow> (Inr (), update V (prepend_dep ?D) S1)
        | None \<Rightarrow> (case Check_Duplicate (with_module (Virtual_Name (alias_name N)) S1) (alias_name N) of
              Inl e \<Rightarrow> (Inl e, with_module (Virtual_Name (alias_name N)) S1)
            | Inr _ \<Rightarrow> (Inr (), with_virtual (alias_name N) Current S1)))"
    using False by (simp add: register_alias_def S1_def exclusive_name_def alias_name_def allocate_with with_virtual_def Let_def cong: if_cong option.case_cong sum.case_cong)
  show ?thesis
  proof (cases "Lookup_Module S1 (alias_name N)")
    case (Some V)
    have V: "V \<in> set (World S1)" "V < count S1"
      using Lookup_Module_Some [OF Some] Lookup_count [OF S1(1) Some] by auto
    have S': "S' = update V (prepend_dep ?D) S1" "r = Inr ()"
      using run run1 Some by auto
    have ok': "store_ok S'" and e: "extends S1 S'"
      using store_ok_prepend [OF S1(1) V(1), of ?D] S1 extends_prepend [of S1] S' by auto
    have "provides S' Current N"
      using excl S' V Lookup_extends [OF ok' e Some V(2)] by (auto simp: provides_def)
    then show ?thesis
      using ok' extends_trans [OF S1(2) e] by simp
  next
    case None
    let ?V = "with_virtual (alias_name N) Current S1"
    have "Lookup_Module (with_module (Virtual_Name (alias_name N)) S1) (alias_name N) = None"
      using None extends_Name [OF extends_with, of _ S1] store_okD(3) [OF S1(1)] by (auto simp: Lookup_Module_None image_iff)
    then have S': "S' = ?V" "r = Inr ()"
      using run run1 None by (auto simp: Check_Duplicate_def)
    have ok': "store_ok ?V"
      by (rule store_ok_virtual [OF S1(1,5,4) None])
    have e: "extends S1 ?V"
      by (rule extends_virtual)
    have new: "count S1 \<in> set (World ?V)" "Module_Name ?V (count S1) = alias_name N" "?D \<in> set (Deps (the_module ?V (count S1)))"
      by (simp_all add: with_virtual_def Module_Name_def)
    have "provides ?V Current N"
      using new Lookup_Module_unique [OF ok' new(1)] excl same_variant_conflicts [OF extends_variant [OF e S1(3)]]
      by (auto simp: provides_def)
    then show ?thesis
      using ok' extends_trans [OF S1(2) e] S' by simp
  qed
qed

fun variant_provides :: "'w variant \<Rightarrow> string list" where
  "variant_provides (Info i) = Provides i"
| "variant_provides (Virtual_Name n) = []"

fun variant_depends :: "'w variant \<Rightarrow> string list" where
  "variant_depends (Info i) = Depends i"
| "variant_depends (Virtual_Name n) = []"

lemma same_variant_lists: "same_variant u v \<Longrightarrow> variant_provides v = variant_provides u \<and> variant_depends v = variant_depends u"
  by (cases u; cases v) auto

lemma extends_lists:
  "extends S S' \<Longrightarrow> m < count S \<Longrightarrow>
     variant_provides (variant_part (the_module S' m)) = variant_provides (variant_part (the_module S m))
   \<and> variant_depends (variant_part (the_module S' m)) = variant_depends (variant_part (the_module S m))"
  using same_variant_lists [OF extends_variant] by blast

definition all_provided :: "'w Init_State \<Rightarrow> Module_Access \<Rightarrow> bool" where
  "all_provided S m \<longleftrightarrow> (\<forall>N\<in>set (variant_provides (variant_part (the_module S m))). provides S m N)"

lemma all_provided_extends:
  "store_ok S \<Longrightarrow> store_ok S' \<Longrightarrow> extends S S' \<Longrightarrow> m < count S \<Longrightarrow> all_provided S m \<Longrightarrow> all_provided S' m"
  using provides_extends [of S S' m] extends_lists [of S S' m] by (simp add: all_provided_def)

text \<open>What the loops over modules and names keep: the invariant, and that the module is a real one of the world.\<close>

definition current_ok :: "Module_Access \<Rightarrow> 'w Init_State \<Rightarrow> bool" where
  "current_ok m S \<longleftrightarrow> store_ok S \<and> m \<in> set (World S) \<and> \<not> Virtual S m"

lemma current_okD: "current_ok m S \<Longrightarrow> m < count S \<and> store_ok S \<and> m \<in> set (World S) \<and> \<not> Virtual S m"
  by (simp add: current_ok_def store_okD)

lemma current_ok_extends: "current_ok m S \<Longrightarrow> store_ok S' \<Longrightarrow> extends S S' \<Longrightarrow> current_ok m S'"
  unfolding current_ok_def using extends_World [of S S' m] extends_Virtual [of S S' m] store_okD(3) [of S m] by blast

lemma register_aliases_ok:
  assumes run: "register_aliases m S = (r, S')" and c: "current_ok m S"
  shows "store_ok S' \<and> extends S S' \<and> (r = Inr () \<longrightarrow> all_provided S' m)"
proof -
  obtain i where i: "variant_part (the_module S m) = Info i"
    using current_okD [OF c] by (cases "variant_part (the_module S m)") auto
  have "for_each (register_alias m) (Provides i) S = (r, S')"
    using run i by (simp add: register_aliases_def)
  from this c have "current_ok m S' \<and> extends S S' \<and> (r = Inr () \<longrightarrow> (\<forall>N\<in>set (Provides i). provides S' m N))"
  proof (rule for_each_rule)
    show "current_ok m S2 \<and> extends S1 S2 \<and> (q = Inr () \<longrightarrow> provides S2 m N)"
      if "current_ok m S1" "register_alias m N S1 = (q, S2)" for N S1 q S2
      using register_alias_ok [OF that(2)] current_okD [OF that(1)] current_ok_extends [OF that(1), of S2] by simp
    show "provides S2 m N" if "current_ok m S1" "current_ok m S2" "extends S1 S2" "provides S1 m N" for N S1 S2
      using that provides_extends [of S1 S2 m N] current_okD by blast
  qed (auto intro: extends_trans)
  then show ?thesis
    using i extends_lists [of S S' m] current_okD [OF c] by (auto simp: all_provided_def current_ok_def)
qed

lemma register_loop_ok:
  assumes run: "register_loop S = (r, S')" and ok: "store_ok S"
  shows "store_ok S' \<and> extends S S' \<and>
    (r = Inr () \<longrightarrow> (\<forall>m\<in>set (takeWhile (\<lambda>M. \<not> Virtual S M) (World S)). all_provided S' m))"
proof -
  let ?Ms = "takeWhile (\<lambda>M. \<not> Virtual S M) (World S)"
  let ?I = "\<lambda>S'. store_ok S' \<and> (\<forall>m\<in>set ?Ms. current_ok m S')"
  have "?I S"
    using ok by (simp add: current_ok_def) (blast dest: set_takeWhileD)
  with run have "?I S' \<and> extends S S' \<and> (r = Inr () \<longrightarrow> (\<forall>m\<in>set ?Ms. all_provided S' m))"
    unfolding register_loop_def
  proof (rule for_each_rule)
    show "?I S2 \<and> extends S1 S2 \<and> (q = Inr () \<longrightarrow> all_provided S2 m)"
      if "m \<in> set ?Ms" "?I S1" "register_aliases m S1 = (q, S2)" for m S1 q S2
      using register_aliases_ok [OF that(3)] that(1,2) current_ok_extends [of _ S1 S2] by auto
    show "all_provided S2 m" if "m \<in> set ?Ms" "?I S1" "?I S2" "extends S1 S2" "all_provided S1 m" for m S1 S2
      using that all_provided_extends [of S1 S2 m] current_okD [of m S1] by simp
  qed (auto intro: extends_trans)
  then show ?thesis
    by auto
qed

lemma Check_Conflicts_ok:
  "Check_Conflicts S = (r, S') \<Longrightarrow> store_ok S \<Longrightarrow> store_ok S' \<and> extends S S'"
  by (auto simp: Check_Conflicts_def dest: register_loop_ok split: prod.splits sum.splits)

text \<open>The entries of the list of dependencies for a name.\<close>

definition resolves :: "'w Init_State \<Rightarrow> Module_Access \<Rightarrow> string \<Rightarrow> bool" where
  "resolves S m N \<longleftrightarrow> (case Lookup_Module S (target_name N) of
     None \<Rightarrow> optional_name N
   | Some t \<Rightarrow> \<lparr>Target = t, Optional = optional_name N\<rparr> \<in> set (Deps (the_module S m)))"

text \<open>Resolution adds no module.\<close>

definition only_deps :: "'w Init_State \<Rightarrow> 'w Init_State \<Rightarrow> bool" where
  "only_deps S S' \<longleftrightarrow> extends S S' \<and> count S' = count S \<and> World S' = World S"

lemma only_deps_Lookup:
  assumes "only_deps S S'" "store_ok S" "store_ok S'"
  shows "Lookup_Module S' N = Lookup_Module S N"
proof (cases "Lookup_Module S N")
  case None
  then have "Lookup_Module S' N = None"
    using assms extends_Name [of S S'] store_okD(3) [OF assms(2)] by (auto simp: only_deps_def Lookup_Module_None image_iff)
  then show ?thesis
    using None by simp
next
  case (Some m)
  then show ?thesis
    using assms Lookup_extends [of S' S N m] Lookup_count [OF assms(2) Some] by (simp add: only_deps_def)
qed

lemma only_deps_refl [simp]: "only_deps S S"
  by (simp add: only_deps_def)

lemma only_deps_trans: "only_deps S S1 \<Longrightarrow> only_deps S1 S2 \<Longrightarrow> only_deps S S2"
  using extends_trans by (auto simp: only_deps_def)

lemma resolves_only_deps:
  "only_deps S S' \<Longrightarrow> store_ok S \<Longrightarrow> store_ok S' \<Longrightarrow> m < count S \<Longrightarrow> resolves S m N \<Longrightarrow> resolves S' m N"
  using only_deps_Lookup [of S S'] extends_Deps [of S S' m]
  by (auto simp: resolves_def only_deps_def split: option.splits)

lemma prepend_ok:
  "current_ok m S \<Longrightarrow> Target D \<in> set (World S) \<Longrightarrow> current_ok m (update m (prepend_dep D) S) \<and> only_deps S (update m (prepend_dep D) S)"
  using store_ok_prepend [of S m D] extends_prepend [of S m D] by (auto simp: only_deps_def current_ok_def)

lemma prepend_all_ok:
  "current_ok m S \<Longrightarrow> \<forall>D\<in>set Ds. Target D \<in> set (World S) \<Longrightarrow> current_ok m (prepend_all m Ds S) \<and> only_deps S (prepend_all m Ds S)"
proof (induction Ds arbitrary: S)
  case (Cons D Ds)
  have one: "current_ok m (update m (prepend_dep D) S)" "only_deps S (update m (prepend_dep D) S)"
    using prepend_ok [of m S D] Cons.prems by auto
  show ?case
    using Cons.IH [OF one(1)] Cons.prems(2) only_deps_trans [OF one(2)] by simp
qed (simp add: only_deps_def)

lemma resolve_name_ok:
  assumes run: "resolve_name m b N S = (r, S')" and c: "current_ok m S"
  shows "current_ok m S' \<and> only_deps S S' \<and> (r = Inr () \<longrightarrow> resolves S' m N)"
proof -
  have impl: "current_ok m (if \<not> b then prepend_all m (Implicit_Deps S1) S1 else S1)
      \<and> only_deps S1 (if \<not> b then prepend_all m (Implicit_Deps S1) S1 else S1)" if "current_ok m S1" for S1 :: "'a Init_State"
    using that prepend_all_ok [OF that, of "Implicit_Deps S1"] by (auto simp: current_ok_def store_ok_def only_deps_def)
  show ?thesis
  proof (cases "Lookup_Module S (target_name N)")
    case (Some t)
    let ?D = "\<lparr>Target = t, Optional = optional_name N\<rparr>"
    let ?S1 = "update m (prepend_dep ?D) S"
    have one: "current_ok m ?S1" "only_deps S ?S1"
      using prepend_ok [OF c, of ?D] Lookup_Module_Some [OF Some] by auto
    have S': "S' = (if \<not> b then prepend_all m (Implicit_Deps ?S1) ?S1 else ?S1)"
      using run Some by (simp add: resolve_name_def)
    have two: "current_ok m S'" "only_deps ?S1 S'"
      using impl [OF one(1)] S' by auto
    have "resolves ?S1 m N"
      using Some only_deps_Lookup [OF one(2)] c one(1) current_okD [OF c] by (simp add: resolves_def current_ok_def)
    then have "resolves S' m N"
      using resolves_only_deps [OF two(2)] one(1) two(1) current_okD [OF one(1)] by (simp add: current_ok_def)
    then show ?thesis
      using two only_deps_trans [OF one(2) two(2)] by simp
  next
    case None
    show ?thesis
    proof (cases "optional_name N")
      case True
      have S': "S' = (if \<not> b then prepend_all m (Implicit_Deps S) S else S)"
        using run None True by (simp add: resolve_name_def)
      have two: "current_ok m S'" "only_deps S S'"
        using impl [OF c] S' by auto
      then show ?thesis
        using None True only_deps_Lookup [OF two(2)] c by (simp add: resolves_def current_ok_def)
    next
      case False
      then show ?thesis
        using run None c by (auto simp: resolve_name_def Raise_Unresolved_Dependency_def Raise_Program_Error_def only_deps_def)
    qed
  qed
qed

definition all_resolved :: "'w Init_State \<Rightarrow> Module_Access \<Rightarrow> bool" where
  "all_resolved S m \<longleftrightarrow> (\<forall>N\<in>set (variant_depends (variant_part (the_module S m))). resolves S m N)"

lemma all_resolved_only_deps:
  "only_deps S S' \<Longrightarrow> store_ok S \<Longrightarrow> store_ok S' \<Longrightarrow> m < count S \<Longrightarrow> all_resolved S m \<Longrightarrow> all_resolved S' m"
  using resolves_only_deps [of S S' m] extends_lists [of S S' m] by (auto simp: all_resolved_def only_deps_def)

lemma resolve_module_ok:
  assumes run: "resolve_module m S = (r, S')" and ok: "store_ok S" and m: "m \<in> set (World S)"
  shows "store_ok S' \<and> only_deps S S' \<and> (r = Inr () \<longrightarrow> all_resolved S' m)"
proof (cases "variant_part (the_module S m)")
  case (Virtual_Name n)
  then show ?thesis
    using run ok by (auto simp: resolve_module_def all_resolved_def only_deps_def)
next
  case (Info i)
  have c: "current_ok m S"
    using ok m Info by (simp add: current_ok_def)
  have "for_each (resolve_name m (Implicit i)) (Depends i) S = (r, S')"
    using run Info by (simp add: resolve_module_def)
  from this c have "current_ok m S' \<and> only_deps S S' \<and> (r = Inr () \<longrightarrow> (\<forall>N\<in>set (Depends i). resolves S' m N))"
  proof (rule for_each_rule)
    show "current_ok m S2 \<and> only_deps S1 S2 \<and> (q = Inr () \<longrightarrow> resolves S2 m N)"
      if "current_ok m S1" "resolve_name m (Implicit i) N S1 = (q, S2)" for N S1 q S2
      by (rule resolve_name_ok [OF that(2,1)])
    show "resolves S2 m N" if "current_ok m S1" "current_ok m S2" "only_deps S1 S2" "resolves S1 m N" for N S1 S2
      using that resolves_only_deps [of S1 S2 m N] current_okD by blast
  qed (auto intro: only_deps_trans)
  then show ?thesis
    using Info extends_lists [of S S' m] current_okD [OF c] by (auto simp: all_resolved_def only_deps_def current_ok_def)
qed

lemma Resolve_Dependencies_ok:
  assumes run: "Resolve_Dependencies S = (r, S')" and ok: "store_ok S"
  shows "store_ok S' \<and> only_deps S S' \<and> (r = Inr () \<longrightarrow> (\<forall>m\<in>set (World S'). all_resolved S' m))"
proof -
  let ?I = "\<lambda>S'. store_ok S' \<and> World S' = World S"
  have "?I S" using ok by simp
  with run have "?I S' \<and> only_deps S S' \<and> (r = Inr () \<longrightarrow> (\<forall>m\<in>set (World S). all_resolved S' m))"
    unfolding Resolve_Dependencies_def
  proof (rule for_each_rule)
    show "?I S2 \<and> only_deps S1 S2 \<and> (q = Inr () \<longrightarrow> all_resolved S2 m)"
      if "m \<in> set (World S)" "?I S1" "resolve_module m S1 = (q, S2)" for m S1 q S2
      using resolve_module_ok [OF that(3)] that(1,2) by (auto simp: only_deps_def)
    show "all_resolved S2 m" if "m \<in> set (World S)" "?I S1" "?I S2" "only_deps S1 S2" "all_resolved S1 m" for m S1 S2
      using that all_resolved_only_deps [of S1 S2 m] store_okD(3) [of S1 m] by auto
  qed (auto intro: only_deps_trans)
  then show ?thesis
    by auto
qed

section \<open>The run of the initializers\<close>


text \<open>A module that is passed over: the configuration disabled it, in the state of the program at that time.\<close>

definition disabled :: "'w hook \<Rightarrow> 'w Init_State \<Rightarrow> Module_Access \<Rightarrow> bool" where
  "disabled H S m \<longleftrightarrow> (\<exists>w. module_enabled H w (Module_Name S m) = Inr False)"


lemma Module_Name_static: "static S' = static S \<Longrightarrow> m < count S \<Longrightarrow> Module_Name S' m = Module_Name S m"
  using static_nth [of S' S m] static_count [of S' S] by (simp add: Module_Name_def)



lemma card_idle_bound: "card (idle p) \<le> length p"
  using card_mono [of "{..<length p}" "idle p"] by (auto simp: idle_def)

lemma Visit_depth_bound: "deps_closed S \<Longrightarrow> M < count S \<Longrightarrow> \<exists>r S'. Visit H (depth_bound S) M S = Some (r, S')"
  using Visit_returns(1) [of S M "depth_bound S" H] card_idle_bound [of "in_progress S"] by (simp add: depth_bound_def)



section \<open>Histories of the package\<close>

text \<open>Every sequence of calls of the operations, with whatever outcome.\<close>

inductive reachable :: "'w hook \<Rightarrow> 'w Init_State \<Rightarrow> bool" for H :: "'w hook" where
  start: "reachable H (elaborated w)"
| register: "reachable H S \<Longrightarrow> Register_Module I S = (r, S') \<Longrightarrow> reachable H S'"
| initialize: "reachable H S \<Longrightarrow> Initialize_World H S = Some (r, S') \<Longrightarrow> reachable H S'"
| shutdown: "reachable H S \<Longrightarrow> Shutdown_World W S = (r, S') \<Longrightarrow> reachable H S'"

inductive registered :: "'w Init_State \<Rightarrow> bool" where
  start: "registered (elaborated w)"
| register: "registered S \<Longrightarrow> Register_Module I S = (r, S') \<Longrightarrow> registered S'"

lemma registered_reachable: "registered S \<Longrightarrow> reachable H S"
  by (induction rule: registered.induct) (auto intro: reachable.intros)

lemma store_ok_elaborated: "store_ok (elaborated w)"
  by (simp add: store_ok_def elaborated_def deps_closed_def providers_real_def deps_in_World_def)

lemma store_ok_other [simp]:
  "store_ok (S\<lparr>Allocated := b\<rparr>) = store_ok S" "store_ok (S\<lparr>Init_Done := b\<rparr>) = store_ok S"
  by (simp_all add: store_ok_def deps_closed_def providers_real_def deps_in_World_def Module_Name_def [abs_def])

lemma Lookup_with_module:
  "store_ok S \<Longrightarrow> Lookup_Module (with_module v S) N = None \<Longrightarrow> N \<notin> Module_Name S ` set (World S)"
  using extends_Name [OF extends_with, of _ S v] store_okD(3) [of S] by (auto simp: Lookup_Module_None image_iff)

lemma store_ok_add:
  assumes ok: "store_ok S" and new: "Lookup_Module (with_module (Info i) S) (Name i) = None"
  shows "store_ok ((with_module (Info i) S)\<lparr>World := World S @ [count S]\<rparr>)"
proof -
  let ?S1 = "with_module (Info i) S"
  have ok1: "store_ok ?S1"
    by (rule store_ok_with [OF ok])
  have "Module_Name ?S1 (count S) = Name i"
    by (simp add: Module_Name_def)
  then have "distinct (map (Module_Name ?S1) (World S @ [count S]))"
    using ok names_with [OF ok, of "Info i"] Lookup_with_module [OF ok new] extends_Name [OF extends_with, of _ S "Info i"]
    by (auto simp: store_ok_def)
  then show ?thesis
    using ok1 by (auto simp: store_ok_def deps_closed_def providers_real_def deps_in_World_def)
qed

text \<open>What \<open>Register_Module\<close> can do.\<close>

lemma Register_Module_cases:
  assumes "Register_Module i S = (r, S')"
  obtains (Too_late) "Init_Done S" "S' = S" "r \<noteq> Inr ()"
  | (Duplicate) "\<not> Init_Done S" "S' = with_module (Info i) (S\<lparr>Allocated := True\<rparr>)" "r \<noteq> Inr ()"
  | (Added) D where "\<not> Init_Done S" "r = Inr ()" "Lookup_Module (with_module (Info i) (S\<lparr>Allocated := True\<rparr>)) (Name i) = None"
     "S' = (with_module (Info i) (S\<lparr>Allocated := True\<rparr>))\<lparr>World := World S @ [count S], Implicit_Deps := Implicit_Deps S @ D\<rparr>"
     "D = [] \<or> D = [\<lparr>Target = count S, Optional = True\<rparr>]"
proof (cases "Init_Done S")
  case True
  then have "S' = S \<and> r \<noteq> Inr ()"
    using assms by (auto simp: Register_Module_def Raise_Program_Error_def)
  then show ?thesis
    by (intro Too_late) (simp_all add: True)
next
  case False
  have A: "(if Allocated S then S else S\<lparr>Allocated := True\<rparr>) = S\<lparr>Allocated := True\<rparr>"
    by simp
  let ?S1 = "with_module (Info i) (S\<lparr>Allocated := True\<rparr>)"
  show ?thesis
  proof (cases "Lookup_Module ?S1 (Name i)")
    case (Some m)
    then have "S' = ?S1 \<and> r \<noteq> Inr ()"
      using assms False unfolding Register_Module_def A
      by (auto simp: allocate_with Check_Duplicate_def Raise_Program_Error_def)
    then show ?thesis
      by (intro Duplicate) (simp_all add: False)
  next
    case None
    then have "r = Inr () \<and> S' = ?S1\<lparr>World := World S @ [count S],
        Implicit_Deps := Implicit_Deps S @ (if Implicit i then [\<lparr>Target = count S, Optional = True\<rparr>] else [])\<rparr>"
      using assms False unfolding Register_Module_def A by (auto simp: allocate_with Check_Duplicate_def Let_def)
    then show ?thesis
      using None False by (intro Added [of "if Implicit i then [\<lparr>Target = count S, Optional = True\<rparr>] else []"]) auto
  qed
qed

lemma store_ok_Implicit:
  "store_ok S \<Longrightarrow> \<forall>d\<in>set D. Target d \<in> set (World S) \<Longrightarrow> store_ok (S\<lparr>Implicit_Deps := Implicit_Deps S @ D\<rparr>)"
  by (auto simp: store_ok_def deps_closed_def providers_real_def deps_in_World_def Module_Name_def [abs_def])

lemma Register_Module_ok:
  assumes "Register_Module i S = (r, S')" "store_ok S"
  shows "store_ok S'"
  using assms(1)
proof (cases rule: Register_Module_cases)
  case Duplicate
  then show ?thesis
    using assms(2) by (simp add: store_ok_with)
next
  case (Added D)
  let ?S1 = "(with_module (Info i) (S\<lparr>Allocated := True\<rparr>))\<lparr>World := World S @ [count S]\<rparr>"
  have "store_ok ?S1"
    using store_ok_add [of "S\<lparr>Allocated := True\<rparr>" i] Added assms(2) by simp
  then show ?thesis
    using store_ok_Implicit [of ?S1 D] Added by auto
qed (use assms in simp)

text \<open>The shutdown list has real modules with a finalizer.\<close>

definition shutdown_ok :: "'w Init_State \<Rightarrow> bool" where
  "shutdown_ok S \<longleftrightarrow> (\<forall>m\<in>set (Shutdown_Order S). m < count S \<and> has_Shutdown (variant_part (the_module S m)))"

lemma shutdown_ok_static: "static S' = static S \<Longrightarrow> Shutdown_Order S' = Shutdown_Order S \<Longrightarrow> shutdown_ok S' = shutdown_ok S"
  using static_count [of S' S] static_nth [of S' S] by (auto simp: shutdown_ok_def)

lemma visits_shutdown:
  "visits H M S r S' \<Longrightarrow> deps_closed S \<Longrightarrow> M < count S \<Longrightarrow> shutdown_ok S \<Longrightarrow> shutdown_ok S'"
  "visits_deps H M Ds b S q S' \<Longrightarrow> deps_closed S \<Longrightarrow> \<forall>D\<in>set Ds. Target D < count S \<Longrightarrow> shutdown_ok S \<Longrightarrow> shutdown_ok S'"
proof (induction rule: visits_visits_deps.inducts)
  case (failed S M e S1)
  then show ?case
    using shutdown_ok_static [of "set_in_progress M True S" S] by (auto dest: deps_closedD)
next
  case (circular S M S1)
  then show ?case
    using shutdown_ok_static [of "set_in_progress M True S" S] by (auto dest: deps_closedD)
next
  case (finished S M b S1 r S2)
  let ?S1 = "set_in_progress M False S1"
  have "shutdown_ok S1"
    using finished shutdown_ok_static [of "set_in_progress M True S" S] by (auto dest: deps_closedD)
  then have ok: "shutdown_ok ?S1"
    by (simp add: shutdown_ok_static [of ?S1 S1])
  have st: "static S2 = static ?S1" and M: "M < count ?S1"
    using Visit_module_static [OF finished(4)] visits_static(2) [OF finished(2)] static_count [of S1 S] finished.prems(2) by auto
  from finished(4) M show ?case
  proof (cases rule: Visit_module_cases)
    case Up
    then show ?thesis
      using ok static_count [OF st] static_nth [OF st] M by (auto simp: shutdown_ok_def split: if_splits)
  qed (use ok shutdown_ok_static [OF st] in auto)
next
  case (resolved S D S1 M Ds b q S2)
  have st: "static S1 = static S"
    using visits_static(1) [OF \<open>visits H (Target D) S (Inr False) S1\<close>] by simp
  show ?case
    using resolved static_count [OF st] deps_closed_static [OF st] by simp
qed auto

lemma initializers_loop_returns:
  assumes "deps_closed S" "\<forall>m\<in>set Ms. m < count S"
  shows "\<exists>r S'. initializers_loop H Ms S = Some (r, S') \<and> static S' = static S \<and> (shutdown_ok S \<longrightarrow> shutdown_ok S')"
  using assms
proof (induction Ms arbitrary: S)
  case (Cons M Ms)
  show ?case
  proof (cases "Visited (the_module S M)")
    case True
    then show ?thesis
      using Cons.IH [OF Cons.prems(1)] Cons.prems(2) by auto
  next
    case False
    obtain q S1 where v: "Visit H (depth_bound S) M S = Some (q, S1)"
      using Visit_depth_bound [OF Cons.prems(1), of M H] Cons.prems(2) by auto
    note vs = Visit_visits(1) [OF v]
    have st: "static S1 = static S" and sh: "shutdown_ok S \<longrightarrow> shutdown_ok S1"
      using visits_static(1) [OF vs] visits_shutdown(1) [OF vs Cons.prems(1)] Cons.prems(2) by auto
    obtain r S' where "initializers_loop H Ms S1 = Some (r, S')" "static S' = static S1" "shutdown_ok S1 \<longrightarrow> shutdown_ok S'"
      using Cons.IH [of S1] Cons.prems deps_closed_static [OF st] static_count [OF st] by auto
    then show ?thesis
      using v False st sh by (cases q) (auto simp: Raise_Program_Error_def split: bool.splits)
  qed
qed simp

lemma store_ok_static:
  assumes "static S' = static S" "store_ok S" "shutdown_ok S'"
  shows "store_ok S'"
proof -
  have eq: "World S' = World S" "Implicit_Deps S' = Implicit_Deps S"
    using assms(1) by (simp_all add: static_def)
  have "map (Module_Name S') (World S) = map (Module_Name S) (World S)"
    using assms(2) Module_Name_static [OF assms(1)] by (auto simp: store_ok_def)
  then have "distinct (map (Module_Name S') (World S))"
    using assms(2) unfolding store_ok_def by (simp only:)
  then show ?thesis
    using assms(2,3) eq static_count [OF assms(1)] static_nth [OF assms(1)] deps_closed_static [OF assms(1)] providers_real_static [OF assms(1)]
    by (auto simp: store_ok_def shutdown_ok_def deps_in_World_def)
qed

text \<open>The three stages of \<open>Initialize_World\<close>.\<close>

lemma Initialize_World_returns_ok:
  assumes ok: "store_ok S"
  shows "\<exists>r S'. Initialize_World H S = Some (r, S') \<and> store_ok S'"
proof -
  obtain r1 S1 where C: "Check_Conflicts S = (r1, S1)" by fastforce
  obtain r2 S2 where R: "Resolve_Dependencies S1 = (r2, S2)" by fastforce
  have ok1: "store_ok S1"
    using Check_Conflicts_ok [OF C ok] by simp
  then have ok2: "store_ok S2"
    using Resolve_Dependencies_ok [OF R ok1] by simp
  obtain r3 S3 where I: "Run_Initializers H S2 = Some (r3, S3)" "static S3 = static S2" "shutdown_ok S3"
    using initializers_loop_returns [of S2 "World S2" H] ok2 by (auto simp: Run_Initializers_def store_ok_def shutdown_ok_def)
  have ok3: "store_ok S3"
    by (rule store_ok_static [OF I(2) ok2 I(3)])
  show ?thesis
    using C R I(1) ok ok1 ok2 ok3 by (cases r1; cases r2; cases r3) (auto simp: Initialize_World_def)
qed

lemma finalizers_loop_calls:
  assumes "finalizers_loop W Ms S = (r, S')" "\<forall>m\<in>set Ms. has_Shutdown (variant_part (the_module S m))"
  shows "the_modules S' = the_modules S \<and> World S' = World S \<and> Implicit_Deps S' = Implicit_Deps S
    \<and> (\<exists>k. calls S' = calls S @ map (\<lambda>m. Shutdown_Call m W) (take k Ms) \<and> Shutdown_Order S' = drop k Ms
        \<and> (r = Inr () \<longrightarrow> length Ms \<le> k))"
  using assms
proof (induction Ms arbitrary: S)
  case Nil
  then show ?case
    by auto
next
  case (Cons M Ms)
  obtain i p where i: "variant_part (the_module S M) = Info i" "Shutdown i = Some p"
    using Cons.prems(2) by (cases "variant_part (the_module S M)") auto
  obtain q w where p: "p W (world S) = (q, w)" by fastforce
  show ?case
  proof (cases q)
    case (Inl e)
    then show ?thesis
      using Cons.prems(1) i p by (auto intro: exI [of _ 1])
  next
    case (Inr u)
    let ?S1 = "S\<lparr>Shutdown_Order := Ms, world := w, calls := calls S @ [Shutdown_Call M W]\<rparr>"
    have run: "finalizers_loop W Ms ?S1 = (r, S')"
      using Cons.prems(1) i p Inr by simp
    have "\<forall>m\<in>set Ms. has_Shutdown (variant_part (the_module ?S1 m))"
      using Cons.prems(2) by simp
    then obtain k where "the_modules S' = the_modules S \<and> World S' = World S \<and> Implicit_Deps S' = Implicit_Deps S"
      "calls S' = calls S @ Shutdown_Call M W # map (\<lambda>m. Shutdown_Call m W) (take k Ms)" "Shutdown_Order S' = drop k Ms"
      "r = Inr () \<longrightarrow> length Ms \<le> k"
      using Cons.IH [OF run] by auto
    then show ?thesis
      by (auto intro: exI [of _ "Suc k"])
  qed
qed

text \<open>Only modules of the world are initialized.\<close>

lemma deps_in_WorldD:
  "deps_in_World S \<Longrightarrow> m < count S \<Longrightarrow> D \<in> set (Deps (the_module S m)) \<Longrightarrow> Target D \<in> set (World S)"
  by (simp add: deps_in_World_def)


lemma deps_in_World_static: "static S' = static S \<Longrightarrow> deps_in_World S' = deps_in_World S"
  using static_count [of S' S] static_nth [of S' S] static_World [of S' S] by (simp add: deps_in_World_def)





section \<open>A run from registered modules\<close>

definition fresh :: "'w Init_State \<Rightarrow> bool" where
  "fresh S \<longleftrightarrow> calls S = [] \<and> Shutdown_Order S = [] \<and>
     (\<forall>m < count S. \<not> Visited (the_module S m) \<and> \<not> Initialized (the_module S m) \<and> \<not> Deps_In_Progress (the_module S m))"



lemma registered_ok:
  "registered S \<Longrightarrow> store_ok S \<and> fresh S \<and> (\<forall>m\<in>set (World S). \<not> Virtual S m) \<and> \<not> Init_Done S \<and> (Allocated S \<or> World S = [])"
proof (induction rule: registered.induct)
  case (start w)
  show ?case
    by (simp add: store_ok_elaborated) (simp add: fresh_def elaborated_def)
next
  case (register S I r S')
  then have ok: "store_ok S'" and W: "\<And>m. m \<in> set (World S) \<Longrightarrow> m < count S"
    using Register_Module_ok store_okD(3) by blast+
  from register(2) show ?case
  proof (cases rule: Register_Module_cases)
    case Duplicate
    then have "fresh S'" "\<forall>m\<in>set (World S'). \<not> Virtual S' m"
      using register(3) W by (auto simp: fresh_def less_Suc_eq) (simp_all add: with_module_def the_module_def nth_append)
    then show ?thesis
      using ok Duplicate register(3) by simp
  next
    case (Added D)
    then have "fresh S'" "\<forall>m\<in>set (World S'). \<not> Virtual S' m"
      using register(3) W by (auto simp: fresh_def less_Suc_eq) (auto simp: with_module_def the_module_def nth_append new_Module_def)
    then show ?thesis
      using ok Added register(3) by simp
  qed (use register in simp)
qed

lemma between_Init_Done [simp]:
  "ordered (S\<lparr>Init_Done := b\<rparr>) = ordered S" "dep_rel (S\<lparr>Init_Done := b\<rparr>) = dep_rel S" "inits (S\<lparr>Init_Done := b\<rparr>) = inits S"
  "up_before (S\<lparr>Init_Done := b\<rparr>) = up_before S" "Lookup_Module (S\<lparr>Init_Done := b\<rparr>) = Lookup_Module S"
  "disabled H (S\<lparr>Init_Done := b\<rparr>) = disabled H S" "Module_Name (S\<lparr>Init_Done := b\<rparr>) = Module_Name S"
proof -
  show names: "Module_Name (S\<lparr>Init_Done := b\<rparr>) = Module_Name S"
    by (simp add: Module_Name_def fun_eq_iff)
  have "lookup_loop (S\<lparr>Init_Done := b\<rparr>) N Ms = lookup_loop S N Ms" for N Ms
    by (induction Ms) (simp_all add: names)
  then show "Lookup_Module (S\<lparr>Init_Done := b\<rparr>) = Lookup_Module S"
    by (simp add: Lookup_Module_def fun_eq_iff)
  show up: "up_before (S\<lparr>Init_Done := b\<rparr>) = up_before S" and i: "inits (S\<lparr>Init_Done := b\<rparr>) = inits S"
    by (simp_all add: up_before_def inits_def fun_eq_iff)
  have "stops (S\<lparr>Init_Done := b\<rparr>) = stops S"
    by (simp add: stops_def fun_eq_iff)
  then show "ordered (S\<lparr>Init_Done := b\<rparr>) = ordered S"
    by (simp add: ordered_def up i)
  show "dep_rel (S\<lparr>Init_Done := b\<rparr>) = dep_rel S" "disabled H (S\<lparr>Init_Done := b\<rparr>) = disabled H S"
    by (simp_all add: dep_rel_def disabled_def names fun_eq_iff)
qed







text \<open>
  The converse: the traversal reports a cycle only where the dependencies have one.
\<close>

theorem Visit_reports_cycle:
  assumes "store_ok S" "\<forall>m < count S. \<not> Deps_In_Progress (the_module S m)" "M \<in> set (World S)"
    and "Visit H (depth_bound S) M S = Some (Inr True, S')"
  shows "\<not> acyclic (dep_rel S)"
proof -
  have "path_to S M"
    using assms(2) by (simp add: path_to_def)
  then show ?thesis
    using visits_circular(1) [OF Visit_visits(1) [OF assms(4)]] assms(1,3) store_okD by auto
qed

lemma Shutdown_World_ok:
  assumes "Shutdown_World W S = (r, S')" "store_ok S"
  shows "store_ok S'"
proof (cases "Allocated S")
  case True
  then have "finalizers_loop W (Shutdown_Order S) S = (r, S')"
    using assms(1) by (simp add: Shutdown_World_def)
  then obtain k where same: "the_modules S' = the_modules S" "World S' = World S" "Implicit_Deps S' = Implicit_Deps S"
    and k: "Shutdown_Order S' = drop k (Shutdown_Order S)"
    using finalizers_loop_calls [of W "Shutdown_Order S" S r S'] assms(2) by (auto simp: store_ok_def)
  have "the_module S' = the_module S" "Module_Name S' = Module_Name S"
    using same(1) by (simp_all add: the_module_def Module_Name_def fun_eq_iff)
  then show ?thesis
    using assms(2) same k set_drop_subset [of k "Shutdown_Order S"]
    by (auto simp: store_ok_def deps_closed_def providers_real_def deps_in_World_def)
qed (use assms in \<open>simp add: Shutdown_World_def\<close>)

text \<open>
  Property C4. The data of the package is well-formed at elaboration, and each of its operations keeps it so, whatever
  its outcome: every access in a list designates a module, the names in the world are unique, a virtual module
  has providers and they are real, and the modules that wait for shutdown have a finalizer.
\<close>

theorem store_ok_preserved:
  "store_ok (elaborated w)
   \<and> (store_ok S \<longrightarrow> store_ok (snd (Register_Module I S)) \<and> store_ok (snd (Shutdown_World W S))
       \<and> (\<forall>r S'. Initialize_World H S = Some (r, S') \<longrightarrow> store_ok S'))"
  using store_ok_elaborated Register_Module_ok [of I S] Shutdown_World_ok [of W S] Initialize_World_returns_ok [of S H]
  by (metis option.inject prod.collapse prod.inject)

lemma reachable_ok: "reachable H S \<Longrightarrow> store_ok S"
proof (induction rule: reachable.induct)
  case (initialize S r S')
  then show ?case
    using Initialize_World_returns_ok [of S H] by auto
qed (auto intro: store_ok_elaborated Register_Module_ok Shutdown_World_ok)

text \<open>
  Property C2. \<open>Initialize_World\<close> returns, or raises, in every state that the operations of the package can
  produce: the depth of the traversal is bounded by the number of modules.
\<close>

theorem Initialize_World_returns:
  assumes "reachable H S"
  shows "\<exists>r S'. Initialize_World H S = Some (r, S')"
  using Initialize_World_returns_ok [OF reachable_ok [OF assms]] by blast




section \<open>Concrete worlds\<close>

text \<open>Registration of a list of modules, and modules whose procedures do nothing.\<close>

definition register_all :: "'w Module_Info list \<Rightarrow> 'w Init_State \<Rightarrow> 'w Init_State" where
  "register_all Is S = fold (\<lambda>I S. snd (Register_Module I S)) Is S"

lemma registered_register_all: "registered S \<Longrightarrow> registered (register_all Is S)"
  unfolding register_all_def
proof (induction Is arbitrary: S)
  case (Cons I Is)
  have "registered (snd (Register_Module I S))"
    by (rule registered.register [OF Cons.prems]) (rule prod.collapse [symmetric])
  then show ?case
    using Cons.IH by simp
qed simp

definition quiet_module :: "string \<Rightarrow> string list \<Rightarrow> string list \<Rightarrow> unit Module_Info" where
  "quiet_module N P D = \<lparr>Name = N, Provides = P, Depends = D, Conflicts = [],
     Init = Some (\<lambda>w. (Inr (), w)), Implicit = False, Shutdown = Some (\<lambda>b w. (Inr (), w))\<rparr>"

definition no_hook :: "unit hook" where
  "no_hook w = None"

text \<open>A request broker that needs a tasking runtime, which a module provides exclusively, and optionally a logger.\<close>

definition example_world :: "unit Init_State" where
  "example_world = register_all
     [quiet_module ''orb'' [] [''tasking'', ''log?'', ''corba?''], quiet_module ''log'' [] [],
      quiet_module ''no_tasking'' [''tasking!''] []] (elaborated ())"

lemma example_registered: "registered example_world"
  unfolding example_world_def by (rule registered_register_all [OF registered.start])

definition example_end :: "unit Init_State" where
  "example_end = snd (the (Initialize_World no_hook example_world))"

lemma runs_to: "map_option fst r = Some x \<Longrightarrow> r = Some (x, snd (the r))"
  by (cases r) auto

lemma example_runs: "Initialize_World no_hook example_world = Some (Inr (), example_end)"
  unfolding example_end_def by (rule runs_to) code_simp





text \<open>Two modules that depend on each other; the dependencies have been resolved.\<close>

definition cycle_world :: "unit Init_State" where
  "cycle_world = snd (Resolve_Dependencies (register_all
     [quiet_module ''a'' [] [''b''], quiet_module ''b'' [] [''a'']] (elaborated ())))"

lemma cycle_world_ok: "store_ok cycle_world"
proof -
  let ?S = "register_all [quiet_module ''a'' [] [''b''], quiet_module ''b'' [] [''a'']] (elaborated ())"
  have "store_ok ?S"
    by (rule registered_ok [OF registered_register_all [OF registered.start], THEN conjunct1])
  then show ?thesis
    unfolding cycle_world_def using Resolve_Dependencies_ok [of ?S] by (metis prod.collapse)
qed

theorem Visit_reports_cycle_witness:
  "\<not> acyclic (dep_rel cycle_world) \<and> map_option fst (Visit no_hook (depth_bound cycle_world) 0 cycle_world) = Some (Inr True)"
proof -
  let ?V = "Visit no_hook (depth_bound cycle_world) 0 cycle_world"
  have v: "map_option fst ?V = Some (Inr True)"
    by code_simp
  have idle: "list_all (\<lambda>m. \<not> Deps_In_Progress m) (the_modules cycle_world)" "World cycle_world = [0, 1]"
    by code_simp+
  have "\<not> acyclic (dep_rel cycle_world)"
    by (rule Visit_reports_cycle [OF cycle_world_ok _ _ runs_to [OF v]])
      (use idle in \<open>auto simp: list_all_length the_module_def\<close>)
  then show ?thesis
    using v by simp
qed

theorem store_ok_preserved_witness:
  "store_ok (snd (Register_Module (quiet_module ''a'' [] []) (elaborated ())))"
  using store_ok_preserved [of "()" "elaborated ()" "quiet_module ''a'' [] []" False no_hook]
    store_ok_preserved [of "()" "elaborated ()"] by blast

theorem Initialize_World_returns_witness: "\<exists>r S'. Initialize_World no_hook example_end = Some (r, S')"
proof (rule Initialize_World_returns)
  have "reachable no_hook example_world"
    by (rule registered_reachable [OF example_registered])
  then show "reachable no_hook example_end"
    by (rule reachable.initialize) (rule example_runs)
qed



subsection \<open>Behaviour beside the documentation\<close>

text \<open>
  Whether a dependency on a virtual module without an initialized provider is an error depends on the order of the
  registrations: the check is made only where the module has not been visited before.
\<close>

definition disable_p :: "unit hook" where
  "disable_p w = Some (\<lambda>sec key def. Inr (if key = ''p'' then ''off'' else def))"

lemma unresolved_virtual_accepted:
  "map_option (\<lambda>(r, S). (r, inits S)) (Initialize_World disable_p (register_all
     [quiet_module ''p'' [''v''] [], quiet_module ''a'' [] [''v?''], quiet_module ''b'' [] [''v'']] (elaborated ())))
   = Some (Inr (), [1, 2])"
  by code_simp

lemma unresolved_virtual_refused:
  "map_option (\<lambda>(r, S). (r, inits S)) (Initialize_World disable_p (register_all
     [quiet_module ''p'' [''v''] [], quiet_module ''b'' [] [''v''], quiet_module ''a'' [] [''v?'']] (elaborated ())))
   = Some (Inl (Program_Error, ''Unresolved dependency: b -> v''), [])"
  by code_simp

text \<open>A cycle that is entered through a virtual module ends with the failed discriminant check of the report itself.\<close>

lemma virtual_cycle_report:
  "map_option fst (Initialize_World no_hook (register_all
     [quiet_module ''x'' [] [''v''], quiet_module ''a'' [''v''] [''v'']] (elaborated ())))
   = Some (Inl (Constraint_Error, []))"
  by code_simp

text \<open>A module without explicit dependencies does not get the implicit ones.\<close>

lemma implicit_dependency_missing:
  "map_option (\<lambda>(r, S). (r, inits S)) (Initialize_World no_hook (register_all
     [quiet_module ''a'' [] [], (quiet_module ''i'' [] [])\<lparr>Implicit := True\<rparr>] (elaborated ())))
   = Some (Inr (), [0, 1])"
  by code_simp

lemma implicit_dependency_added:
  "map_option (\<lambda>(r, S). (r, inits S)) (Initialize_World no_hook (register_all
     [quiet_module ''a'' [] [''none?''], (quiet_module ''i'' [] [])\<lparr>Implicit := True\<rparr>] (elaborated ())))
   = Some (Inr (), [1, 0])"
  by code_simp

end
