(* ===== verification/Parameters.thy ===== *)
theory Parameters
  imports Configuration_File Init_World
begin

text \<open>
  The parameters of a configuration and where they come from: \<open>src/src/polyorb-parameters.adb\<close> with its sources on the
  command line, in the environment, in a file and in an array of the application. A source is a function from section and key; what
  the operating system gives (arguments, environment, files) is a parameter of the definitions.
\<close>

section \<open>PolyORB.Parameters\<close>

type_synonym Parameters_Source = "string \<Rightarrow> string \<Rightarrow> string result"
type_synonym Conf_Filter = "string \<Rightarrow> string result"

text \<open>The variables of the package; the last one is whether the hook of the initialization is set.\<close>

record Parameters_State =
  Sources :: "Parameters_Source list option"
  Fetch_From_File_Hook :: "Conf_Filter option"
  Expand_Macros_Hook :: "Conf_Filter option"
  Hook_Installed :: bool

definition no_Parameters :: Parameters_State where
  "no_Parameters = \<lparr>Sources = None, Fetch_From_File_Hook = None, Expand_Macros_Hook = None, Hook_Installed = False\<rparr>"

definition Fetch :: "Parameters_State \<Rightarrow> string \<Rightarrow> string result" where
  "Fetch P K =
     on_ok (case Fetch_From_File_Hook P of
         Some f \<Rightarrow> if Has_Prefix K ''file:'' then f K else Inr K
       | None \<Rightarrow> Inr K) (\<lambda>Val.
       case Expand_Macros_Hook P of Some g \<Rightarrow> g Val | None \<Rightarrow> Inr Val)"

fun query_loop :: "Parameters_State \<Rightarrow> string \<Rightarrow> string \<Rightarrow> string \<Rightarrow> Parameters_Source list \<Rightarrow> string result" where
  "query_loop P Section K Default [] = Inr Default"
| "query_loop P Section K Default (s # ss) = on_ok (s Section K) (\<lambda>V.
     if length V > 0 then Fetch P V else query_loop P Section K Default ss)"

definition Get_Conf :: "Parameters_State \<Rightarrow> string \<Rightarrow> string \<Rightarrow> string \<Rightarrow> string result" where
  "Get_Conf P Section K Default = (case Sources P of
     None \<Rightarrow> Inr Default
   | Some ss \<Rightarrow> query_loop P Section K Default ss)"

definition Get_Conf_Boolean :: "Parameters_State \<Rightarrow> string \<Rightarrow> string \<Rightarrow> bool \<Rightarrow> bool result" where
  "Get_Conf_Boolean P Section K Default = on_ok (Get_Conf P Section K (if Default then ''1'' else ''0'')) To_Boolean"

definition Get_Conf_Integer :: "Parameters_State \<Rightarrow> string \<Rightarrow> string \<Rightarrow> int \<Rightarrow> int result" where
  "Get_Conf_Integer P Section K Default = on_ok (Get_Conf P Section K (Long_Long_Image Default)) Integer_Value"

text \<open>A duration is a number of nanoseconds of 64 bits; a conversion to an integer type rounds to the nearest, away from zero.\<close>

definition Duration_Last :: int where "Duration_Last = 2 ^ 63 - 1"
definition Forever :: int where "Forever = Duration_Last"

definition to_Duration :: "int \<Rightarrow> int result" where
  "to_Duration d = (if - (2 ^ 63) \<le> d \<and> d \<le> Duration_Last then Inr d else Inl Constraint_Error)"

definition round_seconds :: "int \<Rightarrow> int" where
  "round_seconds d = sgn d * ((\<bar>d\<bar> + 500000000) div 1000000000)"

definition Get_Conf_Duration :: "Parameters_State \<Rightarrow> string \<Rightarrow> string \<Rightarrow> int \<Rightarrow> int result" where
  "Get_Conf_Duration P Section K Default =
     on_ok (if Default = Forever then Inr (-1) else on_ok (to_Duration (Default * 1000)) (\<lambda>d. to_Natural (round_seconds d))) (\<lambda>ms.
     on_ok (Get_Conf_Integer P Section K ms) (\<lambda>Milliseconds.
       if Milliseconds < 0 then Inr Forever else to_Duration (Milliseconds * 1000000)))"

definition Get_Conf_Interval :: "Parameters_State \<Rightarrow> string \<Rightarrow> string \<Rightarrow> Interval \<Rightarrow> Interval result" where
  "Get_Conf_Interval P Section K Default =
     on_ok (Get_Conf P Section K (Long_Long_Image (Lo Default) @ ''-'' @ Long_Long_Image (Hi Default))) To_Interval"

definition Parameters_Initialize :: "Parameters_State \<Rightarrow> Parameters_State" where
  "Parameters_Initialize P = P\<lparr>Hook_Installed := True\<rparr>"

text \<open>What \<open>PolyORB.Initialization.Get_Conf_Hook\<close> designates.\<close>

definition Get_Conf_Hook :: "Parameters_State hook" where
  "Get_Conf_Hook P = (if Hook_Installed P
     then Some (\<lambda>Section K Default. case Get_Conf P Section K Default of Inl e \<Rightarrow> Inl (e, []) | Inr V \<Rightarrow> Inr V)
     else None)"

definition Register_Source :: "Parameters_Source \<Rightarrow> Parameters_State \<Rightarrow> Parameters_State" where
  "Register_Source s P = P\<lparr>Sources := Some (case Sources P of None \<Rightarrow> [s] | Some ss \<Rightarrow> ss @ [s])\<rparr>"

section \<open>The command line and the environment\<close>

definition plain :: "char \<Rightarrow> bool" where
  "plain c \<longleftrightarrow> (let n = (of_char c :: nat) in (48 \<le> n \<and> n \<le> 57) \<or> (65 \<le> n \<and> n \<le> 90) \<or> (97 \<le> n \<and> n \<le> 122) \<or> n = 95)"

text \<open>The loop that moves \<open>Last\<close> down, over the string in reverse.\<close>

fun strip_loop :: "char \<Rightarrow> string \<Rightarrow> string result" where
  "strip_loop c [] = Inl Constraint_Error"
| "strip_loop c (x # R) = (if x = c then strip_loop c R else Inr (rev (x # R)))"

definition replace_others :: "char \<Rightarrow> string \<Rightarrow> string" where
  "replace_others c S = map (\<lambda>x. if plain x then x else c) S"

definition Make_Flag :: "string \<Rightarrow> string \<Rightarrow> string result" where
  "Make_Flag Section K =
     strip_loop (CHR ''-'') (rev (replace_others (CHR ''-'') (''--polyorb-'' @ To_Lower (Section @ ''-'' @ K))))"

fun arguments_loop :: "string \<Rightarrow> string list \<Rightarrow> string" where
  "arguments_loop Flag [] = []"
| "arguments_loop Flag (Arg # args) = (let F_Len = length Flag; A_Len = length Arg in
     if F_Len \<le> A_Len \<and> Flag = take F_Len Arg
     then if F_Len = A_Len then ''true''
          else if Arg ! F_Len = CHR ''='' then drop (F_Len + 1) Arg
          else arguments_loop Flag args
     else arguments_loop Flag args)"

definition Cmd_Line_Get_Conf :: "string list \<Rightarrow> Parameters_Source" where
  "Cmd_Line_Get_Conf args Section K = on_ok (Make_Flag Section K) (\<lambda>Flag. Inr (arguments_loop Flag args))"

definition Cmd_Line_Initialize :: "string list \<Rightarrow> Parameters_State \<Rightarrow> Parameters_State" where
  "Cmd_Line_Initialize args = Register_Source (Cmd_Line_Get_Conf args)"

definition Make_Env_Name :: "string \<Rightarrow> string \<Rightarrow> string result" where
  "Make_Env_Name Section K =
     strip_loop (CHR ''_'') (rev (replace_others (CHR ''_'') (''POLYORB_'' @ To_Upper (Section @ ''_'' @ K))))"

definition Env_Get_Conf :: "(string \<Rightarrow> string option) \<Rightarrow> Parameters_Source" where
  "Env_Get_Conf getenv Section K = on_ok (Make_Env_Name Section K) (\<lambda>N.
     case getenv N of None \<Rightarrow> Inr [] | Some V \<Rightarrow> Inr V)"

definition Env_Initialize :: "(string \<Rightarrow> string option) \<Rightarrow> Parameters_State \<Rightarrow> Parameters_State" where
  "Env_Initialize getenv = Register_Source (Env_Get_Conf getenv)"

section \<open>The configuration file\<close>

text \<open>A file that cannot be opened because of its name gives the empty string; reading a line of an empty file raises.\<close>

definition Fetch_From_File :: "(string \<Rightarrow> string option) \<Rightarrow> Conf_Filter" where
  "Fetch_From_File open_file V = (case open_file (drop 5 V) of
     None \<Rightarrow> Inr []
   | Some t \<Rightarrow> (case text_lines t of [] \<Rightarrow> Inl End_Error | l # ls \<Rightarrow> Inr (take 1024 l)))"

definition File_Get_Conf :: "Configuration \<Rightarrow> Parameters_Source" where
  "File_Get_Conf C Section K = on_ok (Lookup hyper_hashes (Conf_Table C) (Make_Global_Key Section K) None) (\<lambda>V.
     if V \<noteq> None then deref V (Conf_Heap C) else Inr [])"

definition Configuration_File_Name :: "Parameters_State \<Rightarrow> string result" where
  "Configuration_File_Name P = Get_Conf P ''conf'' [] ''polyorb.conf''"

definition File_Initialize :: "(string \<Rightarrow> string option) \<Rightarrow> string \<Rightarrow> string_heap \<Rightarrow> Parameters_State \<Rightarrow> Parameters_State result option" where
  "File_Initialize open_file Host_Name h P =
     and_then (insert_String (Make_Global_Key ''macros'' ''hostname'') Host_Name (new_Configuration h)) (\<lambda>C.
     and_then (Some (Configuration_File_Name P)) (\<lambda>N.
     and_then (Load_Configuration_Table open_file N C) (\<lambda>C.
       Some (Inr ((Register_Source (File_Get_Conf C) P)\<lparr>Fetch_From_File_Hook := Some (Fetch_From_File open_file)\<rparr>)))))"

section \<open>The array of the application\<close>

text \<open>An entry is a pair of accesses; the first one with a null parameter ends the array, and reading behind the array is erroneous.\<close>

type_synonym Parameter_Entry = "string option \<times> string option"

fun count_entries :: "Parameter_Entry list \<Rightarrow> nat result" where
  "count_entries [] = Inl Erroneous_Access"
| "count_entries (e # es) = (if fst e = None then Inr 0 else on_ok (count_entries es) (\<lambda>n. Inr (n + 1)))"

fun static_loop :: "string \<Rightarrow> Parameter_Entry list \<Rightarrow> string result" where
  "static_loop S [] = Inr []"
| "static_loop S (e # es) = (case fst e of
     None \<Rightarrow> Inl Constraint_Error
   | Some p \<Rightarrow> if p = S then (case snd e of None \<Rightarrow> Inl Constraint_Error | Some v \<Rightarrow> Inr v) else static_loop S es)"

definition Static_Get_Conf :: "Parameter_Entry list \<Rightarrow> nat \<Rightarrow> Parameters_Source" where
  "Static_Get_Conf Parameters Last_Index Section K = static_loop (Make_Global_Key Section K) (take Last_Index Parameters)"

text \<open>The symbol of the array is optional.\<close>

definition Static_Initialize :: "Parameter_Entry list option \<Rightarrow> Parameters_State \<Rightarrow> Parameters_State result" where
  "Static_Initialize symbol P = (case symbol of
     None \<Rightarrow> Inr (Register_Source (Static_Get_Conf [] 0) P)
   | Some es \<Rightarrow> on_ok (count_entries es) (\<lambda>n. Inr (Register_Source (Static_Get_Conf es n) P)))"

section \<open>Flags and names\<close>

lemma strip_loop_spec:
  assumes "\<exists>x\<in>set S. x \<noteq> c"
  shows "\<exists>T k. strip_loop c (rev S) = Inr T \<and> T \<noteq> [] \<and> last T \<noteq> c \<and> S = T @ replicate k c"
  using assms
proof (induction S rule: rev_induct)
  case (snoc x S)
  show ?case
  proof (cases "x = c")
    case True
    then obtain T k where "strip_loop c (rev S) = Inr T" "T \<noteq> []" "last T \<noteq> c" "S = T @ replicate k c"
      using snoc by auto
    then show ?thesis
      using True by (intro exI [of _ T] exI [of _ "Suc k"]) (simp add: replicate_append_same)
  next
    case False
    then show ?thesis
      by (intro exI [of _ "S @ [x]"] exI [of _ 0]) simp
  qed
qed simp

lemma plain_p: "plain (CHR ''p'')" "plain (CHR ''P'')" "\<not> plain (CHR ''-'')" "plain (CHR ''_'')"
  by (simp_all add: plain_def Let_def)

text \<open>The loops that strip a flag and the name of a variable never leave the string, and both end in a character that was not put there.\<close>

lemma Make_Flag_returns: "\<exists>F. Make_Flag Section K = Inr F \<and> F \<noteq> [] \<and> last F \<noteq> CHR ''-''"
  using strip_loop_spec [of "replace_others (CHR ''-'') (''--polyorb-'' @ To_Lower (Section @ ''-'' @ K))" "CHR ''-''"]
  by (auto simp: Make_Flag_def replace_others_def plain_p)

lemma Make_Env_Name_returns: "\<exists>N. Make_Env_Name Section K = Inr N \<and> N \<noteq> [] \<and> last N \<noteq> CHR ''_''"
  using strip_loop_spec [of "replace_others (CHR ''_'') (''POLYORB_'' @ To_Upper (Section @ ''_'' @ K))" "CHR ''_''"]
  by (auto simp: Make_Env_Name_def replace_others_def plain_p)

lemma arguments_loop_skip: "\<forall>a\<in>set xs. take (length F) a \<noteq> F \<Longrightarrow> arguments_loop F (xs @ ys) = arguments_loop F ys"
  by (induction xs) (auto simp: Let_def)

lemma arguments_loop_value: "arguments_loop F ((F @ ''='' @ v) # ys) = v"
  by (simp add: Let_def)

section \<open>Which source wins\<close>

definition runtime_sources :: "(string \<Rightarrow> string option) \<Rightarrow> string \<Rightarrow> string_heap \<Rightarrow> string list \<Rightarrow> (string \<Rightarrow> string option)
    \<Rightarrow> Parameters_State result option" where
  "runtime_sources open_file Host_Name h args getenv =
     File_Initialize open_file Host_Name h (Env_Initialize getenv (Cmd_Line_Initialize args no_Parameters))"

text \<open>A configuration that was loaded from a file, after the name of the host was entered.\<close>

definition loaded_from :: "(string \<Rightarrow> string option) \<Rightarrow> string \<Rightarrow> string_heap \<Rightarrow> Configuration \<Rightarrow> bool" where
  "loaded_from open_file Host_Name h C \<longleftrightarrow>
     (\<exists>C0 N. insert_String (Make_Global_Key ''macros'' ''hostname'') Host_Name (new_Configuration h) = Some (Inr C0)
       \<and> Load_Configuration_Table open_file N C0 = Some (Inr C))"

lemma runtime_sources_registered:
  assumes "runtime_sources open_file Host_Name h args getenv = Some (Inr P)"
  shows "\<exists>C. loaded_from open_file Host_Name h C \<and> P = \<lparr>Sources = Some [Cmd_Line_Get_Conf args, Env_Get_Conf getenv, File_Get_Conf C],
    Fetch_From_File_Hook = Some (Fetch_From_File open_file), Expand_Macros_Hook = None, Hook_Installed = False\<rparr>"
  using assms
  by (auto simp: runtime_sources_def File_Initialize_def and_then_eq_Inr Register_Source_def Env_Initialize_def
      Cmd_Line_Initialize_def no_Parameters_def loaded_from_def)

lemma runtime_Get_Conf:
  assumes "runtime_sources open_file Host_Name h args getenv = Some (Inr P)" "Make_Flag Section K = Inr F" "Make_Env_Name Section K = Inr N"
  shows "\<exists>C. loaded_from open_file Host_Name h C \<and> (\<forall>d. Get_Conf P Section K d =
     (if arguments_loop F args \<noteq> [] then Fetch P (arguments_loop F args)
      else case getenv N of
          Some (c # v) \<Rightarrow> Fetch P (c # v)
        | _ \<Rightarrow> on_ok (File_Get_Conf C Section K) (\<lambda>V. if V \<noteq> [] then Fetch P V else Inr d)))"
proof -
  obtain C where C: "loaded_from open_file Host_Name h C"
      and P: "Sources P = Some [Cmd_Line_Get_Conf args, Env_Get_Conf getenv, File_Get_Conf C]"
    using runtime_sources_registered [OF assms(1)] by auto
  have one: "on_ok r (\<lambda>V. if V \<noteq> [] then Fetch P V else query_loop P Section K d []) = on_ok r (\<lambda>V. if V \<noteq> [] then Fetch P V else Inr d)" for r d
    by (cases r) auto
  show ?thesis
    using assms(2,3) P C one
    by (intro exI [of _ C]) (auto simp: Get_Conf_def Cmd_Line_Get_Conf_def Env_Get_Conf_def split: option.splits list.splits)
qed

text \<open>A value that does not name a file is taken as it is.\<close>

lemma Fetch_plain:
  assumes "runtime_sources open_file Host_Name h args getenv = Some (Inr P)" "\<not> Has_Prefix v ''file:''"
  shows "Fetch P v = Inr v"
  using runtime_sources_registered [OF assms(1)] assms(2) by (auto simp: Fetch_def)

text \<open>The hook of the initialization asks the same sources.\<close>

lemma query_loop_installed: "query_loop (P\<lparr>Hook_Installed := b\<rparr>) Section K d ss = query_loop P Section K d ss"
  by (induction ss) (auto simp: Fetch_def intro: on_ok_cong)

lemma hook_installed:
  "Get_Conf_Hook (Parameters_Initialize P) = Some (\<lambda>Section K d. case Get_Conf P Section K d of Inl e \<Rightarrow> Inl (e, []) | Inr V \<Rightarrow> Inr V)"
  by (simp add: Get_Conf_Hook_def Parameters_Initialize_def Get_Conf_def query_loop_installed fun_eq_iff split: option.split)

text \<open>
  Property C16. After the command line, the environment and a configuration file are registered, in the order of their modules: an
  argument with the flag of a parameter and a value overrides everything; without an argument that begins with the flag the environment
  variable of the parameter overrides the file; the file is asked next, and the default is used when no source has a value. The same
  goes for the parameter that disables a module during the initialization.
\<close>

theorem parameter_precedence:
  assumes P: "runtime_sources open_file Host_Name h (xs @ args) getenv = Some (Inr P)"
    and F: "Make_Flag Section K = Inr F" and N: "Make_Env_Name Section K = Inr N"
    and none: "\<forall>a\<in>set xs. take (length F) a \<noteq> F" and v: "v \<noteq> []" "\<not> Has_Prefix v ''file:''"
  shows "(args = (F @ ''='' @ v) # ys \<longrightarrow> Get_Conf P Section K d = Inr v)
    \<and> (args = [] \<and> getenv N = Some v \<longrightarrow> Get_Conf P Section K d = Inr v)
    \<and> (\<exists>C. loaded_from open_file Host_Name h C \<and> (args = [] \<and> getenv N = None \<longrightarrow>
         Get_Conf P Section K d = on_ok (File_Get_Conf C Section K) (\<lambda>V. if V \<noteq> [] then Fetch P V else Inr d)))
    \<and> (args = (F @ ''=off'') # ys \<and> Section = ''modules'' \<longrightarrow> module_enabled Get_Conf_Hook (Parameters_Initialize P) K = Inr False)"
proof -
  obtain C where C: "loaded_from open_file Host_Name h C" "\<forall>d. Get_Conf P Section K d =
     (if arguments_loop F (xs @ args) \<noteq> [] then Fetch P (arguments_loop F (xs @ args))
      else case getenv N of
          Some (c # v) \<Rightarrow> Fetch P (c # v)
        | _ \<Rightarrow> on_ok (File_Get_Conf C Section K) (\<lambda>V. if V \<noteq> [] then Fetch P V else Inr d))"
    using runtime_Get_Conf [OF P F N] by blast
  note skip = arguments_loop_skip [OF none, of args]
  have arg: "Get_Conf P Section K d = Inr w" if "args = (F @ ''='' @ w) # ys" "w \<noteq> []" "\<not> Has_Prefix w ''file:''" for w d
    using that C(2) skip arguments_loop_value [of F w ys] Fetch_plain [OF P that(3)] by simp
  have "module_enabled Get_Conf_Hook (Parameters_Initialize P) K = Inr False" if "args = (F @ ''=off'') # ys" "Section = ''modules''"
    using arg [of "''off''" "''enable''"] that
    by (simp add: module_enabled_def hook_installed To_Boolean_def Has_Prefix_def To_Lower_def To_Lower_Char_def)
  moreover have "Get_Conf P Section K d = Inr v" if "args = []" "getenv N = Some v"
    using that C(2) skip v Fetch_plain [OF P v(2)] by (cases v) simp_all
  moreover have "Get_Conf P Section K d = on_ok (File_Get_Conf C Section K) (\<lambda>V. if V \<noteq> [] then Fetch P V else Inr d)"
    if "args = []" "getenv N = None"
    using that C(2) skip by simp
  ultimately show ?thesis
    using arg [OF _ v] C(1) by (intro conjI exI [of _ C] impI) auto
qed

lemma configuration_variable: "Make_Env_Name ''conf'' [] = Inr ''POLYORB_CONF''"
  by code_simp

theorem parameter_precedence_witness:
  "\<exists>P. runtime_sources (\<lambda>_. None) ''localhost'' [] [''--polyorb-tasking-max_threads=8''] (\<lambda>_. None) = Some (Inr P)
    \<and> Get_Conf P ''tasking'' ''max_threads'' ''4'' = Inr ''8''"
proof -
  let ?args = "[''--polyorb-tasking-max_threads=8'']"
  obtain C where C: "insert_String (Make_Global_Key ''macros'' ''hostname'') ''localhost'' (new_Configuration []) = Some (Inr C)"
    by (rule first_assign)
  have F: "Make_Flag ''tasking'' ''max_threads'' = Inr ''--polyorb-tasking-max_threads''" "Make_Flag ''conf'' [] = Inr ''--polyorb-conf''"
    by code_simp+
  obtain N where N: "Make_Env_Name ''tasking'' ''max_threads'' = Inr N"
    using Make_Env_Name_returns by blast
  have "Configuration_File_Name (Env_Initialize (\<lambda>_. None) (Cmd_Line_Initialize ?args no_Parameters)) = Inr ''polyorb.conf''"
    by (simp add: Configuration_File_Name_def Env_Initialize_def Cmd_Line_Initialize_def Register_Source_def no_Parameters_def Get_Conf_def
        Cmd_Line_Get_Conf_def Env_Get_Conf_def F configuration_variable)
  then obtain P where P: "runtime_sources (\<lambda>_. None) ''localhost'' [] ?args (\<lambda>_. None) = Some (Inr P)"
    using C by (simp add: runtime_sources_def File_Initialize_def Load_Configuration_Table_def)
  have "Get_Conf P ''tasking'' ''max_threads'' ''4'' = Inr ''8''"
    using parameter_precedence [of "\<lambda>_. None" "''localhost''" "[]" "[]" ?args "\<lambda>_. None" P _ _ _ _ "''8''" "[]"] P F(1) N
    by (simp add: Has_Prefix_def)
  then show ?thesis
    using P by blast
qed

section \<open>Defaults\<close>

lemma trim_no_blank:
  assumes "CHR '' '' \<notin> set S"
  shows "trim S = S"
proof -
  have "dropWhile (\<lambda>c. c = CHR '' '') xs = xs" if "CHR '' '' \<notin> set xs" for xs
    using that by (cases xs) auto
  then show ?thesis
    using assms by (simp add: trim_def)
qed

lemma Integer_Value_Integer_Image:
  assumes "Integer_First \<le> n" "n \<le> Integer_Last"
  shows "Integer_Value (Long_Long_Image n) = Inr n"
proof (cases "0 \<le> n")
  case True
  then have "trim (Long_Long_Image n) = trim (Trimmed_Image n)"
    by (simp add: Trimmed_Image_def Long_Long_Image_def trim_def)
  then show ?thesis
    using Integer_Value_Image [OF True assms(2)] by (simp add: Integer_Value_def)
next
  case False
  let ?ds = "map Hex (digits (nat \<bar>n\<bar>))"
  have "trim (CHR ''-'' # ?ds) = CHR ''-'' # ?ds"
    using digits_less Hex_not_blank by (intro trim_no_blank) fastforce
  then show ?thesis
    using False assms by (simp add: Integer_Value_def Long_Long_Image_def literal_image_digits to_Integer_def)
qed

text \<open>
  A parameter that no source has a value for has its default, in all its types: the default is passed as its image and
  read back. Integers have the range of their type, intervals that of Natural, and durations are whole milliseconds that
  fit into an Integer, or forever.
\<close>

theorem Get_Conf_defaults:
  assumes none: "Sources P = Some ss" "\<forall>s\<in>set ss. s Section K = Inr []"
    and i: "Integer_First \<le> i" "i \<le> Integer_Last"
    and r: "0 \<le> Lo r" "Lo r \<le> Integer_Last" "0 \<le> Hi r" "Hi r \<le> Integer_Last"
    and ms: "0 \<le> ms" "ms \<le> Integer_Last"
  shows "Get_Conf P Section K d = Inr d \<and> Get_Conf_Boolean P Section K b = Inr b \<and> Get_Conf_Integer P Section K i = Inr i
    \<and> Get_Conf_Interval P Section K r = Inr r \<and> Get_Conf_Duration P Section K (ms * 1000000) = Inr (ms * 1000000)
    \<and> Get_Conf_Duration P Section K Forever = Inr Forever"
proof -
  have "query_loop P Section K d ss' = Inr d" if "set ss' \<subseteq> set ss" for d ss'
    using that none(2) by (induction ss') auto
  then have get: "Get_Conf P Section K d = Inr d" for d
    using none(1) by (simp add: Get_Conf_def)
  have int: "Get_Conf_Integer P Section K n = Inr n" if "Integer_First \<le> n" "n \<le> Integer_Last" for n
    using Integer_Value_Integer_Image [OF that] by (simp add: Get_Conf_Integer_def get)
  let ?l = "Long_Long_Image (Lo r)" and ?h = "Long_Long_Image (Hi r)"
  have range: "Integer_First \<le> 0"
    by (simp add: Integer_First_def)
  have "CHR ''-'' \<notin> set ?l"
    using r(1) digits_less Hex_not_blank by (fastforce simp: Long_Long_Image_def)
  then have "Find 1 (?l @ ''-'' @ ?h) 1 (CHR ''-'') = 1 + int (length ?l)"
    using Find_first [of "CHR ''-''" ?l ?h] by simp
  moreover have "?l \<noteq> []" "?h \<noteq> []"
    by (simp_all add: Long_Long_Image_def)
  moreover have "Integer_Value ?l = Inr (Lo r)" "Integer_Value ?h = Inr (Hi r)"
    using r range by (auto intro: Integer_Value_Integer_Image)
  ultimately have "To_Interval (?l @ ''-'' @ ?h) = Inr r"
    using r by (simp add: To_Interval_def Let_def string_last_def to_Natural_def nat_add_distrib)
  moreover have "to_Duration (ms * 1000000 * 1000) = Inr (ms * 1000000000)" "to_Duration (ms * 1000000) = Inr (ms * 1000000)"
      "ms * 1000000 \<noteq> Forever" "round_seconds (ms * 1000000000) = ms"
    using ms by (auto simp: to_Duration_def Duration_Last_def Integer_Last_def Forever_def round_seconds_def sgn_if)
  moreover have "to_Natural ms = Inr ms"
    using ms by (simp add: to_Natural_def)
  ultimately show ?thesis
    using i ms range int [of i] int [of ms] int [of "-1"]
    by (cases b) (simp_all add: get Get_Conf_Boolean_def Get_Conf_Interval_def Get_Conf_Duration_def To_Boolean_def To_Lower_def To_Lower_Char_def
        Integer_First_def Integer_Last_def)
qed

theorem Get_Conf_defaults_witness:
  "Get_Conf_Integer (Cmd_Line_Initialize [''program''] no_Parameters) ''tasking'' ''max_threads'' (-4) = Inr (-4)
    \<and> Get_Conf_Duration (Cmd_Line_Initialize [''program''] no_Parameters) ''orb'' ''poll'' 2000000 = Inr 2000000"
proof -
  let ?P = "Cmd_Line_Initialize [''program''] no_Parameters"
  have P: "Sources ?P = Some [Cmd_Line_Get_Conf [''program'']]"
    by (simp add: Cmd_Line_Initialize_def Register_Source_def no_Parameters_def)
  have none: "\<forall>s\<in>set [Cmd_Line_Get_Conf [''program'']]. s ''tasking'' ''max_threads'' = Inr []"
      "\<forall>s\<in>set [Cmd_Line_Get_Conf [''program'']]. s ''orb'' ''poll'' = Inr []"
    by code_simp+
  show ?thesis
    using Get_Conf_defaults [OF P none(1), of "-4" "\<lparr>Lo = 0, Hi = 0\<rparr>" 2] Get_Conf_defaults [OF P none(2), of "-4" "\<lparr>Lo = 0, Hi = 0\<rparr>" 2]
    by (simp add: Integer_First_def Integer_Last_def)
qed

section \<open>A parameter that a file sets twice\<close>

text \<open>
  Property C39. A line of a configuration file that sets a parameter which has a value already, in a table that is not full, is read
  without an error; afterwards the value of the parameter is a string that was freed, and asking the file for it is erroneous.
\<close>

theorem repeated_assignment_dangles:
  assumes "conf_ok C" "conf_map C (Make_Global_Key Section n) = Some w"
    "has_room C" "value_ok n v"
  shows "\<exists>C'. load_line (n @ ''='' @ v) (Some Section, C) = Some (Inr (Some Section, C')) \<and> File_Get_Conf C' Section n = Inl Erroneous_Access"
proof -
  let ?K = "Make_Global_Key Section n"
  obtain a h where a: "contents (Conf_Table C) ?K = Some (Some a)" "h ! a = None" "a < length h"
      "assign_value ?K v C = Some (Inr (C\<lparr>Conf_Heap := h\<rparr>))"
    using assign_again [OF assms(1-3)] by blast
  have "load_line (n @ ''='' @ v) (Some Section, C) = and_then (assign_value ?K v C) (\<lambda>C. Some (Inr (Some Section, C)))"
    using assms(4) by (intro load_entry_line) (simp_all add: value_ok_def)
  moreover have "File_Get_Conf (C\<lparr>Conf_Heap := h\<rparr>) Section n = Inl Erroneous_Access"
    using a assms(1) by (simp add: File_Get_Conf_def Lookup_contents conf_ok_def deref_def)
  ultimately show ?thesis
    using a(4) by simp
qed

theorem repeated_assignment_dangles_witness:
  "\<exists>C C'. insert_String (Make_Global_Key ''macros'' ''hostname'') ''localhost'' (new_Configuration []) = Some (Inr C)
    \<and> load_line ''hostname=example'' (Some ''macros'', C) = Some (Inr (Some ''macros'', C'))
    \<and> File_Get_Conf C' ''macros'' ''hostname'' = Inl Erroneous_Access"
proof -
  obtain C where C: "insert_String (Make_Global_Key ''macros'' ''hostname'') ''localhost'' (new_Configuration []) = Some (Inr C)" "conf_ok C"
      "conf_map C = [Make_Global_Key ''macros'' ''hostname'' \<mapsto> ''localhost'']"
      "has_room C"
    by (rule first_assign)
  have m: "conf_map C (Make_Global_Key ''macros'' ''hostname'') = Some ''localhost''"
    using C(3) by simp
  have v: "value_ok ''hostname'' ''example''"
    by (simp add: value_ok_def)
  show ?thesis
    using repeated_assignment_dangles [OF C(2) m C(4) v] C(1) by auto
qed

end
