(* ===== verification/Id_Assignment.thy ===== *)
theory Id_Assignment
  imports Object_Maps
begin

text \<open>
  The Id_Assignment policies of the portable object adapter
  (\<open>src/src/polyorb-poa_policies-id_assignment_policy-system.adb\<close> and \<open>-user.adb\<close>): how an object
  gets its identifier, how the identifier is rebuilt from an object key, and what the application
  sees of it.

  Of the POA the model keeps the active object map, the lock on it and the absolute address. The
  lifespan cookie is a parameter, the value of another policy. Entries of the map are in the store
  of the map's theory; an exception is returned with the state it leaves, since the policies do not
  handle it.
\<close>

section \<open>Model\<close>

datatype poa_map = System_Map System_Object_Map | Other_Map

record POA =
  Active_Object_Map :: "poa_map option"
  Map_Lock :: bool
  Absolute_Address :: string

type_synonym assigned = "(Unmarshalled_Oid \<times> Error_Container) result \<times> POA \<times> entry_store"

text \<open>A variable of type \<open>Unmarshalled_Oid\<close> before it is assigned: unbounded strings start empty.\<close>

definition Unassigned_Oid :: Unmarshalled_Oid where
  "Unassigned_Oid = Create_Id [] False 0 []"

definition Create_Object_Map :: "poa_map result" where
  "Create_Object_Map = on_ok (System_Initialize (Null_Instance Map_Params)) (\<lambda>M. Inr (System_Map M))"

definition assign_with_hint ::
  "bool \<Rightarrow> Time_Stamp \<Rightarrow> POA \<Rightarrow> System_Object_Map \<Rightarrow> entry_store \<Rightarrow> Object_Id \<Rightarrow> Unmarshalled_Oid \<Rightarrow> Error_Container
     \<Rightarrow> assigned" where
  "assign_with_hint be cookie P M st Hint U_Oid Error =
     (case Oid_To_U_Oid be Hint Unassigned_Oid Error of
        Inl e \<Rightarrow> (Inl e, P, st)
      | Inr (U_Hint, Error) \<Rightarrow>
          if \<not> System_Generated U_Hint \<or> Found Error
          then (Inr (U_Oid, Throw Error Bad_Param_E), P\<lparr>Map_Lock := False\<rparr>, st)
          else
            case Integer_Value (Id U_Hint) of
              Inl e \<Rightarrow> (Inl e, P, st)
            | Inr Index \<Rightarrow>
                let oid = Create_Id (Trimmed_Image Index) True cookie (Absolute_Address P);
                    The_Entry = length st;
                    st = st @ [\<lparr>Oid = Some oid, Servant = None\<rparr>]
                in case Add_At st M The_Entry Index of
                     Inl e \<Rightarrow> (Inl e, P, st)
                   | Inr M \<Rightarrow>
                       (Inr (oid, Error), P\<lparr>Active_Object_Map := Some (System_Map M), Map_Lock := False\<rparr>, st))"

definition assign_new ::
  "Time_Stamp \<Rightarrow> POA \<Rightarrow> System_Object_Map \<Rightarrow> entry_store \<Rightarrow> Error_Container \<Rightarrow> assigned" where
  "assign_new cookie P M st Error =
     (let The_Entry = length st;
          st = st @ [\<lparr>Oid = None, Servant = None\<rparr>]
      in case Add st M The_Entry of
           Inl e \<Rightarrow> (Inl e, P, st)
         | Inr (Index, M) \<Rightarrow>
             let oid = Create_Id (Trimmed_Image Index) True cookie (Absolute_Address P);
                 st = st[The_Entry := (st ! The_Entry)\<lparr>Oid := Some oid\<rparr>]
             in (Inr (oid, Error), P\<lparr>Active_Object_Map := Some (System_Map M), Map_Lock := False\<rparr>, st))"

definition System_Assign_Object_Identifier ::
  "bool \<Rightarrow> Time_Stamp \<Rightarrow> POA \<Rightarrow> entry_store \<Rightarrow> Object_Id option \<Rightarrow> Unmarshalled_Oid \<Rightarrow> Error_Container \<Rightarrow> assigned" where
  "System_Assign_Object_Identifier be cookie P st Hint U_Oid Error =
     (let P = P\<lparr>Map_Lock := True\<rparr> in
      case (case Active_Object_Map P of None \<Rightarrow> Create_Object_Map | Some m \<Rightarrow> Inr m) of
        Inl e \<Rightarrow> (Inl e, P, st)
      | Inr m \<Rightarrow>
          let P = P\<lparr>Active_Object_Map := Some m\<rparr> in
          (case m of
             Other_Map \<Rightarrow> (Inr (U_Oid, Throw Error Internal_E), P\<lparr>Map_Lock := False\<rparr>, st)
           | System_Map M \<Rightarrow>
               (case Hint of
                  Some h \<Rightarrow> assign_with_hint be cookie P M st h U_Oid Error
                | None \<Rightarrow> assign_new cookie P M st Error)))"


definition System_Object_Identifier :: "Object_Id \<Rightarrow> Object_Id" where
  "System_Object_Identifier oid = oid"

definition User_Assign_Object_Identifier ::
  "Time_Stamp \<Rightarrow> POA \<Rightarrow> Object_Id option \<Rightarrow> Unmarshalled_Oid \<Rightarrow> Error_Container \<Rightarrow> Unmarshalled_Oid \<times> Error_Container" where
  "User_Assign_Object_Identifier cookie P Hint U_Oid Error =
     (case Hint of
        None \<Rightarrow> (U_Oid, Throw Error WrongPolicy_E)
      | Some h \<Rightarrow> (Create_Id (Oid_To_Hex_String h) False cookie (Absolute_Address P), Error))"

definition User_Reconstruct_Object_Identifier :: "Time_Stamp \<Rightarrow> POA \<Rightarrow> Object_Id \<Rightarrow> Unmarshalled_Oid" where
  "User_Reconstruct_Object_Identifier cookie P oid =
     Create_Id (Oid_To_Hex_String oid) False cookie (Absolute_Address P)"

definition User_Object_Identifier ::
  "bool \<Rightarrow> Object_Id \<Rightarrow> Object_Id option \<Rightarrow> Error_Container \<Rightarrow> (Object_Id option \<times> Error_Container) result" where
  "User_Object_Identifier be oid Result Error =
     on_ok (Oid_To_U_Oid be oid Unassigned_Oid Error) (\<lambda>(U_Oid, Error).
       if Found Error then Inr (Result, Error)
       else on_ok (Hex_String_To_Oid (Id U_Oid)) (\<lambda>R. Inr (Some R, Error)))"

section \<open>Identifiers survive the object key\<close>

lemma separator_not_in_digits: "POA_Path_Separator \<notin> Hex ` set (digits n)"
proof
  assume "POA_Path_Separator \<in> Hex ` set (digits n)"
  then obtain d where "d \<in> set (digits n)" "Hex d = POA_Path_Separator" by auto
  with digits_less [of d n] Hex_not_separator [of d] show False by simp
qed

lemma separator_not_in_Image: "POA_Path_Separator \<notin> set (Trimmed_Image i)"
  using separator_not_in_digits [of "nat i"] separator_not_in_digits [of "nat (- i)"]
  by (simp add: Trimmed_Image_def Long_Long_Image_def Let_def POA_Path_Separator_def)

lemma separator_not_in_hex: "POA_Path_Separator \<notin> set (Oid_To_Hex_String h)"
proof -
  have "POA_Path_Separator \<notin> set (SEA_To_Hex_String h)"
    using Hex_not_separator by (induction h) (auto dest: sym)
  then show ?thesis by (simp add: Oid_To_Hex_String_def)
qed

lemma length_digits: "length (digits n) \<le> Suc n"
proof (induction n rule: digits.induct)
  case (1 n)
  show ?case
  proof (cases "n < 10")
    case False
    then have "length (digits (n div 10)) \<le> Suc (n div 10)" using 1 by simp
    moreover have "Suc (Suc (n div 10)) \<le> Suc n" using False by presburger
    ultimately show ?thesis using False by (simp add: digits.simps [of n])
  qed (simp add: digits.simps)
qed

lemma length_Image: "0 \<le> i \<Longrightarrow> i \<le> Integer_Last \<Longrightarrow> length (Trimmed_Image i) < 2 ^ 32"
  using length_digits [of "nat i"] by (simp add: Trimmed_Image_def Long_Long_Image_def Let_def Integer_Last_def)

lemma length_Oid_To_Hex_String: "length (Oid_To_Hex_String h) = 2 * length h"
proof -
  have "length (SEA_To_Hex_String h) = 2 * length h" by (induction h) simp_all
  then show ?thesis by (simp add: Oid_To_Hex_String_def)
qed

lemma Unassigned_Id [simp]: "Id Unassigned_Oid = []"
  by (simp add: Unassigned_Oid_def Create_Id_def)

lemma Create_Id_simps [simp]:
  "Id (Create_Id n g c a) = n" "System_Generated (Create_Id n g c a) = g" "Creator (Create_Id n g c a) = a"
  by (simp_all add: Create_Id_def)

lemma system_id_roundtrip:
  assumes "0 \<le> i" "i \<le> Integer_Last"
  shows "Oid_To_U_Oid be (U_Oid_To_Oid be (Create_Id (Trimmed_Image i) g c a)) Unassigned_Oid No_Error
    = Inr (Create_Id (Trimmed_Image i) g c a, No_Error)"
  by (rule Oid_roundtrip_core) (use separator_not_in_Image length_Image [OF assms] in simp_all)

section \<open>Properties\<close>



definition sample_map :: System_Object_Map where
  "sample_map = \<lparr>Table = Some [Some 0, None, None, None], Is_Initialized = True, Max = 4, Length = 4, Last_Val = 1\<rparr>"

lemma sample_map_ok: "map_inv sample_map" "room Map_Params sample_map"
  by (simp_all add: table_inv_def room_def sample_map_def Map_Params_def Integer_Last_def)

definition sample_poa :: POA where
  "sample_poa = \<lparr>Active_Object_Map = Some (System_Map sample_map), Map_Lock = False, Absolute_Address = ''a/b''\<rparr>"


text \<open>
  What the application reads back from the object key of an object it named, on a host of
  either byte order, is the identifier that it gave.
\<close>

theorem User_id_roundtrip:
  assumes "2 * length hint < 2 ^ 32"
  shows "\<exists>oid. User_Assign_Object_Identifier cookie P (Some hint) U0 No_Error = (oid, No_Error) \<and>
    User_Object_Identifier be (U_Oid_To_Oid be oid) R0 No_Error = Inr (Some hint, No_Error)"
proof -
  let ?oid = "Create_Id (Oid_To_Hex_String hint) False cookie (Absolute_Address P)"
  have "Oid_To_U_Oid be (U_Oid_To_Oid be ?oid) Unassigned_Oid No_Error = Inr (?oid, No_Error)"
    by (rule Oid_roundtrip_core) (use separator_not_in_hex assms in \<open>simp_all add: length_Oid_To_Hex_String\<close>)
  then show ?thesis
    by (simp add: User_Assign_Object_Identifier_def User_Object_Identifier_def Hex_String_To_Oid_def
        Oid_To_Hex_String_def Hex_String_inverse)
qed

theorem User_id_roundtrip_witness:
  "\<exists>oid. User_Assign_Object_Identifier 5 sample_poa (Some [47, 0, 255]) Unassigned_Oid No_Error = (oid, No_Error) \<and>
    User_Object_Identifier True (U_Oid_To_Oid True oid) None No_Error = Inr (Some [47, 0, 255], No_Error)"
  by (rule User_id_roundtrip) simp

text \<open>
  A slot that is reserved with a hint just above the used part of the map is not protected:
  \<open>Add\<close> with an index leaves the last index as it is, so when all lower slots are taken the next object
  that gets an identifier is given the same slot, and the identifier that was handed out first
  designates the second object.
\<close>

theorem reserved_slot_reused:
  assumes "map_inv M" "room Map_Params M" "Table_At M (Last M + 1) = Inr None"
    and "\<And>i x. 1 \<le> i \<Longrightarrow> i \<le> Last M \<Longrightarrow> Table_At M i = Inr x \<Longrightarrow> x \<noteq> None"
    and "Oid (st ! a) = Some oid" "System_Generated oid" "Oid (st ! b) = None"
  shows "\<exists>M1 M2. Add_At st M a (Last M + 1) = Inr M1 \<and> Table_At M1 (Last M + 1) = Inr (Some a) \<and>
    Add st M1 b = Inr (Last M + 1, M2) \<and> Table_At M2 (Last M + 1) = Inr (Some b)"
proof -
  obtain M1 where M1: "Add_At st M a (Last M + 1) = Inr M1" "map_inv M1" "Last M1 = Last M"
    "Table_At M1 (Last M + 1) = Inr (Some a)" "\<And>j. j \<noteq> Last M + 1 \<Longrightarrow> Table_At M1 j = Table_At M j"
    "Length M1 = Length M"
    by (rule Add_At_outcome [OF assms(1,5,6,3)]) blast
  have "room Map_Params M1" using assms(2) M1(6) by (simp add: room_def)
  from Add_outcome [OF M1(2) this assms(7)] obtain J M2 where
    J: "Add st M1 b = Inr (J, M2)" "1 \<le> J" "Table_At M2 J = Inr (Some b)"
      "J \<le> Last M1 \<Longrightarrow> Table_At M1 J = Inr None" "J > Last M1 \<Longrightarrow> J = Last M1 + 1" by metis
  have "\<not> J \<le> Last M"
  proof
    assume "J \<le> Last M"
    with J M1(3,5) have "Table_At M J = Inr None" by simp
    with assms(4) [OF J(2) \<open>J \<le> Last M\<close>] show False by simp
  qed
  with J M1 show ?thesis by auto
qed

theorem reserved_slot_reused_witness:
  "\<exists>M1 M2. Add_At [\<lparr>Oid = None, Servant = Some 3\<rparr>, \<lparr>Oid = Some (system_oid 2), Servant = None\<rparr>, \<lparr>Oid = None, Servant = None\<rparr>] sample_map 1 (Last sample_map + 1) = Inr M1 \<and>
    Table_At M1 (Last sample_map + 1) = Inr (Some 1) \<and>
    Add [\<lparr>Oid = None, Servant = Some 3\<rparr>, \<lparr>Oid = Some (system_oid 2), Servant = None\<rparr>, \<lparr>Oid = None, Servant = None\<rparr>] M1 2 = Inr (Last sample_map + 1, M2) \<and>
    Table_At M2 (Last sample_map + 1) = Inr (Some 2)"
proof (rule reserved_slot_reused [OF sample_map_ok, where oid = "system_oid 2"])
  fix i x
  assume "1 \<le> i" "i \<le> Last sample_map" "Table_At sample_map i = Inr x"
  then show "x \<noteq> None" by (auto simp: sample_map_def Last_def table_get_def)
qed (simp_all add: sample_map_def Last_def table_get_def system_oid_def)

text \<open>
  A hint whose index is outside the table raises Constraint_Error with the lock on the
  active object map still held.
\<close>

theorem hint_out_of_range_keeps_lock:
  assumes "Active_Object_Map P = Some (System_Map M)" "map_inv M" "Max M < i" "i \<le> Integer_Last"
  shows "\<exists>P' st'. System_Assign_Object_Identifier be cookie P st
      (Some (U_Oid_To_Oid be (Create_Id (Trimmed_Image i) True c a))) U0 No_Error = (Inl Constraint_Error, P', st') \<and>
    Map_Lock P'"
proof -
  have i: "0 \<le> i" using assms(2,3) by (auto simp: table_inv_def)
  have out: "Table_At M i = Inl Constraint_Error" using assms(2,3) by (auto simp: table_inv_def table_get_def)
  then show ?thesis
    using assms(1) system_id_roundtrip [OF i assms(4), of be True c a] Integer_Value_Image [OF i assms(4)]
    by (simp add: System_Assign_Object_Identifier_def assign_with_hint_def Add_At_def Let_def)
qed

theorem hint_out_of_range_keeps_lock_witness:
  "\<exists>P' st'. System_Assign_Object_Identifier False 1 sample_poa [\<lparr>Oid = None, Servant = Some 3\<rparr>]
      (Some (U_Oid_To_Oid False (Create_Id (Trimmed_Image 25) True 0 ''a/b''))) Unassigned_Oid No_Error = (Inl Constraint_Error, P', st') \<and>
    Map_Lock P'"
  by (rule hint_out_of_range_keeps_lock [OF _ sample_map_ok(1)])
    (simp_all add: sample_poa_def sample_map_def Integer_Last_def)

text \<open>
  An entry removed from the system's object map is the one its identifier designated; the
  identifier is in the map no more, every other identifier is in it as before, and no servant that
  only this entry had is found.
\<close>

theorem Remove_By_Id_correct:
  assumes "map_inv M" "Remove_By_Id M u = Inr (e, M')"
  shows "map_inv M' \<and> Get_By_Id M u = Inr e \<and> Is_Object_Id_In Get_By_Id M' u = Inr False \<and>
    (\<forall>v. system_slot v \<noteq> system_slot u \<longrightarrow> Is_Object_Id_In Get_By_Id M' v = Is_Object_Id_In Get_By_Id M v)"
  using system_map.removes [OF assms] system_map.removed_id_not_in [OF assms] system_map.other_id_stays [OF assms]
  by blast

theorem Remove_By_Id_correct_witness:
  "\<exists>e M'. Remove_By_Id sample_map (system_oid 1) = Inr (e, M') \<and> Is_Object_Id_In Get_By_Id M' (system_oid 1) = Inr False"
proof -
  have "Integer_Value (Id (system_oid 1)) = Inr 1" by (simp add: system_oid_def Integer_Value_Image Integer_Last_def)
  then obtain e M' where "Remove_By_Id sample_map (system_oid 1) = Inr (e, M')"
    by (simp add: Remove_By_Id_def sample_map_def table_get_def table_put_def system_oid_def)
  with Remove_By_Id_correct [OF sample_map_ok(1) this] show ?thesis by blast
qed

end
