(* ===== verification/Ilists.thy ===== *)
theory Ilists
  imports Prelude
begin

text \<open>
  PolyORB.Utils.Ilists (\<open>src/src/polyorb-utils-ilists.adb\<close>): intrusive chained lists, singly or doubly
  linked by the generic formal \<open>Doubly_Linked\<close>. The items live in a store; an access value is an
  address of the store or null, an item that has been released is a hole of the store. Every link
  the code reads or writes is read or written in the store, so that sharing is visible.
\<close>

section \<open>Items and access values\<close>

datatype Link_Type = Prev | Next

record 'a Node =
  Node_Value :: 'a
  Prev_Link :: "nat option"
  Next_Link :: "nat option"

type_synonym T_Acc = "nat option"
type_synonym 'a nodes = "'a Node option list"

text \<open>
  The designated item: a null access value fails the access check of the language; storage that has
  been released has no item.
\<close>

fun node_at :: "'a nodes \<Rightarrow> nat \<Rightarrow> 'a Node option" where
  "node_at h p = (if p < length h then h ! p else None)"

declare node_at.simps [simp del]

fun deref :: "'a nodes \<Rightarrow> T_Acc \<Rightarrow> 'a Node result" where
  "deref h None = Inl Constraint_Error"
| "deref h (Some p) = (case node_at h p of None \<Rightarrow> Inl Erroneous_Access | Some n \<Rightarrow> Inr n)"

text \<open>\<open>new Node'(Value => V, others => <>)\<close>, and \<open>Free\<close>.\<close>

definition new_node :: "'a nodes \<Rightarrow> 'a \<Rightarrow> T_Acc \<times> 'a nodes" where
  "new_node h v = (Some (length h), h @ [Some \<lparr>Node_Value = v, Prev_Link = None, Next_Link = None\<rparr>])"

definition free_node :: "'a nodes \<Rightarrow> T_Acc \<Rightarrow> 'a nodes" where
  "free_node h x = (case x of None \<Rightarrow> h | Some p \<Rightarrow> h[p := None])"

text \<open>
  The accessors. The links of an item are an array over \<open>Prev .. Next\<close> in a doubly linked list and over
  \<open>Next .. Next\<close> in a singly linked one, so that \<open>Prev\<close> fails the index check there.
\<close>

definition Link :: "bool \<Rightarrow> 'a nodes \<Rightarrow> T_Acc \<Rightarrow> Link_Type \<Rightarrow> T_Acc result" where
  "Link Doubly_Linked h x Which = on_ok (deref h x) (\<lambda>n.
     case Which of Next \<Rightarrow> Inr (Next_Link n)
     | Prev \<Rightarrow> if Doubly_Linked then Inr (Prev_Link n) else Inl Constraint_Error)"

definition Set_Link :: "bool \<Rightarrow> 'a nodes \<Rightarrow> T_Acc \<Rightarrow> Link_Type \<Rightarrow> T_Acc \<Rightarrow> 'a nodes result" where
  "Set_Link Doubly_Linked h x Which To = on_ok (deref h x) (\<lambda>n.
     case Which of Next \<Rightarrow> Inr (h[the x := Some (n\<lparr>Next_Link := To\<rparr>)])
     | Prev \<Rightarrow> if Doubly_Linked then Inr (h[the x := Some (n\<lparr>Prev_Link := To\<rparr>)]) else Inl Constraint_Error)"

section \<open>Lists\<close>

record List =
  First_Item :: T_Acc
  Last_Item :: T_Acc
  Item_Count :: int

definition Empty_List :: List where
  "Empty_List = \<lparr>First_Item = None, Last_Item = None, Item_Count = 0\<rparr>"

definition Append_Item :: "bool \<Rightarrow> 'a nodes \<Rightarrow> List \<Rightarrow> T_Acc \<Rightarrow> ('a nodes \<times> List) result" where
  "Append_Item Doubly_Linked h L X =
     on_ok (if Last_Item L \<noteq> None
            then on_ok (if Doubly_Linked then Set_Link Doubly_Linked h X Prev (Last_Item L) else Inr h)
                   (\<lambda>h. Set_Link Doubly_Linked h (Last_Item L) Next X)
            else Inr h) (\<lambda>h.
     on_ok (to_Natural (Item_Count L + 1)) (\<lambda>n.
     Inr (h, L\<lparr>Last_Item := X, First_Item := if First_Item L = None then X else First_Item L, Item_Count := n\<rparr>)))"

definition First :: "List \<Rightarrow> T_Acc" where
  "First L = First_Item L"

definition Is_Empty :: "List \<Rightarrow> bool" where
  "Is_Empty L \<longleftrightarrow> Item_Count L = 0"

definition Last_Iterator :: "List \<Rightarrow> T_Acc" where
  "Last_Iterator L = None"

definition Last :: "T_Acc \<Rightarrow> bool" where
  "Last It \<longleftrightarrow> It = None"

definition Length :: "List \<Rightarrow> int" where
  "Length L = Item_Count L"

definition Next_Iterator :: "bool \<Rightarrow> 'a nodes \<Rightarrow> T_Acc \<Rightarrow> T_Acc result" where
  "Next_Iterator Doubly_Linked h It = Link Doubly_Linked h It Next"

definition Prepend_Item :: "bool \<Rightarrow> 'a nodes \<Rightarrow> List \<Rightarrow> T_Acc \<Rightarrow> ('a nodes \<times> List) result" where
  "Prepend_Item Doubly_Linked h L X =
     on_ok (Set_Link Doubly_Linked h X Next (First_Item L)) (\<lambda>h.
     on_ok (if Doubly_Linked \<and> First_Item L \<noteq> None then Set_Link Doubly_Linked h (First_Item L) Prev X else Inr h) (\<lambda>h.
     on_ok (to_Natural (Item_Count L + 1)) (\<lambda>n.
     Inr (h, L\<lparr>First_Item := X, Last_Item := if Last_Item L = None then X else Last_Item L, Item_Count := n\<rparr>))))"

text \<open>\<open>Remove_Element\<close> with the previous item given.\<close>

definition Remove_Element_After :: "bool \<Rightarrow> 'a nodes \<Rightarrow> List \<Rightarrow> T_Acc \<Rightarrow> T_Acc \<Rightarrow> ('a nodes \<times> List) result" where
  "Remove_Element_After Doubly_Linked h L X PX =
     on_ok (if PX = None
            then on_ok (Link Doubly_Linked h X Next) (\<lambda>n. Inr (h, L\<lparr>First_Item := n\<rparr>))
            else on_ok (Link Doubly_Linked h X Next) (\<lambda>n.
                 on_ok (Set_Link Doubly_Linked h PX Next n) (\<lambda>h. Inr (h, L)))) (\<lambda>(h, L).
     (let L = if Last_Item L = X then L\<lparr>Last_Item := PX\<rparr> else L in
     on_ok (if Doubly_Linked
            then on_ok (Link Doubly_Linked h X Next) (\<lambda>n.
                 on_ok (if n \<noteq> None then Set_Link Doubly_Linked h n Prev PX else Inr h) (\<lambda>h.
                 Set_Link Doubly_Linked h X Prev None))
            else Inr h) (\<lambda>h.
     on_ok (Set_Link Doubly_Linked h X Next None) (\<lambda>h.
     on_ok (to_Natural (Item_Count L - 1)) (\<lambda>n.
     Inr (h, L\<lparr>Item_Count := n\<rparr>))))))"

definition Remove_Element :: "bool \<Rightarrow> 'a nodes \<Rightarrow> List \<Rightarrow> T_Acc \<Rightarrow> ('a nodes \<times> List) result" where
  "Remove_Element Doubly_Linked h L X =
     on_ok (if Doubly_Linked then Link Doubly_Linked h X Prev
            else on_ok (check Assert_Failure (X = First_Item L)) (\<lambda>_. Inr None)) (\<lambda>Previous.
     Remove_Element_After Doubly_Linked h L X Previous)"

definition Remove_Item :: "bool \<Rightarrow> 'a nodes \<Rightarrow> List \<Rightarrow> T_Acc \<Rightarrow> ('a nodes \<times> List \<times> T_Acc) result" where
  "Remove_Item Doubly_Linked h L It =
     on_ok (Next_Iterator Doubly_Linked h It) (\<lambda>It'.
     on_ok (Remove_Element Doubly_Linked h L It) (\<lambda>(h, L). Inr (h, L, It')))"

definition Value_Item :: "T_Acc \<Rightarrow> T_Acc" where
  "Value_Item It = It"

section \<open>The chain of items that a list designates\<close>

fun hd_or :: "nat list \<Rightarrow> T_Acc \<Rightarrow> T_Acc" where
  "hd_or [] d = d"
| "hd_or (p # ps) d = Some p"

fun last_or :: "nat list \<Rightarrow> T_Acc \<Rightarrow> T_Acc" where
  "last_or [] d = d"
| "last_or (p # ps) d = last_or ps (Some p)"

fun seg :: "bool \<Rightarrow> 'a nodes \<Rightarrow> T_Acc \<Rightarrow> nat list \<Rightarrow> T_Acc \<Rightarrow> bool" where
  "seg D h pv [] nx \<longleftrightarrow> True"
| "seg D h pv (p # ps) nx \<longleftrightarrow>
     (case node_at h p of None \<Rightarrow> False
      | Some n \<Rightarrow> Next_Link n = hd_or ps nx \<and> (D \<longrightarrow> Prev_Link n = pv)) \<and> seg D h (Some p) ps nx"

definition chain_inv :: "bool \<Rightarrow> 'a nodes \<Rightarrow> List \<Rightarrow> nat list \<Rightarrow> bool" where
  "chain_inv D h L ps \<longleftrightarrow> seg D h None ps None \<and> distinct ps \<and>
     First_Item L = hd_or ps None \<and> Last_Item L = last_or ps None \<and> Item_Count L = int (length ps)"

lemma hd_or_append [simp]: "hd_or (ps @ qs) d = hd_or ps (hd_or qs d)"
  by (cases ps) auto

lemma last_or_append [simp]: "last_or (ps @ qs) d = last_or qs (last_or ps d)"
  by (induction ps arbitrary: d) auto

lemma hd_or_None [simp]: "hd_or ps None = None \<longleftrightarrow> ps = []"
  by (cases ps) auto

lemma hd_or_Some [simp]: "hd_or ps (Some q) \<noteq> None" "None \<noteq> hd_or ps (Some q)"
  by (cases ps; simp)+

lemma hd_or_eq: "ps \<noteq> [] \<Longrightarrow> hd_or ps d = Some (hd ps)"
  by (cases ps) auto

lemma last_or_Some [simp]: "last_or ps (Some q) \<noteq> None" "None \<noteq> last_or ps (Some q)"
proof -
  show "last_or ps (Some q) \<noteq> None" by (induction ps arbitrary: q) simp_all
  then show "None \<noteq> last_or ps (Some q)" by metis
qed

lemma last_or_eq: "ps \<noteq> [] \<Longrightarrow> last_or ps d = Some (List.last ps)"
  by (induction ps arbitrary: d) auto

lemma last_or_None [simp]: "last_or ps None = None \<longleftrightarrow> ps = []"
  by (cases "ps = []") (auto simp: last_or_eq)

lemma seg_append:
  "seg D h pv (ps @ qs) nx \<longleftrightarrow> seg D h pv ps (hd_or qs nx) \<and> seg D h (last_or ps pv) qs nx"
  by (induction ps arbitrary: pv) (auto split: option.splits)

lemma seg_cong:
  assumes "\<And>p. p \<in> set ps \<Longrightarrow> node_at h' p = node_at h p"
  shows "seg D h' pv ps nx = seg D h pv ps nx"
  using assms by (induction ps arbitrary: pv) (auto split: option.splits)

lemma seg_live: "seg D h pv ps nx \<Longrightarrow> p \<in> set ps \<Longrightarrow> \<exists>n. node_at h p = Some n"
  by (induction ps arbitrary: pv) (auto split: option.splits)

lemma node_at_update [simp]:
  "node_at (h[p := x]) q = (if q = p \<and> p < length h then x else node_at h q)"
  by (auto simp: node_at.simps)

lemma node_at_append_same [simp]: "node_at (h @ [x]) (length h) = x"
  by (simp add: node_at.simps)

lemma node_at_append_other [simp]: "node_at h p = Some n \<Longrightarrow> node_at (h @ [x]) p = Some n"
  by (auto simp: node_at.simps nth_append split: if_splits)

lemma node_at_length: "node_at h p = Some n \<Longrightarrow> p < length h"
  by (auto simp: node_at.simps split: if_splits)

lemma node_at_append:
  "node_at h p \<noteq> None \<Longrightarrow> node_at (h @ [x]) p = node_at h p"
  by auto

text \<open>Writing the link that leaves a segment, and the one that leads back into it.\<close>

lemma seg_set_next:
  assumes "seg D h pv (ps @ [p]) nx" "distinct (ps @ [p])" "node_at h p = Some n"
  shows "seg D (h[p := Some (n\<lparr>Next_Link := nx'\<rparr>)]) pv (ps @ [p]) nx'"
proof -
  have "seg D (h[p := Some (n\<lparr>Next_Link := nx'\<rparr>)]) pv ps (Some p) = seg D h pv ps (Some p)"
    using assms(2) by (intro seg_cong) auto
  with assms show ?thesis by (auto simp: seg_append node_at_length)
qed

lemma seg_set_prev:
  assumes "seg D h pv (p # ps) nx" "p \<notin> set ps" "node_at h p = Some n"
  shows "seg D (h[p := Some (n\<lparr>Prev_Link := pv'\<rparr>)]) pv' (p # ps) nx"
proof -
  have "seg D (h[p := Some (n\<lparr>Prev_Link := pv'\<rparr>)]) (Some p) ps nx = seg D h (Some p) ps nx"
    using assms(2) by (intro seg_cong) auto
  with assms show ?thesis by (auto simp: node_at_length)
qed

lemma seg_update [simp]: "p \<notin> set ps \<Longrightarrow> seg D (h[p := x]) pv ps nx = seg D h pv ps nx"
  by (intro seg_cong) auto

section \<open>The operations keep the chain\<close>

text \<open>The values of the items are not touched by any operation.\<close>

definition value_at :: "'a nodes \<Rightarrow> nat \<Rightarrow> 'a option" where
  "value_at h p = map_option Node_Value (node_at h p)"

lemma chain_inv_Empty [simp]: "chain_inv D h Empty_List []"
  by (simp add: chain_inv_def Empty_List_def)

lemma Append_Item_chain:
  assumes "chain_inv D h L ps" "node_at h x = Some n" "x \<notin> set ps" "Next_Link n = None" "Prev_Link n = None"
    "int (length ps) < Integer_Last"
  obtains h' L' where "Append_Item D h L (Some x) = Inr (h', L')" "chain_inv D h' L' (ps @ [x])"
    "value_at h' = value_at h" "length h' = length h" "\<And>q. q \<notin> set (ps @ [x]) \<Longrightarrow> node_at h' q = node_at h q"
proof (cases ps rule: rev_cases)
  case Nil
  with assms that [of h "L\<lparr>Last_Item := Some x, First_Item := Some x, Item_Count := 1\<rparr>"] show ?thesis
    by (auto simp: Append_Item_def chain_inv_def to_Natural_def)
next
  case (snoc qs q)
  then obtain m where m: "node_at h q = Some m" using assms(1) seg_live [of D h None ps None q] by (auto simp: chain_inv_def)
  let ?h1 = "if D then h[x := Some (n\<lparr>Prev_Link := Some q\<rparr>)] else h"
  let ?h2 = "?h1[q := Some (m\<lparr>Next_Link := Some x\<rparr>)]"
  let ?L = "L\<lparr>Last_Item := Some x, First_Item := First_Item L, Item_Count := int (length ps) + 1\<rparr>"
  have q: "q \<noteq> x" "q < length h" "x < length h" using assms(2,3) snoc m by (auto simp: node_at_length)
  have "seg D ?h1 None (qs @ [q]) None" using assms(1,3) snoc by (auto simp: chain_inv_def seg_append)
  from seg_set_next [OF this, of m "Some x"] have "seg D ?h2 None ps (Some x)"
    using assms(1) snoc m q by (auto simp: chain_inv_def)
  then have "chain_inv D ?h2 ?L (ps @ [x])"
    using assms snoc q by (auto simp: chain_inv_def seg_append node_at_length)
  moreover have "Append_Item D h L (Some x) = Inr (?h2, ?L)"
    using assms snoc q m by (auto simp: Append_Item_def chain_inv_def Set_Link_def to_Natural_def)
  moreover have "value_at ?h2 = value_at h" using m assms(2) q by (auto simp: value_at_def fun_eq_iff)
  ultimately show ?thesis using that [of ?h2 ?L] snoc by auto
qed

lemma Prepend_Item_chain:
  assumes "chain_inv D h L ps" "node_at h x = Some n" "x \<notin> set ps" "Prev_Link n = None"
    "int (length ps) < Integer_Last"
  obtains h' L' where "Prepend_Item D h L (Some x) = Inr (h', L')" "chain_inv D h' L' (x # ps)"
    "value_at h' = value_at h" "length h' = length h"
proof (cases ps)
  case Nil
  let ?h = "h[x := Some (n\<lparr>Next_Link := None\<rparr>)]"
  have "value_at ?h = value_at h" using assms(2) by (auto simp: value_at_def fun_eq_iff)
  with Nil assms that [of ?h "L\<lparr>First_Item := Some x, Last_Item := Some x, Item_Count := 1\<rparr>"] show ?thesis
    by (auto simp: Prepend_Item_def chain_inv_def to_Natural_def Set_Link_def node_at_length)
next
  case (Cons q qs)
  then obtain m where m: "node_at h q = Some m" using assms(1) seg_live [of D h None ps None q] by (auto simp: chain_inv_def)
  let ?h1 = "h[x := Some (n\<lparr>Next_Link := Some q\<rparr>)]"
  let ?h2 = "if D then ?h1[q := Some (m\<lparr>Prev_Link := Some x\<rparr>)] else ?h1"
  let ?L = "L\<lparr>First_Item := Some x, Item_Count := int (length ps) + 1\<rparr>"
  have q: "q \<noteq> x" "q < length h" "x < length h" using assms(2,3) Cons m by (auto simp: node_at_length)
  have "seg D ?h1 None (q # qs) None" using assms(1,3) Cons q by (auto simp: chain_inv_def)
  from seg_set_prev [OF this, of m "Some x"] have "seg D ?h2 (Some x) ps None"
    using assms(1,3) Cons m q by (auto simp: chain_inv_def)
  then have "chain_inv D ?h2 ?L (x # ps)" using assms Cons q by (auto simp: chain_inv_def)
  moreover have "Prepend_Item D h L (Some x) = Inr (?h2, ?L)"
    using assms Cons q m by (auto simp: Prepend_Item_def chain_inv_def Set_Link_def to_Natural_def last_or_eq)
  moreover have "value_at ?h2 = value_at h" using m assms(2) q by (auto simp: value_at_def fun_eq_iff)
  ultimately show ?thesis using that [of ?h2 ?L] by auto
qed

text \<open>The two link writes that take an item out of the middle of a chain.\<close>

lemma bypass_forward:
  assumes "seg D h pv (ps @ x # qs) nx" "distinct (ps @ x # qs)" "ps \<noteq> []"
  obtains h' where "Set_Link D h (last_or ps None) Next (hd_or qs nx) = Inr h'"
    "seg D h' pv ps (hd_or qs nx)" "seg D h' (Some x) qs nx" "node_at h' x = node_at h x"
    "value_at h' = value_at h" "length h' = length h" "\<And>q. q \<notin> set ps \<Longrightarrow> node_at h' q = node_at h q"
proof -
  obtain rs p where ps: "ps = rs @ [p]" using assms(3) by (cases ps rule: rev_cases) auto
  obtain n where n: "node_at h p = Some n" using assms(1) seg_live [of D h pv "ps @ x # qs" nx p] ps by auto
  let ?h = "h[p := Some (n\<lparr>Next_Link := hd_or qs nx\<rparr>)]"
  have "seg D ?h pv ps (hd_or qs nx)"
    using seg_set_next [of D h pv rs p "Some x" n] assms(1,2) n unfolding ps by (simp add: seg_append)
  moreover have "value_at ?h = value_at h" using n by (auto simp: value_at_def fun_eq_iff)
  ultimately show ?thesis
    using that [of ?h] assms n ps by (auto simp: Set_Link_def seg_append)
qed

lemma bypass_back:
  assumes "seg D h pv qs nx" "distinct qs"
  obtains h' where "(if hd_or qs None \<noteq> None then Set_Link True h (hd_or qs None) Prev pv' else Inr h) = Inr h'"
    "seg D h' pv' qs nx" "value_at h' = value_at h" "length h' = length h"
    "\<And>q. q \<notin> set qs \<Longrightarrow> node_at h' q = node_at h q"
proof (cases qs)
  case Nil
  with that [of h] show ?thesis by simp
next
  case (Cons q rs)
  obtain n where n: "node_at h q = Some n" using assms(1) seg_live [of D h pv qs nx q] Cons by auto
  let ?h = "h[q := Some (n\<lparr>Prev_Link := pv'\<rparr>)]"
  have "value_at ?h = value_at h" using n by (auto simp: value_at_def fun_eq_iff)
  moreover have "seg D ?h pv' qs nx" using seg_set_prev assms n Cons by (metis distinct.simps(2))
  ultimately show ?thesis using that [of ?h] n Cons by (auto simp: Set_Link_def)
qed

lemma Set_Link_live:
  "node_at h x = Some n \<Longrightarrow> Set_Link D h (Some x) Next y = Inr (h[x := Some (n\<lparr>Next_Link := y\<rparr>)])"
  "node_at h x = Some n \<Longrightarrow> D \<Longrightarrow> Set_Link D h (Some x) Prev y = Inr (h[x := Some (n\<lparr>Prev_Link := y\<rparr>)])"
  by (simp_all add: Set_Link_def)

lemma seg_no_prev: "seg False h pv ps nx \<Longrightarrow> seg False h pv' ps nx"
  by (cases ps) (auto split: option.splits)

text \<open>What is left of the item that is taken out.\<close>

definition detached :: "bool \<Rightarrow> 'a Node \<Rightarrow> 'a Node" where
  "detached D n = (if D then n\<lparr>Prev_Link := None, Next_Link := None\<rparr> else n\<lparr>Next_Link := None\<rparr>)"

lemma Remove_Element_After_chain:
  assumes "chain_inv D h L (ps @ x # qs)" "node_at h x = Some n" "int (length (ps @ x # qs)) \<le> Integer_Last"
  obtains h' L' where "Remove_Element_After D h L (Some x) (last_or ps None) = Inr (h', L')"
    "chain_inv D h' L' (ps @ qs)" "value_at h' = value_at h" "length h' = length h"
    "node_at h' x = Some (detached D n)"
proof -
  let ?px = "last_or ps None" and ?nx = "hd_or qs None"
  have inv: "seg D h None (ps @ x # qs) None" "distinct (ps @ x # qs)" using assms(1) by (auto simp: chain_inv_def)
  have n: "Next_Link n = ?nx" "x < length h" using inv(1) assms(2) by (auto simp: seg_append node_at_length)
  obtain h1 where h1: "(if ps = [] then Inr h else Set_Link D h ?px Next ?nx) = Inr h1"
    "seg D h1 None ps ?nx" "seg D h1 (Some x) qs None" "node_at h1 x = Some n" "value_at h1 = value_at h"
    "length h1 = length h"
  proof (cases "ps = []")
    case True
    with that [of h] inv assms(2) show ?thesis by simp
  next
    case False
    show ?thesis by (rule bypass_forward [OF inv False]) (use that False assms(2) in simp)
  qed
  obtain h2 where h2: "(if ?nx \<noteq> None then Set_Link True h1 ?nx Prev ?px else Inr h1) = Inr h2"
    "seg D h2 ?px qs None" "value_at h2 = value_at h1" "length h2 = length h1"
    "\<And>q. q \<notin> set qs \<Longrightarrow> node_at h2 q = node_at h1 q"
    by (rule bypass_back [OF h1(3)]) (use inv(2) in auto)
  let ?h3 = "if D then h2 else h1"
  let ?h4 = "?h3[x := Some (detached D n)]"
  let ?L1 = "if ps = [] then L\<lparr>First_Item := ?nx\<rparr> else L"
  let ?L2 = "if Last_Item L = Some x then ?L1\<lparr>Last_Item := ?px\<rparr> else ?L1"
  let ?L = "?L2\<lparr>Item_Count := int (length (ps @ qs))\<rparr>"
  have x3: "node_at ?h3 x = Some n" using h2(5) [of x] h1(4) inv(2) by auto
  have len: "length ?h3 = length h" using h1(6) h2(4) by simp
  have cnt: "to_Natural (Item_Count L - 1) = Inr (int (length (ps @ qs)))"
    using assms(1,3) by (simp add: chain_inv_def to_Natural_def)
  have last: "Last_Item L = Some x \<longleftrightarrow> qs = []" "qs \<noteq> [] \<Longrightarrow> Last_Item L = last_or qs ?px"
    using assms(1) by (cases "qs = []"; force simp: chain_inv_def last_or_eq)+
  have fst: "Link D h (Some x) Next = Inr ?nx" "Link D h1 (Some x) Next = Inr ?nx"
    using assms(2) h1(4) n by (simp_all add: Link_def)
  have bridge: "(if ?px = None then on_ok (Link D h (Some x) Next) (\<lambda>n. Inr (h, L\<lparr>First_Item := n\<rparr>))
      else on_ok (Link D h (Some x) Next) (\<lambda>n. on_ok (Set_Link D h ?px Next n) (\<lambda>h. Inr (h, L)))) = Inr (h1, ?L1)"
    using h1(1) fst by (auto split: if_splits)
  let ?C = "if D then on_ok (Link D h1 (Some x) Next) (\<lambda>n.
        on_ok (if n \<noteq> None then Set_Link D h1 n Prev ?px else Inr h1) (\<lambda>h. Set_Link D h (Some x) Prev None)) else Inr h1"
  have clear: "on_ok ?C (\<lambda>h. Set_Link D h (Some x) Next None) = Inr ?h4"
  proof (cases D)
    case True
    with x3 have "node_at h2 x = Some n" "Link True h1 (Some x) Next = Inr ?nx" using fst(2) by simp_all
    with True h1(6) h2(4) n show ?thesis
      by (simp add: h2(1) [unfolded hd_or_None] Set_Link_live detached_def cong: if_cong del: not_None_eq)
  qed (use x3 in \<open>simp add: Set_Link_live detached_def\<close>)
  have "Remove_Element_After D h L (Some x) ?px = Inr (?h4, ?L)"
  proof -
    obtain h' where "?C = Inr h'" "Set_Link D h' (Some x) Next None = Inr ?h4"
      using iffD1 [OF on_ok_eq_Inr clear] by blast
    with cnt show ?thesis
      unfolding Remove_Element_After_def bridge on_ok.simps prod.case Let_def by (simp add: result_simps)
  qed
  moreover have "seg D ?h4 None ps ?nx"
  proof -
    have "x \<notin> set ps" "set ps \<inter> set qs = {}" using inv(2) by auto
    moreover from this have "seg D h2 None ps ?nx" using h1(2) seg_cong [of ps h2 h1 D None ?nx] h2(5) by blast
    ultimately show ?thesis using h1(2) by (cases D) simp_all
  qed
  moreover have "seg D ?h4 ?px qs None"
    using inv(2) h1(3) h2(2) seg_no_prev [of h1 "Some x" qs None ?px] by auto
  ultimately have run: "Remove_Element_After D h L (Some x) ?px = Inr (?h4, ?L)" and "seg D ?h4 None (ps @ qs) None"
    by (simp_all add: seg_append)
  then have "chain_inv D ?h4 ?L (ps @ qs)"
    using assms(1) last inv(2) by (auto simp: chain_inv_def hd_or_eq)
  note run this
  moreover have "value_at ?h4 = value_at h"
  proof
    fix p show "value_at ?h4 p = value_at h p"
      using assms(2) x3 h1(5) h2(3) by (cases "p = x") (auto simp: value_at_def fun_eq_iff detached_def)
  qed
  moreover have "length ?h4 = length h" using h1(6) h2(4) by simp
  moreover have "node_at ?h4 x = Some (detached D n)" using n h1(6) h2(4) by simp
  ultimately show ?thesis using that [of ?h4 ?L] by simp
qed

text \<open>
  Taking an item out through the list, and through an iterator that moves on. In a singly linked
  list only the first item can be taken out this way.
\<close>

lemma Remove_Element_chain:
  assumes "chain_inv D h L (ps @ x # qs)" "node_at h x = Some n" "int (length (ps @ x # qs)) \<le> Integer_Last"
    "D \<or> ps = []"
  obtains h' L' where "Remove_Element D h L (Some x) = Inr (h', L')"
    "chain_inv D h' L' (ps @ qs)" "value_at h' = value_at h" "length h' = length h"
    "node_at h' x = Some (detached D n)"
proof -
  have "Remove_Element D h L (Some x) = Remove_Element_After D h L (Some x) (last_or ps None)"
    using assms(1,2,4) by (auto simp: Remove_Element_def Link_def chain_inv_def seg_append)
  then show ?thesis by - (rule Remove_Element_After_chain [OF assms(1-3)], use that in auto)
qed

lemma Remove_Element_singly:
  assumes "chain_inv False h L ps" "x \<in> set ps" "hd_or ps None \<noteq> Some x"
  shows "Remove_Element False h L (Some x) = Inl Assert_Failure"
  using assms by (simp add: Remove_Element_def chain_inv_def)

lemma Remove_Item_chain:
  assumes "chain_inv D h L (ps @ x # qs)" "node_at h x = Some n" "int (length (ps @ x # qs)) \<le> Integer_Last"
    "D \<or> ps = []"
  obtains h' L' where "Remove_Item D h L (Some x) = Inr (h', L', hd_or qs None)"
    "chain_inv D h' L' (ps @ qs)" "value_at h' = value_at h" "length h' = length h"
    "node_at h' x = Some (detached D n)"
proof -
  have "Next_Iterator D h (Some x) = Inr (hd_or qs None)"
    using assms(1,2) by (auto simp: Next_Iterator_def Link_def chain_inv_def seg_append)
  then show ?thesis
    by - (rule Remove_Element_chain [OF assms], use that in \<open>auto simp: Remove_Item_def\<close>)
qed

end
