(* ===== verification/Chained_Lists.thy ===== *)
theory Chained_Lists
  imports Ilists
begin

text \<open>
  PolyORB.Utils.Chained_Lists (\<open>src/src/polyorb-utils-chained_lists.adb\<close>): lists of values, each in a
  node that is allocated for it and linked by the intrusive lists. The generic formal
  \<open>Doubly_Chained\<close> is the first argument of the operations. A loop over the nodes need not end on
  an ill-formed chain: the loops are partial functions, and the lemmas show that they return.
\<close>

section \<open>Operations\<close>

definition Append :: "bool \<Rightarrow> 'a nodes \<Rightarrow> List \<Rightarrow> 'a \<Rightarrow> ('a nodes \<times> List) result" where
  "Append D h L I = (let (N, h) = new_node h I in Append_Item D h L N)"

definition Prepend :: "bool \<Rightarrow> 'a nodes \<Rightarrow> List \<Rightarrow> 'a \<Rightarrow> ('a nodes \<times> List) result" where
  "Prepend D h L I = (let (N, h) = new_node h I in Prepend_Item D h L N)"

text \<open>\<open>"+"\<close> and \<open>"&"\<close>. The latter copies the list header only: both lists share their nodes.\<close>

definition Singleton :: "bool \<Rightarrow> 'a nodes \<Rightarrow> 'a \<Rightarrow> ('a nodes \<times> List) result" where
  "Singleton D h I = (let (N, h) = new_node h I in Append_Item D h Empty_List N)"

definition Concat :: "bool \<Rightarrow> 'a nodes \<Rightarrow> List \<Rightarrow> 'a \<Rightarrow> ('a nodes \<times> List) result" where
  "Concat D h L I = Append D h L I"

definition Value :: "'a nodes \<Rightarrow> T_Acc \<Rightarrow> 'a result" where
  "Value h I = on_ok (deref h (Value_Item I)) (\<lambda>n. Inr (Node_Value n))"

definition Remove :: "bool \<Rightarrow> 'a nodes \<Rightarrow> List \<Rightarrow> T_Acc \<Rightarrow> ('a nodes \<times> List \<times> T_Acc) result" where
  "Remove D h L I = (let N = Value_Item I in
     on_ok (Remove_Item D h L I) (\<lambda>(h, L, I). Inr (free_node h N, L, I)))"

definition Extract_First :: "bool \<Rightarrow> 'a nodes \<Rightarrow> List \<Rightarrow> ('a \<times> 'a nodes \<times> List) result" where
  "Extract_First D h L = (let It = First L in
     if Last It then Inl Constraint_Error
     else on_ok (Value h It) (\<lambda>Result.
          on_ok (Remove D h L It) (\<lambda>(h, L, _). Inr (Result, h, L))))"

definition Empty :: List where
  "Empty = Empty_List"

partial_function (option) Deallocate_loop :: "bool \<Rightarrow> 'a nodes \<Rightarrow> List \<Rightarrow> T_Acc \<Rightarrow> ('a nodes \<times> List) result option" where
  "Deallocate_loop D h L It =
     (if Last It then Some (Inr (h, L))
      else case Remove D h L It of Inl e \<Rightarrow> Some (Inl e)
      | Inr r \<Rightarrow> Deallocate_loop D (fst r) (fst (snd r)) (snd (snd r)))"

definition Deallocate :: "bool \<Rightarrow> 'a nodes \<Rightarrow> List \<Rightarrow> ('a nodes \<times> List) result option" where
  "Deallocate D h L = Deallocate_loop D h L (First L)"

partial_function (option) Duplicate_loop :: "bool \<Rightarrow> 'a nodes \<Rightarrow> List \<Rightarrow> T_Acc \<Rightarrow> ('a nodes \<times> List) result option" where
  "Duplicate_loop D h Dup It =
     (if Last It then Some (Inr (h, Dup))
      else case on_ok (Value h It) (\<lambda>v. on_ok (Append D h Dup v) (\<lambda>(h, Dup).
             on_ok (Next_Iterator D h It) (\<lambda>It. Inr (h, Dup, It)))) of
        Inl e \<Rightarrow> Some (Inl e)
      | Inr r \<Rightarrow> Duplicate_loop D (fst r) (fst (snd r)) (snd (snd r)))"

definition Duplicate :: "bool \<Rightarrow> 'a nodes \<Rightarrow> List \<Rightarrow> ('a nodes \<times> List) result option" where
  "Duplicate D h L = Duplicate_loop D h Empty_List (First L)"

partial_function (option) Element_loop :: "bool \<Rightarrow> 'a nodes \<Rightarrow> int \<Rightarrow> int \<Rightarrow> T_Acc \<Rightarrow> T_Acc result option" where
  "Element_loop D h Index C It =
     (if Last It then Some (Inl Constraint_Error)
      else if C = Index then Some (on_ok (deref h It) (\<lambda>_. Inr It))
      else case on_ok (to_Natural (C + 1)) (\<lambda>C. on_ok (Next_Iterator D h It) (\<lambda>It. Inr (C, It))) of
        Inl e \<Rightarrow> Some (Inl e)
      | Inr r \<Rightarrow> Element_loop D h Index (fst r) (snd r))"

definition Element :: "bool \<Rightarrow> 'a nodes \<Rightarrow> List \<Rightarrow> int \<Rightarrow> T_Acc result option" where
  "Element D h L Index = Element_loop D h Index 0 (First L)"

partial_function (option) Remove_G_loop ::
  "bool \<Rightarrow> ('a \<Rightarrow> bool) \<Rightarrow> bool \<Rightarrow> 'a nodes \<Rightarrow> List \<Rightarrow> T_Acc \<Rightarrow> T_Acc \<Rightarrow> ('a nodes \<times> List) result option" where
  "Remove_G_loop D Predicate All_Occurrences h L Prev_Item Iter =
     (if Last Iter then Some (Inr (h, L))
      else case on_ok (Value h Iter) (\<lambda>v. on_ok (Next_Iterator D h Iter) (\<lambda>Nxt. Inr (v, Nxt))) of
        Inl e \<Rightarrow> Some (Inl e)
      | Inr (v, Nxt) \<Rightarrow>
        if Predicate v
        then (case Remove_Element_After D h L (Value_Item Iter) Prev_Item of
            Inl e \<Rightarrow> Some (Inl e)
          | Inr r \<Rightarrow>
            if \<not> All_Occurrences then Some (Inr (free_node (fst r) (Value_Item Iter), snd r))
            else Remove_G_loop D Predicate All_Occurrences (free_node (fst r) (Value_Item Iter)) (snd r) Prev_Item Nxt)
        else Remove_G_loop D Predicate All_Occurrences h L (Value_Item Iter) Nxt)"

definition Remove_G :: "bool \<Rightarrow> ('a \<Rightarrow> bool) \<Rightarrow> bool \<Rightarrow> 'a nodes \<Rightarrow> List \<Rightarrow> ('a nodes \<times> List) result option" where
  "Remove_G D Predicate All_Occurrences h L = Remove_G_loop D Predicate All_Occurrences h L None (First L)"

definition Remove_Occurrences :: "bool \<Rightarrow> 'a nodes \<Rightarrow> List \<Rightarrow> 'a \<Rightarrow> bool \<Rightarrow> ('a nodes \<times> List) result option" where
  "Remove_Occurrences D h L I All_Occurrences = Remove_G D (\<lambda>X. X = I) All_Occurrences h L"

section \<open>The list of values that a chained list holds\<close>

definition holds :: "bool \<Rightarrow> 'a nodes \<Rightarrow> List \<Rightarrow> 'a list \<Rightarrow> bool" where
  "holds D h L xs \<longleftrightarrow> int (length xs) \<le> Integer_Last \<and>
     (\<exists>ps. chain_inv D h L ps \<and> map (value_at h) ps = map Some xs)"

lemma holdsI: "chain_inv D h L ps \<Longrightarrow> map (value_at h) ps = map Some xs \<Longrightarrow> int (length xs) \<le> Integer_Last \<Longrightarrow> holds D h L xs"
  by (auto simp: holds_def)

lemma holds_Empty [simp]: "holds D h Empty_List []"
  by (simp add: holds_def Integer_Last_def)

lemma values_length: "map f ps = map g xs \<Longrightarrow> length ps = length xs"
  by (metis length_map)

lemma holds_length: "holds D h L xs \<Longrightarrow> Length L = int (length xs)"
  by (auto simp: holds_def chain_inv_def Length_def dest: arg_cong [where f = length])

lemma holds_Is_Empty: "holds D h L xs \<Longrightarrow> Is_Empty L \<longleftrightarrow> xs = []"
  using holds_length by (fastforce simp: Is_Empty_def Length_def)

lemma value_at_append: "value_at h p = Some v \<Longrightarrow> value_at (h @ [x]) p = Some v"
  by (auto simp: value_at_def)

lemma value_at_free [simp]: "p \<noteq> x \<Longrightarrow> value_at (free_node h (Some x)) p = value_at h p"
  by (simp add: value_at_def free_node_def)

lemma values_free: "x \<notin> set ps \<Longrightarrow> map (value_at (free_node h (Some x))) ps = map (value_at h) ps"
  by (induction ps) auto

lemma chain_inv_cong:
  assumes "chain_inv D h L ps" "\<And>p. p \<in> set ps \<Longrightarrow> node_at h' p = node_at h p"
  shows "chain_inv D h' L ps"
  using assms seg_cong [of ps h' h] by (simp add: chain_inv_def)

lemma chain_inv_live: "chain_inv D h L ps \<Longrightarrow> p \<in> set ps \<Longrightarrow> \<exists>n. node_at h p = Some n"
  by (auto simp: chain_inv_def dest: seg_live)

lemma chain_inv_free: "chain_inv D h L ps \<Longrightarrow> x \<notin> set ps \<Longrightarrow> chain_inv D (free_node h (Some x)) L ps"
  by (erule chain_inv_cong) (auto simp: free_node_def)

text \<open>A node that has just been allocated is in no chain.\<close>

lemma chain_inv_new:
  assumes "chain_inv D h L ps"
  shows "chain_inv D (h @ [x]) L ps" "length h \<notin> set ps"
proof -
  show "chain_inv D (h @ [x]) L ps"
    using assms by (rule chain_inv_cong) (use chain_inv_live [OF assms] in force)
  show "length h \<notin> set ps" using chain_inv_live [OF assms] by (force dest: node_at_length)
qed

lemma values_new: "map (value_at h) ps = map Some xs \<Longrightarrow> map (value_at (h @ [x])) ps = map Some xs"
proof (induction ps arbitrary: xs)
  case (Cons p ps)
  then show ?case by (cases xs) (auto simp: value_at_append)
qed simp

lemma Append_chain:
  assumes "chain_inv D h L ps" "int (length ps) < Integer_Last"
  obtains h' L' where "Append D h L v = Inr (h', L')" "chain_inv D h' L' (ps @ [length h])"
    "value_at h' = (value_at h)(length h \<mapsto> v)" "\<And>q. q \<notin> set ps \<Longrightarrow> q < length h \<Longrightarrow> node_at h' q = node_at h q"
proof -
  let ?n = "\<lparr>Node_Value = v, Prev_Link = None, Next_Link = None\<rparr>"
  let ?h = "h @ [Some ?n]"
  obtain h' L' where r: "Append_Item D ?h L (Some (length h)) = Inr (h', L')"
    "chain_inv D h' L' (ps @ [length h])" "value_at h' = value_at ?h"
    "\<And>q. q \<notin> set (ps @ [length h]) \<Longrightarrow> node_at h' q = node_at ?h q"
    by (rule Append_Item_chain [of D ?h L ps "length h" ?n])
      (use chain_inv_new(1) [OF assms(1), of "Some ?n"] chain_inv_new(2) [OF assms(1)] assms(2) in auto)
  show ?thesis
  proof (rule that)
    show "Append D h L v = Inr (h', L')" using r(1) by (simp add: Append_def new_node_def)
    show "value_at h' = (value_at h)(length h \<mapsto> v)"
      using r(3) by (auto simp: value_at_def fun_eq_iff node_at.simps nth_append)
    show "node_at h' q = node_at h q" if "q \<notin> set ps" "q < length h" for q
      using r(4) [of q] that by (auto simp: node_at.simps nth_append)
  qed (rule r(2))
qed

lemma values_kept: "x \<notin> set ps \<Longrightarrow> map ((value_at h)(x := v)) ps = map (value_at h) ps"
  by (induction ps) auto

lemma holds_Append:
  assumes "holds D h L xs" "int (length xs) < Integer_Last"
  obtains h' L' where "Append D h L v = Inr (h', L')" "holds D h' L' (xs @ [v])"
proof -
  obtain ps where ps: "chain_inv D h L ps" "map (value_at h) ps = map Some xs" using assms(1) by (auto simp: holds_def)
  have "int (length ps) < Integer_Last" using values_length [OF ps(2)] assms(2) by simp
  then obtain h' L' where r: "Append D h L v = Inr (h', L')" "chain_inv D h' L' (ps @ [length h])"
    "value_at h' = (value_at h)(length h \<mapsto> v)" by (rule Append_chain [OF ps(1)]) blast
  from r(2) have "holds D h' L' (xs @ [v])"
    by (rule holdsI) (use assms(2) r(3) ps chain_inv_new(2) [OF ps(1)] in \<open>auto simp: values_kept\<close>)
  with r(1) that show ?thesis by blast
qed

lemma holds_Prepend:
  assumes "holds D h L xs" "int (length xs) < Integer_Last"
  obtains h' L' where "Prepend D h L v = Inr (h', L')" "holds D h' L' (v # xs)"
proof -
  obtain ps where ps: "chain_inv D h L ps" "map (value_at h) ps = map Some xs" using assms(1) by (auto simp: holds_def)
  let ?n = "\<lparr>Node_Value = v, Prev_Link = None, Next_Link = None\<rparr>"
  have "length ps = length xs" using values_length [OF ps(2)] by simp
  then obtain h' L' where r: "Prepend_Item D (h @ [Some ?n]) L (Some (length h)) = Inr (h', L')"
    "chain_inv D h' L' (length h # ps)" "value_at h' = value_at (h @ [Some ?n])"
    using chain_inv_new(1) [OF ps(1), of "Some ?n"] chain_inv_new(2) [OF ps(1)] assms(2)
    by - (rule Prepend_Item_chain [of D "h @ [Some ?n]" L ps "length h" ?n], auto)
  from r(2) have "holds D h' L' (v # xs)"
    by (rule holdsI) (use assms(2) r(3) values_new [OF ps(2), of "Some ?n"] in \<open>auto simp: value_at_def\<close>)
  with r(1) that [of h' L'] show ?thesis by (simp add: Prepend_def new_node_def)
qed

text \<open>Taking a node out and freeing it: the other nodes keep their values.\<close>

lemma Remove_chain:
  assumes "chain_inv D h L (ps @ x # qs)" "int (length (ps @ x # qs)) \<le> Integer_Last" "D \<or> ps = []"
  obtains h' L' where "Remove D h L (Some x) = Inr (h', L', hd_or qs None)" "chain_inv D h' L' (ps @ qs)"
    "value_at h' = (value_at h)(x := None)"
proof -
  obtain n where n: "node_at h x = Some n" using chain_inv_live [OF assms(1)] by auto
  have x: "x \<notin> set (ps @ qs)" using assms(1) by (auto simp: chain_inv_def)
  obtain h1 L1 where r: "Remove_Item D h L (Some x) = Inr (h1, L1, hd_or qs None)"
    "chain_inv D h1 L1 (ps @ qs)" "value_at h1 = value_at h" "length h1 = length h"
    by (rule Remove_Item_chain [OF assms(1) n assms(2,3)]) blast
  show ?thesis
  proof (rule that)
    show "Remove D h L (Some x) = Inr (free_node h1 (Some x), L1, hd_or qs None)"
      using r(1) by (simp add: Remove_def Value_Item_def)
    show "chain_inv D (free_node h1 (Some x)) L1 (ps @ qs)" using r(2) x by (rule chain_inv_free)
    show "value_at (free_node h1 (Some x)) = (value_at h)(x := None)"
      using r(3,4) node_at_length [OF n] by (auto simp: fun_eq_iff value_at_def free_node_def)
  qed
qed

lemma value_at_Value: "value_at h p = Some v \<Longrightarrow> Value h (Some p) = Inr v"
  by (auto simp: value_at_def Value_def Value_Item_def)

lemma holds_Extract_First:
  assumes "holds D h L (x # xs)"
  obtains h' L' where "Extract_First D h L = Inr (x, h', L')" "holds D h' L' xs"
proof -
  obtain p ps where ps: "chain_inv D h L (p # ps)" "value_at h p = Some x" "map (value_at h) ps = map Some xs"
    using assms by (auto simp: holds_def map_eq_Cons_conv)
  have "length ps = length xs" using values_length [OF ps(3)] by simp
  then have len: "int (length ([] @ p # ps)) \<le> Integer_Last" using assms by (simp add: holds_def)
  have "First L = Some p" using ps(1) by (simp add: First_def chain_inv_def)
  moreover obtain h' L' where r: "Remove D h L (Some p) = Inr (h', L', hd_or ps None)" "chain_inv D h' L' ps"
    "value_at h' = (value_at h)(p := None)"
    by (rule Remove_chain [of D h L "[]" p ps]) (use ps(1) len in auto)
  moreover from r(2) have "holds D h' L' xs" 
    by (rule holdsI) (use r(3) ps(1,3) assms in \<open>auto simp: holds_def values_kept chain_inv_def\<close>)
  ultimately show ?thesis
    using that [of h' L'] value_at_Value [OF ps(2)] by (simp add: Extract_First_def Last_def)
qed

lemma holds_Extract_empty: "holds D h L [] \<Longrightarrow> Extract_First D h L = Inl Constraint_Error"
  by (auto simp: holds_def chain_inv_def Extract_First_def Last_def First_def)

section \<open>The interface of a queue\<close>

text \<open>
  What the clients of a first-in first-out queue rely on, and the loop they all have: take the first
  element while the queue is not empty.
\<close>

locale fifo_queue =
  fixes rep :: "'h \<Rightarrow> 'l \<Rightarrow> 'a list \<Rightarrow> bool" and limit :: int
    and empty :: "'l \<Rightarrow> bool" and put :: "'h \<Rightarrow> 'l \<Rightarrow> 'a \<Rightarrow> ('h \<times> 'l) result"
    and take_first :: "'h \<Rightarrow> 'l \<Rightarrow> ('a \<times> 'h \<times> 'l) result"
  assumes empty_iff: "rep h l xs \<Longrightarrow> empty l \<longleftrightarrow> xs = []"
    and put_last: "rep h l xs \<Longrightarrow> int (length xs) < limit \<Longrightarrow> \<exists>h' l'. put h l x = Inr (h', l') \<and> rep h' l' (xs @ [x])"
    and take_head: "rep h l (x # xs) \<Longrightarrow> \<exists>h' l'. take_first h l = Inr (x, h', l') \<and> rep h' l' xs"
begin

lemma drain:
  assumes "\<And>h l acc. loop h l acc = (if empty l then Some (Inr (acc, h, l))
      else case take_first h l of Inl e \<Rightarrow> Some (Inl e) | Inr r \<Rightarrow> loop (fst (snd r)) (snd (snd r)) (acc @ [fst r]))"
    and "rep h l xs"
  obtains h' l' where "loop h l acc = Some (Inr (acc @ xs, h', l'))" "rep h' l' []"
  using assms(2)
proof (induction xs arbitrary: h l acc thesis)
  case Nil
  then show ?case using assms(1) [of h l acc] empty_iff by auto
next
  case (Cons x xs)
  obtain h1 l1 where r: "take_first h l = Inr (x, h1, l1)" "rep h1 l1 xs" using take_head [OF Cons.prems(2)] by blast
  have "loop h l acc = loop h1 l1 (acc @ [x])"
    using assms(1) [of h l acc] r(1) empty_iff [OF Cons.prems(2)] by simp
  moreover obtain h' l' where "loop h1 l1 (acc @ [x]) = Some (Inr ((acc @ [x]) @ xs, h', l'))" "rep h' l' []"
    by (rule Cons.IH [OF _ r(2)]) blast
  ultimately show ?case using Cons.prems(1) [of h' l'] by simp
qed

lemma put_then_take:
  assumes "rep h l []" "0 < limit"
  shows "\<exists>h1 l1 h2 l2. put h l x = Inr (h1, l1) \<and> take_first h1 l1 = Inr (x, h2, l2) \<and> rep h2 l2 []"
  using put_last [OF assms(1), of x] take_head assms(2) by fastforce

end

interpretation chained: fifo_queue "holds D" Integer_Last Is_Empty "Append D" "Extract_First D" for D :: bool
proof unfold_locales
  show "holds D h L xs \<Longrightarrow> Is_Empty L \<longleftrightarrow> xs = []" for h :: "'c nodes" and L xs by (rule holds_Is_Empty)
  show "holds D h L xs \<Longrightarrow> int (length xs) < Integer_Last \<Longrightarrow> \<exists>h' L'. Append D h L x = Inr (h', L') \<and> holds D h' L' (xs @ [x])"
    for h :: "'c nodes" and L xs x by (rule holds_Append) blast+
  show "holds D h L (x # xs) \<Longrightarrow> \<exists>h' L'. Extract_First D h L = Inr (x, h', L') \<and> holds D h' L' xs"
    for h :: "'c nodes" and L x xs by (erule holds_Extract_First) blast
qed

section \<open>Traversals\<close>

definition keep :: "('a \<Rightarrow> bool) \<Rightarrow> bool \<Rightarrow> 'a list \<Rightarrow> 'a list" where
  "keep P A xs = (if A then filter (\<lambda>x. \<not> P x) xs
     else takeWhile (\<lambda>x. \<not> P x) xs @ tl (dropWhile (\<lambda>x. \<not> P x) xs))"

lemma keep_simps [simp]:
  "keep P A [] = []" "P x \<Longrightarrow> keep P True (x # xs) = keep P True xs" "P x \<Longrightarrow> keep P False (x # xs) = xs"
  "\<not> P x \<Longrightarrow> keep P A (x # xs) = x # keep P A xs"
  by (auto simp: keep_def)

lemma Next_Iterator_chain:
  assumes "chain_inv D h L (ps @ x # qs)"
  shows "Next_Iterator D h (Some x) = Inr (hd_or qs None)"
  using assms by (auto simp: Next_Iterator_def Link_def chain_inv_def seg_append split: option.splits)

lemma Remove_G_loop_chain:
  assumes "chain_inv D h L (ps @ qs)" "map (value_at h) ps = map Some xs" "map (value_at h) qs = map Some ys"
    "int (length (ps @ qs)) \<le> Integer_Last"
  shows "\<exists>h' L'. Remove_G_loop D P A h L (last_or ps None) (hd_or qs None) = Some (Inr (h', L')) \<and>
    holds D h' L' (xs @ keep P A ys)"
  using assms
proof (induction qs arbitrary: h L ps xs ys)
  case Nil
  then show ?case
    using values_length [OF Nil.prems(2)]
    by (subst Remove_G_loop.simps) (auto simp: Last_def intro!: holdsI [of D h L ps])
next
  case (Cons q qs)
  then obtain y zs where ys: "ys = y # zs" "value_at h q = Some y" "map (value_at h) qs = map Some zs"
    by (cases ys) auto
  have step: "Value h (Some q) = Inr y" "Next_Iterator D h (Some q) = Inr (hd_or qs None)"
    using ys(2) Next_Iterator_chain [OF Cons.prems(1)] by (simp_all add: value_at_Value)
  obtain n where n: "node_at h q = Some n" using chain_inv_live [OF Cons.prems(1)] by auto
  have q: "q \<notin> set (ps @ qs)" using Cons.prems(1) by (auto simp: chain_inv_def)
  show ?case
  proof (cases "P y")
    case False
    moreover have "\<exists>h' L'. Remove_G_loop D P A h L (last_or (ps @ [q]) None) (hd_or qs None) = Some (Inr (h', L')) \<and>
        holds D h' L' ((xs @ [y]) @ keep P A zs)"
      using Cons.prems ys by (intro Cons.IH) auto
    ultimately show ?thesis
      using step ys(1) by (subst Remove_G_loop.simps) (simp add: Last_def Value_Item_def)
  next
    case True
    obtain h1 L1 where r: "Remove_Element_After D h L (Some q) (last_or ps None) = Inr (h1, L1)"
      "chain_inv D h1 L1 (ps @ qs)" "value_at h1 = value_at h"
      by (rule Remove_Element_After_chain [OF Cons.prems(1) n Cons.prems(4)]) blast
    let ?h = "free_node h1 (Some q)"
    have inv: "chain_inv D ?h L1 (ps @ qs)" using r(2) q by (rule chain_inv_free)
    have vals: "map (value_at ?h) ps = map Some xs" "map (value_at ?h) qs = map Some zs"
      using q Cons.prems(2) ys(3) r(3) by (simp_all add: values_free)
    show ?thesis
    proof (cases A)
      case False
      have "holds D ?h L1 (xs @ zs)"
        using inv vals Cons.prems(4) values_length [OF vals(1)] values_length [OF vals(2)] by (intro holdsI) auto
      with False True show ?thesis
        using step ys(1) r(1) by (subst Remove_G_loop.simps) (simp add: Last_def Value_Item_def)
    next
      case A: True
      have "\<exists>h' L'. Remove_G_loop D P A ?h L1 (last_or ps None) (hd_or qs None) = Some (Inr (h', L')) \<and>
          holds D h' L' (xs @ keep P A zs)"
        using inv vals Cons.prems(4) by (intro Cons.IH) auto
      with A True show ?thesis
        using step ys(1) r(1) by (subst Remove_G_loop.simps) (simp add: Last_def Value_Item_def)
    qed
  qed
qed

lemma Remove_G_holds:
  assumes "holds D h L xs"
  obtains h' L' where "Remove_G D P A h L = Some (Inr (h', L'))" "holds D h' L' (keep P A xs)"
proof -
  obtain ps where ps: "chain_inv D h L ps" "map (value_at h) ps = map Some xs" "int (length ps) \<le> Integer_Last"
    using assms values_length by (fastforce simp: holds_def)
  have "First L = hd_or ps None" using ps(1) by (simp add: First_def chain_inv_def)
  with Remove_G_loop_chain [of D h L "[]" ps "[]" xs P A] ps that show ?thesis by (auto simp: Remove_G_def)
qed

lemma Deallocate_loop_chain:
  assumes "chain_inv D h L ps" "int (length ps) \<le> Integer_Last"
  shows "\<exists>h' L'. Deallocate_loop D h L (hd_or ps None) = Some (Inr (h', L')) \<and> chain_inv D h' L' [] \<and>
    value_at h' = (\<lambda>p. if p \<in> set ps then None else value_at h p)"
  using assms
proof (induction ps arbitrary: h L)
  case Nil
  then show ?case by (subst Deallocate_loop.simps) (simp add: Last_def)
next
  case (Cons p ps)
  obtain h1 L1 where r: "Remove D h L (Some p) = Inr (h1, L1, hd_or ps None)" "chain_inv D h1 L1 ps"
    "value_at h1 = (value_at h)(p := None)"
    by (rule Remove_chain [of D h L "[]" p ps]) (use Cons.prems in auto)
  from Cons.IH [OF r(2)] Cons.prems(2) r(1,3) show ?case
    by (subst Deallocate_loop.simps) (auto simp: Last_def fun_eq_iff)
qed

lemma Element_loop_chain:
  assumes "chain_inv D h L (ps @ qs)" "map (value_at h) qs = map Some ys" "int (length (ps @ qs)) \<le> Integer_Last"
    "int (length ps) \<le> k"
  shows "if k < int (length (ps @ qs))
    then \<exists>p. Element_loop D h k (int (length ps)) (hd_or qs None) = Some (Inr (Some p)) \<and> value_at h p = Some (ys ! (nat k - length ps))
    else Element_loop D h k (int (length ps)) (hd_or qs None) = Some (Inl Constraint_Error)"
  using assms
proof (induction qs arbitrary: ps ys)
  case Nil
  then show ?case by (subst (2) Element_loop.simps) (simp add: Last_def)
next
  case (Cons q qs)
  then obtain y zs where ys: "ys = y # zs" "value_at h q = Some y" "map (value_at h) qs = map Some zs"
    by (cases ys) auto
  obtain n where n: "node_at h q = Some n" using chain_inv_live [OF Cons.prems(1)] by auto
  show ?case
  proof (cases "k = int (length ps)")
    case True
    with n ys(1,2) show ?thesis by (subst Element_loop.simps) (simp add: Last_def)
  next
    case False
    then have "Element_loop D h k (int (length ps)) (Some q) = Element_loop D h k (int (length (ps @ [q]))) (hd_or qs None)"
      using Next_Iterator_chain [OF Cons.prems(1)] Cons.prems(3)
      by (subst Element_loop.simps) (simp add: Last_def to_Natural_def algebra_simps)
    moreover have "nat k - length ps = Suc (nat k - length (ps @ [q]))" using False Cons.prems(4) by auto
    ultimately show ?thesis using Cons.IH [of "ps @ [q]" zs] Cons.prems False ys by (auto split: if_splits)
  qed
qed

lemma Duplicate_loop_chain:
  assumes "chain_inv D h L (ps @ qs)" "chain_inv D h M ds" "set ds \<inter> set (ps @ qs) = {}"
    "map (value_at h) ds = map Some xs" "map (value_at h) qs = map Some ys" "int (length ds + length qs) \<le> Integer_Last"
  shows "\<exists>h' M' es. Duplicate_loop D h M (hd_or qs None) = Some (Inr (h', M')) \<and> chain_inv D h' L (ps @ qs) \<and>
    chain_inv D h' M' (ds @ es) \<and> map (value_at h') (ds @ es) = map Some (xs @ ys) \<and> set (ds @ es) \<inter> set (ps @ qs) = {} \<and>
    map (value_at h') (ps @ qs) = map (value_at h) (ps @ qs)"
  using assms
proof (induction qs arbitrary: h M ps ds xs ys)
  case Nil
  then show ?case by (subst Duplicate_loop.simps) (auto simp: Last_def intro!: exI [of _ "[]"])
next
  case (Cons q qs)
  then obtain y zs where ys: "ys = y # zs" "value_at h q = Some y" "map (value_at h) qs = map Some zs"
    by (cases ys) auto
  obtain h1 M1 where r: "Append D h M y = Inr (h1, M1)" "chain_inv D h1 M1 (ds @ [length h])"
    "value_at h1 = (value_at h)(length h \<mapsto> y)" "\<And>q. q \<notin> set ds \<Longrightarrow> q < length h \<Longrightarrow> node_at h1 q = node_at h q"
    by (rule Append_chain [OF Cons.prems(2), of y]) (use Cons.prems(6) in auto)
  have new: "length h \<notin> set ds" "length h \<notin> set (ps @ q # qs)"
    using chain_inv_new(2) Cons.prems(1,2) by blast+
  have old: "chain_inv D h1 L (ps @ q # qs)"
    using Cons.prems(1)
  proof (rule chain_inv_cong)
    fix p assume "p \<in> set (ps @ q # qs)"
    then show "node_at h1 p = node_at h p"
      using r(4) Cons.prems(3) chain_inv_live [OF Cons.prems(1)] by (blast dest: node_at_length)
  qed
  have vals: "map (value_at h1) (ds @ [length h]) = map Some (xs @ [y])" "map (value_at h1) qs = map Some zs"
    "map (value_at h1) (ps @ q # qs) = map (value_at h) (ps @ q # qs)"
    using new Cons.prems(4) ys(3) r(3) by (auto simp: values_kept)
  have "Next_Iterator D h1 (Some q) = Inr (hd_or qs None)" by (rule Next_Iterator_chain [OF old])
  then have "Duplicate_loop D h M (Some q) = Duplicate_loop D h1 M1 (hd_or qs None)"
    using r(1) value_at_Value [OF ys(2)] by (subst Duplicate_loop.simps) (simp add: Last_def)
  moreover have "\<exists>h' M' es. Duplicate_loop D h1 M1 (hd_or qs None) = Some (Inr (h', M')) \<and> chain_inv D h' L ((ps @ [q]) @ qs) \<and>
      chain_inv D h' M' ((ds @ [length h]) @ es) \<and> map (value_at h') ((ds @ [length h]) @ es) = map Some ((xs @ [y]) @ zs) \<and>
      set ((ds @ [length h]) @ es) \<inter> set ((ps @ [q]) @ qs) = {} \<and>
      map (value_at h') ((ps @ [q]) @ qs) = map (value_at h1) ((ps @ [q]) @ qs)"
    using old r(2) new Cons.prems(3,6) vals by (intro Cons.IH) auto
  ultimately show ?case
    unfolding ys(1) append_assoc append_Cons append_Nil hd_or.simps vals(3) by metis
qed

text \<open>A duplicate holds the same values in nodes of its own.\<close>

lemma Duplicate_holds:
  assumes "holds D h L xs"
  shows "\<exists>h' M ps es. Duplicate D h L = Some (Inr (h', M)) \<and> holds D h' L xs \<and> holds D h' M xs \<and>
    chain_inv D h' L ps \<and> chain_inv D h' M es \<and> set es \<inter> set ps = {}"
proof -
  obtain ps where ps: "chain_inv D h L ps" "map (value_at h) ps = map Some xs" "int (length ps) \<le> Integer_Last"
    using assms values_length by (fastforce simp: holds_def)
  have "First L = hd_or ps None" using ps(1) by (simp add: First_def chain_inv_def)
  with Duplicate_loop_chain [of D h L "[]" ps Empty_List "[]" "[]" xs] ps assms show ?thesis
    by (fastforce simp: Duplicate_def holds_def)
qed

lemma Deallocate_holds:
  assumes "chain_inv D h L ps" "int (length ps) \<le> Integer_Last"
  shows "\<exists>h' L'. Deallocate D h L = Some (Inr (h', L')) \<and> holds D h' L' [] \<and> (\<forall>p\<in>set ps. value_at h' p = None)"
proof -
  have "First L = hd_or ps None" using assms(1) by (simp add: First_def chain_inv_def)
  with Deallocate_loop_chain [OF assms] show ?thesis
    by (auto simp: Deallocate_def Integer_Last_def intro!: holdsI [of _ _ _ "[]"])
qed

lemma Element_holds:
  assumes "holds D h L xs" "0 \<le> k"
  shows "if k < int (length xs) then \<exists>p. Element D h L k = Some (Inr (Some p)) \<and> value_at h p = Some (xs ! nat k)
    else Element D h L k = Some (Inl Constraint_Error)"
proof -
  obtain ps where ps: "chain_inv D h L ps" "map (value_at h) ps = map Some xs" "int (length ps) \<le> Integer_Last"
    "length ps = length xs"
    using assms(1) values_length by (fastforce simp: holds_def)
  have "First L = hd_or ps None" using ps(1) by (simp add: First_def chain_inv_def)
  with Element_loop_chain [of D h L "[]" ps xs k] ps assms(2) show ?thesis by (auto simp: Element_def split: if_splits)
qed

lemma keep_remove: "keep (\<lambda>x. x = y) A xs = (if A then removeAll y xs else remove1 y xs)"
  by (induction xs) (auto simp: keep_def removeAll_filter_not_eq)

text \<open>
  Property C38. Removing the occurrences of a value from a chained list, singly or doubly linked, ends and
  leaves a well-formed chain that holds the other values in their order: all occurrences are gone,
  or only the first one if that is what is asked.
\<close>

theorem Remove_Occurrences_correct:
  assumes "holds D h L xs"
  shows "\<exists>h' L'. Remove_Occurrences D h L I A = Some (Inr (h', L')) \<and>
    holds D h' L' (if A then removeAll I xs else remove1 I xs) \<and>
    Length L' = int (length (if A then removeAll I xs else remove1 I xs))"
proof -
  obtain h' L' where "Remove_G D (\<lambda>X. X = I) A h L = Some (Inr (h', L'))" "holds D h' L' (keep (\<lambda>X. X = I) A xs)"
    by (rule Remove_G_holds [OF assms])
  then show ?thesis using holds_length by (fastforce simp: Remove_Occurrences_def keep_remove)
qed

definition sample_nodes :: "nat nodes" where
  "sample_nodes = [Some \<lparr>Node_Value = 7, Prev_Link = None, Next_Link = Some 2\<rparr>, None,
     Some \<lparr>Node_Value = 5, Prev_Link = None, Next_Link = Some 3\<rparr>, Some \<lparr>Node_Value = 7, Prev_Link = None, Next_Link = None\<rparr>]"

definition sample_list :: List where
  "sample_list = \<lparr>First_Item = Some 0, Last_Item = Some 3, Item_Count = 3\<rparr>"

lemma sample_holds: "holds False sample_nodes sample_list [7, 5, 7]"
  by (rule holdsI [of _ _ _ "[0, 2, 3]"])
    (simp_all add: chain_inv_def sample_nodes_def sample_list_def node_at.simps value_at_def Integer_Last_def)

theorem Remove_Occurrences_correct_witness:
  "\<exists>h' L'. Remove_Occurrences False sample_nodes sample_list 7 False = Some (Inr (h', L')) \<and>
    holds False h' L' [5, 7] \<and> Length L' = 2"
  using Remove_Occurrences_correct [OF sample_holds, of 7 False] by simp

end
