(* ===== verification/Poa_Manager.thy ===== *)
theory Poa_Manager
  imports Chained_Lists Errors
begin

text \<open>
  PolyORB.POA_Manager.Basic_Manager (\<open>src/src/polyorb-poa_manager-basic_manager.adb\<close>): the state of a
  group of object adapters and the queue of the requests that are held back. The queue and the list
  of adapters are chained lists with their nodes in two stores. An operation of the manager runs
  between \<open>Enter (Lock)\<close> and \<open>Leave (Lock)\<close> and is one step of the transition system; a request that
  is being dispatched takes several steps, as \<open>Find_Servant\<close> of \<open>src/src/polyorb-poa.adb\<close> reads the
  state and asks for the hold servant in two critical sections, and the servant queues the request
  in a third.
\<close>

section \<open>The manager\<close>

datatype State = HOLDING | ACTIVE | DISCARDING | INACTIVE

record Basic_POA_Manager =
  Current_State :: State
  Managed_POAs :: List
  Lock :: bool
  PM_Hold_Servant :: bool
  Held_Requests :: List
  poa_nodes :: "nat nodes"
  request_nodes :: "nat nodes"

text \<open>\<open>Managed_POAs\<close> is doubly chained, \<open>Held_Requests\<close> is singly chained.\<close>

abbreviation (input) POA_Lists :: bool where "POA_Lists \<equiv> True"
abbreviation (input) Requests_Queues :: bool where "Requests_Queues \<equiv> False"

definition Enter :: "Basic_POA_Manager \<Rightarrow> Basic_POA_Manager" where
  "Enter S = S\<lparr>Lock := True\<rparr>"

definition Leave :: "Basic_POA_Manager \<Rightarrow> Basic_POA_Manager" where
  "Leave S = S\<lparr>Lock := False\<rparr>"

text \<open>
  \<open>while not Is_Empty (Self.Held_Requests) loop Extract_First (Self.Held_Requests, R); ...\<close>, with the
  requests in the order in which the loop handles them: \<open>Reemit_Requests\<close> hands each one to the ORB,
  \<open>Finalize\<close> destroys it.
\<close>

partial_function (option) Extract_all :: "nat nodes \<Rightarrow> List \<Rightarrow> nat list \<Rightarrow> (nat list \<times> nat nodes \<times> List) result option" where
  "Extract_all h L emitted =
     (if Is_Empty L then Some (Inr (emitted, h, L))
      else case Extract_First Requests_Queues h L of Inl e \<Rightarrow> Some (Inl e)
      | Inr r \<Rightarrow> Extract_all (fst (snd r)) (snd (snd r)) (emitted @ [fst r]))"

definition Reemit_Requests :: "Basic_POA_Manager \<Rightarrow> (nat list \<times> Basic_POA_Manager) result option" where
  "Reemit_Requests S = (case Extract_all (request_nodes S) (Held_Requests S) [] of
       None \<Rightarrow> None
     | Some (Inl e) \<Rightarrow> Some (Inl e)
     | Some (Inr (emitted, h, L)) \<Rightarrow> Some (Inr (emitted, S\<lparr>request_nodes := h, Held_Requests := L\<rparr>)))"

definition Activate :: "Basic_POA_Manager \<Rightarrow> Error_Container \<Rightarrow> (Error_Container \<times> nat list \<times> Basic_POA_Manager) result option" where
  "Activate S Error = (let S = Enter S in
     if Current_State S = INACTIVE then Some (Inr (Throw Error AdapterInactive_E, [], Leave S))
     else let S = S\<lparr>Current_State := ACTIVE\<rparr> in
       if PM_Hold_Servant S \<and> \<not> Is_Empty (Held_Requests S)
       then (case Reemit_Requests S of
           None \<Rightarrow> None
         | Some (Inl e) \<Rightarrow> Some (Inl e)
         | Some (Inr (emitted, S)) \<Rightarrow> Some (Inr (Error, emitted, Leave S)))
       else Some (Inr (Error, [], Leave S)))"

text \<open>\<open>Do_Wait_For_Completion\<close> and \<open>Do_Etherealize_Objects\<close> have null bodies.\<close>

definition Do_Wait_For_Completion :: "Basic_POA_Manager \<Rightarrow> Basic_POA_Manager" where
  "Do_Wait_For_Completion S = S"

definition Do_Etherealize_Objects :: "Basic_POA_Manager \<Rightarrow> Basic_POA_Manager" where
  "Do_Etherealize_Objects S = S"

definition Hold_Requests :: "Basic_POA_Manager \<Rightarrow> bool \<Rightarrow> Error_Container \<Rightarrow> Error_Container \<times> Basic_POA_Manager" where
  "Hold_Requests S Wait_For_Completion Error =
     (let S = (if Wait_For_Completion then Do_Wait_For_Completion S else S); S = Enter S in
      if Current_State S = INACTIVE then (Throw Error AdapterInactive_E, Leave S)
      else (Error, Leave (S\<lparr>Current_State := HOLDING\<rparr>)))"

definition Discard_Requests :: "Basic_POA_Manager \<Rightarrow> bool \<Rightarrow> Error_Container \<Rightarrow> Error_Container \<times> Basic_POA_Manager" where
  "Discard_Requests S Wait_For_Completion Error =
     (let S = (if Wait_For_Completion then Do_Wait_For_Completion S else S); S = Enter S in
      if Current_State S = INACTIVE then (Throw Error AdapterInactive_E, Leave S)
      else (Error, Leave (S\<lparr>Current_State := DISCARDING\<rparr>)))"

definition Deactivate :: "Basic_POA_Manager \<Rightarrow> bool \<Rightarrow> bool \<Rightarrow> Basic_POA_Manager" where
  "Deactivate S Etherealize_Objects Wait_For_Completion =
     (let S = Enter S;
          S = (if Current_State S \<noteq> INACTIVE then S\<lparr>Current_State := INACTIVE\<rparr> else S);
          S = Leave S;
          S = (if Etherealize_Objects then Do_Etherealize_Objects S else S)
      in if Wait_For_Completion then Do_Wait_For_Completion S else S)"

definition Get_State :: "Basic_POA_Manager \<Rightarrow> State" where
  "Get_State S = Current_State (Enter S)"

text \<open>\<open>Create\<close> on a manager whose components have their default values.\<close>

definition Create :: "Basic_POA_Manager \<Rightarrow> Basic_POA_Manager result" where
  "Create M = on_ok (check Assert_Failure (Is_Empty (Held_Requests M))) (\<lambda>_.
     Inr (M\<lparr>Lock := False, Current_State := HOLDING\<rparr>))"

definition Register_POA :: "Basic_POA_Manager \<Rightarrow> nat \<Rightarrow> Basic_POA_Manager result" where
  "Register_POA S OA = (let S = Enter S in
     on_ok (Append POA_Lists (poa_nodes S) (Managed_POAs S) OA) (\<lambda>(h, L).
     Inr (Leave (S\<lparr>poa_nodes := h, Managed_POAs := L\<rparr>))))"

text \<open>
  The iterator of \<open>Remove_POA\<close> is initialised in the declarative part, before the lock is taken.
\<close>

partial_function (option) Remove_POA_loop :: "Basic_POA_Manager \<Rightarrow> nat \<Rightarrow> T_Acc \<Rightarrow> Basic_POA_Manager result option" where
  "Remove_POA_loop S OA It =
     (if Last It then Some (Inl Program_Error)
      else case Value (poa_nodes S) It of Inl e \<Rightarrow> Some (Inl e)
      | Inr A_Child \<Rightarrow>
        if A_Child = OA
        then Some (on_ok (Remove POA_Lists (poa_nodes S) (Managed_POAs S) It) (\<lambda>(h, L, _).
               Inr (Leave (S\<lparr>poa_nodes := h, Managed_POAs := L\<rparr>))))
        else (case Next_Iterator POA_Lists (poa_nodes S) It of Inl e \<Rightarrow> Some (Inl e)
          | Inr It' \<Rightarrow> Remove_POA_loop S OA It'))"

definition Remove_POA :: "Basic_POA_Manager \<Rightarrow> T_Acc \<Rightarrow> nat \<Rightarrow> Basic_POA_Manager result option" where
  "Remove_POA S It OA = Remove_POA_loop (Enter S) OA It"

definition Get_Hold_Servant :: "Basic_POA_Manager \<Rightarrow> Basic_POA_Manager" where
  "Get_Hold_Servant S = (let S = Enter S in
     Leave (if \<not> PM_Hold_Servant S then S\<lparr>PM_Hold_Servant := True\<rparr> else S))"

definition Finalize :: "Basic_POA_Manager \<Rightarrow> (nat list \<times> Basic_POA_Manager) result option" where
  "Finalize S = (let S = S\<lparr>PM_Hold_Servant := False\<rparr> in
     case Deallocate POA_Lists (poa_nodes S) (Managed_POAs S) of
       None \<Rightarrow> None
     | Some (Inl e) \<Rightarrow> Some (Inl e)
     | Some (Inr (h, L)) \<Rightarrow> (let S = S\<lparr>poa_nodes := h, Managed_POAs := L\<rparr> in
       case Extract_all (request_nodes S) (Held_Requests S) [] of
         None \<Rightarrow> None
       | Some (Inl e) \<Rightarrow> Some (Inl e)
       | Some (Inr (destroyed, h, L)) \<Rightarrow>
         (case Deallocate Requests_Queues h L of
           None \<Rightarrow> None
         | Some (Inl e) \<Rightarrow> Some (Inl e)
         | Some (Inr (h, L)) \<Rightarrow> Some (Inr (destroyed, S\<lparr>request_nodes := h, Held_Requests := L\<rparr>)))))"

definition Execute_Servant :: "Basic_POA_Manager \<Rightarrow> nat \<Rightarrow> (bool \<times> Basic_POA_Manager) result" where
  "Execute_Servant S Req = (let S = Enter S in
     on_ok (Append Requests_Queues (request_nodes S) (Held_Requests S) Req) (\<lambda>(h, L).
     Inr (False, Leave (S\<lparr>request_nodes := h, Held_Requests := L\<rparr>))))"

section \<open>Dispatching a request\<close>

text \<open>
  The check of the manager's state at the start of \<open>Find_Servant\<close>: a request is refused with
  \<open>Transient_E\<close>, goes to the hold servant, or goes on to its own servant.
\<close>

datatype check_outcome = Refuse Error_Container | Hold | Proceed

definition Check_POA_Manager :: "Basic_POA_Manager \<Rightarrow> Error_Container \<Rightarrow> check_outcome" where
  "Check_POA_Manager S Error = (case Get_State S of
       DISCARDING \<Rightarrow> Refuse (Throw Error Transient_E)
     | INACTIVE \<Rightarrow> Refuse (Throw Error Transient_E)
     | HOLDING \<Rightarrow> Hold
     | ACTIVE \<Rightarrow> Proceed)"

text \<open>
  Where a request is: in the queue of the ORB, between the check and the call of
  \<open>Get_Hold_Servant\<close>, about to be executed by the hold servant, in the queue of the manager,
  refused, or executed by its own servant.
\<close>

datatype phase = Queued | To_Be_Held | At_Hold_Servant | Held | Refused | Executing

fun next_phase :: "check_outcome \<Rightarrow> phase" where
  "next_phase (Refuse Error) = Refused"
| "next_phase Hold = To_Be_Held"
| "next_phase Proceed = Executing"

type_synonym pm_system = "Basic_POA_Manager \<times> (nat \<Rightarrow> phase)"

inductive pm_step :: "pm_system \<Rightarrow> pm_system \<Rightarrow> bool" where
  activate: "Activate S No_Error = Some (Inr (Error, emitted, S')) \<Longrightarrow>
    pm_step (S, ph) (S', \<lambda>r. if r \<in> set emitted then Queued else ph r)"
| hold_requests: "Hold_Requests S Wait No_Error = (Error, S') \<Longrightarrow> pm_step (S, ph) (S', ph)"
| discard_requests: "Discard_Requests S Wait No_Error = (Error, S') \<Longrightarrow> pm_step (S, ph) (S', ph)"
| deactivate: "pm_step (S, ph) (Deactivate S Etherealize Wait, ph)"
| check_state: "ph r = Queued \<Longrightarrow> pm_step (S, ph) (S, ph(r := next_phase (Check_POA_Manager S No_Error)))"
| get_hold_servant: "ph r = To_Be_Held \<Longrightarrow> pm_step (S, ph) (Get_Hold_Servant S, ph(r := At_Hold_Servant))"
| execute_hold_servant: "ph r = At_Hold_Servant \<Longrightarrow> Execute_Servant S r = Inr (answered, S') \<Longrightarrow>
    pm_step (S, ph) (S', ph(r := Held))"

inductive pm_reach :: "pm_system \<Rightarrow> pm_system \<Rightarrow> bool" where
  pm_refl: "pm_reach s s"
| pm_step: "pm_reach s t \<Longrightarrow> pm_step t u \<Longrightarrow> pm_reach s u"

inductive_cases pm_stepE: "pm_step (S, ph) t"

section \<open>The queue of held requests\<close>

abbreviation held :: "Basic_POA_Manager \<Rightarrow> nat list \<Rightarrow> bool" where
  "held S xs \<equiv> holds Requests_Queues (request_nodes S) (Held_Requests S) xs"

lemmas pm_defs = Enter_def Leave_def Let_def

lemma Extract_all_holds:
  assumes "holds Requests_Queues h L xs"
  obtains h' L' where "Extract_all h L acc = Some (Inr (acc @ xs, h', L'))" "holds Requests_Queues h' L' []"
  using chained.drain [OF Extract_all.simps assms, where acc = acc] by blast

lemma Reemit_Requests_held:
  assumes "held S xs"
  obtains S' where "Reemit_Requests S = Some (Inr (xs, S'))" "held S' []"
    "Current_State S' = Current_State S" "PM_Hold_Servant S' = PM_Hold_Servant S"
    "Managed_POAs S' = Managed_POAs S" "poa_nodes S' = poa_nodes S"
  by (rule Extract_all_holds [OF assms, of "[]"])
    (use that in \<open>auto simp: Reemit_Requests_def intro!: that\<close>)

lemma Activate_held:
  assumes "held S xs" "Current_State S \<noteq> INACTIVE" "xs \<noteq> [] \<Longrightarrow> PM_Hold_Servant S"
  obtains S' where "Activate S Error = Some (Inr (Error, xs, S'))" "held S' []" "Current_State S' = ACTIVE"
    "PM_Hold_Servant S' = PM_Hold_Servant S" "\<not> Lock S'" "Managed_POAs S' = Managed_POAs S" "poa_nodes S' = poa_nodes S"
proof (cases "xs = []")
  case True
  with assms that [of "S\<lparr>Lock := False, Current_State := ACTIVE\<rparr>"] show ?thesis
    by (simp add: Activate_def pm_defs holds_Is_Empty)
next
  case False
  let ?S = "(Enter S)\<lparr>Current_State := ACTIVE\<rparr>"
  have "held ?S xs" using assms(1) by (simp add: Enter_def)
  then obtain S' where r: "Reemit_Requests ?S = Some (Inr (xs, S'))" "held S' []" "Current_State S' = ACTIVE"
    "PM_Hold_Servant S' = PM_Hold_Servant S" "Managed_POAs S' = Managed_POAs S" "poa_nodes S' = poa_nodes S"
    by (rule Reemit_Requests_held) (simp add: Enter_def)
  with False assms that [of "Leave S'"] show ?thesis
    by (auto simp: Activate_def Let_def holds_Is_Empty Enter_def Leave_def)
qed

lemma Execute_Servant_held:
  assumes "held S xs" "Execute_Servant S r = Inr (b, S')"
  shows "held S' (xs @ [r]) \<and> \<not> b \<and> Current_State S' = Current_State S \<and> PM_Hold_Servant S' = PM_Hold_Servant S"
proof -
  obtain h L where r: "Append Requests_Queues (request_nodes S) (Held_Requests S) r = Inr (h, L)"
    "S' = S\<lparr>Lock := False, request_nodes := h, Held_Requests := L\<rparr>" "\<not> b"
    using assms(2) by (auto simp: Execute_Servant_def pm_defs result_simps)
  then have "int (length xs) < Integer_Last"
    using holds_length [OF assms(1)]
    by (auto simp: Append_def new_node_def Append_Item_def Length_def result_simps)
  from holds_Append [OF assms(1) this, of r] obtain h' L' where
    "Append Requests_Queues (request_nodes S) (Held_Requests S) r = Inr (h', L')" "holds Requests_Queues h' L' (xs @ [r])" .
  with r show ?thesis by simp
qed

section \<open>Invariant of the transition system\<close>

text \<open>A manager with the default values of its components, as it is allocated.\<close>

definition New_Manager :: Basic_POA_Manager where
  "New_Manager = \<lparr>Current_State = HOLDING, Managed_POAs = Empty_List, Lock = False, PM_Hold_Servant = False,
     Held_Requests = Empty_List, poa_nodes = [], request_nodes = []\<rparr>"

definition pm_inv :: "pm_system \<Rightarrow> bool" where
  "pm_inv s \<longleftrightarrow> (\<exists>xs. held (fst s) xs \<and> distinct xs \<and> set xs = {r. snd s r = Held}) \<and>
     (\<forall>r. snd s r = Held \<or> snd s r = At_Hold_Servant \<longrightarrow> PM_Hold_Servant (fst s)) \<and> \<not> Lock (fst s)"

lemma pm_invE:
  assumes "pm_inv (S, ph)"
  obtains xs where "held S xs" "distinct xs" "set xs = {r. ph r = Held}" "xs \<noteq> [] \<Longrightarrow> PM_Hold_Servant S" "\<not> Lock S"
proof -
  from assms obtain xs where xs: "held S xs" "distinct xs" "set xs = {r. ph r = Held}" by (auto simp: pm_inv_def)
  have "PM_Hold_Servant S" if "xs \<noteq> []"
  proof -
    from that have "hd xs \<in> {r. ph r = Held}" using xs(3) hd_in_set by blast
    then show ?thesis using assms by (auto simp: pm_inv_def)
  qed
  with xs assms that show ?thesis by (simp add: pm_inv_def)
qed

lemma Activate_inactive:
  "Current_State S = INACTIVE \<Longrightarrow> Activate S Error = Some (Inr (AdapterInactive_E, [], S\<lparr>Lock := False\<rparr>))"
  by (simp add: Activate_def pm_defs Throw_def)

lemma state_changes:
  "Hold_Requests S w Error = (if Current_State S = INACTIVE then (AdapterInactive_E, S\<lparr>Lock := False\<rparr>)
     else (Error, S\<lparr>Lock := False, Current_State := HOLDING\<rparr>))"
  "Discard_Requests S w Error = (if Current_State S = INACTIVE then (AdapterInactive_E, S\<lparr>Lock := False\<rparr>)
     else (Error, S\<lparr>Lock := False, Current_State := DISCARDING\<rparr>))"
  "Deactivate S et w = S\<lparr>Lock := False, Current_State := INACTIVE\<rparr>"
  "Get_Hold_Servant S = S\<lparr>Lock := False, PM_Hold_Servant := True\<rparr>"
  "Get_State S = Current_State S"
  by (auto simp: Hold_Requests_def Discard_Requests_def Deactivate_def Get_Hold_Servant_def Get_State_def
      Do_Wait_For_Completion_def Do_Etherealize_Objects_def pm_defs Throw_def)

lemma Execute_Servant_lock: "Execute_Servant S r = Inr (b, S') \<Longrightarrow> \<not> Lock S'"
  by (auto simp: Execute_Servant_def pm_defs result_simps)

lemma pm_inv_Activate:
  assumes "pm_inv (S, ph)" "Activate S No_Error = Some (Inr (Error, emitted, S'))"
  shows "pm_inv (S', \<lambda>r. if r \<in> set emitted then Queued else ph r)"
proof (cases "Current_State S = INACTIVE")
  case True
  with assms show ?thesis by (auto simp: pm_inv_def Activate_inactive)
next
  case False
  obtain xs where xs: "held S xs" "distinct xs" "set xs = {r. ph r = Held}" "xs \<noteq> [] \<Longrightarrow> PM_Hold_Servant S"
    using assms(1) by (rule pm_invE) blast
  from Activate_held [OF xs(1) False xs(4), of No_Error] obtain S1 where
    "Activate S No_Error = Some (Inr (No_Error, xs, S1))" "held S1 []" "PM_Hold_Servant S1 = PM_Hold_Servant S" "\<not> Lock S1" .
  with assms xs show ?thesis by (auto simp: pm_inv_def)
qed

lemma pm_inv_Execute:
  assumes "pm_inv (S, ph)" "ph r = At_Hold_Servant" "Execute_Servant S r = Inr (b, S')"
  shows "pm_inv (S', ph(r := Held))"
proof -
  obtain xs where xs: "held S xs" "distinct xs" "set xs = {r. ph r = Held}"
    using assms(1) by (auto simp: pm_inv_def)
  have "held S' (xs @ [r])" "PM_Hold_Servant S' = PM_Hold_Servant S"
    using Execute_Servant_held [OF xs(1) assms(3)] by simp_all
  moreover have "distinct (xs @ [r])" "set (xs @ [r]) = {q. (ph(r := Held)) q = Held}" using xs assms(2) by auto
  ultimately show ?thesis
    using assms Execute_Servant_lock [OF assms(3)] by (auto simp: pm_inv_def intro!: exI [of _ "xs @ [r]"])
qed

lemma next_phase_cases: "next_phase (Check_POA_Manager S E) \<in> {Refused, To_Be_Held, Executing}"
  by (auto simp: Check_POA_Manager_def split: State.splits)

lemma pm_step_inv: "pm_step s t \<Longrightarrow> pm_inv s \<Longrightarrow> pm_inv t"
proof (induction rule: pm_step.induct)
  case (check_state ph r S)
  then show ?case
    using next_phase_cases [of S No_Error] by (auto simp: pm_inv_def Collect_conv_if split: if_splits)
qed (auto simp: pm_inv_Activate pm_inv_Execute, auto simp: pm_inv_def state_changes split: if_splits)

lemma pm_reach_inv: "pm_reach s t \<Longrightarrow> pm_inv s \<Longrightarrow> pm_inv t"
  by (induction rule: pm_reach.induct) (auto intro: pm_step_inv)

lemma pm_inv_New: "pm_inv (New_Manager, \<lambda>_. Queued)"
  by (simp add: pm_inv_def New_Manager_def)

lemma Create_New: "Create New_Manager = Inr New_Manager"
  by (simp add: Create_def New_Manager_def Is_Empty_def Empty_List_def)

lemma Execute_Servant_runs:
  assumes "held S xs" "int (length xs) < Integer_Last"
  shows "\<exists>S'. Execute_Servant S r = Inr (False, S')"
  by (rule holds_Append [OF assms, of r]) (simp add: Execute_Servant_def pm_defs)

text \<open>The way of a request into the queue of the manager.\<close>

lemma hold_request:
  assumes "Current_State S = HOLDING" "held S xs" "int (length xs) < Integer_Last" "ph r = Queued"
  obtains S' ph' where "pm_reach (S, ph) (S', ph')" "Current_State S' = HOLDING" "ph' r = Held" "held S' (xs @ [r])"
proof -
  let ?ph1 = "ph(r := To_Be_Held)" and ?S2 = "Get_Hold_Servant S"
  have 1: "pm_step (S, ph) (S, ?ph1)"
    using pm_step.check_state [of ph r S] assms(1,4) by (simp add: Check_POA_Manager_def state_changes)
  have 2: "pm_step (S, ?ph1) (?S2, ?ph1(r := At_Hold_Servant))"
    by (rule pm_step.get_hold_servant) simp
  have "held ?S2 xs" using assms(2) by (simp add: state_changes)
  from Execute_Servant_runs [OF this assms(3), of r] obtain S' where S': "Execute_Servant ?S2 r = Inr (False, S')" ..
  have 3: "pm_step (?S2, ?ph1(r := At_Hold_Servant)) (S', ?ph1(r := At_Hold_Servant, r := Held))"
    by (rule pm_step.execute_hold_servant [OF _ S']) simp
  have "held S' (xs @ [r])" "Current_State S' = HOLDING"
    using Execute_Servant_held [OF \<open>held ?S2 xs\<close> S'] assms(1) by (simp_all add: state_changes)
  moreover have "pm_reach (S, ph) (S', ?ph1(r := At_Hold_Servant, r := Held))"
    using 1 2 3 by (blast intro: pm_reach.intros)
  ultimately show ?thesis using that [of S' "?ph1(r := At_Hold_Servant, r := Held)"] by simp
qed

text \<open>
  Property C20. However the operations of the manager and the dispatching of requests are interleaved, the
  queue of the manager holds exactly the requests that the hold servant has taken and that have not
  been emitted again, each of them once; the hold servant exists as long as there are any, and no
  operation leaves the lock held.
\<close>

theorem held_requests_invariant:
  assumes "Create New_Manager = Inr S0" "pm_reach (S0, \<lambda>_. Queued) (S, ph)"
  shows "\<exists>xs. held S xs \<and> distinct xs \<and> set xs = {r. ph r = Held} \<and> (xs = [] \<or> PM_Hold_Servant S) \<and> \<not> Lock S"
proof -
  have "pm_inv (S, ph)" using pm_reach_inv [OF assms(2)] assms(1) pm_inv_New by (simp add: Create_New)
  then show ?thesis by (rule pm_invE) blast
qed

theorem held_requests_invariant_witness:
  "\<exists>S ph xs. pm_reach (New_Manager, \<lambda>_. Queued) (S, ph) \<and> ph 7 = Held \<and> held S xs \<and> distinct xs \<and> set xs = {r. ph r = Held} \<and> \<not> Lock S"
proof -
  obtain S ph where r: "pm_reach (New_Manager, \<lambda>_. Queued) (S, ph)" "ph 7 = Held"
    by (rule hold_request [of New_Manager "[]" "\<lambda>_. Queued" 7]) (auto simp: New_Manager_def Integer_Last_def)
  from held_requests_invariant [OF Create_New r(1)] r show ?thesis by blast
qed



lemma Execute_Servant_state: "Execute_Servant S r = Inr (b, S') \<Longrightarrow> Current_State S' = Current_State S"
  by (auto simp: Execute_Servant_def pm_defs result_simps)

lemma inactive_step:
  assumes "pm_step s t" "Current_State (fst s) = INACTIVE"
  shows "Current_State (fst t) = INACTIVE \<and> (snd s r = Held \<longrightarrow> snd t r = Held) \<and> (snd t r = Executing \<longrightarrow> snd s r = Executing)"
  using assms
  by (induction rule: pm_step.induct)
    (auto simp: Activate_inactive state_changes Execute_Servant_state Check_POA_Manager_def split: if_splits)

text \<open>
  An inactive manager stays inactive, whatever is called: no request of its adapters is executed
  from then on, and a request that it holds stays held: nothing but the finalization of the manager
  takes it out of the queue.
\<close>

theorem inactive_is_final:
  assumes "pm_reach (S, ph) (S', ph')" "Current_State S = INACTIVE"
  shows "Current_State S' = INACTIVE \<and> {r. ph r = Held} \<subseteq> {r. ph' r = Held} \<and> {r. ph' r = Executing} \<subseteq> {r. ph r = Executing}"
proof -
  have "Current_State (fst t) = INACTIVE \<and> (snd s r = Held \<longrightarrow> snd t r = Held) \<and> (snd t r = Executing \<longrightarrow> snd s r = Executing)"
    if "pm_reach s t" "Current_State (fst s) = INACTIVE" for s t r
    using that by (induction rule: pm_reach.induct) (use inactive_step in blast)+
  from this [OF assms(1)] assms(2) show ?thesis by auto
qed

theorem inactive_is_final_witness:
  "Current_State (Deactivate New_Manager True True) = INACTIVE \<and>
   {r. (\<lambda>r. if r = 3 then Held else Queued) (r :: nat) = Held} \<subseteq> {r. ((\<lambda>r. if r = 3 then Held else Queued)(4 := Refused)) r = Held}"
proof -
  let ?S = "Deactivate New_Manager True True" and ?ph = "\<lambda>r :: nat. if r = 3 then Held else Queued"
  have S: "Current_State ?S = INACTIVE" by (simp add: state_changes)
  have "pm_step (?S, ?ph) (?S, ?ph(4 := next_phase (Check_POA_Manager ?S No_Error)))"
    by (rule pm_step.check_state) simp
  then have "pm_reach (?S, ?ph) (?S, ?ph(4 := Refused))"
    using S by (auto intro!: pm_reach.pm_step [OF pm_reach.pm_refl] simp: Check_POA_Manager_def state_changes)
  from inactive_is_final [OF this S] show ?thesis by simp
qed

text \<open>
  A request can miss the activation: it is dispatched while the manager is holding, the manager
  is activated before the hold servant has queued the request, and the request is then held by an
  active manager, which emits it only when it is activated once more.
\<close>

theorem request_held_while_active:
  assumes "Create New_Manager = Inr S0" "pm_reach (S0, \<lambda>_. Queued) (S, ph)" "Current_State S = HOLDING" "ph r = Queued"
  shows "\<exists>S' ph'. pm_reach (S, ph) (S', ph') \<and> Current_State S' = ACTIVE \<and> ph' r = Held \<and> held S' [r]"
proof -
  have "pm_inv (S, ph)" using pm_reach_inv [OF assms(2)] assms(1) pm_inv_New by (simp add: Create_New)
  then obtain xs where xs: "held S xs" "set xs = {r. ph r = Held}" "xs \<noteq> [] \<Longrightarrow> PM_Hold_Servant S" by (rule pm_invE) blast
  let ?ph1 = "ph(r := To_Be_Held)" and ?S2 = "Get_Hold_Servant S"
  let ?ph2 = "?ph1(r := At_Hold_Servant)"
  have 1: "pm_step (S, ph) (S, ?ph1)"
    using pm_step.check_state [of ph r S] assms(3,4) by (simp add: Check_POA_Manager_def state_changes)
  have 2: "pm_step (S, ?ph1) (?S2, ?ph2)" by (rule pm_step.get_hold_servant) simp
  obtain S3 where S3: "Activate ?S2 No_Error = Some (Inr (No_Error, xs, S3))" "held S3 []" "Current_State S3 = ACTIVE"
    by (rule Activate_held [of ?S2 xs No_Error]) (use xs assms(3) in \<open>auto simp: state_changes\<close>)
  let ?ph3 = "\<lambda>q. if q \<in> set xs then Queued else ?ph2 q"
  have 3: "pm_step (?S2, ?ph2) (S3, ?ph3)" by (rule pm_step.activate [OF S3(1)])
  have r: "?ph3 r = At_Hold_Servant" using xs(2) assms(4) by auto
  obtain S4 where S4: "Execute_Servant S3 r = Inr (False, S4)"
    using Execute_Servant_runs [OF S3(2), of r] by (auto simp: Integer_Last_def)
  have 4: "pm_step (S3, ?ph3) (S4, ?ph3(r := Held))" by (rule pm_step.execute_hold_servant [where ph = ?ph3, OF r S4])
  have "pm_reach (S, ph) (S4, ?ph3(r := Held))"
    by (rule pm_reach.pm_step [OF pm_reach.pm_step [OF pm_reach.pm_step [OF pm_reach.pm_step [OF pm_reach.pm_refl 1] 2] 3] 4])
  moreover have "held S4 [r]" "Current_State S4 = ACTIVE" using Execute_Servant_held [OF S3(2) S4] S3(3) by simp_all
  ultimately show ?thesis by (intro exI [of _ S4] exI [of _ "?ph3(r := Held)"]) simp
qed

theorem request_held_while_active_witness:
  "\<exists>S' ph'. pm_reach (New_Manager, \<lambda>_. Queued) (S', ph') \<and> Current_State S' = ACTIVE \<and> ph' 7 = Held \<and> held S' [7]"
  by (rule request_held_while_active [OF Create_New pm_refl]) (simp_all add: New_Manager_def)

section \<open>The adapters of the manager\<close>

abbreviation manages :: "Basic_POA_Manager \<Rightarrow> nat list \<Rightarrow> bool" where
  "manages S xs \<equiv> holds POA_Lists (poa_nodes S) (Managed_POAs S) xs"

lemma Register_POA_manages:
  assumes "manages S xs" "int (length xs) < Integer_Last"
  shows "\<exists>S'. Register_POA S OA = Inr S' \<and> manages S' (xs @ [OA]) \<and> \<not> Lock S'"
  by (rule holds_Append [OF assms, of OA]) (auto simp: Register_POA_def pm_defs)

lemma Remove_POA_loop_chain:
  assumes "chain_inv POA_Lists (poa_nodes S) (Managed_POAs S) (ps @ qs)" "map (value_at (poa_nodes S)) qs = map Some ys"
    "map (value_at (poa_nodes S)) ps = map Some xs" "int (length (ps @ qs)) \<le> Integer_Last"
  shows "if OA \<in> set ys
    then \<exists>S'. Remove_POA_loop S OA (hd_or qs None) = Some (Inr S') \<and> manages S' (xs @ remove1 OA ys) \<and> \<not> Lock S'
    else Remove_POA_loop S OA (hd_or qs None) = Some (Inl Program_Error)"
  using assms
proof (induction qs arbitrary: ps xs ys)
  case Nil
  then show ?case by (subst (2) Remove_POA_loop.simps) (simp add: Last_def)
next
  case (Cons q qs)
  then obtain y zs where ys: "ys = y # zs" "value_at (poa_nodes S) q = Some y" "map (value_at (poa_nodes S)) qs = map Some zs"
    by (cases ys) auto
  show ?case
  proof (cases "y = OA")
    case True
    obtain h' L' where r: "Remove POA_Lists (poa_nodes S) (Managed_POAs S) (Some q) = Inr (h', L', hd_or qs None)"
      "chain_inv POA_Lists h' L' (ps @ qs)" "value_at h' = (value_at (poa_nodes S))(q := None)"
      by (rule Remove_chain [OF Cons.prems(1,4)]) auto
    have "q \<notin> set (ps @ qs)" using Cons.prems(1) by (auto simp: chain_inv_def)
    then have "holds POA_Lists h' L' (xs @ zs)"
      using r(2,3) Cons.prems(3,4) ys values_length [OF Cons.prems(3)] values_length [OF ys(3)]
      by (intro holdsI) (auto simp: values_kept)
    with True r(1) ys value_at_Value [OF ys(2)] show ?thesis
      by (subst Remove_POA_loop.simps) (simp add: Last_def pm_defs)
  next
    case False
    then have "Remove_POA_loop S OA (Some q) = Remove_POA_loop S OA (hd_or qs None)"
      using value_at_Value [OF ys(2)] Next_Iterator_chain [OF Cons.prems(1)]
      by (subst Remove_POA_loop.simps) (simp add: Last_def)
    with False show ?thesis using Cons.IH [of "ps @ [q]" zs "xs @ [y]"] Cons.prems ys by (auto split: if_splits)
  qed
qed

text \<open>
  Removing an adapter takes its first registration out of the manager's list and keeps the
  others in order; an adapter that is not registered raises Program_Error. The lock is released.
\<close>

theorem Remove_POA_correct:
  assumes "manages S xs"
  shows "if OA \<in> set xs
    then \<exists>S'. Remove_POA S (First (Managed_POAs S)) OA = Some (Inr S') \<and> manages S' (remove1 OA xs) \<and> \<not> Lock S'
    else Remove_POA S (First (Managed_POAs S)) OA = Some (Inl Program_Error)"
proof -
  obtain ps where ps: "chain_inv POA_Lists (poa_nodes S) (Managed_POAs S) ps" "map (value_at (poa_nodes S)) ps = map Some xs"
    "int (length ps) \<le> Integer_Last"
    using assms values_length by (fastforce simp: holds_def)
  have "First (Managed_POAs S) = hd_or ps None" using ps(1) by (simp add: First_def chain_inv_def)
  with Remove_POA_loop_chain [of "Enter S" "[]" ps xs "[]" OA] ps show ?thesis
    by (auto simp: Remove_POA_def Enter_def split: if_splits)
qed

definition sample_manager :: Basic_POA_Manager where
  "sample_manager = New_Manager\<lparr>
     poa_nodes := [Some \<lparr>Node_Value = 11, Prev_Link = None, Next_Link = Some 1\<rparr>, Some \<lparr>Node_Value = 12, Prev_Link = Some 0, Next_Link = None\<rparr>],
     Managed_POAs := \<lparr>First_Item = Some 0, Last_Item = Some 1, Item_Count = 2\<rparr>\<rparr>"

lemma sample_manages: "manages sample_manager [11, 12]"
  by (rule holdsI [of _ _ _ "[0, 1]"])
    (simp_all add: chain_inv_def sample_manager_def node_at.simps value_at_def Integer_Last_def)

theorem Remove_POA_correct_witness:
  "\<exists>S'. Remove_POA sample_manager (First (Managed_POAs sample_manager)) 12 = Some (Inr S') \<and> manages S' [11] \<and> \<not> Lock S'"
  using Remove_POA_correct [OF sample_manages, of 12] by simp

text \<open>
  \<open>Remove_POA\<close> reads the first element of the list before it takes the lock: when another task
  removes that element in between, the iterator designates a node that has been released.
\<close>

theorem Remove_POA_stale_iterator:
  assumes "manages S (OA # xs)"
  shows "\<exists>S'. Remove_POA S (First (Managed_POAs S)) OA = Some (Inr S') \<and>
    Remove_POA S' (First (Managed_POAs S)) OB = Some (Inl Erroneous_Access)"
proof -
  obtain p ps where ps: "chain_inv POA_Lists (poa_nodes S) (Managed_POAs S) ([] @ p # ps)" "value_at (poa_nodes S) p = Some OA"
    "map (value_at (poa_nodes S)) ps = map Some xs" "First (Managed_POAs S) = Some p"
    using assms by (auto simp: holds_def map_eq_Cons_conv chain_inv_def First_def)
  have len: "int (length ([] @ p # ps)) \<le> Integer_Last" using assms values_length [OF ps(3)] by (simp add: holds_def)
  obtain h' L' where r: "Remove POA_Lists (poa_nodes S) (Managed_POAs S) (Some p) = Inr (h', L', hd_or ps None)"
    "value_at h' = (value_at (poa_nodes S))(p := None)" by (rule Remove_chain [OF ps(1) len]) auto
  let ?S = "S\<lparr>Lock := False, poa_nodes := h', Managed_POAs := L'\<rparr>"
  have "Remove_POA S (Some p) OA = Some (Inr ?S)"
    using r(1) value_at_Value [OF ps(2)] unfolding Remove_POA_def
    by (subst Remove_POA_loop.simps) (simp add: Last_def pm_defs)
  moreover have "value_at h' p = None" using r(2) by simp
  then have "node_at h' p = None" by (simp add: value_at_def)
  then have "Remove_POA ?S (Some p) OB = Some (Inl Erroneous_Access)" unfolding Remove_POA_def
    by (subst Remove_POA_loop.simps) (simp add: Last_def Enter_def Value_def Value_Item_def)
  ultimately show ?thesis using ps(4) by auto
qed

theorem Remove_POA_stale_iterator_witness:
  "\<exists>S'. Remove_POA sample_manager (Some 0) 11 = Some (Inr S') \<and> Remove_POA S' (Some 0) 12 = Some (Inl Erroneous_Access)"
  using Remove_POA_stale_iterator [OF sample_manages, of 12] by (simp add: First_def sample_manager_def)

end
