(* ===== verification/Openssl_Support.thy ===== *)
theory Openssl_Support
  imports Prelude "HOL-Library.Finite_Map"
begin

text \<open>
  The C stubs through which PolyORB reaches OpenSSL, \<open>src/src/security/polyorb_asn1.c\<close> and
  \<open>src/src/security/x509/polyorb_x509.c\<close>, with the Ada packages that call them, PolyORB.ASN1
  (\<open>src/src/security/polyorb-asn1.adb\<close>) and PolyORB.X509 (\<open>src/src/security/x509/polyorb-x509.adb\<close>).

  OpenSSL itself is a parameter: the records \<open>ossl\<close> (allocation and one DER codec) and \<open>pem_lib\<close>
  (BIO, PEM reader and error queue) hold its entry points, and the predicates \<open>alloc_documented\<close>,
  \<open>i2d_documented\<close>, \<open>d2i_documented\<close> and \<open>pem_documented\<close> say what its manual promises of them. The
  C heap is a finite map from block addresses to octets with 0 as the null pointer; reading outside a
  block is \<open>Erroneous\<close>. The variable that \<open>*buffer\<close> names is an in-out value, since one early return
  leaves it as the caller had it.
\<close>

section \<open>The state behind the C interface\<close>

type_synonym addr = nat

record c_world =
  heap :: "(addr, byte list) fmap"
  errs :: "nat list"
  bios :: "addr list"
  strings :: "(nat \<times> string) list list"
  init :: bool
  locking_callback :: addr
  id_callback :: addr

datatype c_exn = ASN1_Error | X509_Error string | Erroneous

type_synonym 'a c_result = "(c_exn + 'a) \<times> c_world"

record 'obj ossl =
  malloc_fn :: "int \<Rightarrow> c_world \<Rightarrow> addr \<times> c_world"
  free_fn :: "addr \<Rightarrow> c_world \<Rightarrow> c_world"
  i2d :: "'obj \<Rightarrow> addr option \<Rightarrow> c_world \<Rightarrow> int \<times> addr \<times> c_world"
  d2i :: "byte list \<Rightarrow> int \<Rightarrow> c_world \<Rightarrow> 'obj option \<times> c_world"
  dup_fn :: "'obj \<Rightarrow> c_world \<Rightarrow> 'obj option \<times> c_world"

section \<open>polyorb_asn1.c\<close>

definition PolyORB_OPENSSL_free :: "'obj ossl \<Rightarrow> addr \<Rightarrow> c_world \<Rightarrow> c_world" where
  "PolyORB_OPENSSL_free L x st = (if x \<noteq> 0 then free_fn L x st else st)"

text \<open>
  The test \<open>buffer == NULL\<close> is on the address of the caller's variable, \<open>buffer_addr\<close> here, and not
  on the block that was allocated.
\<close>

definition PolyORB_i2d_ASN1_OBJECT ::
  "'obj ossl \<Rightarrow> 'obj \<Rightarrow> addr \<Rightarrow> addr \<Rightarrow> c_world \<Rightarrow> addr \<times> int \<times> c_world" where
  "PolyORB_i2d_ASN1_OBJECT L obj buffer_addr buffer st =
     (let (len, _, st) = i2d L obj None st in
      if len < 0 then (buffer, len, st)
      else
        let (buffer, st) = malloc_fn L len st in
        if buffer_addr = 0 then (buffer, len, st)
        else
          let aux = buffer; (len, aux, st) = i2d L obj (Some aux) st in
          if len < 0 then (0, len, free_fn L buffer st) else (buffer, len, st))"

definition PolyORB_d2i_ASN1_OBJECT ::
  "'obj ossl \<Rightarrow> byte list \<Rightarrow> int \<Rightarrow> c_world \<Rightarrow> 'obj option \<times> c_world" where
  "PolyORB_d2i_ASN1_OBJECT L buf len st = d2i L buf len st"

definition PolyORB_ASN1_OBJECT_dup ::
  "'obj ossl \<Rightarrow> 'obj \<Rightarrow> c_world \<Rightarrow> 'obj option \<times> c_world" where
  "PolyORB_ASN1_OBJECT_dup L x st = dup_fn L x st"

section \<open>polyorb_x509.c: DER codecs\<close>

definition PolyORB_d2i_X509_CHAIN ::
  "'obj ossl \<Rightarrow> byte list \<Rightarrow> int \<Rightarrow> c_world \<Rightarrow> 'obj option \<times> c_world" where
  "PolyORB_d2i_X509_CHAIN L buffer len st = d2i L buffer len st"


definition PolyORB_i2d_X509_CHAIN ::
  "'obj ossl \<Rightarrow> 'obj \<Rightarrow> addr \<Rightarrow> c_world \<Rightarrow> addr \<times> int \<times> c_world" where
  "PolyORB_i2d_X509_CHAIN L chain buffer st =
     (let (len, _, st) = i2d L chain None st in
      if len < 0 then (buffer, len, st)
      else
        let (buffer, st) = malloc_fn L len st in
        if buffer = 0 then (buffer, len, st)
        else
          let aux = buffer; (len, aux, st) = i2d L chain (Some aux) st in
          if len < 0 then (0, len, free_fn L buffer st) else (buffer, len, st))"

definition PolyORB_i2d_X509_NAME ::
  "'obj ossl \<Rightarrow> 'obj \<Rightarrow> addr \<Rightarrow> c_world \<Rightarrow> addr \<times> int \<times> c_world" where
  "PolyORB_i2d_X509_NAME L name buffer st =
     (let (len, _, st) = i2d L name None st in
      if len < 0 then (buffer, len, st)
      else
        let (buffer, st) = malloc_fn L len st in
        if buffer = 0 then (buffer, len, st)
        else
          let aux = buffer; (len, aux, st) = i2d L name (Some aux) st in
          if len < 0 then (0, len, free_fn L buffer st) else (buffer, len, st))"

section \<open>polyorb_x509.c: reading PEM files\<close>

datatype func_code = PEM_READ_PRIVATEKEY_FILE | PEM_READ_CERTIFICATE_FILE
datatype reason_code = ERR_R_BUF_LIB | ERR_R_SYS_LIB | ERR_R_PEM_LIB

fun POLYORB_F :: "func_code \<Rightarrow> nat" where
  "POLYORB_F PEM_READ_PRIVATEKEY_FILE = 100"
| "POLYORB_F PEM_READ_CERTIFICATE_FILE = 101"

record ('cert, 'key) pem_lib =
  BIO_new :: "c_world \<Rightarrow> addr \<times> c_world"
  BIO_read_filename :: "addr \<Rightarrow> string \<Rightarrow> c_world \<Rightarrow> int \<times> c_world"
  PEM_read_bio_X509 :: "addr \<Rightarrow> c_world \<Rightarrow> 'cert option \<times> c_world"
  PEM_read_bio_PrivateKey :: "addr \<Rightarrow> c_world \<Rightarrow> 'key option \<times> c_world"
  BIO_free :: "addr \<Rightarrow> c_world \<Rightarrow> c_world"
  ERR_PACK :: "nat \<Rightarrow> reason_code option \<Rightarrow> nat"
  ERR_PUT_error :: "nat \<Rightarrow> c_world \<Rightarrow> c_world"
  ERR_get_error :: "c_world \<Rightarrow> nat \<times> c_world"
  ERR_error_string :: "nat \<Rightarrow> string"
  ERR_load_strings :: "(nat \<times> string) list \<Rightarrow> c_world \<Rightarrow> c_world"

definition PolyORBerr :: "('cert, 'key) pem_lib \<Rightarrow> func_code \<Rightarrow> reason_code \<Rightarrow> c_world \<Rightarrow> c_world" where
  "PolyORBerr P f r st = ERR_PUT_error P (ERR_PACK P (POLYORB_F f) (Some r)) st"

text \<open>The label \<open>end\<close> of both readers: free the BIO when there is one.\<close>

definition end_free :: "('cert, 'key) pem_lib \<Rightarrow> addr \<Rightarrow> c_world \<Rightarrow> c_world" where
  "end_free P bio st = (if bio \<noteq> 0 then BIO_free P bio st else st)"

definition PolyORB_PEM_read_certificate_file ::
  "('cert, 'key) pem_lib \<Rightarrow> string \<Rightarrow> c_world \<Rightarrow> 'cert option \<times> c_world" where
  "PolyORB_PEM_read_certificate_file P file st =
     (let (bio, st) = BIO_new P st in
      if bio = 0 then
        (None, end_free P bio (PolyORBerr P PEM_READ_CERTIFICATE_FILE ERR_R_BUF_LIB st))
      else
        let (r, st) = BIO_read_filename P bio file st in
        if r \<le> 0 then
          (None, end_free P bio (PolyORBerr P PEM_READ_CERTIFICATE_FILE ERR_R_SYS_LIB st))
        else
          let (pkey, st) = PEM_read_bio_X509 P bio st in
          if pkey = None then
            (None, end_free P bio (PolyORBerr P PEM_READ_CERTIFICATE_FILE ERR_R_PEM_LIB st))
          else (pkey, end_free P bio st))"

definition PolyORB_PEM_read_PrivateKey_file ::
  "('cert, 'key) pem_lib \<Rightarrow> string \<Rightarrow> c_world \<Rightarrow> 'key option \<times> c_world" where
  "PolyORB_PEM_read_PrivateKey_file P file st =
     (let (bio, st) = BIO_new P st in
      if bio = 0 then
        (None, end_free P bio (PolyORBerr P PEM_READ_PRIVATEKEY_FILE ERR_R_BUF_LIB st))
      else
        let (r, st) = BIO_read_filename P bio file st in
        if r \<le> 0 then
          (None, end_free P bio (PolyORBerr P PEM_READ_PRIVATEKEY_FILE ERR_R_SYS_LIB st))
        else
          let (pkey, st) = PEM_read_bio_PrivateKey P bio st in
          if pkey = None then
            (None, end_free P bio (PolyORBerr P PEM_READ_PRIVATEKEY_FILE ERR_R_PEM_LIB st))
          else (pkey, end_free P bio st))"

section \<open>polyorb_x509.c: initialization\<close>

definition USER_str_functs :: "('cert, 'key) pem_lib \<Rightarrow> (nat \<times> string) list" where
  "USER_str_functs P =
     [(ERR_PACK P (POLYORB_F PEM_READ_PRIVATEKEY_FILE) None, ''__PolyORB_PEM_read_PrivateKey_file''),
      (ERR_PACK P (POLYORB_F PEM_READ_CERTIFICATE_FILE) None, ''__PolyORB_PEM_read_certificate_file'')]"

definition USER_str_reasons :: "(nat \<times> string) list" where
  "USER_str_reasons = []"

definition ERR_load_PolyORB_strings :: "('cert, 'key) pem_lib \<Rightarrow> c_world \<Rightarrow> c_world" where
  "ERR_load_PolyORB_strings P st =
     (if init st then
        ERR_load_strings P USER_str_reasons
          (ERR_load_strings P (USER_str_functs P) (st\<lparr>init := False\<rparr>))
      else st)"

definition PolyORB_X509_Intialize :: "addr \<Rightarrow> addr \<Rightarrow> c_world \<Rightarrow> c_world" where
  "PolyORB_X509_Intialize locking_function id_function st =
     st\<lparr>locking_callback := locking_function, id_callback := id_function\<rparr>"

definition PolyORB_Get_CRYPTO_LOCK :: "int \<Rightarrow> 32 word" where
  "PolyORB_Get_CRYPTO_LOCK CRYPTO_LOCK = word_of_int CRYPTO_LOCK"

section \<open>PolyORB.ASN1\<close>

definition read_block :: "addr \<Rightarrow> int \<Rightarrow> c_world \<Rightarrow> byte list option" where
  "read_block p n st =
     (case fmlookup (heap st) p of
        None \<Rightarrow> None
      | Some bs \<Rightarrow> if n \<le> int (length bs) then Some (take (nat n) bs) else None)"

text \<open>
  The overlay of a stream element array on the buffer, its copy into the result and the release of
  the buffer, which the three \<open>Encode\<close> functions share.
\<close>

definition return_buffer :: "'obj ossl \<Rightarrow> addr \<Rightarrow> int \<Rightarrow> c_world \<Rightarrow> byte list c_result" where
  "return_buffer L buf len st =
     (case read_block buf len st of
        None \<Rightarrow> (Inl Erroneous, st)
      | Some bs \<Rightarrow> (Inr bs, PolyORB_OPENSSL_free L buf st))"

definition ASN1_Decode :: "'obj ossl \<Rightarrow> byte list \<Rightarrow> c_world \<Rightarrow> 'obj c_result" where
  "ASN1_Decode L item st =
     (let (res, st) = PolyORB_d2i_ASN1_OBJECT L item (int (length item)) st in
      case res of None \<Rightarrow> (Inl ASN1_Error, st) | Some x \<Rightarrow> (Inr x, st))"

definition ASN1_Duplicate :: "'obj ossl \<Rightarrow> 'obj \<Rightarrow> c_world \<Rightarrow> 'obj option \<times> c_world" where
  "ASN1_Duplicate L item st = PolyORB_ASN1_OBJECT_dup L item st"

definition ASN1_Encode ::
  "'obj ossl \<Rightarrow> 'obj \<Rightarrow> addr \<Rightarrow> addr \<Rightarrow> c_world \<Rightarrow> byte list c_result" where
  "ASN1_Encode L item buf_addr_address buf_addr st =
     (let (buf, len, st) = PolyORB_i2d_ASN1_OBJECT L item buf_addr_address buf_addr st in
      if len < 0 \<or> buf = 0 then (Inl ASN1_Error, st) else return_buffer L buf len st)"

definition ASN1_Free :: "('obj \<Rightarrow> c_world \<Rightarrow> c_world) \<Rightarrow> 'obj \<Rightarrow> c_world \<Rightarrow> 'obj option \<times> c_world" where
  "ASN1_Free ASN1_OBJECT_free item st = (None, ASN1_OBJECT_free item st)"

definition ASN1_Is_Equivalent ::
  "'obj ossl \<Rightarrow> 'obj \<Rightarrow> 'obj \<Rightarrow> addr \<Rightarrow> addr \<Rightarrow> c_world \<Rightarrow> bool c_result" where
  "ASN1_Is_Equivalent L oid1 oid2 buf_addr_address buf_addr st =
     (case ASN1_Encode L oid1 buf_addr_address buf_addr st of
        (Inl e, st) \<Rightarrow> (Inl e, st)
      | (Inr a, st) \<Rightarrow>
          (case ASN1_Encode L oid2 buf_addr_address buf_addr st of
             (Inl e, st) \<Rightarrow> (Inl e, st)
           | (Inr b, st) \<Rightarrow> (Inr (a = b), st)))"

definition OID :: string where
  "OID = ''oid:''"

definition To_Object_Identifier :: "(string \<Rightarrow> int \<Rightarrow> 'obj option) \<Rightarrow> string \<Rightarrow> c_exn + 'obj option" where
  "To_Object_Identifier OBJ_txt2obj item =
     (if length item < length OID \<or> take (length OID) item \<noteq> OID then Inl ASN1_Error
      else Inr (OBJ_txt2obj (drop (length OID) item) 1))"

definition OID_To_String :: "('obj \<Rightarrow> int \<Rightarrow> string) \<Rightarrow> 'obj \<Rightarrow> string" where
  "OID_To_String OBJ_obj2txt item = OID @ OBJ_obj2txt item 1"

section \<open>PolyORB.X509\<close>

text \<open>
  \<open>Get_Errors_String\<close> empties OpenSSL's queue of errors: it calls itself until the queue answers 0,
  and is undefined should it never do so.
\<close>

partial_function (option) Get_Errors_String ::
  "('cert, 'key) pem_lib \<Rightarrow> c_world \<Rightarrow> (string \<times> c_world) option" where
  "Get_Errors_String P st =
     (let (Err, st) = ERR_get_error P st in
      if Err \<noteq> 0 then
        Option.bind (Get_Errors_String P st)
          (\<lambda>(s, st). Some (s @ [CHR 0x0A] @ ERR_error_string P Err, st))
      else Some ([], st))"

definition Raise_X509_Error :: "('cert, 'key) pem_lib \<Rightarrow> c_world \<Rightarrow> 'a c_result option" where
  "Raise_X509_Error P st = map_option (\<lambda>(msg, st). (Inl (X509_Error msg), st)) (Get_Errors_String P st)"

definition X509_Encode_with ::
  "('lib \<Rightarrow> 'obj \<Rightarrow> addr \<Rightarrow> c_world \<Rightarrow> addr \<times> int \<times> c_world) \<Rightarrow> ('lib \<Rightarrow> 'obj ossl)
     \<Rightarrow> ('cert, 'key) pem_lib \<Rightarrow> 'lib \<Rightarrow> 'obj \<Rightarrow> addr \<Rightarrow> c_world \<Rightarrow> byte list c_result option" where
  "X509_Encode_with wrapper calls P L item buf_addr st =
     (let (buf, len, st) = wrapper L item buf_addr st in
      if len < 0 \<or> buf = 0 then Raise_X509_Error P st
      else Some (return_buffer (calls L) buf len st))"



definition X509_Decode_Chain ::
  "('cert, 'key) pem_lib \<Rightarrow> 'obj ossl \<Rightarrow> byte list \<Rightarrow> c_world \<Rightarrow> 'obj c_result option" where
  "X509_Decode_Chain P L item st =
     (let (res, st) = PolyORB_d2i_X509_CHAIN L item (int (length item)) st in
      case res of None \<Rightarrow> Raise_X509_Error P st | Some x \<Rightarrow> Some (Inr x, st))"


definition X509_Duplicate :: "('obj \<Rightarrow> c_world \<Rightarrow> 'obj option \<times> c_world) \<Rightarrow> 'obj option \<Rightarrow> c_world
    \<Rightarrow> 'obj option \<times> c_world" where
  "X509_Duplicate X509_NAME_dup the_name st =
     (case the_name of None \<Rightarrow> (None, st) | Some n \<Rightarrow> X509_NAME_dup n st)"

definition X509_Destroy :: "('obj \<Rightarrow> c_world \<Rightarrow> c_world) \<Rightarrow> 'obj option \<Rightarrow> c_world
    \<Rightarrow> 'obj option \<times> c_world" where
  "X509_Destroy X509_free item st =
     (case item of None \<Rightarrow> (None, st) | Some c \<Rightarrow> (None, X509_free c st))"

definition X509_Subject_Name_Of :: "('cert \<Rightarrow> 'obj option) \<Rightarrow> 'cert \<Rightarrow> 'obj option" where
  "X509_Subject_Name_Of X509_get_subject_name the_certificate = X509_get_subject_name the_certificate"

text \<open>The C string in a buffer of 1024 characters, up to its NUL.\<close>

definition To_Ada :: "string \<Rightarrow> string" where
  "To_Ada buffer = takeWhile (\<lambda>c. c \<noteq> CHR 0x00) buffer"

definition X509_To_String :: "('obj \<Rightarrow> nat \<Rightarrow> string) \<Rightarrow> 'obj \<Rightarrow> string" where
  "X509_To_String X509_NAME_oneline the_name = To_Ada (X509_NAME_oneline the_name 1024)"

definition X509_Read :: "('cert, 'key) pem_lib \<Rightarrow> string \<Rightarrow> c_world \<Rightarrow> 'cert c_result option" where
  "X509_Read P file_name st =
     (let (aux, st) = PolyORB_PEM_read_certificate_file P file_name st in
      case aux of None \<Rightarrow> Raise_X509_Error P st | Some c \<Rightarrow> Some (Inr c, st))"

text \<open>
  \<open>Initialize\<close> allocates the locks of the callback, here the count of them, and installs it. The
  locking callback enters or leaves the lock that OpenSSL names.
\<close>

definition X509_Initialize ::
  "('cert, 'key) pem_lib \<Rightarrow> int \<Rightarrow> addr \<Rightarrow> addr \<Rightarrow> c_world \<Rightarrow> nat \<times> c_world" where
  "X509_Initialize P CRYPTO_num_locks locking_function id_function st =
     (nat CRYPTO_num_locks,
      ERR_load_PolyORB_strings P (PolyORB_X509_Intialize locking_function id_function st))"

datatype lock_action = Enter nat | Leave nat

definition PolyORB_Locking_Function :: "int \<Rightarrow> nat \<Rightarrow> 32 word \<Rightarrow> int \<Rightarrow> lock_action result" where
  "PolyORB_Locking_Function CRYPTO_LOCK n_locks mode n =
     (if 0 \<le> n \<and> n < int n_locks
      then Inr (if and mode (PolyORB_Get_CRYPTO_LOCK CRYPTO_LOCK) \<noteq> 0 then Enter (nat n) else Leave (nat n))
      else Inl Constraint_Error)"

section \<open>What OpenSSL documents\<close>

text \<open>
  \<open>OPENSSL_malloc\<close> returns NULL or a fresh block of the size asked for; \<open>OPENSSL_free\<close> gives a block
  back.
\<close>

definition alloc_documented :: "'obj ossl \<Rightarrow> bool" where
  "alloc_documented L \<longleftrightarrow>
     (\<forall>n st. malloc_fn L n st = (0, st) \<or>
        (\<exists>p block. p \<noteq> 0 \<and> fmlookup (heap st) p = None \<and> int (length block) = n \<and>
           malloc_fn L n st = (p, st\<lparr>heap := fmupd p block (heap st)\<rparr>))) \<and>
     (\<forall>p st. p \<noteq> 0 \<longrightarrow> free_fn L p st = st\<lparr>heap := fmdrop p (heap st)\<rparr>)"

text \<open>
  \<open>i2d\<close> with a null second argument gives the length of the DER encoding; with the address of a
  block it writes the encoding there; with the address of a null pointer it allocates the block
  itself. An object that has no encoding gives a negative length and an entry of the error queue.
\<close>

definition i2d_documented :: "('obj \<Rightarrow> byte list option) \<Rightarrow> 'obj ossl \<Rightarrow> bool" where
  "i2d_documented der L \<longleftrightarrow>
     (\<forall>x bs st. der x = Some bs \<longrightarrow>
        i2d L x None st = (int (length bs), 0, st) \<and>
        (\<forall>p block. p \<noteq> 0 \<and> fmlookup (heap st) p = Some block \<and> length bs \<le> length block \<longrightarrow>
           i2d L x (Some p) st =
             (int (length bs), p + length bs,
              st\<lparr>heap := fmupd p (bs @ drop (length bs) block) (heap st)\<rparr>)) \<and>
        (\<exists>p. p \<noteq> 0 \<and> fmlookup (heap st) p = None \<and>
           i2d L x (Some 0) st = (int (length bs), p, st\<lparr>heap := fmupd p bs (heap st)\<rparr>))) \<and>
     (\<forall>x pp st. der x = None \<longrightarrow>
        (\<exists>l q new. l < 0 \<and> 0 \<notin> set new \<and> i2d L x pp st = (l, q, st\<lparr>errs := errs st @ new\<rparr>)))"


definition codec_documented :: "('obj \<Rightarrow> byte list option) \<Rightarrow> 'obj ossl \<Rightarrow> bool" where
  "codec_documented der L \<longleftrightarrow> alloc_documented L \<and> i2d_documented der L"

text \<open>The error queue is first in, first out, and its entries are not 0.\<close>

definition queue_documented :: "('cert, 'key) pem_lib \<Rightarrow> bool" where
  "queue_documented P \<longleftrightarrow>
     (\<forall>st. ERR_get_error P st =
        (case errs st of [] \<Rightarrow> (0, st) | e # es \<Rightarrow> (e, st\<lparr>errs := es\<rparr>))) \<and>
     (\<forall>e st. ERR_PUT_error P e st = st\<lparr>errs := errs st @ [e]\<rparr>) \<and>
     (\<forall>f r. ERR_PACK P f r \<noteq> 0)"

text \<open>
  \<open>BIO_new\<close> returns NULL or a new handle, \<open>BIO_free\<close> closes one, and the two readers only add to the
  error queue.
\<close>

definition only_errors :: "c_world \<Rightarrow> c_world \<Rightarrow> bool" where
  "only_errors st st' \<longleftrightarrow> (\<exists>new. 0 \<notin> set new \<and> st' = st\<lparr>errs := errs st @ new\<rparr>)"

definition pem_documented :: "('cert, 'key) pem_lib \<Rightarrow> bool" where
  "pem_documented P \<longleftrightarrow> queue_documented P \<and>
     (\<forall>st. (\<exists>st'. BIO_new P st = (0, st') \<and> only_errors st st') \<or>
        (\<exists>b. b \<noteq> 0 \<and> b \<notin> set (bios st) \<and> BIO_new P st = (b, st\<lparr>bios := b # bios st\<rparr>))) \<and>
     (\<forall>b st. BIO_free P b st = st\<lparr>bios := remove1 b (bios st)\<rparr>) \<and>
     (\<forall>b f st. only_errors st (snd (BIO_read_filename P b f st))) \<and>
     (\<forall>b st. only_errors st (snd (PEM_read_bio_X509 P b st))) \<and>
     (\<forall>b st. only_errors st (snd (PEM_read_bio_PrivateKey P b st)))"

section \<open>The interface between the encoders in C and in Ada\<close>

text \<open>
  What \<open>Encode\<close> of PolyORB.X509 relies on: a stub either hands over a fresh block that holds exactly
  the encoding, or gives a null buffer or a negative length and leaves the heap as it was.
\<close>

locale i2d_stub =
  fixes documented :: "('obj \<Rightarrow> byte list option) \<Rightarrow> 'lib \<Rightarrow> bool"
    and calls :: "'lib \<Rightarrow> 'obj ossl"
    and wrapper :: "'lib \<Rightarrow> 'obj \<Rightarrow> addr \<Rightarrow> c_world \<Rightarrow> addr \<times> int \<times> c_world"
  assumes encodes:
      "documented der L \<Longrightarrow> der x = Some bs \<Longrightarrow>
       \<exists>buf st'. wrapper L x b0 st = (buf, int (length bs), st') \<and>
         (buf = 0 \<longleftrightarrow> fst (malloc_fn (calls L) (int (length bs)) st) = 0) \<and>
         (if buf = 0 then st' = st
          else fmlookup (heap st) buf = None \<and> st' = st\<lparr>heap := fmupd buf bs (heap st)\<rparr>)"
    and fails:
      "documented der L \<Longrightarrow> der x = None \<Longrightarrow>
       \<exists>len st'. wrapper L x b0 st = (b0, len, st') \<and> len < 0 \<and> only_errors st st'"
    and releases:
      "documented der L \<Longrightarrow> p \<noteq> 0 \<Longrightarrow> free_fn (calls L) p st = st\<lparr>heap := fmdrop p (heap st)\<rparr>"
begin

lemma return_buffer_fresh:
  assumes "documented der L" "buf \<noteq> 0" "fmlookup (heap st) buf = None"
  shows "return_buffer (calls L) buf (int (length bs)) (st\<lparr>heap := fmupd buf bs (heap st)\<rparr>) = (Inr bs, st)"
proof -
  have "fmdrop buf (fmupd buf bs (heap st)) = heap st"
    using assms(3) by (auto intro!: fmap_ext)
  then show ?thesis
    using assms by (simp add: return_buffer_def read_block_def PolyORB_OPENSSL_free_def releases)
qed

lemma Encode_returns:
  assumes "documented der L" "der x = Some bs"
    and "fst (malloc_fn (calls L) (int (length bs)) st) \<noteq> 0"
  shows "X509_Encode_with wrapper calls P L x b0 st = Some (Inr bs, st)"
  using encodes [OF assms(1,2), of b0 st] assms(3) return_buffer_fresh [OF assms(1)]
  by (auto simp: X509_Encode_with_def)

end

lemma Get_Errors_String_drains:
  assumes "queue_documented P" "0 \<notin> set (errs st)"
  shows "Get_Errors_String P st =
    Some (concat (map (\<lambda>e. CHR 0x0A # ERR_error_string P e) (rev (errs st))), st\<lparr>errs := []\<rparr>)"
  using assms(2)
proof (induction "errs st" arbitrary: st)
  case Nil
  from Nil(1) have "ERR_get_error P st = (0, st)" using assms(1) by (auto simp: queue_documented_def split: list.split)
  then show ?case by (subst Get_Errors_String.simps) (simp add: Nil(1) [symmetric])
next
  case (Cons e es)
  have "ERR_get_error P st = (e, st\<lparr>errs := es\<rparr>)"
    using assms(1) Cons(2) by (auto simp: queue_documented_def split: list.split)
  moreover have "e \<noteq> 0" using Cons(2,3) by (metis list.set_intros(1))
  moreover have "Get_Errors_String P (st\<lparr>errs := es\<rparr>) =
      Some (concat (map (\<lambda>e. CHR 0x0A # ERR_error_string P e) (rev es)), st\<lparr>errs := []\<rparr>)"
    using Cons(1) [of "st\<lparr>errs := es\<rparr>"] Cons(2,3) by (auto simp: Cons(2) [symmetric])
  ultimately show ?case
    by (subst Get_Errors_String.simps) (simp add: Cons(2) [symmetric])
qed

lemma Raise_X509_Error_drains:
  assumes "queue_documented P" "0 \<notin> set (errs st)"
  shows "\<exists>msg. Raise_X509_Error P st = Some (Inl (X509_Error msg), st\<lparr>errs := []\<rparr>)"
  using Get_Errors_String_drains [OF assms] by (simp add: Raise_X509_Error_def)

context i2d_stub
begin

lemma Encode_no_leak:
  assumes "documented der L" "queue_documented P" "0 \<notin> set (errs st)"
  shows "\<exists>r st'. X509_Encode_with wrapper calls P L x b0 st = Some (r, st') \<and> heap st' = heap st \<and>
    (case r of Inr bs \<Rightarrow> der x = Some bs \<and> st' = st | Inl e \<Rightarrow> (\<exists>msg. e = X509_Error msg) \<and> errs st' = [])"
proof (cases "der x")
  case None
  from fails [OF assms(1) None, of b0 st] obtain len new where
    "wrapper L x b0 st = (b0, len, st\<lparr>errs := errs st @ new\<rparr>)" "len < 0" "0 \<notin> set new"
    by (auto simp: only_errors_def)
  moreover from this(3) obtain msg where
    "Raise_X509_Error P (st\<lparr>errs := errs st @ new\<rparr>) = Some (Inl (X509_Error msg) :: c_exn + byte list, st\<lparr>errs := []\<rparr>)"
    using Raise_X509_Error_drains [OF assms(2), of "st\<lparr>errs := errs st @ new\<rparr>"] assms(3) by auto
  ultimately show ?thesis by (simp add: X509_Encode_with_def)
next
  case (Some bs)
  from encodes [OF assms(1) Some, of b0 st] obtain buf st' where
    w: "wrapper L x b0 st = (buf, int (length bs), st')" and
    b: "if buf = 0 then st' = st else fmlookup (heap st) buf = None \<and> st' = st\<lparr>heap := fmupd buf bs (heap st)\<rparr>"
    by blast
  show ?thesis
  proof (cases "buf = 0")
    case True
    obtain msg where "Raise_X509_Error P st = Some (Inl (X509_Error msg) :: c_exn + byte list, st\<lparr>errs := []\<rparr>)"
      using Raise_X509_Error_drains [OF assms(2,3)] by auto
    with True w b show ?thesis by (simp add: X509_Encode_with_def)
  next
    case False
    with w b Some return_buffer_fresh [OF assms(1)] show ?thesis by (simp add: X509_Encode_with_def)
  qed
qed

end

section \<open>The stubs of X.509 keep that interface\<close>

lemma alloc_cases:
  assumes "alloc_documented L"
  obtains "malloc_fn L n st = (0, st)"
    | p block where "p \<noteq> 0" "fmlookup (heap st) p = None" "int (length block) = n"
        "malloc_fn L n st = (p, st\<lparr>heap := fmupd p block (heap st)\<rparr>)"
  using assms unfolding alloc_documented_def by meson

lemma i2d_put:
  "i2d_documented der L \<Longrightarrow> der x = Some bs \<Longrightarrow> p \<noteq> 0 \<Longrightarrow> fmlookup (heap st) p = Some block \<Longrightarrow>
   length bs \<le> length block \<Longrightarrow>
   i2d L x (Some p) st =
     (int (length bs), p + length bs, st\<lparr>heap := fmupd p (bs @ drop (length bs) block) (heap st)\<rparr>)"
  unfolding i2d_documented_def by blast

lemma i2d_at:
  assumes "i2d_documented der L" "der x = Some bs" "p \<noteq> 0" "length block = length bs"
  shows "i2d L x (Some p) (st\<lparr>heap := fmupd p block h\<rparr>) =
    (int (length bs), p + length bs, st\<lparr>heap := fmupd p bs h\<rparr>)"
proof -
  have "i2d L x (Some p) (st\<lparr>heap := fmupd p block h\<rparr>) =
      (int (length bs), p + length bs,
       st\<lparr>heap := fmupd p (bs @ drop (length bs) block) (fmupd p block h)\<rparr>)"
    using i2d_put [OF assms(1-3), of "st\<lparr>heap := fmupd p block h\<rparr>" block] assms(4) by simp
  moreover have "fmupd p (bs @ drop (length bs) block) (fmupd p block h) = fmupd p bs h"
    using assms(4) by (auto intro!: fmap_ext)
  ultimately show ?thesis by simp
qed

lemma i2d_size: "i2d_documented der L \<Longrightarrow> der x = Some bs \<Longrightarrow> i2d L x None st = (int (length bs), 0, st)"
  unfolding i2d_documented_def by blast

lemma i2d_error:
  assumes "i2d_documented der L" "der x = None"
  obtains l q new where "l < 0" "0 \<notin> set new" "i2d L x pp st = (l, q, st\<lparr>errs := errs st @ new\<rparr>)"
  using assms unfolding i2d_documented_def by blast

lemma codec_documentedD:
  assumes "codec_documented der L"
  shows "alloc_documented L" "i2d_documented der L"
  using assms by (simp_all add: codec_documented_def)

lemma i2d_X509_CHAIN_encodes:
  assumes "codec_documented der L" "der x = Some bs"
  shows "\<exists>buf st'. PolyORB_i2d_X509_CHAIN L x b0 st = (buf, int (length bs), st') \<and>
    (buf = 0 \<longleftrightarrow> fst (malloc_fn L (int (length bs)) st) = 0) \<and>
    (if buf = 0 then st' = st
     else fmlookup (heap st) buf = None \<and> st' = st\<lparr>heap := fmupd buf bs (heap st)\<rparr>)"
proof (rule alloc_cases [OF codec_documentedD(1) [OF assms(1)], of "int (length bs)" st])
  assume "malloc_fn L (int (length bs)) st = (0, st)"
  then show ?thesis by (simp add: PolyORB_i2d_X509_CHAIN_def i2d_size [OF codec_documentedD(2) [OF assms(1)] assms(2)])
next
  fix p block
  assume "p \<noteq> 0" "fmlookup (heap st) p = None" "int (length block) = int (length bs)"
    and "malloc_fn L (int (length bs)) st = (p, st\<lparr>heap := fmupd p block (heap st)\<rparr>)"
  then show ?thesis
    by (simp add: PolyORB_i2d_X509_CHAIN_def i2d_size [OF codec_documentedD(2) [OF assms(1)] assms(2)] i2d_at [OF codec_documentedD(2) [OF assms(1)] assms(2)])
qed

lemma free_documented: "codec_documented der L \<Longrightarrow> p \<noteq> 0 \<Longrightarrow> free_fn L p st = st\<lparr>heap := fmdrop p (heap st)\<rparr>"
  by (simp add: codec_documented_def alloc_documented_def)

lemma i2d_X509_CHAIN_fails:
  assumes "codec_documented der L" "der x = None"
  shows "\<exists>len st'. PolyORB_i2d_X509_CHAIN L x b0 st = (b0, len, st') \<and> len < 0 \<and> only_errors st st'"
  by (rule i2d_error [OF codec_documentedD(2) [OF assms(1)] assms(2), of None st]) (auto simp: PolyORB_i2d_X509_CHAIN_def only_errors_def)

interpretation chain: i2d_stub codec_documented id PolyORB_i2d_X509_CHAIN
  unfolding i2d_stub_def id_apply
  by (intro conjI allI impI, erule (1) i2d_X509_CHAIN_encodes, erule (1) i2d_X509_CHAIN_fails,
      erule (1) free_documented)

lemma i2d_X509_NAME_as_CHAIN: "PolyORB_i2d_X509_NAME = PolyORB_i2d_X509_CHAIN"
  by (intro ext) (simp add: PolyORB_i2d_X509_NAME_def PolyORB_i2d_X509_CHAIN_def)

interpretation name: i2d_stub codec_documented id PolyORB_i2d_X509_NAME
  unfolding i2d_X509_NAME_as_CHAIN by (rule chain.i2d_stub_axioms)


lemma PEM_read_certificate_states:
  assumes "pem_documented P"
  shows "\<exists>c new. PolyORB_PEM_read_certificate_file P fname st = (c, st\<lparr>errs := errs st @ new\<rparr>) \<and> 0 \<notin> set new \<and>
    (c = None \<longrightarrow> (\<exists>r new'. new = new' @ [ERR_PACK P (POLYORB_F PEM_READ_CERTIFICATE_FILE) (Some r)]))"
proof -
  have put: "ERR_PUT_error P e s = s\<lparr>errs := errs s @ [e]\<rparr>" "ERR_PACK P f r \<noteq> 0"
    and free: "BIO_free P b s = s\<lparr>bios := remove1 b (bios s)\<rparr>" for e s f r b
    using assms by (simp_all add: pem_documented_def queue_documented_def)
  consider (null) new where "BIO_new P st = (0, st\<lparr>errs := errs st @ new\<rparr>)" "0 \<notin> set new"
    | (bio) b where "b \<noteq> 0" "BIO_new P st = (b, st\<lparr>bios := b # bios st\<rparr>)"
    using assms unfolding pem_documented_def only_errors_def by metis
  then show ?thesis
  proof cases
    case null
    then show ?thesis
      by (intro exI [of _ None] exI [of _ "new @ [ERR_PACK P 101 (Some ERR_R_BUF_LIB)]"])
        (auto simp: PolyORB_PEM_read_certificate_file_def PolyORBerr_def end_free_def put)
  next
    case (bio b)
    obtain r s1 where r: "BIO_read_filename P b fname (st\<lparr>bios := b # bios st\<rparr>) = (r, s1)" by fastforce
    then have "only_errors (st\<lparr>bios := b # bios st\<rparr>) s1" using assms unfolding pem_documented_def by (metis snd_conv)
    then obtain n1 where s1: "s1 = st\<lparr>bios := b # bios st, errs := errs st @ n1\<rparr>" "0 \<notin> set n1"
      unfolding only_errors_def by auto
    obtain c s2 where c: "PEM_read_bio_X509 P b s1 = (c, s2)" by fastforce
    then have "only_errors s1 s2" using assms unfolding pem_documented_def by (metis snd_conv)
    then obtain n2 where s2: "s2 = s1\<lparr>errs := errs s1 @ n2\<rparr>" "0 \<notin> set n2" unfolding only_errors_def by blast
    show ?thesis
    proof (cases "r \<le> 0")
      case True
      with bio r s1 show ?thesis
        by (intro exI [of _ None] exI [of _ "n1 @ [ERR_PACK P 101 (Some ERR_R_SYS_LIB)]"]) (auto simp: PolyORB_PEM_read_certificate_file_def PolyORBerr_def end_free_def put free)
    next
      case False
      with bio r c s1 s2 show ?thesis
        by (intro exI [of _ c] exI [of _ "n1 @ n2 @ (if c = None then [ERR_PACK P 101 (Some ERR_R_PEM_LIB)] else [])"]) (auto simp: PolyORB_PEM_read_certificate_file_def PolyORBerr_def end_free_def put free)
    qed
  qed
qed

lemma Read_result:
  assumes "pem_documented P" "0 \<notin> set (errs st)"
  shows "\<exists>r st'. X509_Read P fname st = Some (r, st') \<and> bios st' = bios st \<and> heap st' = heap st \<and>
    (case r of
       Inr c \<Rightarrow> fst (PolyORB_PEM_read_certificate_file P fname st) = Some c
     | Inl e \<Rightarrow> errs st' = [] \<and>
         (\<exists>reason rest. e = X509_Error (CHR 0x0A # ERR_error_string P (ERR_PACK P 101 (Some reason)) @ rest)))"
proof -
  obtain c new where c: "PolyORB_PEM_read_certificate_file P fname st = (c, st\<lparr>errs := errs st @ new\<rparr>)"
    "0 \<notin> set new" "c = None \<Longrightarrow> \<exists>r new'. new = new' @ [ERR_PACK P 101 (Some r)]"
    using PEM_read_certificate_states [OF assms(1), of fname st] by auto
  have q: "queue_documented P" using assms(1) by (simp add: pem_documented_def)
  show ?thesis
  proof (cases c)
    case None
    with c(3) obtain r new' where new: "new = new' @ [ERR_PACK P 101 (Some r)]" by blast
    show ?thesis
      using Get_Errors_String_drains [OF q, of "st\<lparr>errs := errs st @ new\<rparr>"] assms(2) c(1,2) None new
      by (auto simp: X509_Read_def Raise_X509_Error_def)
  qed (use c in \<open>simp add: X509_Read_def\<close>)
qed

section \<open>ASN.1 object identifiers\<close>

lemma i2d_ASN1_as_CHAIN:
  "buffer_addr \<noteq> 0 \<Longrightarrow> fst (malloc_fn L (fst (i2d L x None st)) (snd (snd (i2d L x None st)))) \<noteq> 0 \<Longrightarrow>
   PolyORB_i2d_ASN1_OBJECT L x buffer_addr b0 st = PolyORB_i2d_X509_CHAIN L x b0 st"
  by (auto simp: PolyORB_i2d_ASN1_OBJECT_def PolyORB_i2d_X509_CHAIN_def split: prod.splits)

lemma ASN1_Encode_returns:
  assumes "codec_documented der L" "der x = Some bs" "fst (malloc_fn L (int (length bs)) st) \<noteq> 0" "a \<noteq> 0"
  shows "ASN1_Encode L x a b0 st = (Inr bs, st)"
proof -
  have "PolyORB_i2d_ASN1_OBJECT L x a b0 st = PolyORB_i2d_X509_CHAIN L x b0 st"
    using assms by (intro i2d_ASN1_as_CHAIN) (simp_all add: i2d_size [OF codec_documentedD(2)])
  then show ?thesis
    using chain.encodes [OF assms(1,2), of b0 st] assms(3) chain.return_buffer_fresh [OF assms(1)]
    by (auto simp: ASN1_Encode_def)
qed

section \<open>Properties\<close>

text \<open>A library that keeps its documentation: objects are their own non-empty encodings.\<close>

definition sample_der :: "byte list \<Rightarrow> byte list option" where
  "sample_der x = (if x = [] then None else Some x)"

definition sample_fresh :: "c_world \<Rightarrow> addr" where
  "sample_fresh st = Suc (Max (insert 0 (fmdom' (heap st))))"

definition sample_ossl :: "byte list ossl" where
  "sample_ossl =
     \<lparr>malloc_fn = (\<lambda>n st. if n \<le> 0 then (0, st)
        else (sample_fresh st, st\<lparr>heap := fmupd (sample_fresh st) (replicate (nat n) 0) (heap st)\<rparr>)),
      free_fn = (\<lambda>p st. st\<lparr>heap := fmdrop p (heap st)\<rparr>),
      i2d = (\<lambda>x pp st.
        if x = [] then (-1, 0, st)
        else case pp of
          None \<Rightarrow> (int (length x), 0, st)
        | Some p \<Rightarrow>
            (case fmlookup (heap st) p of
               Some block \<Rightarrow> if p = 0
                 then (int (length x), sample_fresh st, st\<lparr>heap := fmupd (sample_fresh st) x (heap st)\<rparr>)
                 else (int (length x), p + length x, st\<lparr>heap := fmupd p (x @ drop (length x) block) (heap st)\<rparr>)
             | None \<Rightarrow> (int (length x), sample_fresh st, st\<lparr>heap := fmupd (sample_fresh st) x (heap st)\<rparr>))),
      d2i = (\<lambda>bs len st. (if bs = [] then None else Some (take (nat len) bs), st)),
      dup_fn = (\<lambda>x st. (Some x, st))\<rparr>"

lemma sample_fresh_new: "sample_fresh st \<noteq> 0" "fmlookup (heap st) (sample_fresh st) = None"
proof -
  have "finite (insert 0 (fmdom' (heap st)))" by simp
  then have "n \<le> Max (insert 0 (fmdom' (heap st)))" if "n \<in> fmdom' (heap st)" for n
    using that by (intro Max_ge) auto
  then have "sample_fresh st \<notin> fmdom' (heap st)" unfolding sample_fresh_def by (meson Suc_n_not_le_n)
  then show "fmlookup (heap st) (sample_fresh st) = None" by (simp add: fmdom'_notD)
qed (simp add: sample_fresh_def)

lemma sample_alloc: "alloc_documented sample_ossl"
proof -
  have "\<exists>p block. p \<noteq> 0 \<and> fmlookup (heap st) p = None \<and> int (length block) = n \<and>
      malloc_fn sample_ossl n st = (p, st\<lparr>heap := fmupd p block (heap st)\<rparr>)" if "n > 0" for n st
    using that sample_fresh_new [of st]
    by (intro exI [of _ "sample_fresh st"] exI [of _ "replicate (nat n) 0"]) (simp add: sample_ossl_def)
  moreover have "malloc_fn sample_ossl n st = (0, st)" if "\<not> n > 0" for n st
    using that by (simp add: sample_ossl_def)
  ultimately have "malloc_fn sample_ossl n st = (0, st) \<or> (\<exists>p block. p \<noteq> 0 \<and> fmlookup (heap st) p = None \<and> int (length block) = n \<and>
      malloc_fn sample_ossl n st = (p, st\<lparr>heap := fmupd p block (heap st)\<rparr>))" for n st
    by (cases "n > 0") blast+
  then show ?thesis unfolding alloc_documented_def by (simp add: sample_ossl_def)
qed

lemma sample_i2d: "i2d_documented sample_der sample_ossl"
  unfolding i2d_documented_def
proof (intro conjI allI impI)
  fix x bs :: "byte list" and st
  assume x: "sample_der x = Some bs"
  then have [simp]: "x \<noteq> []" "bs = x" by (auto simp: sample_der_def split: if_splits)
  show "i2d sample_ossl x None st = (int (length bs), 0, st)" by (simp add: sample_ossl_def)
  show "\<exists>p. p \<noteq> 0 \<and> fmlookup (heap st) p = None \<and>
      i2d sample_ossl x (Some 0) st = (int (length bs), p, st\<lparr>heap := fmupd p bs (heap st)\<rparr>)"
    using sample_fresh_new [of st]
    by (intro exI [of _ "sample_fresh st"]) (simp add: sample_ossl_def split: option.split)
  fix p block
  assume "p \<noteq> 0 \<and> fmlookup (heap st) p = Some block \<and> length bs \<le> length block"
  then show "i2d sample_ossl x (Some p) st =
      (int (length bs), p + length bs, st\<lparr>heap := fmupd p (bs @ drop (length bs) block) (heap st)\<rparr>)"
    by (simp add: sample_ossl_def)
next
  fix x :: "byte list" and pp st
  assume "sample_der x = None"
  then have "x = []" by (simp add: sample_der_def split: if_splits)
  then show "\<exists>l q new. l < 0 \<and> 0 \<notin> set new \<and> i2d sample_ossl x pp st = (l, q, st\<lparr>errs := errs st @ new\<rparr>)"
    by (intro exI [of _ "-1"] exI [of _ 0] exI [of _ "[]"]) (simp add: sample_ossl_def)
qed

lemma sample_documented: "codec_documented sample_der sample_ossl"
  by (simp add: codec_documented_def sample_alloc sample_i2d)

definition sample_pem :: "(string, string) pem_lib" where
  "sample_pem =
     \<lparr>BIO_new = (\<lambda>st. (Suc (sum_list (bios st)), st\<lparr>bios := Suc (sum_list (bios st)) # bios st\<rparr>)),
      BIO_read_filename = (\<lambda>b f st. (if f = [] then 0 else 1, st)),
      PEM_read_bio_X509 = (\<lambda>b st. (None, st)),
      PEM_read_bio_PrivateKey = (\<lambda>b st. (None, st)),
      BIO_free = (\<lambda>b st. st\<lparr>bios := remove1 b (bios st)\<rparr>),
      ERR_PACK = (\<lambda>f r. Suc f),
      ERR_PUT_error = (\<lambda>e st. st\<lparr>errs := errs st @ [e]\<rparr>),
      ERR_get_error = (\<lambda>st. case errs st of [] \<Rightarrow> (0, st) | e # es \<Rightarrow> (e, st\<lparr>errs := es\<rparr>)),
      ERR_error_string = (\<lambda>e. ''error''),
      ERR_load_strings = (\<lambda>t st. st\<lparr>strings := t # strings st\<rparr>)\<rparr>"

definition sample_world :: c_world where
  "sample_world = \<lparr>heap = fmempty, errs = [], bios = [], strings = [], init = True,
     locking_callback = 0, id_callback = 0\<rparr>"

lemma sample_queue: "queue_documented sample_pem"
  by (simp add: queue_documented_def sample_pem_def)

lemma sample_pem_documented: "pem_documented sample_pem"
proof -
  have "Suc (sum_list bs) \<notin> set bs" for bs :: "nat list"
    using member_le_sum_list [of "Suc (sum_list bs)" bs] by fastforce
  then show ?thesis
    using sample_queue
    by (auto simp: pem_documented_def only_errors_def sample_pem_def intro!: exI [of _ "[]"])
qed

definition sample_full :: "byte list ossl" where
  "sample_full = sample_ossl\<lparr>malloc_fn := (\<lambda>n st. (0, st))\<rparr>"

lemma sample_full_documented: "codec_documented sample_der sample_full"
  using sample_documented
  by (simp add: codec_documented_def alloc_documented_def i2d_documented_def sample_full_def)

lemma sample_malloc: "0 < n \<Longrightarrow> fst (malloc_fn sample_ossl n st) \<noteq> 0"
  by (simp add: sample_ossl_def sample_fresh_def)





text \<open>
  When OpenSSL has no memory for the buffer of an object identifier, the stub of ASN.1
  goes on with a null buffer, so that OpenSSL allocates a block of its own: \<open>Encode\<close> raises
  ASN1_Error and the block is never freed.
\<close>

theorem ASN1_Encode_leaks:
  assumes "codec_documented der L" "der x = Some bs" "malloc_fn L (int (length bs)) st = (0, st)" "a \<noteq> 0"
  shows "\<exists>p. p \<noteq> 0 \<and> fmlookup (heap st) p = None \<and>
    ASN1_Encode L x a b0 st = (Inl ASN1_Error, st\<lparr>heap := fmupd p bs (heap st)\<rparr>)"
proof -
  obtain p where "p \<noteq> 0" "fmlookup (heap st) p = None"
    "i2d L x (Some 0) st = (int (length bs), p, st\<lparr>heap := fmupd p bs (heap st)\<rparr>)"
    using codec_documentedD(2) [OF assms(1)] assms(2) unfolding i2d_documented_def by metis
  then show ?thesis
    using assms(3,4) i2d_size [OF codec_documentedD(2) [OF assms(1)] assms(2)]
    by (auto simp: ASN1_Encode_def PolyORB_i2d_ASN1_OBJECT_def)
qed

theorem ASN1_Encode_leaks_witness:
  "\<exists>p. p \<noteq> 0 \<and> fmlookup (heap sample_world) p = None \<and>
    ASN1_Encode sample_full [6, 0] 9 7 sample_world
      = (Inl ASN1_Error, sample_world\<lparr>heap := fmupd p [6, 0] (heap sample_world)\<rparr>)"
  by (rule ASN1_Encode_leaks [OF sample_full_documented]) (simp_all add: sample_der_def sample_full_def)

text \<open>
  With memory available, two object identifiers are equivalent exactly when their DER
  encodings are equal, and the comparison leaves no block behind.
\<close>

theorem ASN1_Is_Equivalent_correct:
  assumes "codec_documented der L" "der x = Some bs" "der y = Some cs" "a \<noteq> 0"
    and "fst (malloc_fn L (int (length bs)) st) \<noteq> 0" "fst (malloc_fn L (int (length cs)) st) \<noteq> 0"
  shows "ASN1_Is_Equivalent L x y a b0 st = (Inr (der x = der y), st)"
  using assms by (simp add: ASN1_Is_Equivalent_def ASN1_Encode_returns [OF assms(1)])

theorem ASN1_Is_Equivalent_correct_witness:
  "ASN1_Is_Equivalent sample_ossl [6, 0] [6, 1] 9 7 sample_world
     = (Inr (sample_der [6, 0] = sample_der [6, 1]), sample_world)"
  by (rule ASN1_Is_Equivalent_correct [OF sample_documented, where bs = "[6, 0]" and cs = "[6, 1]"])
    (simp_all add: sample_der_def sample_malloc)

text \<open>
  Property C13. Reading a certificate file closes every BIO that it opens, on all four paths of the
  reader, and a failure is the exception X509_Error whose message starts with the description of the
  error that PolyORB itself logged, with OpenSSL's queue left empty.
\<close>

theorem X509_Read_safe:
  assumes "pem_documented P" "0 \<notin> set (errs st)"
  shows "\<exists>r st'. X509_Read P fname st = Some (r, st') \<and> bios st' = bios st \<and> heap st' = heap st \<and>
    (case r of
       Inr c \<Rightarrow> fst (PolyORB_PEM_read_certificate_file P fname st) = Some c
     | Inl e \<Rightarrow> errs st' = [] \<and>
         (\<exists>reason rest. e = X509_Error (CHR 0x0A # ERR_error_string P (ERR_PACK P 101 (Some reason)) @ rest)))"
  by (rule Read_result [OF assms])

theorem X509_Read_safe_witness:
  "\<exists>r st'. X509_Read sample_pem ''cert.pem'' sample_world = Some (r, st') \<and> bios st' = bios sample_world \<and>
    heap st' = heap sample_world \<and>
    (case r of
       Inr c \<Rightarrow> fst (PolyORB_PEM_read_certificate_file sample_pem ''cert.pem'' sample_world) = Some c
     | Inl e \<Rightarrow> errs st' = [] \<and>
         (\<exists>reason rest. e = X509_Error
            (CHR 0x0A # ERR_error_string sample_pem (ERR_PACK sample_pem 101 (Some reason)) @ rest)))"
  by (rule X509_Read_safe [OF sample_pem_documented]) (simp add: sample_world_def)

text \<open>The string tables are loaded by the first call only.\<close>

lemma ERR_load_PolyORB_strings_once:
  assumes "\<And>t st. init (ERR_load_strings P t st) = init st"
  shows "ERR_load_PolyORB_strings P (ERR_load_PolyORB_strings P st) = ERR_load_PolyORB_strings P st"
  using assms by (simp add: ERR_load_PolyORB_strings_def)

end
