(* ===== verification/Ssl_Support.thy ===== *)
theory Ssl_Support
  imports Prelude
begin

text \<open>
  The SSL transport: the C shims of \<open>src/src/ssl/polyorb_ssl.c\<close> and the Ada package PolyORB.SSL
  (\<open>src/src/ssl/polyorb-ssl.adb\<close>) that uses them.

  A shim is a weak symbol: the record \<open>ssl_symbols\<close> says which methods the OpenSSL that is linked
  provides, and a shim stands in for those it does not. The functions of OpenSSL that act on
  contexts and connections are the fields of \<open>ssl_lib\<close>; their state is \<open>ssl_world\<close>, with addresses
  as numbers and 0 as null. An exception of \<open>Raise_SSL_Error\<close> first empties the error queue.
\<close>

section \<open>polyorb_ssl.c\<close>

type_synonym ptr = nat

record ssl_symbols =
  SSLv23_method :: ptr
  SSLv23_client_method :: ptr
  SSLv23_server_method :: ptr
  TLSv1_method :: ptr
  TLSv1_client_method :: ptr
  TLSv1_server_method :: ptr
  strong_TLS_method :: "ptr option"
  strong_TLS_client_method :: "ptr option"
  strong_TLS_server_method :: "ptr option"
  strong_TLSv1_1_method :: "ptr option"
  strong_TLSv1_1_client_method :: "ptr option"
  strong_TLSv1_1_server_method :: "ptr option"
  strong_TLSv1_2_method :: "ptr option"
  strong_TLSv1_2_client_method :: "ptr option"
  strong_TLSv1_2_server_method :: "ptr option"

text \<open>The linker prefers a strong definition to a weak one.\<close>

definition weak :: "ptr option \<Rightarrow> ptr \<Rightarrow> ptr" where
  "weak strong body = (case strong of Some m \<Rightarrow> m | None \<Rightarrow> body)"

definition TLS_method :: "ssl_symbols \<Rightarrow> ptr" where
  "TLS_method Y = weak (strong_TLS_method Y) (SSLv23_method Y)"

definition TLS_client_method :: "ssl_symbols \<Rightarrow> ptr" where
  "TLS_client_method Y = weak (strong_TLS_client_method Y) (SSLv23_client_method Y)"

definition TLS_server_method :: "ssl_symbols \<Rightarrow> ptr" where
  "TLS_server_method Y = weak (strong_TLS_server_method Y) (SSLv23_server_method Y)"

definition TLSv1_1_method :: "ssl_symbols \<Rightarrow> ptr" where
  "TLSv1_1_method Y = weak (strong_TLSv1_1_method Y) 0"

definition TLSv1_1_client_method :: "ssl_symbols \<Rightarrow> ptr" where
  "TLSv1_1_client_method Y = weak (strong_TLSv1_1_client_method Y) 0"

definition TLSv1_1_server_method :: "ssl_symbols \<Rightarrow> ptr" where
  "TLSv1_1_server_method Y = weak (strong_TLSv1_1_server_method Y) 0"

definition TLSv1_2_method :: "ssl_symbols \<Rightarrow> ptr" where
  "TLSv1_2_method Y = weak (strong_TLSv1_2_method Y) 0"

definition TLSv1_2_client_method :: "ssl_symbols \<Rightarrow> ptr" where
  "TLSv1_2_client_method Y = weak (strong_TLSv1_2_client_method Y) 0"

definition TLSv1_2_server_method :: "ssl_symbols \<Rightarrow> ptr" where
  "TLSv1_2_server_method Y = weak (strong_TLSv1_2_server_method Y) 0"

text \<open>A stack of ciphers is a list; the macro answers NULL outside of it.\<close>

definition PolyORB_sk_SSL_CIPHER_num :: "ptr list \<Rightarrow> int" where
  "PolyORB_sk_SSL_CIPHER_num sk = int (length sk)"

definition PolyORB_sk_SSL_CIPHER_value :: "ptr list \<Rightarrow> int \<Rightarrow> ptr" where
  "PolyORB_sk_SSL_CIPHER_value sk i = (if 0 \<le> i \<and> i < int (length sk) then sk ! nat i else 0)"

section \<open>PolyORB.SSL: methods and verification modes\<close>

datatype SSL_Method_Type =
  TLS_1 | TLS_1_Client | TLS_1_Server | TLS_1_1 | TLS_1_1_Client | TLS_1_1_Server
  | TLS_1_2 | TLS_1_2_Client | TLS_1_2_Server | Any | Any_Client | Any_Server

fun method_of :: "ssl_symbols \<Rightarrow> SSL_Method_Type \<Rightarrow> ptr" where
  "method_of Y TLS_1 = TLSv1_method Y"
| "method_of Y TLS_1_Client = TLSv1_client_method Y"
| "method_of Y TLS_1_Server = TLSv1_server_method Y"
| "method_of Y TLS_1_1 = TLSv1_1_method Y"
| "method_of Y TLS_1_1_Client = TLSv1_1_client_method Y"
| "method_of Y TLS_1_1_Server = TLSv1_1_server_method Y"
| "method_of Y TLS_1_2 = TLSv1_2_method Y"
| "method_of Y TLS_1_2_Client = TLSv1_2_client_method Y"
| "method_of Y TLS_1_2_Server = TLSv1_2_server_method Y"
| "method_of Y Any = TLS_method Y"
| "method_of Y Any_Client = TLS_client_method Y"
| "method_of Y Any_Server = TLS_server_method Y"

record SSL_Verification_Mode =
  Peer :: bool
  Fail_If_No_Peer_Certificate :: bool
  Client_Once :: bool

definition To_SSL_Verify_Mode :: "SSL_Verification_Mode \<Rightarrow> 64 word" where
  "To_SSL_Verify_Mode Value =
     (if Peer Value then
        let Result = 1;
            Result = (if Fail_If_No_Peer_Certificate Value then or Result 2 else Result);
            Result = (if Client_Once Value then or Result 4 else Result)
        in Result
      else 0)"


section \<open>PolyORB.SSL: contexts\<close>

record ssl_world =
  ctxs :: "ptr list"
  modes :: "(ptr \<times> 64 word) list"
  ssls :: "(ptr \<times> int) list"
  fds :: "int list"
  wire :: "byte list"
  queue :: "nat list"

record ssl_lib =
  SSL_CTX_new :: "ptr \<Rightarrow> ssl_world \<Rightarrow> ptr \<times> ssl_world"
  SSL_CTX_free :: "ptr \<Rightarrow> ssl_world \<Rightarrow> ssl_world"
  SSL_CTX_set_verify :: "ptr \<Rightarrow> 64 word \<Rightarrow> ssl_world \<Rightarrow> ssl_world"
  SSL_CTX_get_verify_mode :: "ptr \<Rightarrow> ssl_world \<Rightarrow> 64 word"
  SSL_CTX_load_verify_locations :: "ptr \<Rightarrow> string option \<Rightarrow> string option \<Rightarrow> ssl_world \<Rightarrow> int \<times> ssl_world"
  SSL_CTX_set_default_verify_paths :: "ptr \<Rightarrow> ssl_world \<Rightarrow> int \<times> ssl_world"
  SSL_CTX_use_certificate_file :: "ptr \<Rightarrow> string \<Rightarrow> int \<Rightarrow> ssl_world \<Rightarrow> int \<times> ssl_world"
  SSL_CTX_use_PrivateKey_file :: "ptr \<Rightarrow> string \<Rightarrow> int \<Rightarrow> ssl_world \<Rightarrow> int \<times> ssl_world"
  SSL_CTX_check_private_key :: "ptr \<Rightarrow> ssl_world \<Rightarrow> int \<times> ssl_world"
  SSL_new :: "ptr \<Rightarrow> ssl_world \<Rightarrow> ptr \<times> ssl_world"
  SSL_free :: "ptr \<Rightarrow> ssl_world \<Rightarrow> ssl_world"
  SSL_set_fd :: "ptr \<Rightarrow> int \<Rightarrow> ssl_world \<Rightarrow> int \<times> ssl_world"
  SSL_get_fd :: "ptr \<Rightarrow> ssl_world \<Rightarrow> int"
  SSL_accept :: "ptr \<Rightarrow> ssl_world \<Rightarrow> int \<times> ssl_world"
  SSL_connect :: "ptr \<Rightarrow> ssl_world \<Rightarrow> int \<times> ssl_world"
  SSL_shutdown :: "ptr \<Rightarrow> ssl_world \<Rightarrow> int \<times> ssl_world"
  SSL_pending :: "ptr \<Rightarrow> ssl_world \<Rightarrow> int"
  SSL_write :: "ptr \<Rightarrow> byte list \<Rightarrow> ssl_world \<Rightarrow> int \<times> ssl_world"
  SSL_read :: "ptr \<Rightarrow> nat \<Rightarrow> ssl_world \<Rightarrow> int \<times> byte list \<times> ssl_world"
  SSL_get_ciphers :: "ptr \<Rightarrow> ssl_world \<Rightarrow> ptr list option"
  SSL_load_client_CA_file :: "string \<Rightarrow> ssl_world \<Rightarrow> ptr \<times> ssl_world"
  SSL_CTX_set_client_CA_list :: "ptr \<Rightarrow> ptr \<Rightarrow> ssl_world \<Rightarrow> ssl_world"
  SSL_ERR_get_error :: "ssl_world \<Rightarrow> nat \<times> ssl_world"
  SSL_ERR_error_string :: "nat \<Rightarrow> string"

datatype ssl_exn = SSL_Error string | Socket_Error

type_synonym 'a ssl_result = "((ssl_exn + 'a) \<times> ssl_world) option"

partial_function (option) SSL_Get_Errors_String :: "ssl_lib \<Rightarrow> ssl_world \<Rightarrow> (string \<times> ssl_world) option" where
  "SSL_Get_Errors_String L w =
     (let (Err, w) = SSL_ERR_get_error L w in
      if Err \<noteq> 0 then
        Option.bind (SSL_Get_Errors_String L w) (\<lambda>(s, w). Some (s @ SSL_ERR_error_string L Err, w))
      else Some ([], w))"

definition Raise_SSL_Error :: "ssl_lib \<Rightarrow> ssl_world \<Rightarrow> 'a ssl_result" where
  "Raise_SSL_Error L w = map_option (\<lambda>(msg, w). (Inl (SSL_Error msg), w)) (SSL_Get_Errors_String L w)"

text \<open>
  The steps of \<open>Create_Context\<close> after the context is known to be there: the verification level, the
  trusted authorities, then the certificate and the key when both are given. \<open>Context\<close> is an access
  value, so the formal parameter starts with the value of the caller's variable; an access
  parameter is passed by copy.
\<close>

definition load_credentials ::
  "ssl_lib \<Rightarrow> ptr \<Rightarrow> string \<Rightarrow> string \<Rightarrow> ssl_world \<Rightarrow> ptr ssl_result" where
  "load_credentials L Context Private_Key_File Certificate_File w =
     (if Certificate_File = [] \<or> Private_Key_File = [] then Some (Inr Context, w)
      else
        let (st, w) = SSL_CTX_use_certificate_file L Context Certificate_File 1 w in
        if st \<noteq> 1 then Raise_SSL_Error L (SSL_CTX_free L Context w)
        else
          let (st, w) = SSL_CTX_use_PrivateKey_file L Context Private_Key_File 1 w in
          if st \<noteq> 1 then Raise_SSL_Error L (SSL_CTX_free L Context w)
          else
            let (st, w) = SSL_CTX_check_private_key L Context w in
            if st \<noteq> 1 then Raise_SSL_Error L (SSL_CTX_free L Context w)
            else Some (Inr Context, w))"

definition nonempty :: "string \<Rightarrow> string option" where
  "nonempty s = (if s = [] then None else Some s)"

definition load_authorities :: "ssl_lib \<Rightarrow> ptr \<Rightarrow> string \<Rightarrow> string \<Rightarrow> ssl_world \<Rightarrow> int \<times> ssl_world" where
  "load_authorities L Context CA_File CA_Path w =
     (if CA_File \<noteq> [] \<or> CA_Path \<noteq> []
      then SSL_CTX_load_verify_locations L Context (nonempty CA_File) (nonempty CA_Path) w
      else SSL_CTX_set_default_verify_paths L Context w)"

definition Create_Context ::
  "ssl_symbols \<Rightarrow> ssl_lib \<Rightarrow> ptr \<Rightarrow> SSL_Method_Type \<Rightarrow> string \<Rightarrow> string \<Rightarrow> string \<Rightarrow> string
     \<Rightarrow> SSL_Verification_Mode \<Rightarrow> ssl_world \<Rightarrow> ptr ssl_result" where
  "Create_Context Y L Context Method Private_Key_File Certificate_File CA_File CA_Path Verification_Mode w =
     (let M = method_of Y Method;
          (Context, w) = (if M \<noteq> 0 then SSL_CTX_new L M w else (Context, w))
      in
      if Context = 0 then Raise_SSL_Error L w
      else
        let w = SSL_CTX_set_verify L Context (To_SSL_Verify_Mode Verification_Mode) w;
            (st, w) = load_authorities L Context CA_File CA_Path w
        in
        if st \<noteq> 1 then Raise_SSL_Error L w
        else load_credentials L Context Private_Key_File Certificate_File w)"

definition Destroy_Context :: "ssl_lib \<Rightarrow> ptr \<Rightarrow> ssl_world \<Rightarrow> ssl_world" where
  "Destroy_Context L Context w = SSL_CTX_free L Context w"

definition Load_Client_CA :: "ssl_lib \<Rightarrow> ptr \<Rightarrow> string \<Rightarrow> ssl_world \<Rightarrow> unit ssl_result" where
  "Load_Client_CA L Context CA_File w =
     (let (names, w) = SSL_load_client_CA_file L CA_File w in
      if names = 0 then Raise_SSL_Error L w
      else Some (Inr (), SSL_CTX_set_client_CA_list L Context names w))"


section \<open>PolyORB.SSL: connections\<close>

text \<open>The loop over \<open>0 .. Length - 1\<close> that fills \<open>Result\<close>.\<close>

definition Ciphers_Of_Socket :: "ssl_lib \<Rightarrow> ptr \<Rightarrow> ssl_world \<Rightarrow> ptr list" where
  "Ciphers_Of_Socket L Socket w =
     (case SSL_get_ciphers L Socket w of
        None \<Rightarrow> []
      | Some Stack \<Rightarrow>
          map (PolyORB_sk_SSL_CIPHER_value Stack) [0..PolyORB_sk_SSL_CIPHER_num Stack - 1])"

definition Ciphers_Of_Context :: "ssl_lib \<Rightarrow> ptr \<Rightarrow> ssl_world \<Rightarrow> ptr list \<times> ssl_world" where
  "Ciphers_Of_Context L Context w =
     (let (Socket, w) = SSL_new L Context w; Result = Ciphers_Of_Socket L Socket w
      in (Result, SSL_free L Socket w))"

text \<open>
  The connection is a socket that the caller, or \<open>Accept_Socket\<close> of GNAT.Sockets, has made:
  \<open>sock_op\<close> is that call.
\<close>

definition start_session ::
  "ssl_lib \<Rightarrow> (ssl_world \<Rightarrow> (ssl_exn + int) \<times> ssl_world) \<Rightarrow> (ssl_lib \<Rightarrow> ptr \<Rightarrow> ssl_world \<Rightarrow> int \<times> ssl_world)
     \<Rightarrow> ptr \<Rightarrow> ssl_world \<Rightarrow> ptr ssl_result" where
  "start_session L sock_op negotiate Context w =
     (case sock_op w of
        (Inl e, w) \<Rightarrow> Some (Inl e, w)
      | (Inr Sock, w) \<Rightarrow>
          let (Socket, w) = SSL_new L Context w in
          if Socket = 0 then Raise_SSL_Error L w
          else
            let (st, w) = SSL_set_fd L Socket Sock w in
            if st \<noteq> 1 then Raise_SSL_Error L (SSL_free L Socket w)
            else
              let (st, w) = negotiate L Socket w in
              if st \<noteq> 1 then Raise_SSL_Error L (SSL_free L Socket w)
              else Some (Inr Socket, w))"

definition Accept_Socket ::
  "ssl_lib \<Rightarrow> (int \<Rightarrow> ssl_world \<Rightarrow> (ssl_exn + int) \<times> ssl_world) \<Rightarrow> int \<Rightarrow> ptr \<Rightarrow> ssl_world \<Rightarrow> ptr ssl_result" where
  "Accept_Socket L Sockets_Accept Server Context w = start_session L (Sockets_Accept Server) SSL_accept Context w"

definition Connect_Socket ::
  "ssl_lib \<Rightarrow> (string \<Rightarrow> ssl_world \<Rightarrow> (ssl_exn + int) \<times> ssl_world) \<Rightarrow> string \<Rightarrow> ptr \<Rightarrow> ssl_world \<Rightarrow> ptr ssl_result" where
  "Connect_Socket L Utils_Connect Address Context w = start_session L (Utils_Connect Address) SSL_connect Context w"

definition Socket_Of :: "ssl_lib \<Rightarrow> ptr \<Rightarrow> ssl_world \<Rightarrow> int" where
  "Socket_Of L Socket w = SSL_get_fd L Socket w"

text \<open>The shutdown loop; it does not end while OpenSSL keeps answering 0.\<close>

partial_function (option) shutdown_loop :: "ssl_lib \<Rightarrow> ptr \<Rightarrow> ssl_world \<Rightarrow> unit ssl_result" where
  "shutdown_loop L Socket w =
     (let (st, w) = SSL_shutdown L Socket w in
      if st = 1 then Some (Inr (), w)
      else if st \<noteq> 0 then Raise_SSL_Error L w
      else shutdown_loop L Socket w)"

definition Close_Socket :: "ssl_lib \<Rightarrow> (int \<Rightarrow> ssl_world \<Rightarrow> ssl_world) \<Rightarrow> ptr \<Rightarrow> ssl_world \<Rightarrow> unit ssl_result" where
  "Close_Socket L Sockets_Close Socket w =
     Option.bind (shutdown_loop L Socket w)
       (\<lambda>(r, w). case r of
          Inl e \<Rightarrow> Some (Inl e, w)
        | Inr _ \<Rightarrow> Some (Inr (), SSL_free L Socket (Sockets_Close (Socket_Of L Socket w) w)))"

definition Pending_Length :: "ssl_lib \<Rightarrow> ptr \<Rightarrow> ssl_world \<Rightarrow> int result" where
  "Pending_Length L Socket w = to_Natural (SSL_pending L Socket w)"

fun Send_Vector_loop :: "ssl_lib \<Rightarrow> ptr \<Rightarrow> byte list list \<Rightarrow> int \<Rightarrow> ssl_world \<Rightarrow> int ssl_result" where
  "Send_Vector_loop L Socket [] Count w = Some (Inr Count, w)"
| "Send_Vector_loop L Socket (v # Vector) Count w =
     (let (Bytes_Written, w) = SSL_write L Socket v w in
      if Bytes_Written \<le> 0 then Raise_SSL_Error L w
      else
        let Count = Count + Bytes_Written in
        if Bytes_Written < int (length v) then Some (Inr Count, w)
        else Send_Vector_loop L Socket Vector Count w)"

definition Send_Vector :: "ssl_lib \<Rightarrow> ptr \<Rightarrow> byte list list \<Rightarrow> ssl_world \<Rightarrow> int ssl_result" where
  "Send_Vector L Socket Vector w = Send_Vector_loop L Socket Vector 0 w"

text \<open>The vector to receive into is given by the lengths of its elements; the data read is returned.\<close>

fun Receive_Vector_loop ::
  "ssl_lib \<Rightarrow> ptr \<Rightarrow> nat list \<Rightarrow> int \<Rightarrow> byte list list \<Rightarrow> ssl_world \<Rightarrow> (int \<times> byte list list) ssl_result" where
  "Receive_Vector_loop L Socket [] Count got w = Some (Inr (Count, got), w)"
| "Receive_Vector_loop L Socket (n # Vector) Count got w =
     (let (Bytes_Readed, bs, w) = SSL_read L Socket n w in
      if Bytes_Readed \<le> 0 then Raise_SSL_Error L w
      else
        let Count = Count + Bytes_Readed; got = got @ [bs] in
        if Bytes_Readed < int n then Some (Inr (Count, got), w)
        else Receive_Vector_loop L Socket Vector Count got w)"

definition Receive_Vector ::
  "ssl_lib \<Rightarrow> ptr \<Rightarrow> nat list \<Rightarrow> ssl_world \<Rightarrow> (int \<times> byte list list) ssl_result" where
  "Receive_Vector L Socket Vector w = Receive_Vector_loop L Socket Vector 0 [] w"

section \<open>What OpenSSL documents\<close>

text \<open>A call that only adds entries to the error queue.\<close>

definition logs_only :: "ssl_lib \<Rightarrow> ssl_world \<Rightarrow> ssl_world \<Rightarrow> bool" where
  "logs_only L w w' \<longleftrightarrow>
     ctxs w' = ctxs w \<and> wire w' = wire w \<and> (\<exists>new. 0 \<notin> set new \<and> queue w' = queue w @ new) \<and>
     (\<forall>c. SSL_CTX_get_verify_mode L c w' = SSL_CTX_get_verify_mode L c w)"

definition ssl_queue_documented :: "ssl_lib \<Rightarrow> bool" where
  "ssl_queue_documented L \<longleftrightarrow>
     (\<forall>w. SSL_ERR_get_error L w = (case queue w of [] \<Rightarrow> (0, w) | e # es \<Rightarrow> (e, w\<lparr>queue := es\<rparr>)))"


text \<open>\<open>SSL_write\<close> sends a non-empty prefix of the data, or fails and sends nothing.\<close>

definition write_documented :: "ssl_lib \<Rightarrow> bool" where
  "write_documented L \<longleftrightarrow> ssl_queue_documented L \<and>
     (\<forall>s v w. let (n, w') = SSL_write L s v w in
        (if n \<le> 0 then logs_only L w w'
         else n \<le> int (length v) \<and> w' = w\<lparr>wire := wire w @ take (nat n) v\<rparr>))"

section \<open>Lemmas\<close>

lemma SSL_Get_Errors_String_drains:
  assumes "ssl_queue_documented L" "0 \<notin> set (queue w)"
  shows "SSL_Get_Errors_String L w =
    Some (concat (map (SSL_ERR_error_string L) (rev (queue w))), w\<lparr>queue := []\<rparr>)"
  using assms(2)
proof (induction "queue w" arbitrary: w)
  case Nil
  from Nil(1) have "SSL_ERR_get_error L w = (0, w)"
    using assms(1) by (auto simp: ssl_queue_documented_def split: list.split)
  then show ?case by (subst SSL_Get_Errors_String.simps) (simp add: Nil(1) [symmetric])
next
  case (Cons e es)
  have "SSL_ERR_get_error L w = (e, w\<lparr>queue := es\<rparr>)"
    using assms(1) Cons(2) by (auto simp: ssl_queue_documented_def split: list.split)
  moreover have "e \<noteq> 0" using Cons(2,3) by (metis list.set_intros(1))
  moreover have "SSL_Get_Errors_String L (w\<lparr>queue := es\<rparr>) =
      Some (concat (map (SSL_ERR_error_string L) (rev es)), w\<lparr>queue := []\<rparr>)"
    using Cons(1) [of "w\<lparr>queue := es\<rparr>"] Cons(2,3) by (auto simp: Cons(2) [symmetric])
  ultimately show ?case
    by (subst SSL_Get_Errors_String.simps) (simp add: Cons(2) [symmetric])
qed

lemma Raise_SSL_Error_drains:
  assumes "ssl_queue_documented L" "0 \<notin> set (queue w)"
  obtains msg where "Raise_SSL_Error L w = Some (Inl (SSL_Error msg), w\<lparr>queue := []\<rparr>)"
  using SSL_Get_Errors_String_drains [OF assms] by (simp add: Raise_SSL_Error_def)

lemma logs_onlyD:
  assumes "logs_only L w w'"
  shows "ctxs w' = ctxs w" "wire w' = wire w" "0 \<notin> set (queue w) \<Longrightarrow> 0 \<notin> set (queue w')"
    "SSL_CTX_get_verify_mode L c w' = SSL_CTX_get_verify_mode L c w"
  using assms by (auto simp: logs_only_def)









lemma Send_Vector_loop_prefix:
  assumes "write_documented L" "0 \<notin> set (queue w)"
  shows "\<exists>r w' n. Send_Vector_loop L s V k w = Some (r, w') \<and> n \<le> length (concat V) \<and>
    wire w' = wire w @ take n (concat V) \<and>
    (case r of Inr c \<Rightarrow> c = k + int n | Inl e \<Rightarrow> \<exists>msg. e = SSL_Error msg)"
  using assms(2)
proof (induction V arbitrary: k w)
  case (Cons v V)
  obtain n w1 where n: "SSL_write L s v w = (n, w1)" by fastforce
  have doc: "if n \<le> 0 then logs_only L w w1
      else n \<le> int (length v) \<and> w1 = w\<lparr>wire := wire w @ take (nat n) v\<rparr>"
    using assms(1) n unfolding write_documented_def by (auto simp: Let_def dest!: spec [of _ s] spec [of _ v] spec [of _ w])
  consider (err) "n \<le> 0" | (part) "0 < n" "n < int (length v)" | (full) "0 < n" "n = int (length v)"
    using doc by (meson linorder_not_le order_le_less)
  then show ?case
  proof cases
    case err
    obtain msg where "Raise_SSL_Error L w1 = Some (Inl (SSL_Error msg) :: ssl_exn + int, w1\<lparr>queue := []\<rparr>)"
      using Raise_SSL_Error_drains [of L w1] assms(1) doc err Cons.prems logs_onlyD(3) [of L w w1]
      unfolding write_documented_def by auto
    with err n doc logs_onlyD(2) [of L w w1] show ?thesis by (auto intro!: exI [of _ 0])
  next
    case part
    with n doc show ?thesis by (auto intro!: exI [of _ "nat n"])
  next
    case full
    with doc have w1: "w1 = w\<lparr>wire := wire w @ v\<rparr>" by auto
    with Cons.IH [of w1 "k + n"] Cons.prems obtain r w' m where
      "Send_Vector_loop L s V (k + n) w1 = Some (r, w')" "m \<le> length (concat V)"
      "wire w' = wire w1 @ take m (concat V)" "case r of Inr c \<Rightarrow> c = k + n + int m | Inl e \<Rightarrow> \<exists>msg. e = SSL_Error msg"
      by auto
    with full n w1 show ?thesis
      by (intro exI [of _ r] exI [of _ w'] exI [of _ "length v + m"]) (auto split: sum.splits)
  qed
qed auto

lemma Ciphers_Of_Socket_stack:
  "Ciphers_Of_Socket L s w = (case SSL_get_ciphers L s w of None \<Rightarrow> [] | Some stack \<Rightarrow> stack)"
proof -
  have "map (PolyORB_sk_SSL_CIPHER_value xs) [0..int (length xs) - 1] = xs" for xs
    by (rule nth_equalityI) (auto simp: PolyORB_sk_SSL_CIPHER_value_def nth_upto)
  then show ?thesis by (simp add: Ciphers_Of_Socket_def PolyORB_sk_SSL_CIPHER_num_def split: option.split)
qed

section \<open>Properties\<close>

text \<open>A library that keeps its documentation: it never fails and writes at most four octets at a time.\<close>

definition sample_lib :: ssl_lib where
  "sample_lib =
     \<lparr>SSL_CTX_new = (\<lambda>m w. (Suc (sum_list (ctxs w)), w\<lparr>ctxs := Suc (sum_list (ctxs w)) # ctxs w\<rparr>)),
      SSL_CTX_free = (\<lambda>c w. w\<lparr>ctxs := remove1 c (ctxs w)\<rparr>),
      SSL_CTX_set_verify = (\<lambda>c m w. w\<lparr>modes := (c, m) # modes w\<rparr>),
      SSL_CTX_get_verify_mode = (\<lambda>c w. case map_of (modes w) c of Some m \<Rightarrow> m | None \<Rightarrow> 0),
      SSL_CTX_load_verify_locations = (\<lambda>c f p w. (1, w)),
      SSL_CTX_set_default_verify_paths = (\<lambda>c w. (1, w)),
      SSL_CTX_use_certificate_file = (\<lambda>c f t w. (1, w)),
      SSL_CTX_use_PrivateKey_file = (\<lambda>c f t w. (1, w)),
      SSL_CTX_check_private_key = (\<lambda>c w. (1, w)),
      SSL_new = (\<lambda>c w. (1, w)), SSL_free = (\<lambda>s w. w), SSL_set_fd = (\<lambda>s f w. (1, w)),
      SSL_get_fd = (\<lambda>s w. 3), SSL_accept = (\<lambda>s w. (1, w)), SSL_connect = (\<lambda>s w. (1, w)),
      SSL_shutdown = (\<lambda>s w. (1, w)), SSL_pending = (\<lambda>s w. 0),
      SSL_write = (\<lambda>s v w. if v = [] then (0, w) else (int (min 4 (length v)), w\<lparr>wire := wire w @ take 4 v\<rparr>)),
      SSL_read = (\<lambda>s n w. (int n, replicate n 0, w)),
      SSL_get_ciphers = (\<lambda>s w. Some [5, 6]),
      SSL_load_client_CA_file = (\<lambda>f w. (1, w)), SSL_CTX_set_client_CA_list = (\<lambda>c l w. w),
      SSL_ERR_get_error = (\<lambda>w. case queue w of [] \<Rightarrow> (0, w) | e # es \<Rightarrow> (e, w\<lparr>queue := es\<rparr>)),
      SSL_ERR_error_string = (\<lambda>e. ''error'')\<rparr>"

definition sample_ssl_world :: ssl_world where
  "sample_ssl_world = \<lparr>ctxs = [], modes = [], ssls = [], fds = [], wire = [], queue = []\<rparr>"

definition old_openssl :: ssl_symbols where
  "old_openssl =
     \<lparr>SSLv23_method = 1, SSLv23_client_method = 2, SSLv23_server_method = 3,
      TLSv1_method = 4, TLSv1_client_method = 5, TLSv1_server_method = 6,
      strong_TLS_method = None, strong_TLS_client_method = None, strong_TLS_server_method = None,
      strong_TLSv1_1_method = None, strong_TLSv1_1_client_method = None, strong_TLSv1_1_server_method = None,
      strong_TLSv1_2_method = None, strong_TLSv1_2_client_method = None, strong_TLSv1_2_server_method = None\<rparr>"

lemma logs_only_refl [simp]: "logs_only L w w"
  by (auto simp: logs_only_def intro: exI [of _ "[]"])

lemma sample_lib_queue: "ssl_queue_documented sample_lib"
  by (simp add: ssl_queue_documented_def sample_lib_def)


lemma sample_lib_write: "write_documented sample_lib"
proof -
  have "take (min 4 (length v)) v = take 4 v" "min 4 (length v) = 0 \<longleftrightarrow> v = []" for v :: "byte list"
    by (cases v; simp add: min_def)+
  moreover have "SSL_write sample_lib s v w =
      (if v = [] then (0, w) else (int (min 4 (length v)), w\<lparr>wire := wire w @ take 4 v\<rparr>))" for s v w
    by (simp add: sample_lib_def)
  ultimately show ?thesis using sample_lib_queue by (auto simp: write_documented_def)
qed



text \<open>
  When the linked OpenSSL does not provide the method that is asked for, the shim
  answers NULL and \<open>Create_Context\<close> makes no context: a variable that already designates a context
  keeps it, and the call reconfigures that context and succeeds, whatever protocol it was made for.
\<close>

theorem Create_Context_keeps_stale:
  assumes "method_of Y Method = 0" "Context0 \<noteq> 0"
    and "load_authorities L Context0 caf cap (SSL_CTX_set_verify L Context0 (To_SSL_Verify_Mode vm) w) = (1, w')"
  shows "Create_Context Y L Context0 Method [] [] caf cap vm w = Some (Inr Context0, w')"
  using assms by (simp add: Create_Context_def load_credentials_def)

theorem Create_Context_keeps_stale_witness:
  "Create_Context old_openssl sample_lib 9 TLS_1_2 [] [] [] [] \<lparr>Peer = False, Fail_If_No_Peer_Certificate = False, Client_Once = False\<rparr> sample_ssl_world
     = Some (Inr 9, sample_ssl_world\<lparr>modes := [(9, 0)]\<rparr>)"
  by (rule Create_Context_keeps_stale)
    (simp_all add: old_openssl_def TLSv1_2_method_def weak_def sample_lib_def load_authorities_def
      sample_ssl_world_def To_SSL_Verify_Mode_def)

text \<open>
  Property C15. \<open>Send_Vector\<close> always ends; what reaches the wire is a prefix of the concatenation of the
  vector's elements, and when it returns, \<open>Count\<close> is the length of that prefix, partial writes
  included.
\<close>

theorem Send_Vector_correct:
  assumes "write_documented L" "0 \<notin> set (queue w)"
  shows "\<exists>r w' n. Send_Vector L s V w = Some (r, w') \<and> n \<le> length (concat V) \<and>
    wire w' = wire w @ take n (concat V) \<and>
    (case r of Inr c \<Rightarrow> c = int n | Inl e \<Rightarrow> \<exists>msg. e = SSL_Error msg)"
  using Send_Vector_loop_prefix [OF assms, of s V 0] unfolding Send_Vector_def add_0 .

theorem Send_Vector_correct_witness:
  "\<exists>r w' n. Send_Vector sample_lib 1 [[1, 2], [3, 4, 5, 6, 7], [8]] sample_ssl_world = Some (r, w') \<and>
    n \<le> length (concat [[1, 2], [3, 4, 5, 6, 7 :: byte], [8]]) \<and>
    wire w' = wire sample_ssl_world @ take n (concat [[1, 2], [3, 4, 5, 6, 7], [8]]) \<and>
    (case r of Inr c \<Rightarrow> c = int n | Inl e \<Rightarrow> \<exists>msg. e = SSL_Error msg)"
  by (rule Send_Vector_correct [OF sample_lib_write]) (simp add: sample_ssl_world_def)

end
