(* ===== verification/Os_Support.thy ===== *)
theory Os_Support
  imports Prelude
begin

text \<open>
  What PolyORB asks of the operating system in C: the support routines of \<open>src/src/csupport.c\<close> with
  their client PolyORB.Log.Stderr (\<open>src/src/polyorb-log-stderr.adb\<close>), and the launcher
  \<open>src/utils/rungroup.c\<close>.

  A process is its table of descriptors and its session. System calls that can answer in several
  ways are parameters: \<open>open\<close> by its answer, \<open>write\<close> by a function on the state, signals by the batches
  in which they interrupt \<open>pause\<close>.
\<close>

section \<open>csupport.c: detaching from the terminal\<close>

record process =
  fd_table :: "int \<Rightarrow> string option"
  session_leader :: bool

definition dup2 :: "int \<Rightarrow> int \<Rightarrow> process \<Rightarrow> int \<times> process" where
  "dup2 oldfd newfd p =
     (case fd_table p oldfd of
        None \<Rightarrow> (-1, p)
      | Some f \<Rightarrow> (newfd, p\<lparr>fd_table := (fd_table p)(newfd \<mapsto> f)\<rparr>))"

definition setsid :: "process \<Rightarrow> process" where
  "setsid p = p\<lparr>session_leader := True\<rparr>"

definition PolyORB_detach :: "bool \<Rightarrow> (string \<Rightarrow> process \<Rightarrow> int \<times> process) \<Rightarrow> process \<Rightarrow> process" where
  "PolyORB_detach HAVE_SETSID open_fn p =
     (if HAVE_SETSID then
        let (devnull_fd, p) = open_fn ''/dev/null'' p in
        if devnull_fd < 0 then p
        else
          let (_, p) = dup2 devnull_fd 0 p;
              (_, p) = dup2 devnull_fd 1 p;
              (_, p) = dup2 devnull_fd 2 p
          in setsid p
      else p)"

section \<open>csupport.c: time stamps\<close>

record tm =
  tm_year :: nat
  tm_mon :: nat
  tm_mday :: nat
  tm_hour :: nat
  tm_min :: nat
  tm_sec :: nat

fun decimal :: "nat \<Rightarrow> nat \<Rightarrow> string" where
  "decimal 0 n = []"
| "decimal (Suc w) n = decimal w (n div 10) @ [char_of (48 + n mod 10)]"

fun year_digits :: "nat \<Rightarrow> string" where
  "year_digits n = (if n < 10 then [char_of (48 + n)] else year_digits (n div 10) @ [char_of (48 + n mod 10)])"

declare year_digits.simps [simp del]

text \<open>The text that \<open>strftime\<close> makes of the format \<open>%Y-%m-%d %T\<close> followed by a space.\<close>

definition time_text :: "tm \<Rightarrow> string" where
  "time_text t =
     year_digits (tm_year t) @ ''-'' @ decimal 2 (tm_mon t) @ ''-'' @ decimal 2 (tm_mday t) @ '' ''
       @ decimal 2 (tm_hour t) @ '':'' @ decimal 2 (tm_min t) @ '':'' @ decimal 2 (tm_sec t) @ '' ''"

text \<open>
  \<open>strftime\<close> writes the text and a NUL when they fit, and leaves contents that the standard does not
  specify, \<open>junk\<close>, when they do not.
\<close>

definition strftime :: "string \<Rightarrow> int \<Rightarrow> string \<Rightarrow> tm \<Rightarrow> string" where
  "strftime buf bufsize junk t =
     (let s = time_text t @ [CHR 0x00] in
      if int (length s) \<le> bufsize then s @ drop (length s) buf else junk)"

definition PolyORB_timestamp :: "bool \<Rightarrow> string \<Rightarrow> int \<Rightarrow> string \<Rightarrow> tm \<Rightarrow> string" where
  "PolyORB_timestamp HAVE_STRFTIME buf bufsize junk now =
     (if HAVE_STRFTIME then strftime buf bufsize junk now else buf)"

section \<open>PolyORB.Log.Stderr\<close>

definition Timestamp :: "bool \<Rightarrow> bool \<Rightarrow> string \<Rightarrow> tm \<Rightarrow> string" where
  "Timestamp HAVE_STRFTIME Enable_Timestamps junk now =
     (let Result = ''0000-00-00 00:00:00  '' in
      if Enable_Timestamps
      then butlast (PolyORB_timestamp HAVE_STRFTIME Result (int (length Result)) junk now)
      else [])"

datatype Write_Status = Success | Interrupted | Failed

text \<open>
  \<open>write(2)\<close> is a function of the descriptor's state; its result is a 64-bit size_t, -1 for an error.
  The loop does not end while the call keeps writing nothing.
\<close>

partial_function (option) Write_loop ::
  "(string \<Rightarrow> 'w \<Rightarrow> 64 word \<times> 'w) \<Rightarrow> string \<Rightarrow> nat \<Rightarrow> int \<Rightarrow> 'w \<Rightarrow> (Write_Status result \<times> 'w) option" where
  "Write_loop C_Write S P C w =
     (if C \<ge> int (length S) then Some (Inl Constraint_Error, w)
      else
        let (R, w) = C_Write (drop (nat C) S) w in
        if R = -1 then Some (Inr Failed, w)
        else if C + uint R > Integer_Last then Some (Inl Constraint_Error, w)
        else if C + uint R = int (length S) then Some (Inr (if P + 1 = 1 then Success else Interrupted), w)
        else Write_loop C_Write S (P + 1) (C + uint R) w)"

definition Write :: "(string \<Rightarrow> 'w \<Rightarrow> 64 word \<times> 'w) \<Rightarrow> string \<Rightarrow> 'w \<Rightarrow> (Write_Status result \<times> 'w) option" where
  "Write C_Write S w = Write_loop C_Write S 0 0 w"

definition Failed_Message :: string where
  "Failed_Message = ''polyorb.log.stderr: write failed'' @ [CHR 0x0A]"

definition Interrupted_Message :: string where
  "Interrupted_Message = ''polyorb.log.stderr: write interrupted'' @ [CHR 0x0A]"

definition Put_Line ::
  "(string \<Rightarrow> 'w \<Rightarrow> 64 word \<times> 'w) \<Rightarrow> string \<Rightarrow> string \<Rightarrow> string \<Rightarrow> 'w \<Rightarrow> (unit result \<times> 'w) option" where
  "Put_Line C_Write stamp Prefix S w =
     Option.bind (Write C_Write (stamp @ Prefix @ S @ [CHR 0x0A]) w)
       (\<lambda>(r, w). case r of
          Inl e \<Rightarrow> Some (Inl e, w)
        | Inr Success \<Rightarrow> Some (Inr (), w)
        | Inr Interrupted \<Rightarrow>
            map_option (\<lambda>(x, w). (on_ok x (\<lambda>_. Inr ()), w)) (Write C_Write Interrupted_Message w)
        | Inr Failed \<Rightarrow>
            map_option (\<lambda>(x, w). (on_ok x (\<lambda>_. Inr ()), w)) (Write C_Write Failed_Message w))"

text \<open>
  \<open>Initialize\<close> installs the sink when there is none yet and computes the prefix of the messages from
  the configuration: the name of the executable, the process identifier in brackets, and a colon
  when there is any of them.
\<close>

record log_conf =
  conf_timestamp :: bool
  conf_exe_name :: bool
  conf_pid :: bool

record stderr_state =
  Log_Hook :: "string option"
  Enable_Timestamps :: bool
  Prefix :: string

definition Stderr_Initialize :: "log_conf \<Rightarrow> string \<Rightarrow> string \<Rightarrow> stderr_state \<Rightarrow> stderr_state" where
  "Stderr_Initialize conf Simple_Name pid_image s =
     (let Buf = (if conf_exe_name conf then Simple_Name else []);
          Buf = (if conf_pid conf then Buf @ ''['' @ tl pid_image @ '']'' else Buf);
          Buf = (if length Buf > 0 then Buf @ '': '' else Buf)
      in s\<lparr>Log_Hook := (case Log_Hook s of None \<Rightarrow> Some ''Put_Line'' | Some h \<Rightarrow> Some h),
           Enable_Timestamps := conf_timestamp conf, Prefix := Buf\<rparr>)"

section \<open>rungroup.c\<close>

datatype signal = SIGTERM | SIGINT | SIGCHLD

fun signo :: "signal \<Rightarrow> nat" where
  "signo SIGTERM = 15"
| "signo SIGINT = 2"
| "signo SIGCHLD = 17"

text \<open>What \<open>waitpid\<close> reports of a child: an exit code or the signal that killed it.\<close>

datatype wait_status = Exited nat | Killed nat

fun WIFEXITED :: "wait_status \<Rightarrow> bool" where
  "WIFEXITED (Exited c) = True"
| "WIFEXITED (Killed s) = False"

fun WEXITSTATUS :: "wait_status \<Rightarrow> nat" where
  "WEXITSTATUS (Exited c) = c mod 256"
| "WEXITSTATUS (Killed s) = 0"

record rungroup =
  sig :: "signal option"
  status :: wait_status

text \<open>The global \<open>status\<close> starts as the zeroed integer, which is the status of an exit with code 0.\<close>

definition rungroup_init :: rungroup where
  "rungroup_init = \<lparr>sig = None, status = Exited 0\<rparr>"

definition hnd :: "signal \<Rightarrow> rungroup \<Rightarrow> rungroup" where
  "hnd s g = g\<lparr>sig := Some s\<rparr>"

text \<open>
  The loop over the children that \<open>waitpid\<close> reports. Only the assignment of \<open>status\<close> is guarded: the
  body of the \<open>if\<close> is one statement.
\<close>

fun hndcld :: "wait_status list \<Rightarrow> rungroup \<Rightarrow> rungroup" where
  "hndcld [] g = g"
| "hndcld (st # sts) g =
     (let g = (if sig g = None \<and> WIFEXITED st then g\<lparr>status := st\<rparr> else g);
          g = g\<lparr>sig := Some SIGCHLD\<rparr>
      in hndcld sts g)"

datatype delivery = Deliver_TERM | Deliver_INT | Deliver_CHLD "wait_status list"

fun handle :: "delivery \<Rightarrow> rungroup \<Rightarrow> rungroup" where
  "handle Deliver_TERM g = hnd SIGTERM g"
| "handle Deliver_INT g = hnd SIGINT g"
| "handle (Deliver_CHLD sts) g = hndcld sts g"

datatype rg_action =
  Printf_Terminated nat | Printf_Aborted nat | Perror string | Ignore_Signals | Killpg signal_name
  | Sleep nat | Reap | Exit nat
and signal_name = TERM_Signal | KILL_Signal

text \<open>
  The loop of \<open>main\<close>. Each element of the list is the signals whose handlers have run when \<open>pause\<close>
  returns; None is a process that still waits.
\<close>

fun main_loop :: "bool \<Rightarrow> rungroup \<Rightarrow> delivery list list \<Rightarrow> rg_action list option" where
  "main_loop killpg_fails g batches =
     (if sig g = Some SIGTERM \<or> sig g = Some SIGINT then
        let s = signo (the (sig g)) in
        Some ([Printf_Aborted s, Ignore_Signals, Killpg TERM_Signal]
          @ (if killpg_fails then [Perror ''killpg-TERM''] else [])
          @ [Sleep 2, Reap, Killpg KILL_Signal, Exit (128 + s)])
      else case batches of
        [] \<Rightarrow> None
      | ds # batches \<Rightarrow>
          let g = fold handle ds g in
          if sig g = Some SIGCHLD
          then Some [Printf_Terminated (WEXITSTATUS (status g)), Exit (WEXITSTATUS (status g))]
          else main_loop killpg_fails g batches)"

declare main_loop.simps [simp del]

text \<open>
  \<open>main\<close>, as the parent (a positive answer of \<open>fork\<close>) or as the child (0), which runs the command
  unless \<open>execve\<close> fails; \<open>Inl ()\<close> is the command taking the place of the program.
\<close>

definition rungroup_main :: "int \<Rightarrow> int \<Rightarrow> bool \<Rightarrow> bool \<Rightarrow> delivery list list \<Rightarrow> unit + rg_action list option" where
  "rungroup_main setpgid_result fork_result execve_fails killpg_fails batches =
     (if setpgid_result \<noteq> 0 then Inr (Some [Perror ''setpgid'', Exit 1])
      else if fork_result < 0 then Inr (Some [Perror ''fork'', Exit 1])
      else if fork_result = 0 \<and> \<not> execve_fails then Inl ()
      else Inr (main_loop killpg_fails rungroup_init batches))"

section \<open>Time stamps have the length the buffer allows\<close>

lemma length_decimal [simp]: "length (decimal w n) = w"
  by (induction w n rule: decimal.induct) simp_all

lemma length_year_digits: "10 ^ k \<le> n \<Longrightarrow> n < 10 ^ Suc k \<Longrightarrow> length (year_digits n) = Suc k"
proof (induction k arbitrary: n)
  case (Suc k)
  have "10 ^ k \<le> n div 10" "n div 10 < 10 ^ Suc k" using Suc.prems by simp_all
  moreover have "(1 :: nat) \<le> 10 ^ k" by simp
  then have "\<not> n < 10" using Suc.prems(1) unfolding power_Suc by linarith
  ultimately show ?case using Suc.IH [of "n div 10"] by (subst year_digits.simps) simp
qed (simp add: year_digits.simps)

lemma length_time_text: "1000 \<le> tm_year t \<Longrightarrow> tm_year t < 10000 \<Longrightarrow> length (time_text t) = 20"
  using length_year_digits [of 3 "tm_year t"] by (simp add: time_text_def)

section \<open>Writing to the standard error\<close>

text \<open>\<open>write\<close> appends a prefix of the data that is not empty, or fails and appends nothing.\<close>

definition write_ok :: "(string \<Rightarrow> string \<Rightarrow> 64 word \<times> string) \<Rightarrow> bool" where
  "write_ok C_Write \<longleftrightarrow>
     (\<forall>data out. data \<noteq> [] \<longrightarrow>
        C_Write data out = (-1, out) \<or>
        (\<exists>n. 0 < n \<and> n \<le> length data \<and> C_Write data out = (word_of_nat n, out @ take n data)))"

lemma Write_loop_complete:
  assumes "write_ok C_Write" "int (length S) \<le> Integer_Last" "c < length S"
  shows "\<exists>r n. Write_loop C_Write S P (int c) out = Some (Inr r, out @ take n (drop c S)) \<and>
    n \<le> length S - c \<and> (r \<noteq> Failed \<longrightarrow> n = length S - c) \<and> (r = Success \<longrightarrow> P = 0)"
  using assms(3)
proof (induction "length S - c" arbitrary: c P out rule: less_induct)
  case less
  have "drop c S \<noteq> []" using less.prems by simp
  with assms(1) consider (err) "C_Write (drop c S) out = (-1, out)"
    | (some) n where "0 < n" "n \<le> length S - c" "C_Write (drop c S) out = (word_of_nat n, out @ take n (drop c S))"
    unfolding write_ok_def by (metis length_drop)
  then show ?case
  proof cases
    case err
    then show ?thesis using less.prems by (subst Write_loop.simps) (auto intro!: exI [of _ 0])
  next
    case (some n)
    have "int n \<le> Integer_Last" using some(2) assms(2) by linarith
    then have n: "n < 2 ^ 31" by (simp add: Integer_Last_def)
    then have u: "uint (word_of_nat n :: 64 word) = int n"
      by (simp add: unsigned_of_nat take_bit_nat_eq_self)
    moreover have "(word_of_nat n :: 64 word) \<noteq> -1"
    proof
      assume "(word_of_nat n :: 64 word) = -1"
      with u have "int n = uint (-1 :: 64 word)" by simp
      then show False using n by (simp add: unsigned_minus_1_eq_mask mask_eq_exp_minus_1)
    qed
    moreover have "int c + int n \<le> Integer_Last" using some(2) less.prems assms(2) by linarith
    ultimately have step: "Write_loop C_Write S P (int c) out =
        (if c + n = length S then Some (Inr (if P + 1 = 1 then Success else Interrupted), out @ take n (drop c S))
         else Write_loop C_Write S (P + 1) (int (c + n)) (out @ take n (drop c S)))"
      using some(3) less.prems by (subst Write_loop.simps) auto
    show ?thesis
    proof (cases "c + n = length S")
      case True
      with step show ?thesis by (auto intro!: exI [of _ n])
    next
      case False
      then have lt: "c + n < length S" using some(2) less.prems by linarith
      moreover have "length S - (c + n) < length S - c" using some(1) less.prems by linarith
      ultimately obtain r m where
        "Write_loop C_Write S (P + 1) (int (c + n)) (out @ take n (drop c S))
          = Some (Inr r, (out @ take n (drop c S)) @ take m (drop (c + n) S))"
        "m \<le> length S - (c + n)" "r \<noteq> Failed \<longrightarrow> m = length S - (c + n)" "r = Success \<longrightarrow> P + 1 = 0"
        using less.hyps [of "c + n" "P + 1" "out @ take n (drop c S)"] by blast
      moreover have "take n (drop c S) @ take m (drop (c + n) S) = take (n + m) (drop c S)"
        using take_add [of n m "drop c S"] by (simp add: add.commute)
      ultimately show ?thesis
        using step False lt some(2) by (intro exI [of _ r] exI [of _ "n + m"]) auto
    qed
  qed
qed

section \<open>Properties\<close>

text \<open>
  Property C21. On a descriptor that accepts data, \<open>Write\<close> of the log ends, and unless it reports
  Failed the whole message has been written once, in order; a failure leaves a prefix of it. Success
  is reported only when one call was enough.
\<close>

theorem Write_complete:
  assumes "write_ok C_Write" "S \<noteq> []" "int (length S) \<le> Integer_Last"
  shows "\<exists>r n. Write C_Write S out = Some (Inr r, out @ take n S) \<and>
    (r \<noteq> Failed \<longrightarrow> take n S = S) \<and> (r = Success \<longrightarrow> C_Write S out = (word_of_nat (length S), out @ S))"
proof -
  obtain r n where r: "Write_loop C_Write S 0 0 out = Some (Inr r, out @ take n S)"
    "r \<noteq> Failed \<longrightarrow> n = length S"
    using Write_loop_complete [OF assms(1,3), of 0 0 out] assms(2) by auto
  have "C_Write S out = (word_of_nat (length S), out @ S)" if "r = Success"
  proof -
    consider "C_Write S out = (-1, out)"
      | m where "0 < m" "m \<le> length S" "C_Write S out = (word_of_nat m, out @ take m S)"
      using assms(1,2) unfolding write_ok_def by blast
    then show ?thesis
    proof cases
      case 1
      then have "Write_loop C_Write S 0 0 out = Some (Inr Failed, out)"
        using assms(2) by (subst Write_loop.simps) simp
      with r that show ?thesis by simp
    next
      case (2 m)
      show ?thesis
      proof (cases "m = length S")
        case False
        have "int m \<le> Integer_Last" using 2(2) assms(3) by linarith
        then have u: "uint (word_of_nat m :: 64 word) = int m"
          by (simp add: Integer_Last_def unsigned_of_nat take_bit_nat_eq_self)
        have "(word_of_nat m :: 64 word) \<noteq> -1"
          using u 2(1) False r that 2 assms(2) by (auto simp: Write_loop.simps [of C_Write S 0 0 out] split: if_splits)
        then have "Write_loop C_Write S 0 0 out = Write_loop C_Write S 1 (int m) (out @ take m S)"
          using 2 u False assms(2) \<open>int m \<le> Integer_Last\<close> by (subst Write_loop.simps) auto
        moreover have "m < length S" using 2(2) False by linarith
        ultimately show ?thesis
          using Write_loop_complete [OF assms(1,3), of m 1 "out @ take m S"] r that by auto
      qed (use 2 in auto)
    qed
  qed
  with r show ?thesis by (auto simp: Write_def)
qed

definition sample_write :: "string \<Rightarrow> string \<Rightarrow> 64 word \<times> string" where
  "sample_write data out = (word_of_nat (min 3 (length data)), out @ take (min 3 (length data)) data)"

theorem Write_complete_witness:
  "\<exists>r n. Write sample_write ''hello'' [] = Some (Inr r, [] @ take n ''hello'') \<and>
    (r \<noteq> Failed \<longrightarrow> take n ''hello'' = ''hello'') \<and>
    (r = Success \<longrightarrow> sample_write ''hello'' [] = (word_of_nat (length ''hello''), [] @ ''hello''))"
proof (rule Write_complete)
  show "write_ok sample_write"
    by (auto simp: write_ok_def sample_write_def intro!: exI [of _ "min 3 (length data)" for data])
qed (simp_all add: Integer_Last_def)

text \<open>
  From the year 1000 to the year 9999 a time stamp of the log is the text of the current
  time, twenty characters that end in a space, without the NUL that \<open>strftime\<close> stores after it: the
  buffer of twenty-one characters is exactly large enough.
\<close>

theorem Timestamp_text:
  assumes "1000 \<le> tm_year now" "tm_year now < 10000"
  shows "Timestamp True True junk now = time_text now \<and> length (Timestamp True True junk now) = 20"
  using length_time_text [OF assms]
  by (simp add: Timestamp_def PolyORB_timestamp_def strftime_def)

theorem Timestamp_text_witness:
  "Timestamp True True [] \<lparr>tm_year = 2024, tm_mon = 2, tm_mday = 29, tm_hour = 23, tm_min = 5, tm_sec = 7\<rparr>
     = time_text \<lparr>tm_year = 2024, tm_mon = 2, tm_mday = 29, tm_hour = 23, tm_min = 5, tm_sec = 7\<rparr> \<and>
   length (Timestamp True True [] \<lparr>tm_year = 2024, tm_mon = 2, tm_mday = 29, tm_hour = 23, tm_min = 5, tm_sec = 7\<rparr>) = 20"
  by (rule Timestamp_text) simp_all


lemma hndcld_after: "sig g = Some SIGCHLD \<Longrightarrow> hndcld sts g = g"
proof (induction sts)
  case (Cons st sts)
  have eq: "g\<lparr>sig := Some SIGCHLD\<rparr> = g" using Cons.prems by (cases g) simp
  show ?case
    using Cons unfolding hndcld.simps Let_def by (simp only: eq option.distinct simp_thms if_False)
qed simp

lemma hndcld_first:
  "hndcld (st # sts) g = (if sig g = None \<and> WIFEXITED st then g\<lparr>status := st\<rparr> else g)\<lparr>sig := Some SIGCHLD\<rparr>"
  by (simp add: Let_def hndcld_after)

lemma main_loop_waits:
  "sig g = None \<Longrightarrow> main_loop kf g (ds # rest) =
    (let g = fold handle ds g in
     if sig g = Some SIGCHLD then Some [Printf_Terminated (WEXITSTATUS (status g)), Exit (WEXITSTATUS (status g))]
     else main_loop kf g rest)"
  by (subst main_loop.simps) simp




text \<open>
  A request to abort is lost when a child terminates before the launcher looks at it:
  the handler of SIGCHLD overwrites the signal whatever it was, so the launcher reports success with
  exit code 0 and leaves the process group running. The same exit code hides a child that was
  killed by a signal.
\<close>

theorem rungroup_abort_lost:
  assumes "0 < pid"
  shows "rungroup_main 0 pid x kf ([Deliver_TERM, Deliver_CHLD (st # sts)] # rest)
      = Inr (Some [Printf_Terminated 0, Exit 0]) \<and>
    rungroup_main 0 pid x kf ([Deliver_CHLD (Killed s # sts)] # rest)
      = Inr (Some [Printf_Terminated 0, Exit 0])"
  using assms hndcld_first [of st sts "hnd SIGTERM rungroup_init"] hndcld_first [of "Killed s" sts rungroup_init]
  by (simp add: rungroup_main_def main_loop_waits rungroup_init_def hnd_def)

theorem rungroup_abort_lost_witness:
  "rungroup_main 0 42 False False ([Deliver_TERM, Deliver_CHLD [Exited 1]] # [])
      = Inr (Some [Printf_Terminated 0, Exit 0]) \<and>
   rungroup_main 0 42 False False ([Deliver_CHLD [Killed 11]] # [])
      = Inr (Some [Printf_Terminated 0, Exit 0])"
  by (rule rungroup_abort_lost) simp

text \<open>
  Detaching redirects the three standard descriptors to the null device and starts a new
  session, and keeps every other descriptor, the one opened for the purpose included.
\<close>

theorem detach_correct:
  assumes "open_fn ''/dev/null'' p = (fd, p\<lparr>fd_table := (fd_table p)(fd \<mapsto> f)\<rparr>)" "0 \<le> fd"
  shows "session_leader (PolyORB_detach True open_fn p) \<and>
    fd_table (PolyORB_detach True open_fn p) = (fd_table p)(fd \<mapsto> f, 0 \<mapsto> f, 1 \<mapsto> f, 2 \<mapsto> f)"
  using assms by (auto simp: PolyORB_detach_def dup2_def setsid_def)

theorem detach_correct_witness:
  "session_leader (PolyORB_detach True (\<lambda>n p. (3, p\<lparr>fd_table := (fd_table p)(3 \<mapsto> n)\<rparr>)) \<lparr>fd_table = (\<lambda>_. None), session_leader = False\<rparr>) \<and>
   fd_table (PolyORB_detach True (\<lambda>n p. (3, p\<lparr>fd_table := (fd_table p)(3 \<mapsto> n)\<rparr>)) \<lparr>fd_table = (\<lambda>_. None), session_leader = False\<rparr>)
     = (fd_table \<lparr>fd_table = (\<lambda>_. None), session_leader = False\<rparr>)
         (3 \<mapsto> ''/dev/null'', 0 \<mapsto> ''/dev/null'', 1 \<mapsto> ''/dev/null'', 2 \<mapsto> ''/dev/null'')"
  by (rule detach_correct) simp_all

end
