(* ===== verification/Interop.thy ===== *)
theory Interop
  imports Prelude
begin

text \<open>
  The C++ peers of the interoperability tests: the servant and its servers, the static, dynamic and
  one-way clients and the report they print (\<open>src/testsuite/corba/interop/cpp\<close>), and the multicast
  example for TAO (\<open>src/examples/corba/send/interop/tao\<close>).

  The ORB is a parameter. A client calls a \<open>peer\<close>, a function of the target object, the operation,
  its arguments and the state behind it; a server main is the sequence of its ORB calls, of which
  each can raise. CORBA values are tagged; floating point numbers are their IEEE bit patterns and
  object references are numbers.
\<close>

section \<open>Values and operations of the interface \<open>all_types\<close>\<close>

datatype Color = Red | Green | Blue

datatype val =
  Boolean bool | Short "16 word" | Long "32 word" | UShort "16 word" | ULong "32 word"
  | ULongLong "64 word" | Float "32 word" | Double "64 word" | Char char | WChar "16 word"
  | Octet byte | Str string | Enum Color | Fixed string | Seq "val list" | Struct "val list"
  | Union int val | Ref nat | Nil_Ref | AnyV val | Void | NULL

datatype op =
  EchoBoolean | EchoShort | EchoLong | EchoUShort | EchoULong | EchoFloat | EchoDouble | EchoChar
  | EchoOctet | EchoAny | EchoColor | EchoString | EchoUsequence | EchoBsequence | EchoUnionSequence
  | EchoArray | EchoMatrix | EchoBigMatrix | EchoStruct | EchoArrayStruct | EchoNestedStruct
  | EchoUnion | EchoUnionEnumSwitch | EchoNoMemberUnion | Get_Counter | Get_myColor | Set_myColor
  | TestException | TestUnknownException | EchoRef | EchoObject | EchoOtherAllTypes | EchoOtherObject
  | EchoMoney | EchoULLong | EchoWChar | EchoWString | EchoBoundedStr | EchoBoundedWStr | EchoRainbow
  | TestSystemException | EchoNestedArray | EchoSixteenKb | StopServer

section \<open>The servant \<open>all_types_i\<close>\<close>

record all_types_i =
  tmp :: "32 word"
  tmpColor :: Color


datatype servant_result = Ret val | Raise_my_exception "32 word" string | Throw_int int

text \<open>The methods that hand back their argument or a copy of it.\<close>

fun servant_echo :: "op \<Rightarrow> val \<Rightarrow> val option" where
  "servant_echo EchoBoolean arg = Some arg"
| "servant_echo EchoShort arg = Some arg"
| "servant_echo EchoLong arg = Some arg"
| "servant_echo EchoUShort arg = Some arg"
| "servant_echo EchoULong arg = Some arg"
| "servant_echo EchoFloat arg = Some arg"
| "servant_echo EchoDouble arg = Some arg"
| "servant_echo EchoChar arg = Some arg"
| "servant_echo EchoOctet arg = Some arg"
| "servant_echo EchoAny arg = Some arg"
| "servant_echo EchoColor arg = Some arg"
| "servant_echo EchoString arg = Some arg"
| "servant_echo EchoUsequence arg = Some arg"
| "servant_echo EchoBsequence arg = Some arg"
| "servant_echo EchoUnionSequence arg = Some arg"
| "servant_echo EchoArray arg = Some arg"
| "servant_echo EchoMatrix arg = Some arg"
| "servant_echo EchoBigMatrix arg = Some arg"
| "servant_echo EchoStruct arg = Some arg"
| "servant_echo EchoArrayStruct arg = Some arg"
| "servant_echo EchoNestedStruct arg = Some arg"
| "servant_echo EchoUnion arg = Some arg"
| "servant_echo EchoUnionEnumSwitch arg = Some arg"
| "servant_echo EchoNoMemberUnion arg = Some arg"
| "servant_echo EchoRef arg = Some arg"
| "servant_echo EchoObject arg = Some (if arg = Nil_Ref then Nil_Ref else arg)"
| "servant_echo EchoOtherAllTypes arg = Some arg"
| "servant_echo EchoOtherObject arg = Some (if arg = Nil_Ref then Nil_Ref else arg)"
| "servant_echo EchoMoney arg = Some arg"
| "servant_echo EchoULLong arg = Some arg"
| "servant_echo EchoWChar arg = Some arg"
| "servant_echo EchoWString arg = Some NULL"
| "servant_echo EchoBoundedStr arg = Some arg"
| "servant_echo EchoBoundedWStr arg = Some NULL"
| "servant_echo EchoRainbow arg = Some NULL"
| "servant_echo EchoNestedArray arg = Some NULL"
| "servant_echo EchoSixteenKb arg = Some NULL"
| "servant_echo _ arg = None"

text \<open>All methods; a call whose arguments do not fit the method's profile has no equation of the source.\<close>

definition servant :: "op \<Rightarrow> val list \<Rightarrow> all_types_i \<Rightarrow> (servant_result \<times> all_types_i) option" where
  "servant oper args s =
     (case oper of
        Get_Counter \<Rightarrow> (case args of [] \<Rightarrow> let s = s\<lparr>tmp := tmp s + 1\<rparr> in Some (Ret (Long (tmp s)), s) | _ \<Rightarrow> None)
      | Get_myColor \<Rightarrow> (case args of [] \<Rightarrow> Some (Ret (Enum (tmpColor s)), s) | _ \<Rightarrow> None)
      | Set_myColor \<Rightarrow> (case args of [Enum arg] \<Rightarrow> Some (Ret Void, s\<lparr>tmpColor := arg\<rparr>) | _ \<Rightarrow> None)
      | TestException \<Rightarrow> (case args of [Long arg, Str why] \<Rightarrow> Some (Raise_my_exception arg why, s) | _ \<Rightarrow> None)
      | TestUnknownException \<Rightarrow> (case args of [Long arg] \<Rightarrow> Some (Throw_int 666, s) | _ \<Rightarrow> None)
      | TestSystemException \<Rightarrow> (case args of [Long arg] \<Rightarrow> Some (Ret Void, s) | _ \<Rightarrow> None)
      | StopServer \<Rightarrow> (case args of [] \<Rightarrow> Some (Ret Void, s) | _ \<Rightarrow> None)
      | _ \<Rightarrow> (case args of [arg] \<Rightarrow> map_option (\<lambda>v. (Ret v, s)) (servant_echo oper arg) | _ \<Rightarrow> None))"

section \<open>The report\<close>

record report =
  cout :: "string list"
  passed :: bool

definition report_init :: report where
  "report_init = \<lparr>cout = [], passed = True\<rparr>"

definition MAX_LINE :: nat where
  "MAX_LINE = 60"

definition report_line :: "string \<Rightarrow> bool \<Rightarrow> string" where
  "report_line s pass =
     map (\<lambda>i. if i < length s then s ! i else CHR ''.'') [0..<MAX_LINE]
       @ (if pass then '' : PASSED'' else '' : FAILED'')"

definition report_output :: "string \<Rightarrow> bool \<Rightarrow> report \<Rightarrow> report" where
  "report_output s pass r = r\<lparr>cout := cout r @ [report_line s pass], passed := passed r \<and> pass\<rparr>"

definition new_test :: "string \<Rightarrow> report \<Rightarrow> report" where
  "new_test s r = r\<lparr>cout := cout r @ [''==> Begin test '' @ s @ ''<=='']\<rparr>"

definition end_report :: "report \<Rightarrow> report" where
  "end_report r = report_output ''END TESTS'' (passed r) r"

section \<open>The client of the static interface\<close>

datatype exn =
  my_exception "32 word" string | UNKNOWN | COMM_FAILURE | SystemException | CORBA_Exception | Other_Exception

type_synonym 's peer = "val \<Rightarrow> op \<Rightarrow> val list \<Rightarrow> 's \<Rightarrow> (exn + val) \<times> 's"
type_synonym 's session = "report \<times> 's"

definition call :: "'s peer \<Rightarrow> val \<Rightarrow> op \<Rightarrow> val list \<Rightarrow> 's session \<Rightarrow> exn + val \<times> 's session" where
  "call p obj oper args st =
     (case p obj oper args (snd st) of (Inl e, w) \<Rightarrow> Inl e | (Inr v, w) \<Rightarrow> Inr (v, (fst st, w)))"

definition out :: "string \<Rightarrow> bool \<Rightarrow> 's session \<Rightarrow> 's session" where
  "out s pass st = (report_output s pass (fst st), snd st)"

definition echo :: "'s peer \<Rightarrow> val \<Rightarrow> op \<Rightarrow> val \<Rightarrow> string \<Rightarrow> 's session \<Rightarrow> exn + 's session" where
  "echo p obj oper v label st = on_ok (call p obj oper [v] st) (\<lambda>(r, st). Inr (out label (r = v) st))"

definition test_simple :: "'s peer \<Rightarrow> val \<Rightarrow> 's session \<Rightarrow> exn + 's session" where
  "test_simple p obj st =
     on_ok (echo p obj EchoBoolean (Boolean True) ''testing Boolean'' st) (\<lambda>st.
     on_ok (echo p obj EchoShort (Short 123) ''testing Short'' st) (\<lambda>st.
     on_ok (echo p obj EchoLong (Long 456) ''testing Long'' st) (\<lambda>st.
     on_ok (echo p obj EchoUShort (UShort 456) ''testing UShort'' st) (\<lambda>st.
     on_ok (echo p obj EchoULong (ULong 123) ''testing ULong'' st) (\<lambda>st.
     on_ok (echo p obj EchoFloat (Float 0x402CCCCD) ''testing Float'' st) (\<lambda>st.
     on_ok (echo p obj EchoFloat (Float 0x4209A0FF) ''testing Float inval-if-swapped'' st) (\<lambda>st.
     on_ok (echo p obj EchoDouble (Double 0x3FF8000000000000) ''testing Double'' st) (\<lambda>st.
     on_ok (echo p obj EchoChar (Char (CHR ''A'')) ''testing Char'' st) (\<lambda>st.
     on_ok (echo p obj EchoOctet (Octet 5) ''testing Octet'' st) (\<lambda>st.
     echo p obj EchoString (Str ''hello'') ''testing String'' st))))))))))"

fun elements :: "val \<Rightarrow> val list" where
  "elements (Seq xs) = xs"
| "elements (Struct xs) = xs"
| "elements _ = []"

text \<open>The comparison of two sequences: their lengths, then the elements while they are equal.\<close>

fun same_while :: "val list \<Rightarrow> val list \<Rightarrow> bool" where
  "same_while (x # xs) (y # ys) \<longleftrightarrow> x = y \<and> same_while xs ys"
| "same_while [] ys \<longleftrightarrow> True"
| "same_while (x # xs) [] \<longleftrightarrow> False"

definition test_sequences :: "'s peer \<Rightarrow> val \<Rightarrow> 's session \<Rightarrow> exn + 's session" where
  "test_sequences p obj st =
     (let X = map Short [16, 32, 64, 128, 257] in
      on_ok (call p obj EchoUsequence [Seq X] st) (\<lambda>(Y, st).
        let st = out ''testing Sequence'' (length (elements Y) = length X \<and> same_while X (elements Y)) st;
            X = map Short [0, 1, 2, 3, 4]
        in on_ok (call p obj EchoBsequence [Seq X] st) (\<lambda>(Y, st).
             let pass = (length (elements Y) = length X);
                 st = out ''comparing the length'' pass st
             in Inr (out ''testing Bounded Sequence'' (pass \<and> same_while X (elements Y)) st))))"

text \<open>An array comes back with the size of its type.\<close>

definition test_arrays :: "'s peer \<Rightarrow> val \<Rightarrow> 's session \<Rightarrow> exn + 's session" where
  "test_arrays p obj st =
     (let A = map Long [2, 3, 5, 7, 11];
          M = map (\<lambda>row. Seq (map Long row)) [[0xfe, 0xe1, 0x5a], [0xde, 0xad, 0xa5], [0xbe, 0xef, 0x88]];
          B = map (\<lambda>i. Seq (map (\<lambda>j. Long (of_nat ((i + 1) * (j + 2)))) [0..<15])) [0..<30]
      in on_ok (call p obj EchoArray [Seq A] st) (\<lambda>(R, st).
         let st = out ''testing Simple Array'' (take 5 (elements R) = A) st
         in on_ok (call p obj EchoMatrix [Seq M] st) (\<lambda>(R, st).
            let st = out ''testing Matrix'' (take 3 (elements R) = M) st
            in on_ok (call p obj EchoBigMatrix [Seq B] st) (\<lambda>(R, st).
               Inr (out ''testing big matrix'' (take 30 (elements R) = B) st)))))"

definition test_structs :: "'s peer \<Rightarrow> val \<Rightarrow> 's session \<Rightarrow> exn + 's session" where
  "test_structs p obj st =
     (let S = Struct [Long 123, Str ''foobar''];
          A = Struct [Seq (map (\<lambda>i. Long (of_nat (3 * i + 7))) [0..<10]), UShort 12345]
      in on_ok (echo p obj EchoStruct S ''testing Struct'' st) (\<lambda>st.
         echo p obj EchoArrayStruct A ''test array struct'' st))"

text \<open>
  The four unions: the one of the default branch, whose discriminant the ORB chooses, then the
  members Counter, Flag and Hue. The loop stops at the first difference.
\<close>

fun test_unions_loop :: "'s peer \<Rightarrow> val \<Rightarrow> val list \<Rightarrow> 's session \<Rightarrow> exn + bool \<times> 's session" where
  "test_unions_loop p obj [] st = Inr (True, st)"
| "test_unions_loop p obj (u # us) st =
     on_ok (call p obj EchoUnion [u] st) (\<lambda>(c, st).
       if c = u then test_unions_loop p obj us st else Inr (False, st))"

definition test_unions :: "'s peer \<Rightarrow> val \<Rightarrow> int \<Rightarrow> 's session \<Rightarrow> exn + 's session" where
  "test_unions p obj default_d st =
     on_ok (test_unions_loop p obj
        [Union default_d (Long 987), Union 1 (Long 123), Union 2 (Boolean True), Union 3 (Enum Red)] st)
       (\<lambda>(pass, st). Inr (out ''test union'' pass st))"

fun long_val :: "val \<Rightarrow> 32 word" where
  "long_val (Long n) = n"
| "long_val _ = 0"

definition test_attributes :: "'s peer \<Rightarrow> val \<Rightarrow> 's session \<Rightarrow> exn + 's session" where
  "test_attributes p obj st =
     on_ok (call p obj Set_myColor [Enum Green] st) (\<lambda>(_, st).
     on_ok (call p obj Get_myColor [] st) (\<lambda>(c, st).
     let st = out ''test attribute'' (c = Enum Green) st in
     on_ok (call p obj Get_Counter [] st) (\<lambda>(v1, st).
     on_ok (call p obj Get_Counter [] st) (\<lambda>(v2, st).
     Inr (out ''test read-only attribute'' (long_val v2 = long_val v1 + 1) st)))))"

fun repeat_echoRef :: "nat \<Rightarrow> 's peer \<Rightarrow> val \<Rightarrow> val \<Rightarrow> 's session \<Rightarrow> exn + val \<times> 's session" where
  "repeat_echoRef 0 p obj X st = Inr (X, st)"
| "repeat_echoRef (Suc n) p obj X st =
     on_ok (call p obj EchoRef [obj] st) (\<lambda>(X, st). repeat_echoRef n p obj X st)"

definition test_objects :: "'s peer \<Rightarrow> val \<Rightarrow> 's session \<Rightarrow> exn + 's session" where
  "test_objects p obj st =
     on_ok (call p obj EchoRef [obj] st) (\<lambda>(X, st).
     on_ok (echo p X EchoLong (Long 17) ''test self reference'' st) (\<lambda>st.
     on_ok (repeat_echoRef 15 p obj X st) (\<lambda>(X, st).
     on_ok (echo p X EchoLong (Long 1743) ''test self reference constistency'' st) (\<lambda>st.
     on_ok (call p obj EchoOtherAllTypes [X] st) (\<lambda>(X, st).
     on_ok (echo p X EchoLong (Long 176767) ''test self reference typedef'' st) (\<lambda>st.
     on_ok (call p obj EchoRef [obj] st) (\<lambda>(R, st).
     on_ok (call p obj EchoObject [R] st) (\<lambda>(X, st).
     on_ok (echo p X EchoLong (Long 17123) ''test object'' st) (\<lambda>st.
     on_ok (call p obj EchoRef [obj] st) (\<lambda>(R, st).
     on_ok (call p obj EchoOtherObject [R] st) (\<lambda>(X, st).
     echo p X EchoLong (Long 17123) ''test object typedef'' st)))))))))))"

text \<open>A call of \<open>testException\<close> that returns prints no line at all.\<close>

definition test_exceptions :: "'s peer \<Rightarrow> val \<Rightarrow> 's session \<Rightarrow> exn + 's session" where
  "test_exceptions p obj st =
     (let (r, w) = p obj TestException [Long 42, Str ''answer''] (snd st) in
      on_ok (case r of
               Inl (my_exception info why) \<Rightarrow> Inr (out ''test user exception'' (info = 2485) (fst st, w))
             | Inl e \<Rightarrow> Inl e
             | Inr v \<Rightarrow> Inr (fst st, w)) (\<lambda>st.
        let (r, w) = p obj TestUnknownException [Long 1] (snd st) in
        case r of
          Inl UNKNOWN \<Rightarrow> Inr (out ''test unknown exception'' True (fst st, w))
        | Inl e \<Rightarrow> Inl e
        | Inr v \<Rightarrow> Inr (out ''test unknown exception'' False (fst st, w))))"

definition client_test :: "'s peer \<Rightarrow> val \<Rightarrow> int \<Rightarrow> 's session \<Rightarrow> exn + 's session" where
  "client_test p obj default_d st =
     (let st = (new_test ''CORBA Types'' (fst st), snd st);
          st = out ''testing not null'' (obj \<noteq> Nil_Ref) st
      in
      on_ok (test_simple p obj st) (\<lambda>st.
      on_ok (echo p obj EchoColor (Enum Blue) ''testing Enum'' st) (\<lambda>st.
      on_ok (test_sequences p obj st) (\<lambda>st.
      on_ok (test_arrays p obj st) (\<lambda>st.
      on_ok (test_structs p obj st) (\<lambda>st.
      on_ok (test_unions p obj default_d st) (\<lambda>st.
      on_ok (test_attributes p obj st) (\<lambda>st.
      on_ok (test_objects p obj st) (\<lambda>st.
      on_ok (echo p obj EchoMoney (Fixed ''43.21'') ''test fixed point'' st) (\<lambda>st.
      on_ok (test_exceptions p obj st) (\<lambda>st.
      Inr (end_report (fst st), snd st))))))))))))"

text \<open>The main program answers 0 whatever the report says, and 1 only for a bad command line.\<close>

definition client_main :: "'s peer \<Rightarrow> (string \<Rightarrow> exn + val) \<Rightarrow> int \<Rightarrow> string list \<Rightarrow> 's \<Rightarrow> report option \<times> nat" where
  "client_main p string_to_object default_d argv w =
     (if length argv \<noteq> 2 then (None, 1)
      else case string_to_object (argv ! 1) of
        Inl e \<Rightarrow> (None, 0)
      | Inr obj \<Rightarrow>
          if obj = Nil_Ref then (None, 1)
          else case client_test p obj default_d (report_init, w) of
            Inl e \<Rightarrow> (None, 0)
          | Inr (r, w) \<Rightarrow> (Some r, 0))"

section \<open>The client against the servant\<close>

text \<open>
  The reply that the CORBA specification prescribes for the ways a method ends, and the peer that a
  servant reached through such an ORB is.
\<close>

definition orb_documented :: "(servant_result \<Rightarrow> exn + val) \<Rightarrow> bool" where
  "orb_documented orb \<longleftrightarrow>
     (\<forall>v. orb (Ret v) = Inr v) \<and>
     (\<forall>i why. orb (Raise_my_exception i why) = Inl (my_exception i why)) \<and>
     (\<forall>i. orb (Throw_int i) = Inl UNKNOWN)"

definition servant_peer :: "(servant_result \<Rightarrow> exn + val) \<Rightarrow> val \<Rightarrow> all_types_i peer" where
  "servant_peer orb self obj oper args s =
     (if obj = self then
        (case servant oper args s of Some (r, s) \<Rightarrow> (orb r, s) | None \<Rightarrow> (Inl SystemException, s))
      else (Inl SystemException, s))"

definition failed_lines :: "report \<Rightarrow> string list" where
  "failed_lines r = filter (\<lambda>l. drop MAX_LINE l = '' : FAILED'') (cout r)"

lemma drop_report_line [simp]:
  "drop MAX_LINE (report_line s b) = (if b then '' : PASSED'' else '' : FAILED'')"
  by (simp add: report_line_def)

lemma same_while_refl [simp]: "same_while xs xs"
  by (induction xs) auto

lemma failed_lines_out [simp]:
  "failed_lines (fst (out s b st)) = failed_lines (fst st) @ (if b then [] else [report_line s b])"
  "passed (fst (out s b st)) \<longleftrightarrow> passed (fst st) \<and> b" "snd (out s b st) = snd st"
  by (auto simp: failed_lines_def out_def report_output_def)

lemmas orb_simps = orb_documented_def servant_peer_def servant_def call_def echo_def

lemma call_echo [simp]:
  assumes "orb_documented orb" "servant_echo oper v = Some w" 
  shows "call (servant_peer orb self) self oper [v] st = Inr (w, st)"
  using assms by (cases oper) (simp_all add: orb_simps)

lemma echo_echo [simp]:
  assumes "orb_documented orb" "servant_echo oper v = Some w" 
  shows "echo (servant_peer orb self) self oper v label st = Inr (out label (w = v) st)"
  using assms by (simp add: echo_def)

lemma repeat_echoRef_echo [simp]:
  assumes "orb_documented orb"
  shows "repeat_echoRef n (servant_peer orb self) self self st = Inr (self, st)"
  using assms by (induction n arbitrary: st) simp_all

lemma test_unions_loop_echo [simp]:
  assumes "orb_documented orb"
  shows "test_unions_loop (servant_peer orb self) self us st = Inr (True, st)"
  using assms by (induction us arbitrary: st) simp_all




lemma failed_lines_end [simp]:
  "failed_lines (end_report r) = failed_lines r @ (if passed r then [] else [report_line ''END TESTS'' False])"
  "passed (end_report r) = passed r"
  by (auto simp: end_report_def report_output_def failed_lines_def)

lemma failed_lines_start [simp]:
  "failed_lines (new_test ''CORBA Types'' report_init) = []" "passed (new_test s r) = passed r" "passed report_init"
  by (simp_all add: new_test_def failed_lines_def report_init_def MAX_LINE_def)


section \<open>Properties\<close>




end
