(* ===== verification/Interop_Peers.thy ===== *)
theory Interop_Peers
  imports Interop
begin

text \<open>
  The other C++ peers: the dynamic servants (\<open>all_types_dynserver.cc\<close>, \<open>dynserver_mt_TAO.cc\<close>), the
  dynamic client (\<open>all_types_dynclient.cc\<close>), the client of one-way calls (\<open>all_functions_client.cc\<close>),
  the main programs of the servers, and the multicast example for TAO (\<open>Printer.h\<close>, \<open>Printer.cpp\<close>,
  \<open>send.cpp\<close>, \<open>listener.cpp\<close>).

  The server request of the dynamic skeleton interface is a record of what the servant reads from it
  and sets in it. A main program is the list of its calls to the ORB; \<open>orb_call\<close> answers whether one
  returns or raises.
\<close>

section \<open>Dynamic servants\<close>

datatype orb_flavour = TAO | OMNIORB | MICO

datatype sys_exn = BAD_OPERATION | UNKNOWN_E | Other_System

record server_request =
  operation :: string
  argument :: val
  result :: "val option"
  exception :: "sys_exn option"
  log :: "string list"

definition type_matches :: "string \<Rightarrow> bool" where
  "type_matches arg \<longleftrightarrow>
     arg = ''IDL:all_types:1.0'' \<or> arg = ''IDL:omg.org/CORBA/Object:1.0'' \<or> arg = ''''"

text \<open>
  The body of the \<open>try\<close> block: \<open>Inl\<close> is an exception of a system type, raised by the servant or, for an
  argument of another type, by the extraction operator's users.
\<close>

definition invoke_body :: "server_request \<Rightarrow> sys_exn + server_request" where
  "invoke_body request =
     (if operation request = ''_is_a'' then
        (case argument request of
           Str arg \<Rightarrow> Inr (request\<lparr>result := Some (Boolean (type_matches arg))\<rparr>)
         | _ \<Rightarrow> Inl Other_System)
      else if operation request = ''echoULong'' then
        (case argument request of
           ULong x \<Rightarrow> Inr (request\<lparr>result := Some (ULong x)\<rparr>)
         | _ \<Rightarrow> Inl Other_System)
      else Inl BAD_OPERATION)"

definition MyDynImpl_invoke :: "orb_flavour \<Rightarrow> server_request \<Rightarrow> server_request" where
  "MyDynImpl_invoke flavour request =
     (case invoke_body request of
        Inr request \<Rightarrow> request
      | Inl ex \<Rightarrow>
          let request =
                (if ex = BAD_OPERATION
                 then request\<lparr>log := log request @ [''bad operation :'' @ operation request]\<rparr> else request);
              request = request\<lparr>log := log request @ [''MyDynImpl::invoke - caught an system exception.'']\<rparr>
          in if flavour = OMNIORB \<or> flavour = MICO then request\<lparr>exception := Some ex\<rparr> else request)"

definition MyDynImpl_mt_invoke :: "server_request \<Rightarrow> server_request" where
  "MyDynImpl_mt_invoke request =
     (case invoke_body request of
        Inr request \<Rightarrow> request
      | Inl ex \<Rightarrow> request\<lparr>log := log request @ [''I'' @ [CHR 0x27] @ ''ll be back'']\<rparr>)"

definition primary_interface :: string where
  "primary_interface = ''IDL:all_types:1.0''"

section \<open>Main programs of the servers\<close>

datatype orb_step =
  ORB_init | Resolve_RootPOA | Narrow_POA | New_Servant | Activate_Object | Servant_This | Id_To_Reference
  | Object_To_String | Remove_Ref | The_POAManager | Manager_Activate | ORB_run | Activate_Workers | Wait_Workers
  | Resolve_Initial | Read_Group_URL | String_To_Object | Create_Id | Activate_With_Id | Print_Object_IOR
  | POA_Destroy | ORB_Destroy

text \<open>The calls in order, up to the first that raises; the second result is whether all returned.\<close>

fun run_steps :: "(orb_step \<Rightarrow> 's \<Rightarrow> bool \<times> 's) \<Rightarrow> orb_step list \<Rightarrow> 's \<Rightarrow> orb_step list \<times> bool \<times> 's" where
  "run_steps orb_call [] s = ([], True, s)"
| "run_steps orb_call (c # cs) s =
     (case orb_call c s of
        (False, s) \<Rightarrow> ([c], False, s)
      | (True, s) \<Rightarrow> (case run_steps orb_call cs s of (done, ok, s) \<Rightarrow> (c # done, ok, s)))"

definition static_server_steps :: "orb_step list" where
  "static_server_steps =
     [ORB_init, Resolve_RootPOA, Narrow_POA, New_Servant, Activate_Object, Servant_This, Object_To_String,
      Remove_Ref, The_POAManager, Manager_Activate, ORB_run]"

definition dyn_server_steps :: "orb_step list" where
  "dyn_server_steps =
     [ORB_init, Resolve_RootPOA, Narrow_POA, New_Servant, Activate_Object, Id_To_Reference, Object_To_String,
      Remove_Ref, The_POAManager, Manager_Activate, ORB_run]"

definition dyn_mt_server_steps :: "orb_step list" where
  "dyn_mt_server_steps =
     [ORB_init, Resolve_RootPOA, Narrow_POA, New_Servant, Activate_Object, Id_To_Reference, Object_To_String,
      Remove_Ref, The_POAManager, Manager_Activate]"

text \<open>Every exception is caught and reported, and the exit status is EXIT_SUCCESS all the same.\<close>

definition server_main ::
  "string \<Rightarrow> orb_step list \<Rightarrow> (orb_step \<Rightarrow> 's \<Rightarrow> bool \<times> 's) \<Rightarrow> 's \<Rightarrow> orb_step list \<times> string list \<times> nat" where
  "server_main msg steps orb_call s =
     (case run_steps orb_call steps s of
        (done, ok, s) \<Rightarrow> (done, if ok then [] else [msg], 0))"

definition static_server_main where
  "static_server_main = server_main ''fatal error : exception reached by ther server'' static_server_steps"

definition dyn_server_main where
  "dyn_server_main = server_main ''fatal error : exception raised by the server'' dyn_server_steps"

text \<open>\<open>activate\<close> of the workers answers a status; the main waits for them when it is 0.\<close>

definition dyn_mt_server_main ::
  "(orb_step \<Rightarrow> 's \<Rightarrow> bool \<times> 's) \<Rightarrow> (nat \<Rightarrow> 's \<Rightarrow> int \<times> 's) \<Rightarrow> 's \<Rightarrow> orb_step list \<times> string list \<times> nat" where
  "dyn_mt_server_main orb_call activate s =
     (case run_steps orb_call dyn_mt_server_steps s of
        (done, False, s) \<Rightarrow> (done, [''fatal error : exception raised by the server''], 0)
      | (done, True, s) \<Rightarrow>
          (case activate 4 s of
             (st, s) \<Rightarrow>
               if st \<noteq> 0 then (done @ [Activate_Workers], [''Cannot activate client threads''], 1)
               else (case run_steps orb_call [Wait_Workers] s of
                       (w, ok, s) \<Rightarrow> (done @ [Activate_Workers] @ w,
                         if ok then [] else [''fatal error : exception raised by the server''], 0))))"

text \<open>A worker runs the ORB and drops what it raises.\<close>

definition Worker_svc :: "('s \<Rightarrow> bool \<times> 's) \<Rightarrow> 's \<Rightarrow> nat \<times> 's" where
  "Worker_svc orb_run s = (0, snd (orb_run s))"

section \<open>The dynamic client\<close>

text \<open>
  The loop of a thousand requests. A request answers the number of user exceptions it carries and the
  value returned; a request that carries one ends the test without a report.
\<close>

fun dyn_test_loop :: "(32 word \<Rightarrow> 's \<Rightarrow> nat \<times> 32 word \<times> 's) \<Rightarrow> nat \<Rightarrow> bool \<Rightarrow> 's \<Rightarrow> (bool \<times> 's) option" where
  "dyn_test_loop request 0 Pass s = Some (Pass, s)"
| "dyn_test_loop request (Suc n) Pass s =
     (case request 234 s of
        (exceptions, ret1, s) \<Rightarrow>
          if exceptions > 0 then None else dyn_test_loop request n (Pass \<and> ret1 = 234) s)"

definition dyn_client_test :: "(32 word \<Rightarrow> 's \<Rightarrow> nat \<times> 32 word \<times> 's) \<Rightarrow> 's \<Rightarrow> report option" where
  "dyn_client_test request s =
     map_option (\<lambda>(Pass, s). end_report (report_output ''testing ULong (1000 times)'' Pass report_init))
       (dyn_test_loop request 1000 True s)"

definition dyn_client_main ::
  "(string \<Rightarrow> (32 word \<Rightarrow> 's \<Rightarrow> nat \<times> 32 word \<times> 's) option) \<Rightarrow> string list \<Rightarrow> 's \<Rightarrow> report option \<times> nat" where
  "dyn_client_main string_to_object argv s =
     (if length argv \<noteq> 2 then (None, 1)
      else case string_to_object (argv ! 1) of
        None \<Rightarrow> (None, 1)
      | Some request \<Rightarrow> (dyn_client_test request s, 0))"

section \<open>The client of one-way calls\<close>

datatype af_outcome = Undefined_Behaviour | Exit_Failure | Reported report

text \<open>A wrong number of arguments prints the usage and goes on; \<open>argv[1]\<close> is then read all the same.\<close>

definition all_functions_client ::
  "string list \<Rightarrow> (string \<Rightarrow> bool) \<Rightarrow> (nat \<Rightarrow> 32 word) \<Rightarrow> af_outcome" where
  "all_functions_client argv reachable oneway_checker =
     (if length argv < 2 then Undefined_Behaviour
      else if \<not> reachable (argv ! 1) then Exit_Failure
      else
        let ok = (oneway_checker 1 = 1);
            ok = (if ok then oneway_checker 6 = 2 else ok);
            r = new_test ''Different invocation modes'' report_init
        in Reported (end_report (report_output ''test void one way procedure'' ok r)))"

section \<open>The multicast example\<close>

record Printer =
  instance_no :: int
  printed :: "string list"

definition Printer_new :: "int \<Rightarrow> Printer" where
  "Printer_new n = \<lparr>instance_no = n, printed = []\<rparr>"

definition Printer_printLong :: "(int \<Rightarrow> string) \<Rightarrow> 32 word \<Rightarrow> Printer \<Rightarrow> Printer" where
  "Printer_printLong img K p = p\<lparr>printed := printed p @ [''Received Long : '' @ img (sint K)]\<rparr>"

definition Printer_printString :: "string \<Rightarrow> Printer \<Rightarrow> Printer" where
  "Printer_printString Msg p = p\<lparr>printed := printed p @ [''Received String : '' @ Msg]\<rparr>"

definition Printer_echoLong :: "(int \<Rightarrow> string) \<Rightarrow> 32 word \<Rightarrow> Printer \<Rightarrow> 32 word \<times> Printer" where
  "Printer_echoLong img K p = (K, p\<lparr>printed := printed p @ [''Echo Long : '' @ img (sint K)]\<rparr>)"

text \<open>
  \<open>strcpy\<close> copies the characters and the NUL into a block; None is a write past the end of it.
\<close>

definition strcpy :: "nat \<Rightarrow> string \<Rightarrow> string option" where
  "strcpy room src = (if length src + 1 \<le> room then Some (src @ [CHR 0x00]) else None)"

definition Printer_echoString :: "string \<Rightarrow> Printer \<Rightarrow> string option \<times> Printer" where
  "Printer_echoString Msg p =
     (let room = length Msg;
          p = p\<lparr>printed := printed p @ [''Echo String : '' @ Msg]\<rparr>
      in (strcpy room Msg, p))"

datatype send_mode = S | L | TWS | TWL

text \<open>A third argument that is no mode falls through to the usage message.\<close>

definition send_mode_of :: "string list \<Rightarrow> send_mode option" where
  "send_mode_of argv =
     (if length argv = 2 then Some S
      else if length argv = 3 then
        (if argv ! 2 = ''s'' then Some S
         else if argv ! 2 = ''l'' then Some L
         else if argv ! 2 = ''tws'' then Some TWS
         else if argv ! 2 = ''twl'' then Some TWL
         else None)
      else None)"

definition STR_TEST :: string where
  "STR_TEST = ''Hello multicast world !''"

record 's printer_ref =
  ref_printString :: "string \<Rightarrow> 's \<Rightarrow> bool \<times> 's"
  ref_printLong :: "32 word \<Rightarrow> 's \<Rightarrow> bool \<times> 's"
  ref_echoString :: "string \<Rightarrow> 's \<Rightarrow> string option \<times> 's"
  ref_echoLong :: "32 word \<Rightarrow> 's \<Rightarrow> 32 word option \<times> 's"

text \<open>The calls on the reference answer whether they returned, or what; an exception makes the exit status 1.\<close>

definition send_main :: "(string \<Rightarrow> 's printer_ref option) \<Rightarrow> string list \<Rightarrow> 's \<Rightarrow> string list \<times> nat \<times> 's" where
  "send_main string_to_printer argv s =
     (case send_mode_of argv of
        None \<Rightarrow> ([''usage''], 1, s)
      | Some curr_mode \<Rightarrow>
          (case string_to_printer (argv ! 1) of
             None \<Rightarrow> ([''Nil Test::Printer reference''], 1, s)
           | Some p \<Rightarrow>
               (case curr_mode of
                  S \<Rightarrow> (case ref_printString p STR_TEST s of (ok, s) \<Rightarrow> ([], if ok then 0 else 1, s))
                | L \<Rightarrow> (case ref_printLong p 42 s of (ok, s) \<Rightarrow> ([], if ok then 0 else 1, s))
                | TWS \<Rightarrow> (case ref_echoString p STR_TEST s of
                    (None, s) \<Rightarrow> ([], 1, s)
                  | (Some str, s) \<Rightarrow> (if str \<noteq> STR_TEST then [''Echo string failed''] else [], 0, s))
                | TWL \<Rightarrow> (case ref_echoLong p 42 s of
                    (None, s) \<Rightarrow> ([], 1, s)
                  | (Some l, s) \<Rightarrow> (if l \<noteq> 42 then [''Echo long failed''] else [], 0, s)))))"

text \<open>
  The loop that reads the URL of the group: characters up to the first that is not above 32, or the
  end of the file, go into \<open>groupURL\<close>, an array of 1000; None is a write past its end.
\<close>

fun read_groupURL :: "string \<Rightarrow> string \<Rightarrow> string option" where
  "read_groupURL input groupURL =
     (case input of
        k # rest \<Rightarrow>
          if 32 < (of_char k :: nat)
          then (if length groupURL < 1000 then read_groupURL rest (groupURL @ [k]) else None)
          else (if length groupURL < 1000 then Some groupURL else None)
      | [] \<Rightarrow> (if length groupURL < 1000 then Some groupURL else None))"

declare read_groupURL.simps [simp del]

definition listener_args :: "string list \<Rightarrow> bool option" where
  "listener_args argv =
     (if length argv = 1 then Some False
      else if length argv = 2 \<and> argv ! 1 = ''-v'' then Some True
      else None)"

datatype listener_outcome = Listener_Exit nat "string list" | Listener_Overflow

definition listener_main ::
  "(orb_step \<Rightarrow> 's \<Rightarrow> bool \<times> 's) \<Rightarrow> bool \<Rightarrow> string option \<Rightarrow> string list \<Rightarrow> 's \<Rightarrow> listener_outcome" where
  "listener_main orb_call nil_root groupURL_file argv s =
     (case run_steps orb_call
        ([ORB_init, Resolve_RootPOA, Narrow_POA] @ (if nil_root then [] else [The_POAManager])) s of
        (_, False, s) \<Rightarrow> Listener_Exit 1 [''Exception caught:'']
      | (_, True, s) \<Rightarrow>
          if nil_root then Listener_Exit 1 ['' (%P|%t) Panic: nil RootPOA'']
          else
          (case listener_args argv of
             None \<Rightarrow> Listener_Exit 1 [''usage'']
           | Some print_ior \<Rightarrow>
               (case groupURL_file of
                  None \<Rightarrow> Listener_Exit 1 [''Cannot open intput file for reading IOR: groupURL'']
                | Some input \<Rightarrow>
                    (case read_groupURL input [] of
                       None \<Rightarrow> Listener_Overflow
                     | Some ior \<Rightarrow>
                         (case run_steps orb_call [String_To_Object] s of
                            (_, False, s) \<Rightarrow> Listener_Exit 1 [''Exception caught:'']
                          | (_, True, s) \<Rightarrow>
                              let printed = [''Group IOR : '' @ ior] in
                              (case run_steps orb_call
                                 ([Create_Id, Activate_With_Id] @ (if print_ior then [Print_Object_IOR] else [])
                                   @ [Manager_Activate, ORB_run, POA_Destroy, ORB_Destroy]) s of
                                 (_, ok, s) \<Rightarrow>
                                   if ok then Listener_Exit 0 printed
                                   else Listener_Exit 1 (printed @ [''Exception caught:''])))))))"

section \<open>Properties\<close>

lemma run_steps_prefix:
  "run_steps orb_call cs s = (done, ok, s') \<Longrightarrow>
    (if ok then done = cs else \<exists>n < length cs. done = take (Suc n) cs)"
proof (induction cs arbitrary: s "done" ok s')
  case (Cons c cs)
  show ?case
  proof (cases "orb_call c s")
    case (Pair b s1)
    obtain done' ok' s2 where r: "run_steps orb_call cs s1 = (done', ok', s2)" by (metis prod_cases3)
    then show ?thesis
      using Cons.IH [OF r] Cons.prems Pair by (cases b) (auto split: if_splits intro: exI [of _ 0])
  qed
qed auto

lemma read_groupURL_takeWhile:
  "length acc \<le> 1000 \<Longrightarrow> read_groupURL input acc =
    (if length (acc @ takeWhile (\<lambda>k. 32 < (of_char k :: nat)) input) < 1000
     then Some (acc @ takeWhile (\<lambda>k. 32 < (of_char k :: nat)) input) else None)"
proof (induction input arbitrary: acc)
  case Nil
  then show ?case by (subst read_groupURL.simps) simp
next
  case (Cons k rest)
  then show ?case by (subst read_groupURL.simps) (auto simp: Cons.IH)
qed

text \<open>
  Property C30. The dynamic servant answers \<open>_is_a\<close> and \<open>echoULong\<close> with a result on every ORB. An
  operation it does not implement is answered with BAD_OPERATION with omniORB and MICO; the builds
  for TAO, single- and multi-threaded, set neither a result nor an exception.
\<close>

theorem MyDynImpl_invoke_correct:
  assumes "result req = None" "exception req = None"
  shows "(operation req = ''_is_a'' \<and> argument req = Str t \<longrightarrow>
      result (MyDynImpl_invoke f req) = Some (Boolean (t \<in> {primary_interface, ''IDL:omg.org/CORBA/Object:1.0'', []})) \<and>
      exception (MyDynImpl_invoke f req) = None) \<and>
    (operation req = ''echoULong'' \<and> argument req = ULong x \<longrightarrow>
      result (MyDynImpl_invoke f req) = Some (ULong x) \<and> exception (MyDynImpl_invoke f req) = None) \<and>
    (operation req \<notin> {''_is_a'', ''echoULong''} \<longrightarrow>
      result (MyDynImpl_invoke f req) = None \<and>
      exception (MyDynImpl_invoke f req) = (if f = TAO then None else Some BAD_OPERATION) \<and>
      result (MyDynImpl_mt_invoke req) = None \<and> exception (MyDynImpl_mt_invoke req) = None)"
  using assms
  by (cases f) (auto simp: MyDynImpl_invoke_def MyDynImpl_mt_invoke_def invoke_body_def type_matches_def
      primary_interface_def Let_def)

theorem MyDynImpl_invoke_correct_witness:
  "exception (MyDynImpl_invoke TAO \<lparr>operation = ''echoLong'', argument = Long 1, result = None, exception = None, log = []\<rparr>) = None \<and>
   exception (MyDynImpl_invoke MICO \<lparr>operation = ''echoLong'', argument = Long 1, result = None, exception = None, log = []\<rparr>) = Some BAD_OPERATION"
  using MyDynImpl_invoke_correct [of "\<lparr>operation = ''echoLong'', argument = Long 1, result = None, exception = None, log = []\<rparr>" _ TAO]
    MyDynImpl_invoke_correct [of "\<lparr>operation = ''echoLong'', argument = Long 1, result = None, exception = None, log = []\<rparr>" _ MICO]
  by simp

text \<open>
  The listener reads the group URL as the characters before the first blank when there
  are fewer than 1000 of them, and writes past the end of its buffer otherwise.
\<close>

theorem read_groupURL_correct:
  "read_groupURL input [] =
    (let url = takeWhile (\<lambda>k. 32 < (of_char k :: nat)) input in if length url < 1000 then Some url else None)"
  using read_groupURL_takeWhile [of "[]" input] by (simp add: Let_def)

text \<open>
  \<open>echoString\<close> of the multicast example writes past the end of the block that it
  allocates, whatever the message: the block has no room for the terminating NUL.
\<close>

theorem Printer_echoString_overflows:
  "fst (Printer_echoString Msg p) = None"
  by (simp add: Printer_echoString_def strcpy_def)

end
