(* ===== verification/Rw_Locks.thy ===== *)
theory Rw_Locks
  imports Prelude
begin

text \<open>
  PolyORB.Tasking.Rw_Locks (\<open>src/src/polyorb-tasking-rw_locks.adb\<close>): locks with many readers or one
  writer, on one mutex for all locks (\<open>All_Rw_Locks\<close>) and a condition variable for each lock. The
  code between \<open>Enter\<close> and \<open>Leave\<close> or \<open>Wait\<close>, and from the return of \<open>Wait\<close> to the next of them, is
  one step of the transition system; \<open>Broadcast\<close> wakes all tasks that wait, and a task may also wake
  up without it.
\<close>

section \<open>The lock\<close>

record Rw_Lock_Type =
  Readers_Waiting :: int
  Writers_Waiting :: int
  Serial :: int
  Count :: int
  Max_Count :: int

definition New_Rw_Lock :: Rw_Lock_Type where
  "New_Rw_Lock = \<lparr>Readers_Waiting = 0, Writers_Waiting = 0, Serial = 0, Count = 0, Max_Count = Integer_Last\<rparr>"

text \<open>\<open>Create\<close>, with the counter of the package.\<close>

definition Create :: "int \<Rightarrow> (int \<times> Rw_Lock_Type) result" where
  "Create Rw_Lock_Counter = on_ok (to_Natural (Rw_Lock_Counter + 1)) (\<lambda>c. Inr (c, New_Rw_Lock\<lparr>Serial := c\<rparr>))"

definition Is_Set_R :: "Rw_Lock_Type \<Rightarrow> bool" where
  "Is_Set_R L \<longleftrightarrow> Count L > 0"

definition Is_Set_W :: "Rw_Lock_Type \<Rightarrow> bool" where
  "Is_Set_W L \<longleftrightarrow> Count L = -1"

text \<open>
  The state of the package: whether the mutex \<open>All_Rw_Locks\<close> is held, and a lock. \<open>Enter\<close> on a mutex
  that is held does not return.
\<close>

record Rw_State =
  All_Rw_Locks :: bool
  the_lock :: Rw_Lock_Type

definition Enter :: "Rw_State \<Rightarrow> Rw_State option" where
  "Enter S = (if All_Rw_Locks S then None else Some (S\<lparr>All_Rw_Locks := True\<rparr>))"

definition Leave :: "Rw_State \<Rightarrow> Rw_State" where
  "Leave S = S\<lparr>All_Rw_Locks := False\<rparr>"

text \<open>
  What a task does at the head of a waiting loop: it gets the lock, or it counts itself among the waiting
  tasks and waits, which releases the mutex. A check of the language that fails leaves the mutex held.
\<close>

datatype attempt = Got | Waits

definition Lock_W_loop :: "Rw_State \<Rightarrow> attempt result \<times> Rw_State" where
  "Lock_W_loop S = (let L = the_lock S in
     if Count L \<noteq> 0
     then (case to_Natural (Writers_Waiting L + 1) of
         Inl e \<Rightarrow> (Inl e, S)
       | Inr n \<Rightarrow> (Inr Waits, Leave (S\<lparr>the_lock := L\<lparr>Writers_Waiting := n\<rparr>\<rparr>)))
     else (Inr Got, Leave (S\<lparr>the_lock := L\<lparr>Count := -1\<rparr>\<rparr>)))"

definition Lock_W :: "Rw_State \<Rightarrow> (attempt result \<times> Rw_State) option" where
  "Lock_W S = map_option Lock_W_loop (Enter S)"

text \<open>After \<open>Wait\<close> has returned, with the mutex held again.\<close>

definition Lock_W_resume :: "Rw_State \<Rightarrow> (attempt result \<times> Rw_State) option" where
  "Lock_W_resume S = map_option (\<lambda>S. let L = the_lock S in
     case to_Natural (Writers_Waiting L - 1) of
       Inl e \<Rightarrow> (Inl e, S)
     | Inr n \<Rightarrow> Lock_W_loop (S\<lparr>the_lock := L\<lparr>Writers_Waiting := n\<rparr>\<rparr>)) (Enter S)"

definition read_guard :: "Rw_Lock_Type \<Rightarrow> bool" where
  "read_guard L \<longleftrightarrow> Count L \<ge> 0 \<and> Count L < Max_Count L \<and> Writers_Waiting L = 0"

definition Lock_R_loop :: "Rw_State \<Rightarrow> attempt result \<times> Rw_State" where
  "Lock_R_loop S = (let L = the_lock S in
     if \<not> read_guard L
     then (case to_Natural (Readers_Waiting L + 1) of
         Inl e \<Rightarrow> (Inl e, S)
       | Inr n \<Rightarrow> (Inr Waits, Leave (S\<lparr>the_lock := L\<lparr>Readers_Waiting := n\<rparr>\<rparr>)))
     else (case to_Integer (Count L + 1) of
         Inl e \<Rightarrow> (Inl e, S)
       | Inr n \<Rightarrow> (Inr Got, Leave (S\<lparr>the_lock := L\<lparr>Count := n\<rparr>\<rparr>))))"

definition Lock_R :: "Rw_State \<Rightarrow> (attempt result \<times> Rw_State) option" where
  "Lock_R S = map_option Lock_R_loop (Enter S)"

definition Lock_R_resume :: "Rw_State \<Rightarrow> (attempt result \<times> Rw_State) option" where
  "Lock_R_resume S = map_option (\<lambda>S. let L = the_lock S in
     case to_Natural (Readers_Waiting L - 1) of
       Inl e \<Rightarrow> (Inl e, S)
     | Inr n \<Rightarrow> Lock_R_loop (S\<lparr>the_lock := L\<lparr>Readers_Waiting := n\<rparr>\<rparr>)) (Enter S)"

text \<open>Both release operations raise before they leave the mutex.\<close>

definition Unlock_W :: "Rw_State \<Rightarrow> (unit result \<times> Rw_State) option" where
  "Unlock_W S = map_option (\<lambda>S. let L = the_lock S in
     if Count L \<noteq> -1 then (Inl Program_Error, S)
     else (Inr (), Leave (S\<lparr>the_lock := L\<lparr>Count := 0\<rparr>\<rparr>))) (Enter S)"

definition Unlock_R :: "Rw_State \<Rightarrow> (unit result \<times> Rw_State) option" where
  "Unlock_R S = map_option (\<lambda>S. let L = the_lock S in
     if Count L \<le> 0 then (Inl Program_Error, S)
     else (Inr (), Leave (S\<lparr>the_lock := L\<lparr>Count := Count L - 1\<rparr>\<rparr>))) (Enter S)"

definition Set_Max_Count :: "Rw_State \<Rightarrow> int \<Rightarrow> Rw_State option" where
  "Set_Max_Count S M = map_option (\<lambda>S. Leave (S\<lparr>the_lock := (the_lock S)\<lparr>Max_Count := M\<rparr>\<rparr>)) (Enter S)"

section \<open>Tasks\<close>

datatype task = Idle | W_Asleep | W_Awake | R_Asleep | R_Awake | Reading | Writing

fun wake :: "task \<Rightarrow> task" where
  "wake W_Asleep = W_Awake"
| "wake R_Asleep = R_Awake"
| "wake t = t"

text \<open>A task of the system waits, or has the lock, after an attempt.\<close>

fun after_W :: "attempt \<Rightarrow> task" where
  "after_W Got = Writing" | "after_W Waits = W_Asleep"

fun after_R :: "attempt \<Rightarrow> task" where
  "after_R Got = Reading" | "after_R Waits = R_Asleep"

text \<open>The tasks release what they have; \<open>Max_Count\<close> is a \<open>Natural\<close>.\<close>

inductive rw_step :: "Rw_State \<times> (nat \<Rightarrow> task) \<Rightarrow> Rw_State \<times> (nat \<Rightarrow> task) \<Rightarrow> bool" where
  lock_W: "ts t = Idle \<Longrightarrow> Lock_W S = Some (Inr a, S') \<Longrightarrow> rw_step (S, ts) (S', ts(t := after_W a))"
| lock_R: "ts t = Idle \<Longrightarrow> Lock_R S = Some (Inr a, S') \<Longrightarrow> rw_step (S, ts) (S', ts(t := after_R a))"
| resume_W: "ts t = W_Awake \<Longrightarrow> Lock_W_resume S = Some (Inr a, S') \<Longrightarrow> rw_step (S, ts) (S', ts(t := after_W a))"
| resume_R: "ts t = R_Awake \<Longrightarrow> Lock_R_resume S = Some (Inr a, S') \<Longrightarrow> rw_step (S, ts) (S', ts(t := after_R a))"
| unlock_W: "ts t = Writing \<Longrightarrow> Unlock_W S = Some (Inr (), S') \<Longrightarrow> rw_step (S, ts) (S', (wake \<circ> ts)(t := Idle))"
| unlock_R: "ts t = Reading \<Longrightarrow> Unlock_R S = Some (Inr (), S') \<Longrightarrow> rw_step (S, ts) (S', (wake \<circ> ts)(t := Idle))"
| set_max: "to_Natural m = Inr n \<Longrightarrow> Set_Max_Count S n = Some S' \<Longrightarrow> rw_step (S, ts) (S', wake \<circ> ts)"
| spurious: "rw_step (S, ts) (S, ts(t := wake (ts t)))"

inductive rw_reach :: "Rw_State \<times> (nat \<Rightarrow> task) \<Rightarrow> Rw_State \<times> (nat \<Rightarrow> task) \<Rightarrow> bool" where
  rw_refl: "rw_reach s s"
| rw_step: "rw_reach s t \<Longrightarrow> rw_step t u \<Longrightarrow> rw_reach s u"

section \<open>Counting tasks\<close>

definition tally :: "(task \<Rightarrow> bool) \<Rightarrow> (nat \<Rightarrow> task) \<Rightarrow> int" where
  "tally P ts = int (card {t. P (ts t)})"

definition waits_W :: "task \<Rightarrow> bool" where "waits_W t \<longleftrightarrow> t = W_Asleep \<or> t = W_Awake"
definition waits_R :: "task \<Rightarrow> bool" where "waits_R t \<longleftrightarrow> t = R_Asleep \<or> t = R_Awake"

definition few :: "(nat \<Rightarrow> task) \<Rightarrow> bool" where
  "few ts \<longleftrightarrow> finite {t. ts t \<noteq> Idle}"

lemma few_finite: "few ts \<Longrightarrow> \<not> P Idle \<Longrightarrow> finite {t. P (ts t)}"
  unfolding few_def by (erule rev_finite_subset) auto

lemma few_upd [simp]: "few ts \<Longrightarrow> few (ts(t := x))"
  unfolding few_def by (rule finite_subset [of _ "insert t {t. ts t \<noteq> Idle}"]) auto

lemma wake_iff [simp]:
  "wake x = Idle \<longleftrightarrow> x = Idle" "wake x = Reading \<longleftrightarrow> x = Reading" "wake x = Writing \<longleftrightarrow> x = Writing"
  "waits_W (wake x) \<longleftrightarrow> waits_W x" "waits_R (wake x) \<longleftrightarrow> waits_R x" "wake x \<noteq> W_Asleep" "wake x \<noteq> R_Asleep"
  by (cases x; simp add: waits_W_def waits_R_def)+

lemma few_wake [simp]: "few ts \<Longrightarrow> few (wake \<circ> ts)"
  by (simp add: few_def)

lemma tally_upd:
  assumes "few ts" "\<not> P Idle"
  shows "tally P (ts(a := x)) = tally P ts + of_bool (P x) - of_bool (P (ts a))"
proof -
  let ?A = "{t. P (ts t)}"
  have fin: "finite ?A" using assms by (rule few_finite)
  have "{t. P ((ts(a := x)) t)} = (if P x then insert a ?A else ?A - {a})" by auto
  moreover have "card ?A > 0" if "P (ts a)" using that fin by (auto simp: card_gt_0_iff)
  ultimately show ?thesis
    using fin by (auto simp: tally_def card_insert_if card_Diff_singleton_if of_nat_diff Suc_le_eq)
qed

lemma tally_wake: "(\<And>x. P (wake x) = P x) \<Longrightarrow> tally P (wake \<circ> ts) = tally P ts"
  by (simp add: tally_def)

lemma tally_pos: "few ts \<Longrightarrow> \<not> P Idle \<Longrightarrow> P (ts t) \<Longrightarrow> tally P ts > 0"
  using few_finite [of ts P] by (auto simp: tally_def card_gt_0_iff)

lemma tally_nonneg [simp]: "0 \<le> tally P ts"
  by (simp add: tally_def)

lemma tally_Suc [simp]: "tally P ts + 1 \<noteq> 0"
  by (simp add: tally_def)

section \<open>Invariant\<close>

definition owned :: "Rw_Lock_Type \<Rightarrow> (nat \<Rightarrow> task) \<Rightarrow> bool" where
  "owned L ts \<longleftrightarrow> -1 \<le> Count L \<and> tally (\<lambda>x. x = Writing) ts = of_bool (Count L = -1) \<and>
     tally (\<lambda>x. x = Reading) ts = (if Count L = -1 then 0 else Count L)"

definition waiting_counted :: "Rw_Lock_Type \<Rightarrow> (nat \<Rightarrow> task) \<Rightarrow> bool" where
  "waiting_counted L ts \<longleftrightarrow> Writers_Waiting L = tally waits_W ts \<and> Readers_Waiting L = tally waits_R ts \<and>
     Writers_Waiting L \<le> Integer_Last \<and> Readers_Waiting L \<le> Integer_Last"

text \<open>A task that sleeps has nothing to wake up for.\<close>

definition asleep_ok :: "Rw_Lock_Type \<Rightarrow> (nat \<Rightarrow> task) \<Rightarrow> bool" where
  "asleep_ok L ts \<longleftrightarrow> (\<forall>t. (ts t = W_Asleep \<longrightarrow> Count L \<noteq> 0) \<and> (ts t = R_Asleep \<longrightarrow> \<not> read_guard L))"

definition rw_inv :: "Rw_State \<times> (nat \<Rightarrow> task) \<Rightarrow> bool" where
  "rw_inv s \<longleftrightarrow> few (snd s) \<and> \<not> All_Rw_Locks (fst s) \<and> owned (the_lock (fst s)) (snd s) \<and>
     waiting_counted (the_lock (fst s)) (snd s) \<and> asleep_ok (the_lock (fst s)) (snd s)"

lemmas rw_defs = Lock_W_def Lock_R_def Lock_W_resume_def Lock_R_resume_def Lock_W_loop_def Lock_R_loop_def
  Unlock_W_def Unlock_R_def Set_Max_Count_def Enter_def Leave_def Let_def

lemma waits_simps [simp]:
  "waits_W W_Asleep" "waits_W W_Awake" "\<not> waits_W Idle" "\<not> waits_W Reading" "\<not> waits_W Writing" "\<not> waits_W R_Asleep" "\<not> waits_W R_Awake"
  "waits_R R_Asleep" "waits_R R_Awake" "\<not> waits_R Idle" "\<not> waits_R Reading" "\<not> waits_R Writing" "\<not> waits_R W_Asleep" "\<not> waits_R W_Awake"
  by (simp_all add: waits_W_def waits_R_def)

lemma lock_W_inv:
  assumes "rw_inv (S, ts)" "ts t = Idle" "Lock_W S = Some (Inr a, S')"
  shows "rw_inv (S', ts(t := after_W a))"
  using assms
  by (auto simp: rw_inv_def rw_defs owned_def waiting_counted_def tally_upd to_Natural_def asleep_ok_def read_guard_def
      split: if_splits sum.splits)

lemma lock_R_inv:
  assumes "rw_inv (S, ts)" "ts t = Idle" "Lock_R S = Some (Inr a, S')"
  shows "rw_inv (S', ts(t := after_R a))"
  using assms
  by (auto simp: rw_inv_def rw_defs owned_def waiting_counted_def tally_upd to_Natural_def to_Integer_def asleep_ok_def read_guard_def
      split: if_splits sum.splits)

lemma resume_W_inv:
  assumes "rw_inv (S, ts)" "ts t = W_Awake" "Lock_W_resume S = Some (Inr a, S')"
  shows "rw_inv (S', ts(t := after_W a))"
  using assms
  by (auto simp: rw_inv_def rw_defs owned_def waiting_counted_def tally_upd to_Natural_def asleep_ok_def read_guard_def
      split: if_splits sum.splits)

lemma resume_R_inv:
  assumes "rw_inv (S, ts)" "ts t = R_Awake" "Lock_R_resume S = Some (Inr a, S')"
  shows "rw_inv (S', ts(t := after_R a))"
  using assms
  by (auto simp: rw_inv_def rw_defs owned_def waiting_counted_def tally_upd to_Natural_def to_Integer_def asleep_ok_def read_guard_def
      split: if_splits sum.splits)

lemma tally_unlock:
  assumes "few ts" "\<not> P Idle" "\<And>x. P (wake x) = P x"
  shows "tally P ((wake \<circ> ts)(t := Idle)) = tally P ts - of_bool (P (ts t))"
  using assms tally_upd [of "wake \<circ> ts" P t Idle] by (simp add: tally_wake)

lemma unlock_inv:
  assumes "rw_inv (S, ts)"
    "ts t = Writing \<and> Unlock_W S = Some (Inr (), S') \<or> ts t = Reading \<and> Unlock_R S = Some (Inr (), S')"
  shows "rw_inv (S', (wake \<circ> ts)(t := Idle))"
  using assms
  by (auto simp: rw_inv_def rw_defs owned_def waiting_counted_def tally_unlock asleep_ok_def split: if_splits)

lemma set_max_inv:
  assumes "rw_inv (S, ts)" "Set_Max_Count S n = Some S'"
  shows "rw_inv (S', wake \<circ> ts)"
  using assms
  by (auto simp: rw_inv_def rw_defs owned_def waiting_counted_def tally_wake asleep_ok_def split: if_splits)

lemma spurious_inv:
  assumes "rw_inv (S, ts)"
  shows "rw_inv (S, ts(t := wake (ts t)))"
  using assms
  by (auto simp: rw_inv_def owned_def waiting_counted_def tally_upd asleep_ok_def)

lemma rw_step_inv: "rw_step s s' \<Longrightarrow> rw_inv s \<Longrightarrow> rw_inv s'"
  by (induction rule: rw_step.induct)
    (blast intro: lock_W_inv lock_R_inv resume_W_inv resume_R_inv unlock_inv set_max_inv spurious_inv)+

lemma rw_reach_inv: "rw_reach s s' \<Longrightarrow> rw_inv s \<Longrightarrow> rw_inv s'"
  by (induction rule: rw_reach.induct) (auto intro: rw_step_inv)

definition Rw_Initial :: "Rw_Lock_Type \<Rightarrow> Rw_State" where
  "Rw_Initial L = \<lparr>All_Rw_Locks = False, the_lock = L\<rparr>"

lemma rw_inv_initial: "Create c = Inr (c', L) \<Longrightarrow> rw_inv (Rw_Initial L, \<lambda>_. Idle)"
  by (auto simp: Create_def New_Rw_Lock_def Rw_Initial_def rw_inv_def owned_def waiting_counted_def asleep_ok_def
      tally_def few_def Integer_Last_def result_simps)

text \<open>
  Property C22. In every interleaving of tasks the counter of a lock tells who has it: at -1 exactly one task
  writes and none reads, otherwise no task writes and the counter is the number of readers; the two
  waiting counters are the numbers of tasks that wait, and the mutex is free between the steps.
\<close>

theorem rw_exclusion:
  assumes "Create c = Inr (c', L)" "rw_reach (Rw_Initial L, \<lambda>_. Idle) (S, ts)"
  shows "\<not> All_Rw_Locks S \<and>
    (if Is_Set_W (the_lock S) then (\<exists>t. {t. ts t = Writing} = {t}) \<and> {t. ts t = Reading} = {}
     else {t. ts t = Writing} = {} \<and> int (card {t. ts t = Reading}) = Count (the_lock S)) \<and>
    Writers_Waiting (the_lock S) = int (card {t. waits_W (ts t)}) \<and>
    Readers_Waiting (the_lock S) = int (card {t. waits_R (ts t)})"
proof -
  have inv: "rw_inv (S, ts)" using rw_reach_inv [OF assms(2)] rw_inv_initial [OF assms(1)] by simp
  then have "finite {t. ts t = Writing}" "finite {t. ts t = Reading}"
    using few_finite [of ts "\<lambda>x. x = Writing"] few_finite [of ts "\<lambda>x. x = Reading"] by (auto simp: rw_inv_def)
  with inv show ?thesis
    by (auto simp: rw_inv_def owned_def waiting_counted_def tally_def Is_Set_W_def card_1_singleton_iff)
qed

lemma Create_first: "Create 0 = Inr (1, New_Rw_Lock\<lparr>Serial := 1\<rparr>)"
  by (simp add: Create_def to_Natural_def Integer_Last_def)

text \<open>One task writes, another one waits to read.\<close>

definition sample_lock :: Rw_State where
  "sample_lock = \<lparr>All_Rw_Locks = False, the_lock = New_Rw_Lock\<lparr>Serial := 1, Count := -1, Readers_Waiting := 1\<rparr>\<rparr>"

definition sample_tasks :: "nat \<Rightarrow> task" where
  "sample_tasks = (\<lambda>_. Idle)(3 := Writing, 4 := R_Asleep)"

lemma sample_reach: "rw_reach (Rw_Initial (New_Rw_Lock\<lparr>Serial := 1\<rparr>), \<lambda>_. Idle) (sample_lock, sample_tasks)"
proof -
  let ?S0 = "Rw_Initial (New_Rw_Lock\<lparr>Serial := 1\<rparr>)"
  let ?S1 = "\<lparr>All_Rw_Locks = False, the_lock = New_Rw_Lock\<lparr>Serial := 1, Count := -1\<rparr>\<rparr>"
  have 1: "rw_step (?S0, \<lambda>_. Idle) (?S1, (\<lambda>_. Idle)(3 := after_W Got))"
    by (rule rw_step.lock_W) (simp_all add: rw_defs Rw_Initial_def New_Rw_Lock_def)
  have 2: "rw_step (?S1, (\<lambda>_. Idle)(3 := after_W Got)) (sample_lock, (\<lambda>_. Idle)(3 := after_W Got, 4 := after_R Waits))"
    by (rule rw_step.lock_R)
      (simp_all add: rw_defs New_Rw_Lock_def sample_lock_def read_guard_def to_Natural_def Integer_Last_def)
  show ?thesis using rw_reach.rw_step [OF rw_reach.rw_step [OF rw_reach.rw_refl 1] 2] by (simp add: sample_tasks_def)
qed

theorem rw_exclusion_witness:
  "\<not> All_Rw_Locks sample_lock \<and> (\<exists>t. {t. sample_tasks t = Writing} = {t}) \<and> {t. sample_tasks t = Reading} = {} \<and>
   Readers_Waiting (the_lock sample_lock) = int (card {t. waits_R (sample_tasks t)})"
proof -
  have "Is_Set_W (the_lock sample_lock)" by (simp add: Is_Set_W_def sample_lock_def)
  with rw_exclusion [OF Create_first sample_reach] show ?thesis by (simp only: if_True simp_thms)
qed

lemma resume_W_gets:
  assumes "\<not> All_Rw_Locks S" "Count (the_lock S) = 0" "0 < Writers_Waiting (the_lock S)" "Writers_Waiting (the_lock S) \<le> Integer_Last"
  shows "\<exists>S'. Lock_W_resume S = Some (Inr Got, S')"
  using assms by (simp add: rw_defs to_Natural_def)

lemma resume_R_gets:
  assumes "\<not> All_Rw_Locks S" "Count (the_lock S) = 0" "read_guard (the_lock S)" "0 < Readers_Waiting (the_lock S)" "Readers_Waiting (the_lock S) \<le> Integer_Last"
  shows "\<exists>S'. Lock_R_resume S = Some (Inr Got, S')"
  using assms by (simp add: rw_defs to_Natural_def to_Integer_def read_guard_def Integer_First_def Integer_Last_def)

text \<open>
  Property C23. No wake-up is lost: when a lock that admits readers is free while tasks wait for it, one of
  them is awake and its next step gives it the lock.
\<close>

theorem rw_progress:
  assumes "Create c = Inr (c', L)" "rw_reach (Rw_Initial L, \<lambda>_. Idle) (S, ts)"
    "Count (the_lock S) = 0" "0 < Max_Count (the_lock S)" "waits_W (ts t) \<or> waits_R (ts t)"
  shows "\<exists>u S' x. (ts u = W_Awake \<or> ts u = R_Awake) \<and> rw_step (S, ts) (S', ts(u := x)) \<and> (x = Writing \<or> x = Reading)"
proof -
  have inv: "rw_inv (S, ts)" using rw_reach_inv [OF assms(2)] rw_inv_initial [OF assms(1)] by simp
  then have few: "few ts" and free: "\<not> All_Rw_Locks S" and cnt: "waiting_counted (the_lock S) ts"
    and sl: "asleep_ok (the_lock S) ts" by (simp_all add: rw_inv_def)
  show ?thesis
  proof (cases "\<exists>u. waits_W (ts u)")
    case True
    then obtain u where u: "waits_W (ts u)" ..
    with sl assms(3) have awake: "ts u = W_Awake" by (auto simp: asleep_ok_def waits_W_def)
    obtain S' where "Lock_W_resume S = Some (Inr Got, S')"
      using resume_W_gets [OF free assms(3)] cnt tally_pos [OF few, of waits_W u] u by (auto simp: waiting_counted_def)
    from rw_step.resume_W [where ts = ts, OF awake this] awake show ?thesis unfolding after_W.simps by blast
  next
    case False
    then have u: "waits_R (ts t)" and "tally waits_W ts = 0" using assms(5) by (auto simp: tally_def)
    then have guard: "read_guard (the_lock S)" using cnt assms(3,4) by (simp add: read_guard_def waiting_counted_def)
    with sl u have awake: "ts t = R_Awake" by (auto simp: asleep_ok_def waits_R_def)
    obtain S' where "Lock_R_resume S = Some (Inr Got, S')"
      using resume_R_gets [OF free assms(3) guard] cnt tally_pos [OF few, of waits_R t] u by (auto simp: waiting_counted_def)
    from rw_step.resume_R [where ts = ts, OF awake this] awake show ?thesis unfolding after_R.simps by blast
  qed
qed

text \<open>The writer of the sample has released the lock.\<close>

definition sample_released :: Rw_State where
  "sample_released = \<lparr>All_Rw_Locks = False, the_lock = New_Rw_Lock\<lparr>Serial := 1, Readers_Waiting := 1\<rparr>\<rparr>"

lemma released_reach:
  "rw_reach (Rw_Initial (New_Rw_Lock\<lparr>Serial := 1\<rparr>), \<lambda>_. Idle) (sample_released, (wake \<circ> sample_tasks)(3 := Idle))"
proof -
  have "rw_step (sample_lock, sample_tasks) (sample_released, (wake \<circ> sample_tasks)(3 := Idle))"
    by (rule rw_step.unlock_W)
      (simp_all add: rw_defs New_Rw_Lock_def sample_lock_def sample_released_def sample_tasks_def)
  then show ?thesis by (rule rw_reach.rw_step [OF sample_reach])
qed

theorem rw_progress_witness:
  "\<exists>u S' x. (((wake \<circ> sample_tasks)(3 := Idle)) u = W_Awake \<or> ((wake \<circ> sample_tasks)(3 := Idle)) u = R_Awake) \<and>
    rw_step (sample_released, (wake \<circ> sample_tasks)(3 := Idle)) (S', (wake \<circ> sample_tasks)(3 := Idle, u := x)) \<and>
    (x = Writing \<or> x = Reading)"
  by (rule rw_progress [OF Create_first released_reach, of 4])
    (simp_all add: sample_released_def New_Rw_Lock_def sample_tasks_def Integer_Last_def)

text \<open>
  Releasing a lock that is not held in that mode raises Program_Error and does not release the
  mutex of the package: from then on no operation on any lock returns.
\<close>

theorem bad_unlock_blocks:
  assumes "\<not> All_Rw_Locks S" "\<not> Is_Set_W (the_lock S)"
  shows "\<exists>S'. Unlock_W S = Some (Inl Program_Error, S') \<and>
    Lock_W (S'\<lparr>the_lock := L\<rparr>) = None \<and> Lock_R (S'\<lparr>the_lock := L\<rparr>) = None \<and>
    Unlock_W (S'\<lparr>the_lock := L\<rparr>) = None \<and> Unlock_R (S'\<lparr>the_lock := L\<rparr>) = None \<and> Set_Max_Count (S'\<lparr>the_lock := L\<rparr>) n = None"
  using assms by (simp add: rw_defs Is_Set_W_def)

theorem bad_unlock_blocks_witness:
  "\<exists>S'. Unlock_W (Rw_Initial New_Rw_Lock) = Some (Inl Program_Error, S') \<and>
    Lock_W (S'\<lparr>the_lock := New_Rw_Lock\<lparr>Serial := 2\<rparr>\<rparr>) = None \<and> Lock_R (S'\<lparr>the_lock := New_Rw_Lock\<lparr>Serial := 2\<rparr>\<rparr>) = None \<and>
    Unlock_W (S'\<lparr>the_lock := New_Rw_Lock\<lparr>Serial := 2\<rparr>\<rparr>) = None \<and> Unlock_R (S'\<lparr>the_lock := New_Rw_Lock\<lparr>Serial := 2\<rparr>\<rparr>) = None \<and>
    Set_Max_Count (S'\<lparr>the_lock := New_Rw_Lock\<lparr>Serial := 2\<rparr>\<rparr>) 5 = None"
  by (rule bad_unlock_blocks) (simp_all add: Rw_Initial_def New_Rw_Lock_def Is_Set_W_def)

end
