(* ===== verification/Profiles.thy ===== *)
theory Profiles
  imports Object_Maps Cdr
begin

text \<open>
  Profiles of object references on internet sockets: host names and ports
  (\<open>src/src/polyorb-utils-sockets.adb\<close>), tagged components (\<open>src/src/giop/polyorb-giop_p-tagged_components.adb\<close>), the
  bodies of profiles and the \<open>corbaloc\<close> form of references (\<open>src/src/giop/polyorb-binding_data-giop-inet.adb\<close>). The theory
  puts together what others show of strings, object identifiers, buffers and CDR: a profile that has been marshalled, or
  written as a \<open>corbaloc\<close> reference, leads to the same object of the same host.

  The components are the ones of unknown type, which is what every component is when no type has been registered.
  A profile that has been destroyed is None; using it afterwards is erroneous.
\<close>

section \<open>Socket names\<close>

record Socket_Name =
  Host_Name :: string
  Port :: int

definition plus_port :: "string \<Rightarrow> int \<Rightarrow> Socket_Name" where
  "plus_port h p = \<lparr>Host_Name = h, Port = p\<rparr>"

definition Socket_Image :: "Socket_Name \<Rightarrow> string" where
  "Socket_Image SN = Host_Name SN @ '':'' @ trim (Long_Long_Image (Port SN))"

text \<open>\<open>Port_Type\<close> is \<open>0 .. 16#ffff#\<close>: the conversion to \<open>Unsigned_Short\<close> cannot fail.\<close>

definition Marshall_Socket :: "Endianness_Type \<Rightarrow> stream \<Rightarrow> Socket_Name \<Rightarrow> stream result" where
  "Marshall_Socket Host_Order s Sock =
     on_ok (Marshall_Latin_1_String Host_Order s (Host_Name Sock)) (\<lambda>s.
     Marshall_Elementary Host_Order True s (word_of_int (Port Sock) :: 16 word))"

definition Unmarshall_Socket :: "Endianness_Type \<Rightarrow> stream \<Rightarrow> (Socket_Name \<times> stream) result" where
  "Unmarshall_Socket Host_Order s =
     on_ok (Unmarshall_Latin_1_String Host_Order s) (\<lambda>(h, s).
     on_ok (Unmarshall_Elementary Host_Order True s) (\<lambda>(p :: 16 word, s).
     Inr (plus_port h (uint p), s)))"

section \<open>Tagged components\<close>

record TC_Unknown_Component =
  Unknown_Tag :: "32 word"
  TC_Data :: "byte list"

type_synonym Tagged_Component_List = "TC_Unknown_Component list"

definition Create_Unknown_Component :: "32 word \<Rightarrow> byte list \<Rightarrow> TC_Unknown_Component" where
  "Create_Unknown_Component t d = \<lparr>Unknown_Tag = t, TC_Data = d\<rparr>"

definition Marshall_Component_Data :: "Endianness_Type \<Rightarrow> TC_Unknown_Component \<Rightarrow> stream \<Rightarrow> stream result" where
  "Marshall_Component_Data Host_Order Comp s = Marshall_Octets Host_Order s (TC_Data Comp)"

definition Marshall_Component :: "Endianness_Type \<Rightarrow> stream \<Rightarrow> TC_Unknown_Component \<Rightarrow> stream result" where
  "Marshall_Component Host_Order s Component =
     on_ok (Marshall_Elementary Host_Order True s (Unknown_Tag Component)) (\<lambda>s.
     Marshall_Component_Data Host_Order Component s)"

fun Marshall_Components_loop :: "Endianness_Type \<Rightarrow> stream \<Rightarrow> Tagged_Component_List \<Rightarrow> stream result" where
  "Marshall_Components_loop Host_Order s [] = Inr s"
| "Marshall_Components_loop Host_Order s (c # cs) =
     on_ok (Marshall_Component Host_Order s c) (\<lambda>s. Marshall_Components_loop Host_Order s cs)"

definition Marshall_Tagged_Component :: "Endianness_Type \<Rightarrow> stream \<Rightarrow> Tagged_Component_List \<Rightarrow> stream result" where
  "Marshall_Tagged_Component Host_Order s Components =
     on_ok (Marshall_Elementary Host_Order True s (word_of_int (int (length Components)) :: 32 word)) (\<lambda>s.
     Marshall_Components_loop Host_Order s Components)"

text \<open>\<open>Get_New_Empty_Component\<close> finds no registered tag and gives a component with the tag and no data.\<close>

definition Unmarshall_Component :: "Endianness_Type \<Rightarrow> stream \<Rightarrow> (TC_Unknown_Component \<times> stream) result" where
  "Unmarshall_Component Host_Order s =
     on_ok (Unmarshall_Elementary Host_Order True s) (\<lambda>(t :: 32 word, s).
     on_ok (Unmarshall_Octets Host_Order s) (\<lambda>(d, s).
     Inr (\<lparr>Unknown_Tag = t, TC_Data = d\<rparr>, s)))"

definition Unmarshall_Tagged_Component :: "Endianness_Type \<Rightarrow> stream \<Rightarrow> (Tagged_Component_List \<times> stream) result" where
  "Unmarshall_Tagged_Component Host_Order s =
     on_ok (Unmarshall_Elementary Host_Order True s) (\<lambda>(Length :: 32 word, s).
     unmarshall_times (Unmarshall_Component Host_Order) (unat Length) s)"

text \<open>The tag of a duplicate is what the new object happens to hold.\<close>

definition Duplicate_Component :: "32 word \<Rightarrow> TC_Unknown_Component \<Rightarrow> TC_Unknown_Component" where
  "Duplicate_Component junk Comp = \<lparr>Unknown_Tag = junk, TC_Data = TC_Data Comp\<rparr>"

definition Deep_Copy :: "32 word \<Rightarrow> Tagged_Component_List \<Rightarrow> Tagged_Component_List" where
  "Deep_Copy junk l = map (Duplicate_Component junk) l"

section \<open>Bodies of profiles\<close>

record GIOP_Profile_Type =
  Version_Major :: byte
  Version_Minor :: byte
  Profile_Oid :: "byte list option"
  Profile_Components :: Tagged_Component_List

definition Common_Marshall_Profile_Body ::
  "Endianness_Type \<Rightarrow> stream \<Rightarrow> GIOP_Profile_Type \<Rightarrow> Socket_Name \<Rightarrow> bool \<Rightarrow> stream result" where
  "Common_Marshall_Profile_Body Host_Order s Profile Sock Marshall_Object_Id =
     (let (M, Buffer) = s; (Profile_Body, M) = New_Buffer Host_Order M in
      on_ok (Start_Encapsulation (M, Profile_Body)) (\<lambda>p.
      on_ok (Marshall_Octet p (Version_Major Profile)) (\<lambda>p.
      on_ok (Marshall_Octet p (Version_Minor Profile)) (\<lambda>p.
      on_ok (Marshall_Socket Host_Order p Sock) (\<lambda>p.
      on_ok (if Marshall_Object_Id
             then (case Profile_Oid Profile of None \<Rightarrow> Inl Constraint_Error | Some oid \<Rightarrow> Marshall_Octets Host_Order p oid)
             else Inr p) (\<lambda>p.
      on_ok (Marshall_Tagged_Component Host_Order p (Profile_Components Profile)) (\<lambda>p.
      on_ok (Encapsulate p) (\<lambda>(data, M). Marshall_Octets Host_Order (M, Buffer) data))))))))"

text \<open>\<open>Profile_Body\<close> is an array of its own, a new zone.\<close>

definition Common_Unmarshall_Profile_Body ::
  "Endianness_Type \<Rightarrow> stream \<Rightarrow> GIOP_Profile_Type \<Rightarrow> bool \<Rightarrow> bool \<Rightarrow> (Socket_Name \<times> GIOP_Profile_Type \<times> stream) result" where
  "Common_Unmarshall_Profile_Body Host_Order s Profile Unmarshall_Object_Id Unmarshall_Tagged_Components =
     on_ok (Unmarshall_Octets Host_Order s) (\<lambda>(Profile_Body, M, Buffer).
     let z = length (zones M); M = M\<lparr>zones := zones M @ [Profile_Body]\<rparr>;
         (Profile_Buffer, M) = New_Buffer Host_Order M in
     on_ok (Decapsulate M z Profile_Buffer) (\<lambda>Profile_Buffer.
     on_ok (Unmarshall_Octet Host_Order (M, Profile_Buffer)) (\<lambda>(maj, p).
     on_ok (Unmarshall_Octet Host_Order p) (\<lambda>(mi, p).
     on_ok (Unmarshall_Socket Host_Order p) (\<lambda>(Addr, p).
     on_ok (if Unmarshall_Object_Id then on_ok (Unmarshall_Octets Host_Order p) (\<lambda>(Str, p). Inr (Some Str, p))
            else Inr (Profile_Oid Profile, p)) (\<lambda>(oid, p).
     on_ok (if mi \<noteq> 0 \<or> Unmarshall_Tagged_Components then Unmarshall_Tagged_Component Host_Order p
            else Inr (Profile_Components Profile, p)) (\<lambda>(cs, p).
     Inr (Addr, Profile\<lparr>Version_Major := maj, Version_Minor := mi, Profile_Oid := oid, Profile_Components := cs\<rparr>, fst p, Buffer))))))))"

section \<open>The corbaloc form\<close>

text \<open>The attributes \<open>Octet'Value\<close> and \<open>Port_Type'Value\<close>.\<close>

definition Unsigned_Value :: "int \<Rightarrow> string \<Rightarrow> int result" where
  "Unsigned_Value upper S =
     (let T = (case trim S of c # T \<Rightarrow> if c = CHR ''+'' then T else c # T | [] \<Rightarrow> [])
      in case literal_image T of
           None \<Rightarrow> Inl Constraint_Error
         | Some v \<Rightarrow> if int v \<le> upper then Inr (int v) else Inl Constraint_Error)"

definition slice :: "string \<Rightarrow> int \<Rightarrow> int \<Rightarrow> string" where
  "slice S i j = take (nat (j - i + 1)) (drop (nat (i - 1)) S)"

definition Destroy_Profile :: "GIOP_Profile_Type option \<Rightarrow> unit result" where
  "Destroy_Profile P = check Assert_Failure (P \<noteq> None)"

definition Empty_Name :: Socket_Name where
  "Empty_Name = plus_port [] 0"

definition corbaloc_version :: "string \<Rightarrow> byte \<Rightarrow> byte \<Rightarrow> GIOP_Profile_Type \<Rightarrow> (GIOP_Profile_Type option \<times> int) result" where
  "corbaloc_version S Default_Major Default_Minor P =
     (let Index = Find 1 S 1 (CHR ''@'') in
      if 2 \<le> Index \<and> Index \<le> string_last 1 S
      then let Index2 = Find 1 S 1 (CHR ''.'') in
           if 1 < Index2 \<and> Index2 < Index
           then on_ok (Unsigned_Value 255 (slice S 1 (Index2 - 1))) (\<lambda>maj.
                on_ok (Unsigned_Value 255 (slice S (Index2 + 1) (Index - 1))) (\<lambda>mi.
                Inr (Some (P\<lparr>Version_Major := word_of_int maj, Version_Minor := word_of_int mi\<rparr>), Index + 1)))
           else on_ok (Destroy_Profile (Some P)) (\<lambda>_. Inr (None, Index + 1))
      else Inr (Some (P\<lparr>Version_Major := Default_Major, Version_Minor := Default_Minor\<rparr>), 1))"

definition Common_Corbaloc_To_Profile ::
  "string \<Rightarrow> byte \<Rightarrow> byte \<Rightarrow> GIOP_Profile_Type \<Rightarrow> (GIOP_Profile_Type option \<times> Socket_Name) result" where
  "Common_Corbaloc_To_Profile S Default_Major Default_Minor P =
     on_ok (corbaloc_version S Default_Major Default_Minor P) (\<lambda>(TResult, Index).
     let Colon = Find 1 S Index (CHR '':''); Slash = Find 1 S Index (CHR ''/'');
         Index2 = (if Colon < Slash then Colon - 1 else Slash - 1);
         Fail = on_ok (Destroy_Profile TResult) (\<lambda>_. Inr (None, Empty_Name))
     in if Index2 < Index then Fail
        else if Colon < Slash \<and> \<not> Colon + 1 < Slash then Fail
        else on_ok (if Colon < Slash then Unsigned_Value 65535 (slice S (Colon + 1) (Slash - 1)) else Inr 2809) (\<lambda>port.
             if Slash + 1 > string_last 1 S then Fail
             else on_ok (URI_Decode (slice S (Slash + 1) (string_last 1 S))) (\<lambda>Oid_Str.
                  case TResult of None \<Rightarrow> Inl Erroneous_Access
                  | Some T \<Rightarrow> Inr (Some (T\<lparr>Profile_Oid := Some (map octet Oid_Str), Profile_Components := []\<rparr>),
                                  plus_port (slice S Index Index2) port))))"

definition Common_Profile_To_Corbaloc :: "GIOP_Profile_Type \<Rightarrow> Socket_Name \<Rightarrow> string \<Rightarrow> string result" where
  "Common_Profile_To_Corbaloc Profile Addr Prefix =
     (case Profile_Oid Profile of None \<Rightarrow> Inl Constraint_Error
      | Some oid \<Rightarrow> on_ok (check Constraint_Error (oid \<noteq> [])) (\<lambda>_.
        Inr (Prefix @ '':'' @ Trimmed_Image (uint (Version_Major Profile)) @ ''.'' @ Trimmed_Image (uint (Version_Minor Profile)) @ ''@'' @
             Socket_Image Addr @ ''/'' @ URI_Encode (map octet_char oid) [])))"

section \<open>Reading back a corbaloc reference\<close>

lemma image_digits: "0 \<le> n \<Longrightarrow> Trimmed_Image n = map Hex (digits (nat n))"
  by (simp add: Trimmed_Image_def Long_Long_Image_def)

lemma digit_chars: "c \<in> set (map Hex (digits n)) \<Longrightarrow> c \<noteq> CHR ''.'' \<and> c \<noteq> CHR ''@'' \<and> c \<noteq> CHR '':'' \<and> c \<noteq> CHR ''/'' \<and> c \<noteq> CHR ''+'' \<and> c \<noteq> CHR '' ''"
proof -
  have "list_all (\<lambda>d. Hex d \<noteq> CHR ''.'' \<and> Hex d \<noteq> CHR ''@'' \<and> Hex d \<noteq> CHR '':'' \<and> Hex d \<noteq> CHR ''/'' \<and> Hex d \<noteq> CHR ''+'' \<and> Hex d \<noteq> CHR '' '') [0..<10]"
    by code_simp
  moreover assume "c \<in> set (map Hex (digits n))"
  ultimately show ?thesis using digits_less by (auto simp: list_all_iff)
qed

lemma Unsigned_Value_image:
  assumes "int n \<le> upper"
  shows "Unsigned_Value upper (map Hex (digits n)) = Inr (int n)"
proof -
  obtain d ds where ds: "map Hex (digits n) = d # ds" by (cases "digits n") auto
  then have "d \<noteq> CHR ''+''" using digit_chars [of d n] by simp
  then have "(case trim (map Hex (digits n)) of c # T \<Rightarrow> if c = CHR ''+'' then T else c # T | [] \<Rightarrow> []) = map Hex (digits n)"
    unfolding trim_digits by (simp add: ds)
  then show ?thesis using assms by (simp add: Unsigned_Value_def literal_image_digits)
qed

lemma trim_image: "0 \<le> n \<Longrightarrow> trim (Long_Long_Image n) = map Hex (digits (nat n))"
  using trim_digits [of "nat n"] by (simp add: Long_Long_Image_def trim_def)

lemma slice_split: "i = int (length xs) + 1 \<Longrightarrow> j = int (length xs) + int (length ys) \<Longrightarrow> slice (xs @ ys @ zs) i j = ys"
  by (simp add: slice_def)

text \<open>The parts of a reference: version, host, port and key.\<close>

lemma corbaloc_parts:
  assumes "h \<noteq> []" "CHR '':'' \<notin> set h" "CHR ''/'' \<notin> set h" "ks \<noteq> []" "pt \<le> 65535" "URI_Decode ks = Inr key" "maj < 256" "mi < 256"
    and S: "S = map Hex (digits maj) @ ''.'' @ map Hex (digits mi) @ ''@'' @ h @ '':'' @ map Hex (digits pt) @ ''/'' @ ks"
  shows "Common_Corbaloc_To_Profile S dm dn P = Inr (Some (P\<lparr>Version_Major := word_of_nat maj, Version_Minor := word_of_nat mi,
    Profile_Oid := Some (map octet key), Profile_Components := []\<rparr>), plus_port h (int pt))"
proof -
  define a b p where "a = map Hex (digits maj)" and "b = map Hex (digits mi)" and "p = map Hex (digits pt)"
  have ne: "a \<noteq> []" "b \<noteq> []" "p \<noteq> []" by (auto simp: a_def b_def p_def)
  have chars: "CHR ''.'' \<notin> set a" "CHR ''@'' \<notin> set (a @ ''.'' @ b)" "CHR ''/'' \<notin> set (h @ '':'' @ p)"
    using digit_chars assms(3) by (auto simp: a_def b_def p_def)
  let ?v = "a @ ''.'' @ b @ ''@''"
  have S': "S = a @ ''.'' @ b @ ''@'' @ h @ '':'' @ p @ ''/'' @ ks" using S by (simp add: a_def b_def p_def)
  have dot: "Find 1 S 1 (CHR ''.'') = 1 + int (length a)"
    using Find_split [OF chars(1), where first = 1 and xs = "[]" and i = 1 and zs = "b @ ''@'' @ h @ '':'' @ p @ ''/'' @ ks"] S' by simp
  have at: "Find 1 S 1 (CHR ''@'') = 2 + int (length a) + int (length b)"
    using Find_split [OF chars(2), where first = 1 and xs = "[]" and i = 1 and zs = "h @ '':'' @ p @ ''/'' @ ks"] S' by simp
  let ?i = "3 + int (length a) + int (length b)"
  have colon: "Find 1 S ?i (CHR '':'') = ?i + int (length h)"
    using Find_split [OF assms(2), where first = 1 and xs = ?v and i = ?i and zs = "p @ ''/'' @ ks"] S' by simp
  have slash: "Find 1 S ?i (CHR ''/'') = ?i + int (length h) + 1 + int (length p)"
    using Find_split [OF chars(3), where first = 1 and xs = ?v and i = ?i and zs = ks] S' by simp
  have len: "string_last 1 S = int (length S)" "int (length S) = 4 + int (length a) + int (length b) + int (length h) + int (length p) + int (length ks)"
    using S' by (simp_all add: string_last_def)
  have vals: "Unsigned_Value 255 a = Inr (int maj)" "Unsigned_Value 255 b = Inr (int mi)" "Unsigned_Value 65535 p = Inr (int pt)"
    using Unsigned_Value_image assms(5,7,8) by (simp_all add: a_def b_def p_def)
  have sl: "slice S 1 (int (length a)) = a" "slice S (2 + int (length a)) (1 + int (length a) + int (length b)) = b"
    "slice S ?i (?i + int (length h) - 1) = h" "slice S (?i + int (length h) + 1) (?i + int (length h) + int (length p)) = p"
    "slice S (?i + int (length h) + 2 + int (length p)) (int (length S)) = ks"
    using slice_split [of 1 "[]" "int (length a)" a "''.'' @ b @ ''@'' @ h @ '':'' @ p @ ''/'' @ ks"]
      slice_split [of _ "a @ ''.''" _ b "''@'' @ h @ '':'' @ p @ ''/'' @ ks"]
      slice_split [of _ ?v _ h "'':'' @ p @ ''/'' @ ks"] slice_split [of _ "?v @ h @ '':''" _ p "''/'' @ ks"]
      slice_split [of _ "?v @ h @ '':'' @ p @ ''/''" _ ks "[]"] len(2)
    by (simp_all add: S' algebra_simps)
  have pos: "0 < int (length a)" "0 < int (length b)" "0 < int (length h)" "0 < int (length p)" "0 < int (length ks)" using ne assms(1,4) by auto
  have "corbaloc_version S dm dn P = Inr (Some (P\<lparr>Version_Major := word_of_nat maj, Version_Minor := word_of_nat mi\<rparr>), ?i)"
    using pos sl(1,2) vals(1,2) len by (simp add: corbaloc_version_def dot at Let_def algebra_simps)
  moreover define i co sla end_S where "i = ?i" and "co = ?i + int (length h)" and "sla = ?i + int (length h) + 1 + int (length p)" and "end_S = int (length S)"
  ultimately have ver: "corbaloc_version S dm dn P = Inr (Some (P\<lparr>Version_Major := word_of_nat maj, Version_Minor := word_of_nat mi\<rparr>), i)"
    and pos': "\<not> co - 1 < i" "co < sla" "co + 1 < sla" "\<not> sla + 1 > end_S"
    using pos len by simp_all
  have parts: "slice S i (co - 1) = h" "slice S (co + 1) (sla - 1) = p" "slice S (sla + 1) end_S = ks"
    using sl(3-5) by (simp_all add: i_def co_def sla_def end_S_def algebra_simps)
  have found: "Find 1 S i (CHR '':'') = co" "Find 1 S i (CHR ''/'') = sla" "string_last 1 S = end_S"
    using colon slash len(1) by (simp_all add: i_def co_def sla_def end_S_def)
  show ?thesis
    unfolding Common_Corbaloc_To_Profile_def ver on_ok.simps prod.case Let_def found using pos' parts vals(3) assms(6) by simp
qed

section \<open>Octets of a profile body\<close>

definition socket_frames :: "Endianness_Type \<Rightarrow> Socket_Name \<Rightarrow> frame list" where
  "socket_frames E Sock = value_frames E (String_V (Host_Name Sock)) @ value_frames E (Short_V (word_of_int (Port Sock)))"

definition component_frames :: "Endianness_Type \<Rightarrow> TC_Unknown_Component \<Rightarrow> frame list" where
  "component_frames E c = value_frames E (Long_V (Unknown_Tag c)) @ value_frames E (Octets_V (TC_Data c))"

definition components_frames :: "Endianness_Type \<Rightarrow> Tagged_Component_List \<Rightarrow> frame list" where
  "components_frames E cs = value_frames E (Long_V (word_of_int (int (length cs)))) @ concat (map (component_frames E) cs)"

definition body_frames :: "Endianness_Type \<Rightarrow> GIOP_Profile_Type \<Rightarrow> Socket_Name \<Rightarrow> byte list \<Rightarrow> frame list" where
  "body_frames E P Sock oid = value_frames E (Octet_V (Version_Major P)) @ value_frames E (Octet_V (Version_Minor P)) @ socket_frames E Sock @
     value_frames E (Octets_V oid) @ components_frames E (Profile_Components P)"

definition socket_ok :: "Socket_Name \<Rightarrow> bool" where
  "socket_ok Sock \<longleftrightarrow> int (length (Host_Name Sock)) < Integer_Last \<and> 0 \<le> Port Sock \<and> Port Sock \<le> 65535"

definition components_ok :: "Tagged_Component_List \<Rightarrow> bool" where
  "components_ok cs \<longleftrightarrow> length cs < 2 ^ 32 \<and> (\<forall>c\<in>set cs. length (TC_Data c) < 2 ^ 32)"

lemma writes_Socket: "socket_ok Sock \<Longrightarrow> bw.writes K E (\<lambda>s. Marshall_Socket h s Sock) (socket_frames E Sock)"
  using bw.writes_seq [OF writes_value [of "String_V (Host_Name Sock)" K E h] writes_value [of "Short_V (word_of_int (Port Sock))" K E h]]
  by (simp add: Marshall_Socket_def socket_frames_def socket_ok_def)

lemma reads_Socket: "socket_ok Sock \<Longrightarrow> br.reads M E (Unmarshall_Socket h) (socket_frames E Sock) Sock"
proof -
  assume ok: "socket_ok Sock"
  let ?p = "word_of_int (Port Sock) :: 16 word"
  have "uint ?p = Port Sock" using ok by (simp add: socket_ok_def uint_word_of_int)
  then have "plus_port (Host_Name Sock) (uint ?p) = Sock" by (simp add: plus_port_def)
  then have ret: "br.reads M E (\<lambda>s. Inr (plus_port (Host_Name Sock) (uint ?p), s)) [] Sock" using br.reads_return [of M E Sock] by simp
  have "br.reads M E (\<lambda>s. on_ok (Unmarshall_Elementary h True s) (\<lambda>(p :: 16 word, s). Inr (plus_port (Host_Name Sock) (uint p), s)))
      ([(Align_2, Item_Storage E ?p)] @ []) Sock"
    by (rule br.reads_bind [where g = "\<lambda>(p :: 16 word) s. Inr (plus_port (Host_Name Sock) (uint p), s)", OF reads_words(1) ret])
  moreover have "br.reads M E (Unmarshall_Latin_1_String h) (value_frames E (String_V (Host_Name Sock))) (Host_Name Sock)"
    using reads_Latin_1_String [of "Host_Name Sock" M E h] ok by (simp add: socket_ok_def del: of_int_of_nat_eq)
  ultimately have "br.reads M E (\<lambda>s. on_ok (Unmarshall_Latin_1_String h s) (\<lambda>(n, s). on_ok (Unmarshall_Elementary h True s) (\<lambda>(p :: 16 word, s). Inr (plus_port n (uint p), s))))
      (value_frames E (String_V (Host_Name Sock)) @ [(Align_2, Item_Storage E ?p)] @ []) Sock"
    by (intro br.reads_bind [where g = "\<lambda>n s. on_ok (Unmarshall_Elementary h True s) (\<lambda>(p :: 16 word, s). Inr (plus_port n (uint p), s))"])
  then show ?thesis by (simp add: Unmarshall_Socket_def [abs_def] socket_frames_def)
qed

lemma writes_Component:
  "length (TC_Data c) < 2 ^ 32 \<Longrightarrow> bw.writes K E (\<lambda>s. Marshall_Component h s c) (component_frames E c)"
  using bw.writes_seq [OF writes_value [of "Long_V (Unknown_Tag c)" K E h] writes_value [of "Octets_V (TC_Data c)" K E h]]
  by (simp add: Marshall_Component_def Marshall_Component_Data_def component_frames_def)

lemma reads_Component:
  assumes "length (TC_Data c) < 2 ^ 32"
  shows "br.reads M E (Unmarshall_Component h) (component_frames E c) c"
proof -
  have c: "\<lparr>Unknown_Tag = Unknown_Tag c, TC_Data = TC_Data c\<rparr> = c" by (cases c) simp
  have "br.reads M E (\<lambda>s. on_ok (Unmarshall_Octets h s) (\<lambda>(d, s). Inr (\<lparr>Unknown_Tag = Unknown_Tag c, TC_Data = d\<rparr>, s))) (value_frames E (Octets_V (TC_Data c)) @ []) c"
    by (rule br.reads_bind [where v = "TC_Data c" and g = "\<lambda>d s. Inr (\<lparr>Unknown_Tag = Unknown_Tag c, TC_Data = d\<rparr>, s)"])
      (use reads_Octets [OF assms, of M E h] br.reads_return [of M E c] in \<open>simp_all add: c del: of_int_of_nat_eq\<close>)
  from br.reads_bind [where g = "\<lambda>t s. on_ok (Unmarshall_Octets h s) (\<lambda>(d, s). Inr (\<lparr>Unknown_Tag = t, TC_Data = d\<rparr>, s))", OF reads_Unsigned_Long this]
  show ?thesis by (simp add: Unmarshall_Component_def [abs_def] component_frames_def)
qed

lemma writes_Components: "components_ok cs \<Longrightarrow> bw.writes K E (\<lambda>s. Marshall_Tagged_Component h s cs) (components_frames E cs)"
proof -
  have "bw.writes K E (\<lambda>s. Marshall_Components_loop h s cs) (concat (map (component_frames E) cs))" if "\<forall>c\<in>set cs. length (TC_Data c) < 2 ^ 32" for cs
    using that
  proof (induction cs)
    case (Cons c cs)
    then show ?case using bw.writes_seq [OF writes_Component [of c K E h]] by simp
  qed (simp add: bw.writes_def)
  moreover assume "components_ok cs"
  ultimately show ?thesis
    using bw.writes_seq [OF writes_words(2)] by (simp add: Marshall_Tagged_Component_def components_frames_def components_ok_def del: of_int_of_nat_eq)
qed

lemma reads_Components: "components_ok cs \<Longrightarrow> br.reads M E (Unmarshall_Tagged_Component h) (components_frames E cs) cs"
proof -
  assume ok: "components_ok cs"
  let ?w = "word_of_int (int (length cs)) :: 32 word"
  have w: "unat ?w = length cs" using ok by (simp add: components_ok_def unat_of_nat take_bit_nat_eq_self_iff)
  have "br.reads M E (\<lambda>s. unmarshall_times (Unmarshall_Component h) (unat ?w) s) (concat (map (component_frames E) cs)) cs"
    unfolding w by (rule reads_times, rule reads_Component) (use ok in \<open>simp add: components_ok_def\<close>)
  from br.reads_bind [where g = "\<lambda>Length s. unmarshall_times (Unmarshall_Component h) (unat Length) s", OF reads_Unsigned_Long this]
  show ?thesis by (simp only: Unmarshall_Tagged_Component_def [abs_def] components_frames_def value_frames.simps)
qed

lemma Marshall_Profile_writes:
  assumes "writer_inv K M B" "Profile_Oid P = Some oid" "length oid < 2 ^ 32" "socket_ok Sock" "components_ok (Profile_Components P)"
    "length (encapsulated h (body_frames h P Sock oid)) < 2 ^ 32"
  shows "\<exists>M' B'. Common_Marshall_Profile_Body h (M, B) P Sock True = Inr (M', B') \<and> writer_inv K M' B' \<and>
    octets M' B' = octets M B @ frames (CDR_Position B) (value_frames (Endianness B) (Octets_V (encapsulated h (body_frames h P Sock oid))))"
proof -
  obtain PB M1 where nb: "New_Buffer h M = (PB, M1)" by fastforce
  have nz: "null_zone M" using assms(1) saved_null_zone(1) by (auto simp: writer_inv_def buf_inv_def)
  let ?data = "encapsulated h (body_frames h P Sock oid)"
  let ?f = "\<lambda>s. on_ok (Marshall_Octet s (Version_Major P)) (\<lambda>s. on_ok (Marshall_Octet s (Version_Minor P)) (\<lambda>s. on_ok (Marshall_Socket h s Sock)
     (\<lambda>s. on_ok (Marshall_Octets h s oid) (\<lambda>s. Marshall_Tagged_Component h s (Profile_Components P)))))"
  have "bw.writes (zones M) h ?f (body_frames h P Sock oid)"
    using bw.writes_seq [OF writes_Octet bw.writes_seq [OF writes_Octet bw.writes_seq [OF writes_Socket [OF assms(4)]
      bw.writes_seq [OF writes_Octets [OF assms(3)] writes_Components [OF assms(5)]]]]]
    by (simp add: body_frames_def del: of_int_of_nat_eq)
  from Encapsulate_writes [OF nz nb this]
  obtain M2 ext where enc: "on_ok (Start_Encapsulation (M1, PB\<lparr>Endianness := h\<rparr>)) (\<lambda>s. on_ok (?f s) Encapsulate) = Inr (?data, M2)" "zones M2 = zones M @ ext"
    by blast
  have "PB\<lparr>Endianness := h\<rparr> = PB" using New_Buffer_inv(5) [OF saved_null_zone(2) [OF nz] nb] by (cases PB) simp
  then have "Common_Marshall_Profile_Body h (M, B) P Sock True = on_ok (Inr (?data, M2)) (\<lambda>(data, M). Marshall_Octets h (M, B) data)"
    unfolding enc(1) [symmetric] using assms(2) nb by (simp add: Common_Marshall_Profile_Body_def on_ok_assoc)
  then have run: "Common_Marshall_Profile_Body h (M, B) P Sock True = Marshall_Octets h (M2, B) ?data" by simp
  have w: "bw.writes K (Endianness B) (\<lambda>s. Marshall_Octets h s ?data) (value_frames (Endianness B) (Octets_V ?data))"
    using writes_Octets [OF assms(6)] by (simp del: of_int_of_nat_eq)
  note inv = writer_inv_extend [OF enc(2) assms(1)]
  have "\<exists>s'. Marshall_Octets h (M2, B) ?data = Inr s' \<and> writer_inv K (fst s') (snd s') \<and>
      octets (fst s') (snd s') = octets M2 B @ frames (CDR_Position B) (value_frames (Endianness B) (Octets_V ?data))"
    using w [unfolded bw.writes_def, rule_format, of "(M2, B)"] inv(1) by auto
  then show ?thesis unfolding run inv(2) by (metis prod.collapse)
qed

text \<open>What is left in the profile of the version, the identifier and the components.\<close>

definition updated :: "GIOP_Profile_Type \<Rightarrow> GIOP_Profile_Type \<Rightarrow> byte list \<Rightarrow> GIOP_Profile_Type" where
  "updated P0 P oid = P0\<lparr>Version_Major := Version_Major P, Version_Minor := Version_Minor P, Profile_Oid := Some oid,
     Profile_Components := (if Version_Minor P = 0 then Profile_Components P0 else Profile_Components P)\<rparr>"

text \<open>The part of \<open>Common_Unmarshall_Profile_Body\<close> that reads the encapsulation.\<close>

definition read_components :: "Endianness_Type \<Rightarrow> GIOP_Profile_Type \<Rightarrow> byte \<Rightarrow> stream \<Rightarrow> (Tagged_Component_List \<times> stream) result" where
  "read_components h P0 mi s = (if mi \<noteq> 0 \<or> False then Unmarshall_Tagged_Component h s else Inr (Profile_Components P0, s))"

definition read_body :: "Endianness_Type \<Rightarrow> GIOP_Profile_Type \<Rightarrow> stream \<Rightarrow> ((Socket_Name \<times> GIOP_Profile_Type) \<times> stream) result" where
  "read_body h P0 s = on_ok (Unmarshall_Octet h s) (\<lambda>(maj, p). on_ok (Unmarshall_Octet h p) (\<lambda>(mi, p).
     on_ok (Unmarshall_Socket h p) (\<lambda>(Addr, p). on_ok (Unmarshall_Octets h p) (\<lambda>(Str, p).
     on_ok (read_components h P0 mi p) (\<lambda>(cs, p).
     Inr ((Addr, P0\<lparr>Version_Major := maj, Version_Minor := mi, Profile_Oid := Some Str, Profile_Components := cs\<rparr>), p))))))"

lemma reads_body:
  assumes "length oid < 2 ^ 32" "socket_ok Sock" "components_ok (Profile_Components P)"
  obtains fs gs where "body_frames E P Sock oid = fs @ gs" "br.reads M E (read_body h P0) fs (Sock, updated P0 P oid)"
proof -
  let ?cs = "if Version_Minor P = 0 then Profile_Components P0 else Profile_Components P"
  let ?fs = "if Version_Minor P = 0 then [] else components_frames E (Profile_Components P)"
  let ?gs = "if Version_Minor P = 0 then components_frames E (Profile_Components P) else []"
  let ?upd = "\<lambda>maj mi Str cs. P0\<lparr>Version_Major := maj, Version_Minor := mi, Profile_Oid := Some Str, Profile_Components := cs\<rparr>"
  have "br.reads M E (read_components h P0 (Version_Minor P)) ?fs ?cs"
    using reads_Components [OF assms(3), of M E h] br.reads_return [of M E "Profile_Components P0"] by (simp add: read_components_def [abs_def])
  from br.reads_bind [where g = "\<lambda>cs p. Inr ((Sock, ?upd (Version_Major P) (Version_Minor P) oid cs), p)", OF this br.reads_return]
  have r1: "br.reads M E (\<lambda>p. on_ok (read_components h P0 (Version_Minor P) p) (\<lambda>(cs, p). Inr ((Sock, ?upd (Version_Major P) (Version_Minor P) oid cs), p)))
      ?fs (Sock, updated P0 P oid)" by (simp add: updated_def)
  note r2 = br.reads_bind [where g = "\<lambda>Str p. on_ok (read_components h P0 (Version_Minor P) p) (\<lambda>(cs, p). Inr ((Sock, ?upd (Version_Major P) (Version_Minor P) Str cs), p))",
      OF reads_Octets [OF assms(1), of M E h] r1]
  note r3 = br.reads_bind [where g = "\<lambda>Addr p. on_ok (Unmarshall_Octets h p) (\<lambda>(Str, p). on_ok (read_components h P0 (Version_Minor P) p)
      (\<lambda>(cs, p). Inr ((Addr, ?upd (Version_Major P) (Version_Minor P) Str cs), p)))", OF reads_Socket [OF assms(2), of M E h] r2]
  note r4 = br.reads_bind [where g = "\<lambda>mi p. on_ok (Unmarshall_Socket h p) (\<lambda>(Addr, p). on_ok (Unmarshall_Octets h p) (\<lambda>(Str, p). on_ok (read_components h P0 mi p)
      (\<lambda>(cs, p). Inr ((Addr, ?upd (Version_Major P) mi Str cs), p))))", OF reads_Octet [of M E h "Version_Minor P"] r3]
  note r5 = br.reads_bind [where g = "\<lambda>maj p. on_ok (Unmarshall_Octet h p) (\<lambda>(mi, p). on_ok (Unmarshall_Socket h p) (\<lambda>(Addr, p). on_ok (Unmarshall_Octets h p)
      (\<lambda>(Str, p). on_ok (read_components h P0 mi p) (\<lambda>(cs, p). Inr ((Addr, ?upd maj mi Str cs), p)))))", OF reads_Octet [of M E h "Version_Major P"] r4]
  show ?thesis
  proof (rule that)
    show "br.reads M E (read_body h P0) ([(Align_1, [Version_Major P])] @ [(Align_1, [Version_Minor P])] @ socket_frames E Sock @
        [(Align_4, Item_Storage E (word_of_int (int (length oid)) :: 32 word)), (Align_1, oid)] @ ?fs) (Sock, updated P0 P oid)"
      unfolding read_body_def [abs_def] by (rule r5)
    show "body_frames E P Sock oid = ([(Align_1, [Version_Major P])] @ [(Align_1, [Version_Minor P])] @ socket_frames E Sock @
        [(Align_4, Item_Storage E (word_of_int (int (length oid)) :: 32 word)), (Align_1, oid)] @ ?fs) @ ?gs"
      by (simp add: body_frames_def del: of_int_of_nat_eq)
  qed
qed

lemma Unmarshall_Profile_reads:
  assumes "reader_inv M B" "unread M B = frames (CDR_Position B) (value_frames (Endianness B) (Octets_V (encapsulated h (body_frames h P Sock oid))))"
    "length oid < 2 ^ 32" "socket_ok Sock" "components_ok (Profile_Components P)" "length (encapsulated h (body_frames h P Sock oid)) < 2 ^ 32"
  shows "\<exists>s'. Common_Unmarshall_Profile_Body h' (M, B) P0 True False = Inr (Sock, updated P0 P oid, s')"
proof -
  let ?data = "encapsulated h (body_frames h P Sock oid)" and ?E = "Endianness B"
  have "br.reads M ?E (Unmarshall_Octets h') (value_frames ?E (Octets_V ?data)) ?data"
    using reads_Octets [OF assms(6), of M ?E h'] by (simp del: of_int_of_nat_eq)
  then have "\<exists>s'. Unmarshall_Octets h' (M, B) = Inr (?data, s') \<and> fst s' = M"
    using assms(1,2) unfolding br.reads_def by (auto dest!: spec [of _ "(M, B)"] spec [of _ "[]"])
  then obtain B1 where un: "Unmarshall_Octets h' (M, B) = Inr (?data, M, B1)" by fastforce
  let ?M = "M\<lparr>zones := zones M @ [?data]\<rparr>"
  obtain PB M1 where nb: "New_Buffer h' ?M = (PB, M1)" by fastforce
  obtain fs gs where body: "body_frames h P Sock oid = fs @ gs" "br.reads M1 h (read_body h' P0) fs (Sock, updated P0 P oid)"
    by (rule reads_body [OF assms(3-5)]) (rule that)
  have ne: "frames 1 (fs @ gs) \<noteq> []" unfolding body(1) [symmetric] body_frames_def by (rule value_frames_not_Nil)
  obtain PB' s' where r: "Decapsulate M1 (length (zones M)) PB = Inr PB'" "read_body h' P0 (M1, PB') = Inr ((Sock, updated P0 P oid), s')"
    using Decapsulate_reads [OF nb _ _ ne body(2), of "length (zones M)"] body(1) by auto
  have "Common_Unmarshall_Profile_Body h' (M, B) P0 True False = on_ok (read_body h' P0 (M1, PB')) (\<lambda>((Addr, P'), p). Inr (Addr, P', fst p, B1))"
    using un nb r(1) by (simp add: Common_Unmarshall_Profile_Body_def read_body_def read_components_def on_ok_assoc split_def cong: if_cong)
  then show ?thesis using r(2) by simp
qed

text \<open>A buffer on octets that have come from elsewhere.\<close>

definition received :: "Endianness_Type \<Rightarrow> memory \<Rightarrow> byte list \<Rightarrow> Endianness_Type \<Rightarrow> int \<Rightarrow> stream result" where
  "received h M data E p = (let z = length (zones M); (B, M) = New_Buffer h (M\<lparr>zones := zones M @ [data]\<rparr>) in
     on_ok (Initialize_Buffer B (int (length data)) (At z 0) E p) (\<lambda>B. Inr (M, B)))"

lemma received_reads:
  assumes "0 \<le> p"
  obtains M' B' where "received h M data E p = Inr (M', B')" "reader_inv M' B'" "unread M' B' = data" "Endianness B' = E" "CDR_Position B' = p"
proof -
  let ?M = "M\<lparr>zones := zones M @ [data]\<rparr>" and ?z = "length (zones M)"
  obtain B M1 where nb: "New_Buffer h ?M = (B, M1)" by fastforce
  have B: "Contents B = New_Iovec_Pool" "CDR_Position B = 0" "Initial_CDR_Position B = 0" "\<exists>ext. zones M1 = (zones M @ [data]) @ ext"
    using nb by (auto simp: New_Buffer_def new_zone_def)
  have pool: "Pool_Last New_Iovec_Pool = 0" "Last_Extract_Iovec New_Iovec_Pool = 1" "Last_Extract_Iovec_Offset New_Iovec_Pool = 0"
    by (simp_all add: New_Iovec_Pool_def)
  have "peek_mem M1 (At ?z 0) (int (length data)) = Inr data" using B(4) by (auto simp: in_zone_def nth_append)
  then obtain B' where B': "Initialize_Buffer B (int (length data)) (At ?z 0) E p = Inr B'" "reader_inv M1 B'" "unread M1 B' = data" "Endianness B' = E" "CDR_Position B' = p"
    by (rule Initialize_Buffer_reads [rotated 6, where B = B and E = E and p = p]) (use B pool assms in \<open>auto intro: that\<close>)
  then show ?thesis using nb by (intro that [of M1 B']) (simp_all add: received_def)
qed

section \<open>Properties\<close>

text \<open>
  Property C17. The body of a profile that is marshalled into a buffer of either byte order and unmarshalled by another host
  gives back the host name and port, the version and the object identifier, and the tagged components if the minor version is not
  zero; the body leaves the rest of the buffer as it was. The sizes fit the length items of CDR.
\<close>

theorem profile_body_roundtrip:
  assumes "writer_inv K M B" "Profile_Oid P = Some oid" "length oid < 2 ^ 32" "socket_ok Sock" "components_ok (Profile_Components P)"
    "length (encapsulated h (body_frames h P Sock oid)) < 2 ^ 32"
  shows "\<exists>M' B' data s'. Common_Marshall_Profile_Body h (M, B) P Sock True = Inr (M', B') \<and> octets M' B' = octets M B @ data \<and>
    on_ok (received h' N data (Endianness B) (CDR_Position B)) (\<lambda>s. Common_Unmarshall_Profile_Body h' s P0 True False) =
      Inr (Sock, P0\<lparr>Version_Major := Version_Major P, Version_Minor := Version_Minor P, Profile_Oid := Some oid,
        Profile_Components := (if Version_Minor P = 0 then Profile_Components P0 else Profile_Components P)\<rparr>, s')"
proof -
  let ?data = "frames (CDR_Position B) (value_frames (Endianness B) (Octets_V (encapsulated h (body_frames h P Sock oid))))"
  obtain M' B' where w: "Common_Marshall_Profile_Body h (M, B) P Sock True = Inr (M', B')" "octets M' B' = octets M B @ ?data"
    using Marshall_Profile_writes [OF assms] by blast
  obtain N' C' where r: "received h' N ?data (Endianness B) (CDR_Position B) = Inr (N', C')" "reader_inv N' C'" "unread N' C' = ?data"
    "Endianness C' = Endianness B" "CDR_Position C' = CDR_Position B"
    by (rule received_reads [OF writer_position(2) [OF assms(1)]]) (rule that)
  have "\<exists>s'. Common_Unmarshall_Profile_Body h' (N', C') P0 True False = Inr (Sock, updated P0 P oid, s')"
    by (rule Unmarshall_Profile_reads [OF r(2) _ assms(3-6)]) (simp only: r(3-5))
  then obtain s' where "Common_Unmarshall_Profile_Body h' (N', C') P0 True False = Inr (Sock, updated P0 P oid, s')" ..
  then show ?thesis unfolding updated_def
    by (intro exI [of _ M'] exI [of _ B'] exI [of _ ?data] exI [of _ s'] conjI) (simp_all only: w r(1) on_ok.simps)
qed

theorem profile_body_roundtrip_witness:
  "\<exists>M' B' data s'. Common_Marshall_Profile_Body Little_Endian (snd (New_Buffer Big_Endian \<lparr>zones = [replicate 8 0], garbage = 3\<rparr>),
       fst (New_Buffer Big_Endian \<lparr>zones = [replicate 8 0], garbage = 3\<rparr>))
       \<lparr>Version_Major = 1, Version_Minor = 2, Profile_Oid = Some [7, 8], Profile_Components = [\<lparr>Unknown_Tag = 5, TC_Data = [9]\<rparr>]\<rparr>
       \<lparr>Host_Name = ''node'', Port = 2809\<rparr> True = Inr (M', B') \<and> octets M' B' = data \<and>
    on_ok (received Big_Endian \<lparr>zones = [], garbage = 0\<rparr> data Big_Endian 0) (\<lambda>s. Common_Unmarshall_Profile_Body Big_Endian s
        \<lparr>Version_Major = 0, Version_Minor = 0, Profile_Oid = None, Profile_Components = []\<rparr> True False) =
      Inr (\<lparr>Host_Name = ''node'', Port = 2809\<rparr>,
        \<lparr>Version_Major = 1, Version_Minor = 2, Profile_Oid = Some [7, 8], Profile_Components = [\<lparr>Unknown_Tag = 5, TC_Data = [9]\<rparr>]\<rparr>, s')"
proof -
  let ?N = "New_Buffer Big_Endian \<lparr>zones = [replicate 8 0], garbage = 3\<rparr>"
  let ?P = "\<lparr>Version_Major = 1, Version_Minor = 2, Profile_Oid = Some [7, 8], Profile_Components = [\<lparr>Unknown_Tag = 5, TC_Data = [9]\<rparr>]\<rparr>"
  let ?S = "\<lparr>Host_Name = ''node'', Port = 2809\<rparr>" and ?Q = "\<lparr>Version_Major = 0, Version_Minor = 0, Profile_Oid = None, Profile_Components = []\<rparr>"
  have "saved [replicate 8 0] \<lparr>zones = [replicate 8 0], garbage = 3\<rparr>" by (simp add: saved_def)
  note new = New_Buffer_inv [OF this, of Big_Endian "fst ?N" "snd ?N"]
  have w: "writer_inv [replicate 8 0] (snd ?N) (fst ?N)" using new by (simp add: writer_inv_def buf_inv_def)
  have ok: "socket_ok ?S" "components_ok (Profile_Components ?P)" by (simp_all add: socket_ok_def components_ok_def Integer_Last_def)
  have len: "length (encapsulated Little_Endian (body_frames Little_Endian ?P ?S [7, 8])) < 2 ^ 32"
    by (simp add: encapsulated_def body_frames_def socket_frames_def components_frames_def component_frames_def aligned_def padding_def Item_Storage_def)
  have o: "octets (snd ?N) (fst ?N) = []" "Endianness (fst ?N) = Big_Endian" "CDR_Position (fst ?N) = 0" using new by simp_all
  have oid: "Profile_Oid ?P = Some [7, 8]" "length [7, 8 :: byte] < 2 ^ 32" by simp_all
  from profile_body_roundtrip [OF w oid ok len, of Big_Endian "\<lparr>zones = [], garbage = 0\<rparr>" ?Q, unfolded o]
  show ?thesis by simp
qed

text \<open>
  Property C32. A profile that is written as a \<open>corbaloc\<close> reference and read again, without the prefix, has the same version and
  object identifier, whatever octets the identifier has, and the same host and port, provided that the host name is not empty and has no
  colon and no slash.
\<close>

theorem corbaloc_roundtrip:
  assumes "Profile_Oid P = Some oid" "oid \<noteq> []" "Host_Name Sock \<noteq> []" "CHR '':'' \<notin> set (Host_Name Sock)" "CHR ''/'' \<notin> set (Host_Name Sock)"
    "0 \<le> Port Sock" "Port Sock \<le> 65535"
  shows "\<exists>S. Common_Profile_To_Corbaloc P Sock Prefix = Inr (Prefix @ '':'' @ S) \<and>
    Common_Corbaloc_To_Profile S dm dn P0 = Inr (Some (P0\<lparr>Version_Major := Version_Major P, Version_Minor := Version_Minor P,
      Profile_Oid := Some oid, Profile_Components := []\<rparr>), Sock)"
proof -
  let ?ks = "URI_Encode (map octet_char oid) []"
  let ?S = "map Hex (digits (unat (Version_Major P))) @ ''.'' @ map Hex (digits (unat (Version_Minor P))) @ ''@'' @ Host_Name Sock @ '':'' @
    map Hex (digits (nat (Port Sock))) @ ''/'' @ ?ks"
  have "?ks \<noteq> []" using assms(2) by (cases oid) auto
  then have "Common_Corbaloc_To_Profile ?S dm dn P0 = Inr (Some (P0\<lparr>Version_Major := word_of_nat (unat (Version_Major P)),
      Version_Minor := word_of_nat (unat (Version_Minor P)), Profile_Oid := Some (map octet (map octet_char oid)), Profile_Components := []\<rparr>),
      plus_port (Host_Name Sock) (int (nat (Port Sock))))"
    using assms(3-7) by (intro corbaloc_parts [OF _ _ _ _ _ URI_Encode_inverse]) (simp_all add: nat_le_iff)
  moreover have "plus_port (Host_Name Sock) (int (nat (Port Sock))) = Sock" using assms(6) by (cases Sock) (simp add: plus_port_def)
  moreover have "map octet (map octet_char oid) = oid" by (simp add: comp_def)
  moreover have "Common_Profile_To_Corbaloc P Sock Prefix = Inr (Prefix @ '':'' @ ?S)"
    using assms(1,2,6) by (simp add: Common_Profile_To_Corbaloc_def Socket_Image_def trim_image image_digits)
  ultimately show ?thesis by auto
qed

theorem corbaloc_roundtrip_witness:
  "\<exists>S. Common_Profile_To_Corbaloc \<lparr>Version_Major = 1, Version_Minor = 2, Profile_Oid = Some [47, 64, 0], Profile_Components = []\<rparr>
       \<lparr>Host_Name = ''node'', Port = 2809\<rparr> ''iiop'' = Inr (''iiop'' @ '':'' @ S) \<and>
    Common_Corbaloc_To_Profile S 1 0 \<lparr>Version_Major = 0, Version_Minor = 0, Profile_Oid = None, Profile_Components = []\<rparr> =
      Inr (Some \<lparr>Version_Major = 1, Version_Minor = 2, Profile_Oid = Some [47, 64, 0], Profile_Components = []\<rparr>, \<lparr>Host_Name = ''node'', Port = 2809\<rparr>)"
  using corbaloc_roundtrip [of "\<lparr>Version_Major = 1, Version_Minor = 2, Profile_Oid = Some [47, 64, 0], Profile_Components = []\<rparr>" "[47, 64, 0]"
      "\<lparr>Host_Name = ''node'', Port = 2809\<rparr>" "''iiop''" 1 0 "\<lparr>Version_Major = 0, Version_Minor = 0, Profile_Oid = None, Profile_Components = []\<rparr>"]
  by simp

text \<open>
  A reference whose version has no dot destroys the profile and goes on: with a host and a key, the destroyed profile is assigned to.
\<close>

lemma malformed_version_erroneous:
  "Common_Corbaloc_To_Profile ''1@h/k'' dm dn P = Inl Erroneous_Access"
  by code_simp

text \<open>A copy of a list of components does not have the tags of the original.\<close>

lemma Deep_Copy_loses_tags:
  "map Unknown_Tag (Deep_Copy junk cs) = replicate (length cs) junk \<and> map TC_Data (Deep_Copy junk cs) = map TC_Data cs"
  by (induction cs) (simp_all add: Deep_Copy_def Duplicate_Component_def)

end
