(* ===== verification/Spec2Isabelle.thy ===== *)
theory Spec2Isabelle
  imports Simple_Adapter Parameters Id_Assignment Poa_Manager Openssl_Support Ssl_Support Os_Support Interop_Peers Rw_Locks Profiles
begin

text \<open>
  A verification library for PolyORB, the middleware for distributed applications in Ada.

  \<^bold>\<open>The program.\<close> PolyORB has a neutral core (requests, object adapters, buffers, tasking), protocol
  personalities (GIOP, SOAP, SRP) that put requests on a wire, and application personalities (CORBA, DSA, MOMA, AWS)
  for the programs that use it. Where the core needs the operating system or OpenSSL it calls C; the test suite has
  C++ programs that play the other ORBs in interoperability tests. An object adapter turns the identifier in a request
  into an object by way of its identifier policy and its object map, holds or refuses requests according to the state
  of its manager, and the data of a request is marshalled into a buffer in CDR and sent by a transport. The units of the
  core are modules that one procedure initializes in the order of their dependencies, and several of them keep their
  data in hash tables indexed by strings.

  \<^bold>\<open>What models what.\<close>

  \<^item> \<open>Prelude\<close>: octets, results of code that raises (\<open>Inl\<close> holds the exception), run-time checks, the ranges of
    the predefined types.
  \<^item> \<open>Errors\<close>: the error container of \<open>polyorb-errors.ads\<close>.
  \<^item> \<open>Ada_Utils\<close>: \<open>polyorb-utils.adb\<close>, hexadecimal dumps, URI escapes and searches in strings. Round trips of both
    encodings; searches stop at the first match, in both directions.
  \<^item> \<open>Poa_Types\<close>: \<open>polyorb-poa_types.adb\<close>, object identifiers and their marshalled form. The round trip, for both byte
    orders of the host, and what happens to truncated forms.
  \<^item> \<open>Dynamic_Tables\<close>: \<open>polyorb-utils-dynamic_tables.adb\<close>. The invariant of a table and the growth loop with its
    overflow checks; the locale \<open>growing_table\<close> is what the object map relies on.
  \<^item> \<open>Object_Maps\<close>, \<open>Id_Assignment\<close>: \<open>polyorb-object_maps-system.adb\<close> and the two identifier policies. The locale
    \<open>object_map\<close> states the contract of a map; an identifier that has been assigned, marshalled and reconstructed
    designates the object that it was assigned to.
  \<^item> \<open>Simple_Adapter\<close>: \<open>polyorb-obj_adapters-simple.adb\<close>, on the same tables, with its lock. The locale
    \<open>object_adapter\<close> is what users of an adapter rely on: what is exported is found until it is removed. Two
    cases in which the code breaks it are proved, an index below the table and a removal between two critical sections.
  \<^item> \<open>Initialization\<close>, \<open>Init_World\<close>: \<open>polyorb-initialization.adb\<close>. Registration, conflicts, the resolution of names and the
    depth-first traversal of the dependencies, over a store of modules. Every operation keeps the store well-formed;
    the traversal ends on any dependencies; after a successful initialization they have no cycle and every initializer ran
    once, after those it depends upon; shutdown runs the finalizers in the reverse order.
  \<^item> \<open>Perfect_Htables\<close>: \<open>polyorb-utils-htables-perfect.adb\<close>, hash tables without collisions, generic in the class of hash functions.
    \<open>Htable_Loops\<close> and \<open>Htable_Reorder\<close> treat the loops, which permute the elements in place; \<open>Htable_Map\<close> has the invariant
    \<open>ht_ok\<close> (disjoint subtables, each key in use at its place) and the reorganization of a table; \<open>Htable_Ops\<close> the
    operations on the index; \<open>Htables\<close> the map \<open>contents\<close> that a table implements; \<open>Htable_Search\<close> that the searches end for classes that are
    rich enough (\<open>spreads\<close>, \<open>separates\<close>).
  \<^item> \<open>Hfunctions\<close>: \<open>polyorb-utils-random.adb\<close>, \<open>polyorb-utils-hfunctions-hyper.adb\<close> and \<open>-mul.adb\<close>. The generator is the
    published MT19937; the hash functions are linear forms, from which it follows which keys they do not tell apart.
  \<^item> \<open>Htable_Clients\<close>, \<open>Htable_Limits\<close>: iteration over a table, and its clients \<open>polyorb-dynamic_dict.adb\<close>,
    \<open>polyorb-initial_references.adb\<close> and \<open>polyorb-object_maps-user.adb\<close>. The locale \<open>string_table\<close> is what they rely on, with the
    interpretation \<open>perfect\<close>; the map of the user policy is an \<open>object_map\<close> as the one of the system policy is. Two cases in which an
    insertion never returns, and a deletion that does not free its item, are proved of the code as it is.
  \<^item> \<open>Configuration_File\<close>: \<open>polyorb-utils-configuration_file.adb\<close>, with the values on a heap of strings. What is generated
    from a configuration is read back (\<open>configuration_roundtrip\<close>), by way of the list of sections, the text of the file and the
    table.
  \<^item> \<open>Parameters\<close>: \<open>polyorb-parameters.adb\<close> and the sources \<open>polyorb-parameters-command_line.adb\<close>, \<open>-environment.adb\<close>,
    \<open>-file.adb\<close> and \<open>-static.adb\<close>. The order of the sources, from the argument of the program down to the module that it
    disables; defaults of every type; the dangling value of a parameter that a file sets twice.
  \<^item> \<open>Ilists\<close>, \<open>Chained_Lists\<close>: \<open>polyorb-utils-ilists.adb\<close> and \<open>polyorb-utils-chained_lists.adb\<close> over a store of nodes,
    with every link that is read or written; \<open>fifo_queue\<close> is the contract that the manager uses.
  \<^item> \<open>Poa_Manager\<close>: \<open>polyorb-poa_manager-basic_manager.adb\<close> and the check of the manager's state in \<open>polyorb-poa.adb\<close>. A
    step relation interleaves the operations of the manager with the dispatching of requests; invariants are proved by rule
    induction over the reachable states.
  \<^item> \<open>Rw_Locks\<close>: \<open>polyorb-tasking-rw_locks.adb\<close>. Operations are cut where the code waits for its condition variable, and
    a step relation interleaves any number of tasks. Exclusion, and that no wake-up is lost.
  \<^item> \<open>Iovec_Pools\<close>, \<open>Buffers\<close>: \<open>polyorb-opaque-chunk_pools.adb\<close> and \<open>polyorb-buffers.adb\<close>. Memory is a sequence of
    zones, an address is an offset in a zone, and an access outside is an error. The invariant \<open>buf_inv\<close> says that the
    last area is the used part of its chunk and shares it with no other; from it follows that insertion appends, whether
    the last area grows or a chunk is added, and that padding is zeros.
  \<^item> \<open>Cdr\<close>: \<open>polyorb-utils-buffers.adb\<close> and \<open>polyorb-representations-cdr-common.adb\<close>. The locales \<open>octet_sink\<close> and
    \<open>octet_source\<close> state what marshalling needs of a buffer, with the interpretations \<open>bw\<close> and \<open>br\<close> on the model's
    buffers. The octets of an encapsulation are those of the specification \<open>frames\<close>, and they are read back.
  \<^item> \<open>Profiles\<close>: \<open>giop/polyorb-binding_data-giop-inet.adb\<close>, \<open>giop/polyorb-giop_p-tagged_components.adb\<close> and the names of sockets
    in \<open>polyorb-utils-sockets.adb\<close>. Two buffers share the memory here; the zones that \<open>saved\<close> names are the frame of the
    inner one. Profile bodies and \<open>corbaloc\<close> references lead back to the same object of the same host.
  \<^item> \<open>Openssl_Support\<close>: \<open>security/polyorb_asn1.c\<close>, \<open>security/x509/polyorb_x509.c\<close> and the Ada bindings on them; the
    locale \<open>i2d_stub\<close> is the protocol of an encoder that returns its buffer by reference. Memory and BIOs are accounted
    for on every path.
  \<^item> \<open>Ssl_Support\<close>: \<open>ssl/polyorb_ssl.c\<close> and \<open>ssl/polyorb-ssl.adb\<close>, contexts, sockets and vector sending.
  \<^item> \<open>Os_Support\<close>: \<open>csupport.c\<close>, the launcher \<open>rungroup.c\<close> with its signal handlers as steps, the log sink.
  \<^item> \<open>Interop\<close>, \<open>Interop_Peers\<close>: the C++ clients, servants and servers of \<open>testsuite/corba/interop/cpp\<close> and the
    multicast example.

  \<^bold>\<open>Code that is not in the repository.\<close> OpenSSL, the operating system and the ORBs of the C++ programs are records of
  functions, arguments of the definitions that call them. What the code relies on is named as a predicate on the record
  (for example \<open>codec_documented\<close>), and each property that assumes it has a witness with a concrete instance. The
  low-level send procedure that \<open>Send_Buffer\<close> is generic in is an argument in the same way.

  \<^bold>\<open>Bounds, fuel and termination.\<close> The recursion of \<open>Visit\<close> over the dependencies has a bound on its
  depth, one more than the number of modules; \<open>Visit_returns\<close> shows that it is never reached, because every module on the path is
  marked. No other definition has fuel. Loops over data are structural recursion or have a measure
  (\<open>Unmarshall_Copy_loop\<close> decreases the number of missing octets). Loops that depend on the environment or on the links
  of a list are partial functions to an option; the theorems about them show that a result exists (\<open>Send_loop\<close>, \<open>Write_loop\<close>,
  \<open>Remove_G_loop\<close>, \<open>Extract_all\<close>). So are the searches for hash functions, which the code does not bound: \<open>Insert_HT_returns\<close>
  shows that they end for a rich class of functions, and \<open>Insert_full_diverges\<close> and \<open>Insert_collision_diverges\<close> when they do not.
  Integers are unbounded only where the code's type cannot be exceeded by what is in
  memory; counters and lengths that are checked in the code are checked in the model, and modular types are words.

  \<^bold>\<open>Not modelled.\<close> Debug output; the release of memory by itself, where no claim depends on it; the dump of a buffer to
  the log; stream attributes of tables. Of CDR: fixed-point values, Any values, type codes and references. Of profiles:
  components of registered types and transport mechanisms. Of configuration: the macros, which a template library expands. Whole
  components that are still missing are the ORB core with its scheduling, the tree of portable adapters and the remaining policies,
  GIOP and the other protocols, references, and the application personalities, which
  mostly forward to the core. The IDL compilers, the COS services and the Ada tests and examples are programs of their
  own. Of a language construct whose behaviour is erroneous in Ada or undefined in C, the model returns an error value.
\<close>

end
